(* ===== verification/Janus_Prelude.thy ===== *)
theory Janus_Prelude
  imports Main "HOL-Library.Word" "HOL-Library.Multiset"
begin

text \<open>
  What every component of the development shares: the machine integer types of
  \<^verbatim>\<open>shared/types.h\<close>, the kernel's error values, the result type in which a kernel
  panic, a fault or a loop that never ends is a value, and generic lemmas on arrays
  modelled as lists.
\<close>

unbundle bit_operations_syntax

section \<open>Machine integers\<close>

type_synonym u8 = "8 word"
type_synonym u16 = "16 word"
type_synonym u32 = "32 word"
type_synonym u64 = "64 word"

text \<open>
  A \<open>size_t\<close> that only counts or indexes elements of an array in memory is a \<open>nat\<close>:
  an array that fits the address space has fewer than $2^{64}$ bytes, so no index
  computation on it wraps. Sizes and addresses that are part of the allocator, of the
  page tables and of the clocks stay words.
\<close>

definition SIZE_MAX :: nat where
  "SIZE_MAX = 2 ^ 64 - 1"

section \<open>Errors\<close>

datatype jrt_err = JRT_ENOMEM | JRT_EINVAL | JRT_EASSERT | JRT_EUNKNOWN

text \<open>
  \<open>KERNEL_PANIC\<close> raises a \<open>brk\<close> whose handler halts the core, so a panic ends the
  operation: it is the value \<open>Kernel_panic e\<close>. Dereferencing \<open>NULL\<close> and reading past an
  array are the other ways the C code leaves the operation; \<open>No_return\<close> is a loop of
  the source that does not end, \<open>Undefined\<close> any other operation C leaves undefined (signed
  overflow, a conversion out of range, an argument of the wrong type).
\<close>

datatype fault = Kernel_panic jrt_err | Null_deref | Out_of_bounds | No_return | Undefined

type_synonym 'a res = "fault + 'a"

definition bindE :: "'a res \<Rightarrow> ('a \<Rightarrow> 'b res) \<Rightarrow> 'b res" where
  "bindE m f = (case m of Inl e \<Rightarrow> Inl e | Inr x \<Rightarrow> f x)"

lemma bindE_simps [simp]:
  "bindE (Inl e) f = Inl e"
  "bindE (Inr x) f = f x"
  by (simp_all add: bindE_def)

lemma bindE_Inr_iff: "bindE m f = Inr y \<longleftrightarrow> (\<exists>x. m = Inr x \<and> f x = Inr y)"
  by (cases m) auto

lemma bindE_Inr_E [elim!]:
  assumes "bindE m f = Inr y"
  obtains x where "m = Inr x" "f x = Inr y"
  using assms by (auto simp: bindE_Inr_iff)

lemma bindE_assoc: "bindE (bindE m f) g = bindE m (\<lambda>x. bindE (f x) g)"
  by (cases m) auto

text \<open>What a state-changing operation keeps when it returns at all.\<close>

definition keepsE :: "('s \<Rightarrow> bool) \<Rightarrow> 's res \<Rightarrow> bool" where
  "keepsE P m \<longleftrightarrow> (\<forall>s. m = Inr s \<longrightarrow> P s)"

lemma keepsE_simps [simp]:
  "keepsE P (Inl e)"
  "keepsE P (Inr s) \<longleftrightarrow> P s"
  by (simp_all add: keepsE_def)

lemma keepsE_bindE:
  assumes "keepsE P m" and "\<And>s. P s \<Longrightarrow> keepsE Q (f s)"
  shows "keepsE Q (bindE m f)"
  using assms by (cases m) auto

section \<open>Arrays as lists\<close>

lemma take_update_beyond:
  "n \<le> i \<Longrightarrow> take n (xs[i := v]) = take n xs"
  by (simp add: take_update_swap list_update_beyond)


section \<open>Words as numbers\<close>

lemma unat_of_nat_u64 [simp]: "n < 18446744073709551616 \<Longrightarrow> unat (of_nat n :: u64) = n"
  by (simp add: unat_of_nat)

lemma unat_of_nat_u32 [simp]: "n < 4294967296 \<Longrightarrow> unat (of_nat n :: u32) = n"
  by (simp add: unat_of_nat)

lemma sint_u64: "sint (w :: u64) = (uint w + 2 ^ 63) mod 2 ^ 64 - 2 ^ 63"
  unfolding sint_uint signed_take_bit_eq_take_bit_shift take_bit_eq_mod by simp

lemma shift_mod_cases:
  fixes x m :: int
  assumes "0 \<le> x" "x < 2 * m"
  shows "(x + m) mod (2 * m) - m = (if x < m then x else x - 2 * m)"
proof (cases "x < m")
  case True
  then show ?thesis using assms by simp
next
  case False
  then have "(x + m) mod (2 * m) = (x - m) mod (2 * m)"
    using mod_add_self2 [of "x - m" "2 * m"] by (simp add: algebra_simps)
  then show ?thesis using False assms by simp
qed

lemma sint_cases_u64:
  "sint (w :: u64) = (if uint w < 2 ^ 63 then uint w else uint w - 2 ^ 64)"
proof -
  have e: "(2 :: int) * 2 ^ 63 = 2 ^ 64" by simp
  have "uint w < 2 * 2 ^ 63" using uint_lt2p [of w] by simp
  from shift_mod_cases [OF uint_ge_0 this] show ?thesis
    unfolding sint_u64 e .
qed

end
