(* ===== verification/Minheap.thy ===== *)
theory Minheap
  imports Janus_Prelude
begin

text \<open>
  The d-ary min-heap of \<^verbatim>\<open>rtprog/heap.c\<close> and \<^verbatim>\<open>rtprog/heap.h\<close>, which holds the
  scheduler's ready and waiting queues. A heap is its node array, its length and its
  capacity; a payload \<open>void *\<close> is an option, \<open>None\<close> being \<open>NULL\<close>. The theory proves the
  heap order, that the operations keep it and change the multiset of (key, payload) pairs
  as a priority queue does, and interprets the priority-queue interface of
  \<open>prio_queue\<close> on them.
\<close>

section \<open>Data\<close>

definition HEAP_D :: nat where
  "HEAP_D = 4"

record 'v heap_node =
  key :: u64
  val :: "'v option"
  idx :: nat

record 'v minheap =
  ha :: "'v heap_node list"
  hlen :: nat
  hcap :: nat

section \<open>Operations\<close>

definition heap_init :: "'v heap_node list \<Rightarrow> nat \<Rightarrow> 'v minheap" where
  "heap_init storage cap = \<lparr>ha = storage, hlen = 0, hcap = cap\<rparr>"

definition heap_empty :: "'v minheap \<Rightarrow> bool" where
  "heap_empty h \<longleftrightarrow> hlen h = 0"

definition heap_full :: "'v minheap \<Rightarrow> bool" where
  "heap_full h \<longleftrightarrow> hlen h = hcap h"

definition parent :: "nat \<Rightarrow> nat" where
  "parent i = (i - 1) div HEAP_D"

definition child :: "nat \<Rightarrow> nat \<Rightarrow> nat" where
  "child i k = HEAP_D * i + 1 + k"

text \<open>The three copies of \<open>swap_nodes\<close>, then the two index fields.\<close>

definition swap_nodes :: "'v minheap \<Rightarrow> nat \<Rightarrow> nat \<Rightarrow> 'v minheap" where
  "swap_nodes h i j =
     (let tmp = ha h ! i;
          a1 = (ha h)[i := ha h ! j];
          a2 = a1[j := tmp];
          a3 = a2[i := (a2 ! i)\<lparr>idx := i\<rparr>]
      in h\<lparr>ha := a3[j := (a3 ! j)\<lparr>idx := j\<rparr>]\<rparr>)"

lemma parent_less [termination_simp]: "0 < i \<Longrightarrow> parent i < i"
  by (simp add: parent_def HEAP_D_def)

fun sift_up :: "'v minheap \<Rightarrow> nat \<Rightarrow> 'v minheap" where
  "sift_up h i =
     (if 0 < i then
        (let p = parent i in
         if key (ha h ! p) \<le> key (ha h ! i) then h
         else sift_up (swap_nodes h p i) p)
      else h)"

text \<open>The inner loop of \<open>sift_down\<close>: the index of the least key among \<open>best\<close> and \<open>[c, lst)\<close>.\<close>

function least_child :: "'v heap_node list \<Rightarrow> nat \<Rightarrow> nat \<Rightarrow> nat \<Rightarrow> nat" where
  "least_child xs c lst best =
     (if c < lst then
        least_child xs (Suc c) lst (if key (xs ! c) < key (xs ! best) then c else best)
      else best)"
  by pat_completeness auto
termination by (relation "measure (\<lambda>(xs, c, lst, best). lst - c)") auto

declare sift_up.simps [simp del] least_child.simps [simp del]

lemma least_child_range:
  "least_child xs c lst best = best \<or> c \<le> least_child xs c lst best \<and> least_child xs c lst best < lst"
proof (induction xs c lst best rule: least_child.induct)
  case (1 xs c lst best)
  show ?case
  proof (cases "c < lst")
    case True
    then show ?thesis
      using "1.IH" [OF True] by (subst (1 2 3) least_child.simps) (auto split: if_splits)
  qed (subst least_child.simps, simp)
qed

definition sift_target :: "'v minheap \<Rightarrow> nat \<Rightarrow> nat" where
  "sift_target h i =
     (let first = child i 0;
          lst = (if first + HEAP_D > hlen h then hlen h else first + HEAP_D)
      in least_child (ha h) first lst i)"

lemma hlen_swap_nodes [simp]: "hlen (swap_nodes h i j) = hlen h"
  by (simp add: swap_nodes_def Let_def)

lemma hcap_swap_nodes [simp]: "hcap (swap_nodes h i j) = hcap h"
  by (simp add: swap_nodes_def Let_def)

lemma sift_target_range:
  assumes "child i 0 < hlen h" and "sift_target h i \<noteq> i"
  shows "child i 0 \<le> sift_target h i" and "sift_target h i < hlen h"
    and "sift_target h i < child i 0 + HEAP_D"
  using assms least_child_range
    [of "ha h" "child i 0" "if child i 0 + HEAP_D > hlen h then hlen h else child i 0 + HEAP_D" i]
  by (auto simp: sift_target_def Let_def split: if_splits)

function sift_down :: "'v minheap \<Rightarrow> nat \<Rightarrow> 'v minheap" where
  "sift_down h i =
     (if child i 0 \<ge> hlen h then h
      else (let best = sift_target h i in
            if best = i then h else sift_down (swap_nodes h i best) best))"
  by pat_completeness auto
termination
proof (relation "measure (\<lambda>(h, i). hlen h - i)", goal_cases)
  case (2 h i best)
  then have "child i 0 \<le> best" "best < hlen h"
    using sift_target_range [of i h] by auto
  then show ?case by (simp add: child_def HEAP_D_def)
qed simp

declare sift_down.simps [simp del]

text \<open>
  The callback of \<open>heap_iter\<close> gets \<open>lst\<close>, the key, the payload and the argument it
  updates.
\<close>

definition heap_iter ::
  "'v minheap \<Rightarrow> 's \<Rightarrow> (bool \<Rightarrow> u64 \<Rightarrow> 'v option \<Rightarrow> 's \<Rightarrow> 's) \<Rightarrow> 's" where
  "heap_iter h arg iterf =
     fold (\<lambda>i. iterf (i = hlen h - 1) (key (ha h ! i)) (val (ha h ! i))) [0..<hlen h] arg"

definition heap_push :: "'v minheap \<Rightarrow> u64 \<Rightarrow> 'v option \<Rightarrow> int \<times> 'v minheap" where
  "heap_push h k data =
     (if heap_full h then (-1, h)
      else (let i = hlen h;
                h1 = h\<lparr>hlen := hlen h + 1\<rparr>;
                h2 = h1\<lparr>ha := (ha h1)[i := \<lparr>key = k, val = data, idx = i\<rparr>]\<rparr>
            in (0, sift_up h2 i)))"

text \<open>
  \<open>heap_pop\<close> and \<open>heap_peek\<close> write through \<open>key\<close> and \<open>data\<close>; on an empty heap the
  caller's \<open>key\<close> keeps the value \<open>k0\<close> it had. The results are (key, data) and the heap.
\<close>

definition heap_pop :: "'v minheap \<Rightarrow> u64 \<Rightarrow> (u64 \<times> 'v option) \<times> 'v minheap" where
  "heap_pop h k0 =
     (if heap_empty h then ((k0, None), h)
      else (let m = ha h ! 0;
                h1 = h\<lparr>ha := (ha h)[0 := m\<lparr>idx := SIZE_MAX\<rparr>]\<rparr>;
                h2 = h1\<lparr>hlen := hlen h1 - 1\<rparr>
            in ((key m, val m),
                if hlen h2 \<noteq> 0 then
                  sift_down
                    (h2\<lparr>ha := (ha h2)[0 := (ha h2 ! hlen h2)\<lparr>idx := 0\<rparr>]\<rparr>) 0
                else h2)))"

definition heap_peek :: "'v minheap \<Rightarrow> u64 \<Rightarrow> u64 \<times> 'v option" where
  "heap_peek h k0 =
     (if heap_empty h then (k0, None) else (key (ha h ! 0), val (ha h ! 0)))"

definition heap_min_node :: "'v minheap \<Rightarrow> 'v heap_node option" where
  "heap_min_node h = (if heap_empty h then None else Some (ha h ! 0))"

text \<open>A node handle \<open>heap_node_t *n\<close> points into the array: it is the slot's number.\<close>

definition heap_decrease_key :: "'v minheap \<Rightarrow> nat \<Rightarrow> u64 \<Rightarrow> 'v minheap" where
  "heap_decrease_key h n new_key =
     (let i = idx (ha h ! n) in
      if i = SIZE_MAX then h
      else if new_key \<ge> key (ha h ! n) then h
      else sift_up (h\<lparr>ha := (ha h)[n := (ha h ! n)\<lparr>key := new_key\<rparr>]\<rparr>) i)"

definition heap_increase_key :: "'v minheap \<Rightarrow> nat \<Rightarrow> u64 \<Rightarrow> 'v minheap" where
  "heap_increase_key h n new_key =
     (let i = idx (ha h ! n) in
      if i = SIZE_MAX then h
      else if new_key \<le> key (ha h ! n) then h
      else sift_down (h\<lparr>ha := (ha h)[n := (ha h ! n)\<lparr>key := new_key\<rparr>]\<rparr>) i)"


section \<open>The invariant and the contents\<close>

definition kv :: "'v heap_node \<Rightarrow> u64 \<times> 'v option" where
  "kv n = (key n, val n)"

text \<open>Every slot in use knows its own position, and the array has room for the capacity.\<close>

definition heap_wf :: "'v minheap \<Rightarrow> bool" where
  "heap_wf h \<longleftrightarrow> hlen h \<le> hcap h \<and> hcap h \<le> length (ha h)
     \<and> (\<forall>i < hlen h. idx (ha h ! i) = i)"

definition heap_ordered :: "'v minheap \<Rightarrow> bool" where
  "heap_ordered h \<longleftrightarrow> (\<forall>i < hlen h. 0 < i \<longrightarrow> key (ha h ! parent i) \<le> key (ha h ! i))"

definition heap_inv :: "'v minheap \<Rightarrow> bool" where
  "heap_inv h \<longleftrightarrow> heap_wf h \<and> heap_ordered h"

definition heap_bag :: "'v minheap \<Rightarrow> (u64 \<times> 'v option) multiset" where
  "heap_bag h = mset (map kv (take (hlen h) (ha h)))"

text \<open>
  The order while a node is on its way: only the edge above \<open>i\<close> may be wrong
  (\<open>sift_up\<close>), or only the edges below \<open>i\<close> (\<open>sift_down\<close>); the edges across \<open>i\<close> hold.
\<close>

definition ordered_except_up :: "'v minheap \<Rightarrow> nat \<Rightarrow> bool" where
  "ordered_except_up h i \<longleftrightarrow>
     (\<forall>j. 0 < j \<and> j < hlen h \<longrightarrow>
        (j \<noteq> i \<longrightarrow> key (ha h ! parent j) \<le> key (ha h ! j)) \<and>
        (parent j = i \<and> 0 < i \<longrightarrow> key (ha h ! parent i) \<le> key (ha h ! j)))"

definition ordered_except_down :: "'v minheap \<Rightarrow> nat \<Rightarrow> bool" where
  "ordered_except_down h i \<longleftrightarrow>
     (\<forall>j. 0 < j \<and> j < hlen h \<longrightarrow>
        (parent j \<noteq> i \<longrightarrow> key (ha h ! parent j) \<le> key (ha h ! j)) \<and>
        (parent j = i \<and> 0 < i \<longrightarrow> key (ha h ! parent i) \<le> key (ha h ! j)))"

named_theorems heap_defs

declare heap_wf_def [heap_defs] heap_ordered_def [heap_defs] heap_inv_def [heap_defs]
  ordered_except_up_def [heap_defs] ordered_except_down_def [heap_defs]

section \<open>Positions and swaps\<close>

lemma parent_iff_child: "0 < j \<Longrightarrow> parent j = i \<longleftrightarrow> child i 0 \<le> j \<and> j < child i 0 + HEAP_D"
  unfolding parent_def child_def HEAP_D_def by auto

lemma length_swap_nodes [simp]: "length (ha (swap_nodes h i j)) = length (ha h)"
  by (simp add: swap_nodes_def Let_def)

lemma swap_nodes_nth:
  assumes "i < length (ha h)" "j < length (ha h)" "k < length (ha h)"
  shows "key (ha (swap_nodes h i j) ! k) = key (ha h ! (if k = i then j else if k = j then i else k))"
    and "val (ha (swap_nodes h i j) ! k) = val (ha h ! (if k = i then j else if k = j then i else k))"
    and "idx (ha (swap_nodes h i j) ! k) = (if k = i \<or> k = j then k else idx (ha h ! k))"
  using assms by (auto simp: swap_nodes_def Let_def nth_list_update)

lemma map_kv_swap_nodes:
  assumes "i < length (ha h)" "j < length (ha h)"
  shows "map kv (ha (swap_nodes h i j)) =
    (map kv (ha h))[i := map kv (ha h) ! j, j := map kv (ha h) ! i]"
  using assms by (intro nth_equalityI) (auto simp: kv_def swap_nodes_nth nth_list_update)

lemma heap_bag_swap_nodes [simp]:
  assumes "i < hlen h" "j < hlen h" "hlen h \<le> length (ha h)"
  shows "heap_bag (swap_nodes h i j) = heap_bag h"
proof -
  let ?n = "hlen h" let ?xs = "take ?n (map kv (ha h))"
  have "heap_bag (swap_nodes h i j) = mset (?xs[i := ?xs ! j, j := ?xs ! i])"
    using assms by (simp add: heap_bag_def take_map [symmetric] map_kv_swap_nodes take_update_swap)
  also have "\<dots> = mset ?xs"
    by (rule mset_swap) (use assms in auto)
  finally show ?thesis by (simp add: heap_bag_def take_map)
qed

lemma heap_wf_swap_nodes:
  assumes "heap_wf h" "i < hlen h" "j < hlen h"
  shows "heap_wf (swap_nodes h i j)"
  using assms by (auto simp: heap_wf_def swap_nodes_nth)

lemma heap_wf_length: "heap_wf h \<Longrightarrow> i < hlen h \<Longrightarrow> i < length (ha h)"
  by (simp add: heap_wf_def)


section \<open>Sifting\<close>

lemma ordered_except_up_step:
  assumes wf: "heap_wf h" and i: "0 < i" "i < hlen h"
    and ord: "ordered_except_up h i"
    and gt: "key (ha h ! i) < key (ha h ! parent i)"
  shows "ordered_except_up (swap_nodes h (parent i) i) (parent i)"
proof -
  let ?p = "parent i"
  have p: "?p < i" using i(1) by (rule parent_less)
  have L: "j < length (ha h)" if "j < hlen h" for j using wf that by (rule heap_wf_length)
  have nth: "key (ha (swap_nodes h ?p i) ! k) = key (ha h ! (if k = ?p then i else if k = i then ?p else k))"
    if "k < hlen h" for k
    using L [OF that] L [of ?p] L [of i] p i by (intro swap_nodes_nth(1)) auto
  have edge: "key (ha h ! parent j) \<le> key (ha h ! j)" if "0 < j" "j < hlen h" "j \<noteq> i" for j
    using ord that by (auto simp: ordered_except_up_def)
  have across: "key (ha h ! ?p) \<le> key (ha h ! j)" if "0 < j" "j < hlen h" "parent j = i" for j
    using ord that i by (auto simp: ordered_except_up_def)
  have low: "key (ha h ! i) \<le> key (ha h ! j)" if "0 < j" "j < hlen h" "parent j = ?p" for j
    using edge [of j] that gt by (cases "j = i") auto
  show ?thesis
    unfolding ordered_except_up_def
  proof (intro allI impI, elim conjE, intro conjI impI, goal_cases)
    case (1 j)
    then have "parent j < j" "parent j < hlen h" using parent_less [of j] by auto
    then show ?case
      using 1 edge [of j] across [of j] low [of j] gt p i by (auto simp: nth)
  next
    case (2 j)
    then have "parent ?p < ?p" "?p < hlen h" using parent_less [of ?p] p i by auto
    moreover have "key (ha h ! parent ?p) \<le> key (ha h ! ?p)"
      using 2 edge [of ?p] p i by auto
    ultimately show ?case
      using 2 edge [of j] p i by (auto simp: nth intro: order_trans)
  qed
qed

lemma sift_up_facts:
  assumes "heap_wf h" "i < hlen h"
  shows "heap_wf (sift_up h i) \<and> hlen (sift_up h i) = hlen h \<and> hcap (sift_up h i) = hcap h
    \<and> heap_bag (sift_up h i) = heap_bag h \<and> length (ha (sift_up h i)) = length (ha h)
    \<and> (ordered_except_up h i \<longrightarrow> heap_ordered (sift_up h i))"
  using assms
proof (induction h i rule: sift_up.induct)
  case (1 h i)
  show ?case
  proof (cases "0 < i \<and> key (ha h ! i) < key (ha h ! parent i)")
    case True
    let ?h = "swap_nodes h (parent i) i"
    have p: "parent i < hlen h" using True 1(3) parent_less [of i] by auto
    have "heap_wf ?h" "parent i < hlen ?h"
      using 1(2,3) p by (auto intro: heap_wf_swap_nodes)
    note IH = "1.IH" [OF _ refl _ this]
    have "hlen h \<le> length (ha h)" using 1(2) by (simp add: heap_wf_def)
    with True IH p 1(2,3) show ?thesis
      by (subst (1 2 3 4 5 6) sift_up.simps)
        (auto simp: Let_def dest: ordered_except_up_step)
  next
    case False
    then have eq: "sift_up h i = h" by (subst sift_up.simps) (auto simp: Let_def)
    have "heap_ordered h" if "ordered_except_up h i"
      using that False by (auto simp: heap_ordered_def ordered_except_up_def not_less)
    then show ?thesis using 1 by (simp add: eq)
  qed
qed

lemma least_child_least:
  "c \<le> j \<Longrightarrow> j < lst \<Longrightarrow> key (xs ! least_child xs c lst best) \<le> key (xs ! j)"
  "key (xs ! least_child xs c lst best) \<le> key (xs ! best)"
proof (induction xs c lst best rule: least_child.induct)
  case (1 xs c lst best)
  let ?b = "if key (xs ! c) < key (xs ! best) then c else best"
  {
    case 1
    then have c: "c < lst" by simp
    have "key (xs ! least_child xs (Suc c) lst ?b) \<le> key (xs ! j)"
    proof (cases "j = c")
      case True
      have "key (xs ! least_child xs (Suc c) lst ?b) \<le> key (xs ! ?b)"
        using "1.IH"(2) [OF c] .
      also have "\<dots> \<le> key (xs ! c)" by auto
      finally show ?thesis using True by simp
    next
      case False
      then show ?thesis using "1.IH"(1) [OF c] 1 by simp
    qed
    then show ?case using c by (subst least_child.simps) simp
  next
    case 2
    show ?case
    proof (cases "c < lst")
      case True
      have "key (xs ! least_child xs (Suc c) lst ?b) \<le> key (xs ! ?b)"
        using "1.IH"(2) [OF True] .
      also have "\<dots> \<le> key (xs ! best)" by auto
      finally show ?thesis using True by (subst least_child.simps) simp
    qed (subst least_child.simps, simp)
  }
qed


lemma sift_target_least:
  assumes "child i 0 < hlen h"
  shows "key (ha h ! sift_target h i) \<le> key (ha h ! i)"
    and "0 < j \<Longrightarrow> j < hlen h \<Longrightarrow> parent j = i \<Longrightarrow> key (ha h ! sift_target h i) \<le> key (ha h ! j)"
  unfolding sift_target_def Let_def
   apply (rule least_child_least(2))
  apply (rule least_child_least(1))
  by (auto simp: parent_iff_child)

lemma ordered_except_down_step:
  assumes wf: "heap_wf h" and c: "child i 0 < hlen h"
    and ord: "ordered_except_down h i" and b: "sift_target h i = b" "b \<noteq> i"
  shows "ordered_except_down (swap_nodes h i b) b"
proof -
  have bi: "child i 0 \<le> b" "b < hlen h" "b < child i 0 + HEAP_D"
    using sift_target_range [OF c] b by auto
  have ib: "i < b" "0 < b" using bi(1) by (auto simp: child_def HEAP_D_def)
  have pb: "parent b = i" using bi ib by (simp add: parent_iff_child)
  have least: "key (ha h ! b) \<le> key (ha h ! i)"
      "\<And>j. 0 < j \<Longrightarrow> j < hlen h \<Longrightarrow> parent j = i \<Longrightarrow> key (ha h ! b) \<le> key (ha h ! j)"
    using sift_target_least [OF c] b by auto
  have L: "j < length (ha h)" if "j < hlen h" for j using wf that by (rule heap_wf_length)
  have nth: "key (ha (swap_nodes h i b) ! k) = key (ha h ! (if k = i then b else if k = b then i else k))"
    if "k < hlen h" for k
    using L [OF that] L [of i] L [of b] ib bi by (intro swap_nodes_nth(1)) auto
  have edge: "key (ha h ! parent j) \<le> key (ha h ! j)" if "0 < j" "j < hlen h" "parent j \<noteq> i" for j
    using ord that by (auto simp: ordered_except_down_def)
  have across: "key (ha h ! parent i) \<le> key (ha h ! b)" if "0 < i"
    using ord that ib bi pb by (auto simp: ordered_except_down_def)
  show ?thesis
    unfolding ordered_except_down_def
  proof (intro allI impI, elim conjE, intro conjI impI, goal_cases)
    case (1 j)
    then have "parent j < j" "parent j < hlen h" using parent_less [of j] by auto
    then show ?case
      using 1 edge [of j] across least(1) least(2) [of j] ib bi pb by (auto simp: nth)
  next
    case (2 j)
    then have "b < j" using parent_less [of j] by auto
    then show ?case
      using 2 edge [of j] ib bi pb by (auto simp: nth)
  qed
qed

lemma sift_down_facts:
  assumes "heap_wf h" "i < hlen h"
  shows "heap_wf (sift_down h i) \<and> hlen (sift_down h i) = hlen h \<and> hcap (sift_down h i) = hcap h
    \<and> heap_bag (sift_down h i) = heap_bag h \<and> length (ha (sift_down h i)) = length (ha h)
    \<and> (ordered_except_down h i \<longrightarrow> heap_ordered (sift_down h i))"
  using assms
proof (induction h i rule: sift_down.induct)
  case (1 h i)
  let ?b = "sift_target h i"
  show ?case
  proof (cases "child i 0 < hlen h \<and> ?b \<noteq> i")
    case True
    let ?h = "swap_nodes h i ?b"
    have b: "?b < hlen h" using True sift_target_range(2) [of i h] by auto
    have "heap_wf ?h" "?b < hlen ?h"
      using 1(2,3) b by (auto intro: heap_wf_swap_nodes)
    note IH = "1.IH" [OF _ refl _ this]
    have "hlen h \<le> length (ha h)" using 1(2) by (simp add: heap_wf_def)
    with True IH b 1(2,3) show ?thesis
      by (subst (1 2 3 4 5 6) sift_down.simps)
        (auto simp: Let_def intro: ordered_except_down_step)
  next
    case False
    then have eq: "sift_down h i = h" by (subst sift_down.simps) (auto simp: Let_def)
    have "key (ha h ! i) \<le> key (ha h ! j)" if "0 < j" "j < hlen h" "parent j = i" for j
      using that False sift_target_least(2) [of i h j] by (auto simp: parent_iff_child)
    then have "heap_ordered h" if "ordered_except_down h i"
      using that by (auto simp: heap_ordered_def ordered_except_down_def)
    then show ?thesis using 1 by (simp add: eq)
  qed
qed

section \<open>The operations as a priority queue\<close>

lemma heap_inv_init:
  "cap \<le> length storage \<Longrightarrow> heap_inv (heap_init storage cap)"
  by (simp add: heap_init_def heap_defs)

lemma hlen_heap_init: "hlen (heap_init storage cap) = 0"
  and hcap_heap_init: "hcap (heap_init storage cap) = cap"
  by (simp_all add: heap_init_def)

lemma heap_bag_init [simp]: "heap_bag (heap_init storage cap) = {#}"
  by (simp add: heap_init_def heap_bag_def)

lemma heap_bag_size [simp]: "heap_inv h \<Longrightarrow> size (heap_bag h) = hlen h"
  by (simp add: heap_bag_def heap_defs min_def)

lemma heap_empty_iff_bag: "heap_inv h \<Longrightarrow> heap_empty h \<longleftrightarrow> heap_bag h = {#}"
  using heap_bag_size [of h] by (auto simp: heap_empty_def simp del: heap_bag_size)

lemma heap_root_least:
  assumes "heap_ordered h" and "i < hlen h"
  shows "key (ha h ! 0) \<le> key (ha h ! i)"
  using assms(2)
proof (induction i rule: less_induct)
  case (less i)
  show ?case
  proof (cases "i = 0")
    case False
    then have p: "parent i < i" by (simp add: parent_less)
    then have "key (ha h ! 0) \<le> key (ha h ! parent i)" using less by simp
    also have "\<dots> \<le> key (ha h ! i)"
      using assms(1) False less.prems by (simp add: heap_ordered_def)
    finally show ?thesis .
  qed simp
qed

lemma heap_bag_iff:
  assumes "heap_inv h"
  shows "x \<in># heap_bag h \<longleftrightarrow> (\<exists>i < hlen h. x = kv (ha h ! i))"
proof -
  have "x \<in># heap_bag h \<longleftrightarrow> x \<in> set (map kv (take (hlen h) (ha h)))"
    by (simp only: heap_bag_def set_mset_mset)
  also have "\<dots> \<longleftrightarrow> (\<exists>i < hlen h. x = kv (ha h ! i))"
    using assms nth_image [of "hlen h" "ha h", symmetric] by (auto simp: heap_defs image_iff)
  finally show ?thesis .
qed

lemma heap_push_full: "heap_full h \<Longrightarrow> heap_push h k d = (-1, h)"
  by (simp add: heap_push_def)

lemma heap_push_ok:
  assumes inv: "heap_inv h" and nf: "\<not> heap_full h" and push: "heap_push h k d = (r, h')"
  shows "r = 0" and "heap_inv h'" and "heap_bag h' = add_mset (k, d) (heap_bag h)"
    and "hlen h' = Suc (hlen h)" and "hcap h' = hcap h" and "length (ha h') = length (ha h)"
proof -
  let ?n = "hlen h"
  let ?g = "h\<lparr>hlen := Suc ?n, ha := (ha h)[?n := \<lparr>key = k, val = d, idx = ?n\<rparr>]\<rparr>"
  have lt: "?n < hcap h" "hcap h \<le> length (ha h)"
    using inv nf by (auto simp: heap_defs heap_full_def)
  have h': "h' = sift_up ?g ?n" and r: "r = 0"
    using nf push by (auto simp: heap_push_def Let_def)
  have wf: "heap_wf ?g"
    using inv lt by (auto simp: heap_defs nth_list_update less_Suc_eq)
  have "ordered_except_up ?g ?n"
    using inv lt unfolding ordered_except_up_def
    by (auto simp: heap_defs nth_list_update less_Suc_eq dest: parent_less)
  moreover have "heap_bag ?g = add_mset (k, d) (heap_bag h)"
    using lt by (simp add: heap_bag_def take_Suc_conv_app_nth kv_def take_update_beyond)
  ultimately show "r = 0" "heap_inv h'" "heap_bag h' = add_mset (k, d) (heap_bag h)"
    "hlen h' = Suc (hlen h)" "hcap h' = hcap h" "length (ha h') = length (ha h)"
    using sift_up_facts [OF wf, of ?n] r by (auto simp: h' heap_inv_def)
qed


lemma heap_pop_empty: "heap_empty h \<Longrightarrow> heap_pop h k0 = ((k0, None), h)"
  by (simp add: heap_pop_def)

lemma heap_bag_drop_root:
  assumes "hlen h = Suc (Suc n)" "hlen h \<le> length (ha h)"
  shows "add_mset (kv (ha h ! 0)) (heap_bag (h\<lparr>hlen := Suc n, ha := (ha h)[0 := (ha h ! Suc n)\<lparr>idx := i\<rparr>]\<rparr>))
    = heap_bag h"
proof -
  obtain x xs where xs: "ha h = x # xs" using assms by (cases "ha h") auto
  have "take (Suc n) xs = take n xs @ [xs ! n]"
    using assms by (intro take_Suc_conv_app_nth) (auto simp: xs)
  then show ?thesis by (simp add: heap_bag_def assms(1) xs kv_def)
qed

lemma heap_pop_ok:
  assumes inv: "heap_inv h" and ne: "\<not> heap_empty h" and pop: "heap_pop h k0 = ((k, d), h')"
  shows "k = key (ha h ! 0)" and "d = val (ha h ! 0)" and "heap_inv h'"
    and "add_mset (k, d) (heap_bag h') = heap_bag h"
    and "hlen h = Suc (hlen h')" and "hcap h' = hcap h" and "length (ha h') = length (ha h)"
proof -
  let ?x = "ha h ! 0"
  have len: "hlen h \<le> length (ha h)" "0 < hlen h" and wf: "heap_wf h"
    using inv ne by (auto simp: heap_defs heap_empty_def)
  show kd: "k = key ?x" "d = val ?x"
    using ne pop by (auto simp: heap_pop_def Let_def)
  have "heap_inv h' \<and> add_mset (kv ?x) (heap_bag h') = heap_bag h \<and> hlen h = Suc (hlen h')
      \<and> hcap h' = hcap h \<and> length (ha h') = length (ha h)"
  proof (cases "hlen h = 1")
    case True
    then have h': "h' = h\<lparr>ha := (ha h)[0 := ?x\<lparr>idx := SIZE_MAX\<rparr>], hlen := 0\<rparr>"
      using ne pop by (auto simp: heap_pop_def Let_def)
    have "take (Suc 0) (ha h) = [?x]"
      using len by (cases "ha h") auto
    then show ?thesis
      using wf True by (auto simp: h' heap_defs heap_bag_def)
  next
    case False
    then obtain n where n: "hlen h = Suc (Suc n)"
      using len by (metis One_nat_def less_numeral_extra(3) not0_implies_Suc)
    let ?g = "h\<lparr>hlen := Suc n, ha := (ha h)[0 := (ha h ! Suc n)\<lparr>idx := 0\<rparr>]\<rparr>"
    have h': "h' = sift_down ?g 0"
      using ne pop n by (auto simp: heap_pop_def Let_def)
    have "ha h \<noteq> []" using len by auto
    then have "heap_wf ?g"
      using wf n by (auto simp: heap_wf_def nth_list_update)
    moreover have "ordered_except_down ?g 0"
      using inv n len by (auto simp: heap_defs nth_list_update)
    ultimately show ?thesis
      using sift_down_facts [of ?g 0] heap_bag_drop_root [OF n len(1)] n
      by (auto simp: h' heap_inv_def)
  qed
  then show "heap_inv h'" "add_mset (k, d) (heap_bag h') = heap_bag h"
    "hlen h = Suc (hlen h')" "hcap h' = hcap h" "length (ha h') = length (ha h)"
    by (auto simp: kd kv_def)
qed

lemma heap_pop_least:
  assumes "heap_inv h" "\<not> heap_empty h" "heap_pop h k0 = ((k, d), h')" "(k', d') \<in># heap_bag h"
  shows "k \<le> k'"
  using assms heap_pop_ok(1) [OF assms(1-3)] heap_root_least [of h]
  by (auto simp: heap_bag_iff kv_def heap_inv_def)

lemma heap_peek_pop: "heap_peek h k0 = fst (heap_pop h k0)"
  by (simp add: heap_peek_def heap_pop_def Let_def)

lemma heap_peek_in_bag:
  assumes "heap_inv h" "\<not> heap_empty h"
  shows "heap_peek h k0 \<in># heap_bag h"
  using assms heap_bag_iff [of h "heap_peek h k0"]
  by (auto simp: heap_peek_def heap_empty_def kv_def)

lemma heap_decrease_key_inv:
  assumes inv: "heap_inv h" and n: "n < hlen h"
  shows "heap_inv (heap_decrease_key h n k)"
proof -
  let ?x = "ha h ! n"
  let ?g = "h\<lparr>ha := (ha h)[n := ?x\<lparr>key := k\<rparr>]\<rparr>"
  have L: "n < length (ha h)" using inv n by (auto simp: heap_defs)
  have i: "idx ?x = n" using inv n by (simp add: heap_defs)
  have wf: "heap_wf ?g" using inv L by (auto simp: heap_defs nth_list_update)
  have "ordered_except_up ?g n" if "k < key ?x"
  proof -
    have edge: "key (ha h ! parent j) \<le> key (ha h ! j)" if "0 < j" "j < hlen h" for j
      using inv that by (simp add: heap_defs)
    have "key (ha h ! parent n) \<le> key (ha h ! j)" if "0 < n" "0 < j" "j < hlen h" "parent j = n" for j
      using edge [of n] edge [of j] that n by (auto intro: order_trans)
    note across = this
    show ?thesis
      unfolding ordered_except_up_def
    proof (intro allI impI, elim conjE, intro conjI impI, goal_cases)
      case (1 j)
      then show ?case using edge [of j] \<open>k < key ?x\<close> L by (cases "parent j = n") auto
    next
      case (2 j)
      then show ?case using across [of j] parent_less [of j] parent_less [of n] L by auto
    qed
  qed
  then show ?thesis
    using sift_up_facts [OF wf, of n] inv n i
    by (auto simp: heap_decrease_key_def Let_def heap_inv_def not_le)
qed

lemma heap_increase_key_inv:
  assumes inv: "heap_inv h" and n: "n < hlen h"
  shows "heap_inv (heap_increase_key h n k)"
proof -
  let ?x = "ha h ! n"
  let ?g = "h\<lparr>ha := (ha h)[n := ?x\<lparr>key := k\<rparr>]\<rparr>"
  have L: "n < length (ha h)" using inv n by (auto simp: heap_defs)
  have i: "idx ?x = n" using inv n by (simp add: heap_defs)
  have wf: "heap_wf ?g" using inv L by (auto simp: heap_defs nth_list_update)
  have "ordered_except_down ?g n" if "key ?x < k"
  proof -
    have edge: "key (ha h ! parent j) \<le> key (ha h ! j)" if "0 < j" "j < hlen h" for j
      using inv that by (simp add: heap_defs)
    have "key (ha h ! parent n) \<le> key (ha h ! j)" if "0 < n" "0 < j" "j < hlen h" "parent j = n" for j
      using edge [of n] edge [of j] that n by (auto intro: order_trans)
    moreover have "key (ha h ! parent n) \<le> k" if "0 < n"
      using edge [OF that n] \<open>key ?x < k\<close> by simp
    ultimately show ?thesis using edge L
      by (auto simp: ordered_except_down_def nth_list_update dest: parent_less)
  qed
  then show ?thesis
    using sift_down_facts [OF wf, of n] inv n i
    by (auto simp: heap_increase_key_def Let_def heap_inv_def not_le)
qed


section \<open>The interface the scheduler relies on\<close>

text \<open>
  A bounded queue of prioritised items. \<open>push\<close> may refuse when the queue is full;
  \<open>pop\<close> takes out an item with the least key.
\<close>

locale prio_queue =
  fixes inv :: "'q \<Rightarrow> bool"
    and bag :: "'q \<Rightarrow> ('k::linorder \<times> 'x) multiset"
    and full :: "'q \<Rightarrow> bool"
    and push :: "'q \<Rightarrow> 'k \<Rightarrow> 'x \<Rightarrow> 'q option"
    and pop :: "'q \<Rightarrow> (('k \<times> 'x) \<times> 'q) option"
  assumes push_full: "inv q \<Longrightarrow> push q k x = None \<longleftrightarrow> full q"
    and push_inv: "inv q \<Longrightarrow> push q k x = Some q' \<Longrightarrow> inv q'"
    and push_bag: "inv q \<Longrightarrow> push q k x = Some q' \<Longrightarrow> bag q' = add_mset (k, x) (bag q)"
    and pop_empty: "inv q \<Longrightarrow> pop q = None \<longleftrightarrow> bag q = {#}"
    and pop_inv: "inv q \<Longrightarrow> pop q = Some (y, q') \<Longrightarrow> inv q'"
    and pop_bag: "inv q \<Longrightarrow> pop q = Some (y, q') \<Longrightarrow> bag q = add_mset y (bag q')"
    and pop_least: "inv q \<Longrightarrow> pop q = Some (y, q') \<Longrightarrow> z \<in># bag q \<Longrightarrow> fst y \<le> fst z"
begin

text \<open>Draining: pop until the queue is empty, at most \<open>n\<close> times.\<close>

fun drain :: "nat \<Rightarrow> 'q \<Rightarrow> ('k \<times> 'x) list" where
  "drain 0 q = []"
| "drain (Suc n) q = (case pop q of None \<Rightarrow> [] | Some (y, q') \<Rightarrow> y # drain n q')"

lemma drain_mset: "inv q \<Longrightarrow> size (bag q) \<le> n \<Longrightarrow> mset (drain n q) = bag q"
proof (induction n arbitrary: q)
  case (Suc n)
  show ?case
  proof (cases "pop q")
    case (Some p)
    obtain y q' where p: "p = (y, q')" by (cases p)
    have "bag q = add_mset y (bag q')" "inv q'"
      using Some p Suc.prems(1) pop_bag pop_inv by auto
    then show ?thesis using Suc Some p by simp
  qed (use Suc.prems pop_empty [of q] in auto)
qed simp

lemma drain_in_bag: "inv q \<Longrightarrow> set (drain n q) \<subseteq> set_mset (bag q)"
proof (induction n arbitrary: q)
  case (Suc n)
  show ?case
  proof (cases "pop q")
    case (Some p)
    obtain y q' where p: "p = (y, q')" by (cases p)
    have "bag q = add_mset y (bag q')" "inv q'"
      using Some p Suc.prems(1) pop_bag pop_inv by auto
    then show ?thesis using Suc Some p by auto
  qed auto
qed simp

lemma drain_sorted: "inv q \<Longrightarrow> sorted (map fst (drain n q))"
proof (induction n arbitrary: q)
  case (Suc n)
  show ?case
  proof (cases "pop q")
    case (Some p)
    obtain y q' where p: "p = (y, q')" by (cases p)
    have q': "bag q = add_mset y (bag q')" "inv q'"
      using Some p Suc.prems(1) pop_bag pop_inv by auto
    have "fst y \<le> fst z" if "z \<in> set (drain n q')" for z
      using that drain_in_bag [OF q'(2), of n] q' Some p Suc.prems pop_least by fastforce
    then show ?thesis using Suc.IH [OF q'(2)] Some p by auto
  qed auto
qed simp

end

text \<open>The heap's operations in the form of the interface.\<close>

definition pq_push :: "'v minheap \<Rightarrow> u64 \<Rightarrow> 'v option \<Rightarrow> 'v minheap option" where
  "pq_push h k d = (case heap_push h k d of (r, h') \<Rightarrow> if r = 0 then Some h' else None)"

definition pq_pop :: "'v minheap \<Rightarrow> ((u64 \<times> 'v option) \<times> 'v minheap) option" where
  "pq_pop h = (if heap_empty h then None else Some (heap_pop h 0))"

interpretation minheap: prio_queue heap_inv heap_bag heap_full pq_push pq_pop
proof (unfold_locales, goal_cases)
  case (1 q k x)
  then show ?case
    using heap_push_ok(1) by (fastforce simp: pq_push_def heap_push_full split: prod.splits)
next
  case (2 q k x q')
  then show ?case
    by (cases "heap_full q")
      (auto simp: pq_push_def heap_push_full split: prod.splits if_splits dest: heap_push_ok(2))
next
  case (3 q k x q')
  then show ?case
    by (cases "heap_full q")
      (auto simp: pq_push_def heap_push_full split: prod.splits if_splits dest: heap_push_ok(3))
next
  case (4 q)
  then show ?case by (simp add: pq_pop_def heap_empty_iff_bag)
next
  case (5 q y q')
  then show ?case
    using heap_pop_ok(3) [of q 0 "fst y" "snd y" q'] by (auto simp: pq_pop_def split: if_splits)
next
  case (6 q y q')
  then show ?case
    using heap_pop_ok(4) [of q 0 "fst y" "snd y" q'] by (auto simp: pq_pop_def split: if_splits)
next
  case (7 q y q' z)
  then show ?case
    using heap_pop_least [of q 0 "fst y" "snd y" q' "fst z" "snd z"]
    by (auto simp: pq_pop_def split: if_splits)
qed


section \<open>Changing a key\<close>

lemma heap_bag_set_key:
  assumes "heap_wf h" "n < hlen h"
  shows "add_mset (kv (ha h ! n)) (heap_bag (h\<lparr>ha := (ha h)[n := (ha h ! n)\<lparr>key := k\<rparr>]\<rparr>))
    = add_mset (k, val (ha h ! n)) (heap_bag h)"
proof -
  let ?xs = "map kv (take (hlen h) (ha h))"
  have L: "n < length ?xs" using assms by (simp add: heap_wf_def)
  have "heap_bag (h\<lparr>ha := (ha h)[n := (ha h ! n)\<lparr>key := k\<rparr>]\<rparr>) = mset (?xs[n := (k, val (ha h ! n))])"
    by (simp add: heap_bag_def take_update_swap map_update kv_def)
  moreover have "kv (ha h ! n) = ?xs ! n"
    using L assms(2) by simp
  then have "kv (ha h ! n) \<in># mset ?xs"
    using L by (simp only: set_mset_mset nth_mem)
  ultimately show ?thesis
    using L assms(2) by (simp add: mset_update heap_bag_def)
qed

text \<open>Popping everything, in the order the scheduler would see it.\<close>

fun pop_all :: "nat \<Rightarrow> 'v minheap \<Rightarrow> (u64 \<times> 'v option) list" where
  "pop_all 0 h = []"
| "pop_all (Suc n) h =
     (if heap_empty h then [] else (case heap_pop h 0 of (y, h') \<Rightarrow> y # pop_all n h'))"

fun push_all :: "'v minheap \<Rightarrow> (u64 \<times> 'v option) list \<Rightarrow> 'v minheap" where
  "push_all h [] = h"
| "push_all h ((k, d) # xs) = push_all (snd (heap_push h k d)) xs"

lemma pop_all_drain: "pop_all n h = minheap.drain n h"
  by (induction n arbitrary: h) (simp_all add: pq_pop_def split: prod.splits)

lemma push_all_ok:
  "heap_inv h \<Longrightarrow> hlen h + length xs \<le> hcap h \<Longrightarrow>
   heap_inv (push_all h xs) \<and> heap_bag (push_all h xs) = mset xs + heap_bag h"
proof (induction h xs rule: push_all.induct)
  case (2 h k d xs)
  obtain r h' where p: "heap_push h k d = (r, h')" by (cases "heap_push h k d")
  have nf: "\<not> heap_full h" using 2(3) by (simp add: heap_full_def)
  note ok = heap_push_ok [OF 2(2) nf p]
  then show ?case using 2 p by simp
qed simp

text \<open>A heap with three entries, on which the properties below are evaluated.\<close>

definition demo_heap :: "nat minheap" where
  "demo_heap = push_all (heap_init (replicate 4 \<lparr>key = 0, val = None, idx = 0\<rparr>) 4)
     [(30, Some 3), (10, Some 1), (20, Some 2)]"

lemma demo_heap_inv: "heap_inv demo_heap"
  unfolding demo_heap_def
  by (rule push_all_ok [THEN conjunct1])
    (simp_all add: heap_inv_init hlen_heap_init hcap_heap_init)

lemma demo_heap_eval:
  "demo_heap = \<lparr>ha = [\<lparr>key = 10, val = Some 1, idx = 0\<rparr>, \<lparr>key = 30, val = Some 3, idx = 1\<rparr>,
     \<lparr>key = 20, val = Some 2, idx = 2\<rparr>, \<lparr>key = 0, val = None, idx = 0\<rparr>], hlen = 3, hcap = 4\<rparr>"
  by code_simp

lemmas pop_eval = heap_pop_def heap_empty_def Let_def sift_down.simps sift_target_def
  least_child.simps swap_nodes_def child_def HEAP_D_def

lemmas decrease_eval = heap_decrease_key_def Let_def sift_up.simps swap_nodes_def parent_def
  HEAP_D_def SIZE_MAX_def

lemma demo_heap_pop:
  "heap_pop demo_heap k0 = ((10, Some 1),
     \<lparr>ha = [\<lparr>key = 20, val = Some 2, idx = 0\<rparr>, \<lparr>key = 30, val = Some 3, idx = 1\<rparr>,
       \<lparr>key = 20, val = Some 2, idx = 2\<rparr>, \<lparr>key = 0, val = None, idx = 0\<rparr>], hlen = 2, hcap = 4\<rparr>)"
  unfolding demo_heap_eval by (simp add: pop_eval)

section \<open>Properties\<close>

text \<open>C25: \<open>heap_push\<close> keeps the heap invariant; a full heap is left as it is and -1 is
  returned, otherwise 0 is returned and exactly the new (key, payload) pair is added.\<close>

theorem heap_push_correct:
  assumes "heap_inv h"
  shows "case heap_push h k d of (r, h') \<Rightarrow>
    heap_inv h' \<and> hcap h' = hcap h \<and>
    (if hlen h = hcap h then r = -1 \<and> h' = h
     else r = 0 \<and> hlen h' = hlen h + 1 \<and> heap_bag h' = add_mset (k, d) (heap_bag h))"
proof (cases "heap_full h")
  case True
  then show ?thesis using assms by (simp add: heap_push_full heap_full_def)
next
  case False
  obtain r h' where p: "heap_push h k d = (r, h')" by (cases "heap_push h k d")
  show ?thesis
    using heap_push_ok [OF assms False p] False by (simp add: p heap_full_def)
qed

theorem heap_push_correct_witness:
  "heap_inv demo_heap \<and> fst (heap_push demo_heap 5 (Some 9)) = 0 \<and>
   heap_bag (snd (heap_push demo_heap 5 (Some 9))) = add_mset (5, Some 9) (heap_bag demo_heap)"
  using heap_push_correct [OF demo_heap_inv, of 5 "Some 9"] demo_heap_inv
  by (simp add: demo_heap_eval split: prod.splits)

text \<open>C26: \<open>heap_pop\<close> keeps the heap invariant; on an empty heap it returns \<open>NULL\<close> and leaves
  the caller's key and the heap as they are, otherwise it returns and removes exactly one
  pair, whose key is the least of all keys in the heap.\<close>

theorem heap_pop_correct:
  assumes "heap_inv h"
  shows "case heap_pop h k0 of ((k, d), h') \<Rightarrow>
    heap_inv h' \<and> hcap h' = hcap h \<and>
    (if hlen h = 0 then k = k0 \<and> d = None \<and> h' = h
     else heap_bag h = add_mset (k, d) (heap_bag h') \<and> (\<forall>x \<in># heap_bag h. k \<le> fst x))"
proof (cases "heap_empty h")
  case True
  then show ?thesis using assms by (simp add: heap_pop_empty heap_empty_def)
next
  case False
  obtain k d h' where p: "heap_pop h k0 = ((k, d), h')" by (metis surj_pair)
  show ?thesis
    using heap_pop_ok(3-6) [OF assms False p] heap_pop_least [OF assms False p] False
    by (auto simp: p heap_empty_def)
qed

theorem heap_pop_correct_witness:
  "heap_inv demo_heap \<and> fst (heap_pop demo_heap 0) = (10, Some 1) \<and>
   heap_bag demo_heap = add_mset (10, Some 1) (heap_bag (snd (heap_pop demo_heap 0)))"
  using heap_pop_correct [OF demo_heap_inv, of 0] demo_heap_inv
  by (simp only: demo_heap_pop prod.case fst_conv snd_conv) (simp add: demo_heap_eval)

text \<open>Pushing any list of pairs that fits and popping until empty returns a permutation of
  the list in ascending key order: the heap sorts.\<close>

theorem heap_sorts:
  assumes "length xs \<le> cap" and "cap \<le> length storage"
  shows "sorted (map fst (pop_all (length xs) (push_all (heap_init storage cap) xs)))
    \<and> mset (pop_all (length xs) (push_all (heap_init storage cap) xs)) = mset xs"
proof -
  let ?h = "push_all (heap_init storage cap) xs"
  have "heap_inv ?h" "heap_bag ?h = mset xs"
    using push_all_ok [of "heap_init storage cap" xs] heap_inv_init [OF assms(2)] assms(1)
    by (simp_all add: hlen_heap_init hcap_heap_init)
  then show ?thesis
    by (simp add: pop_all_drain minheap.drain_sorted minheap.drain_mset)
qed


theorem heap_sorts_witness:
  "sorted (map fst (pop_all 2 (push_all (heap_init (replicate 4 \<lparr>key = 0, val = None, idx = 0\<rparr>) 4)
     [(30, Some (3::nat)), (10, Some 1)]))) \<and>
   mset (pop_all 2 (push_all (heap_init (replicate 4 \<lparr>key = 0, val = None, idx = 0\<rparr>) 4)
     [(30, Some (3::nat)), (10, Some 1)])) = {#(30, Some 3), (10, Some 1)#}"
  using heap_sorts [of "[(30, Some (3::nat)), (10, Some 1)]" 4
      "replicate 4 \<lparr>key = 0, val = None, idx = 0\<rparr>"]
  by (simp add: numeral_2_eq_2 del: push_all.simps pop_all.simps)

text \<open>On a slot that is in the heap, \<open>heap_decrease_key\<close> and \<open>heap_increase_key\<close> keep the
  heap invariant, and they change exactly that slot's key when the new key is smaller
  (greater) than the old one and nothing otherwise.\<close>

theorem heap_change_key_correct:
  assumes "heap_inv h" and "n < hlen h" and "hlen h \<le> SIZE_MAX"
  shows "heap_inv (heap_decrease_key h n k) \<and> heap_inv (heap_increase_key h n k) \<and>
    (if k < key (ha h ! n)
     then add_mset (kv (ha h ! n)) (heap_bag (heap_decrease_key h n k))
        = add_mset (k, val (ha h ! n)) (heap_bag h)
     else heap_decrease_key h n k = h) \<and>
    (if key (ha h ! n) < k
     then add_mset (kv (ha h ! n)) (heap_bag (heap_increase_key h n k))
        = add_mset (k, val (ha h ! n)) (heap_bag h)
     else heap_increase_key h n k = h)"
proof -
  let ?g = "h\<lparr>ha := (ha h)[n := (ha h ! n)\<lparr>key := k\<rparr>]\<rparr>"
  have wf: "heap_wf h" and i: "idx (ha h ! n) = n" and L: "n < length (ha h)"
    using assms by (auto simp: heap_defs)
  have "heap_wf ?g" using wf L by (auto simp: heap_wf_def nth_list_update)
  then have "heap_bag (sift_up ?g n) = heap_bag ?g" "heap_bag (sift_down ?g n) = heap_bag ?g"
    using sift_up_facts [of ?g n] sift_down_facts [of ?g n] assms(2) by simp_all
  moreover have "n \<noteq> SIZE_MAX" using assms(2,3) by simp
  ultimately show ?thesis
    using heap_decrease_key_inv [OF assms(1,2), of k] heap_increase_key_inv [OF assms(1,2), of k]
      heap_bag_set_key [OF wf assms(2), of k]
    by (auto simp: heap_decrease_key_def heap_increase_key_def Let_def i not_le not_less)
qed

theorem heap_change_key_correct_witness:
  "heap_inv (heap_decrease_key demo_heap 1 5) \<and> key (ha (heap_decrease_key demo_heap 1 5) ! 0) = 5"
proof
  have "1 < hlen demo_heap" "hlen demo_heap \<le> SIZE_MAX"
    by (simp_all add: demo_heap_eval SIZE_MAX_def)
  from heap_change_key_correct [OF demo_heap_inv this, of 5]
  show "heap_inv (heap_decrease_key demo_heap 1 5)" by simp
  show "key (ha (heap_decrease_key demo_heap 1 5) ! 0) = 5"
    by (simp add: demo_heap_eval decrease_eval)
qed

text \<open>The slot a pop vacates keeps its old index instead of the \<open>SIZE_MAX\<close> that
  \<open>heap_structs.h\<close> documents for a node that is not in the heap: after popping \<open>demo_heap\<close> the
  slot past the end still claims position 2, so \<open>heap_decrease_key\<close> on it does not return
  early and overwrites the key of a live entry.\<close>

theorem heap_pop_leaves_stale_idx:
  "let h = snd (heap_pop demo_heap 0) in
     heap_inv h \<and> hlen h = 2 \<and> idx (ha h ! 2) = 2 \<and> idx (ha h ! 2) \<noteq> SIZE_MAX \<and>
     heap_bag (heap_decrease_key h 2 4) \<noteq> heap_bag h"
proof -
  have "\<not> heap_empty demo_heap" by (simp add: demo_heap_eval heap_empty_def)
  from heap_pop_ok(3) [OF demo_heap_inv this, of 0]
  have inv: "heap_inv (snd (heap_pop demo_heap 0))" by (simp add: demo_heap_pop)
  have "heap_bag (snd (heap_pop demo_heap 0)) = {#(20, Some 2), (30, Some 3)#}"
    "heap_bag (heap_decrease_key (snd (heap_pop demo_heap 0)) 2 4) = {#(4, Some 2), (30, Some 3)#}"
    by (simp_all add: demo_heap_pop heap_bag_def kv_def decrease_eval add_mset_commute)
  moreover have "hlen (snd (heap_pop demo_heap 0)) = 2" "idx (ha (snd (heap_pop demo_heap 0)) ! 2) = 2"
    by (simp_all add: demo_heap_pop)
  ultimately show ?thesis using inv by (simp add: Let_def SIZE_MAX_def)
qed

end
