(* ===== verification/Memory.thy ===== *)
theory Memory
  imports Janus_Prelude
begin

text \<open>
  Byte-addressed memory, the little-endian loads and stores the compiled C performs on it,
  and the memory functions of \<^verbatim>\<open>rtprog/libc\<close> (\<open>memcpy\<close>, \<open>memset\<close>, \<open>memcmp\<close>): each is the
  source's three loops (bytes up to an 8-byte boundary, 64-bit words, the remaining
  bytes), proved equal to a byte-by-byte reference.
\<close>

section \<open>Memory, loads and stores\<close>

type_synonym memory = "u64 \<Rightarrow> u8"

text \<open>Write the low \<open>n\<close> bytes of \<open>v\<close> at \<open>a\<close>, least significant byte first.\<close>

definition store_le :: "nat \<Rightarrow> memory \<Rightarrow> u64 \<Rightarrow> u64 \<Rightarrow> memory" where
  "store_le n m a v =
     (\<lambda>x. if unat (x - a) < n then ucast (drop_bit (8 * unat (x - a)) v) else m x)"

text \<open>The same with the distance as an integer, for evaluation.\<close>

lemma store_le_code [code]:
  "store_le n m a v =
     (\<lambda>x. let d = uint (x - a) in if d < int n then ucast (drop_bit (8 * nat d) v) else m x)"
proof (rule ext)
  fix x
  have "unat (x - a) < n \<longleftrightarrow> uint (x - a) < int n"
    unfolding unat_eq_nat_uint by (rule nat_less_iff) simp
  then show "store_le n m a v x =
      (let d = uint (x - a) in if d < int n then ucast (drop_bit (8 * nat d) v) else m x)"
    by (simp add: store_le_def Let_def)
qed

fun load_le :: "nat \<Rightarrow> memory \<Rightarrow> u64 \<Rightarrow> u64" where
  "load_le 0 m a = 0"
| "load_le (Suc n) m a = ucast (m a) OR push_bit 8 (load_le n m (a + 1))"

definition store32 :: "memory \<Rightarrow> u64 \<Rightarrow> u32 \<Rightarrow> memory" where
  "store32 m a v = store_le 4 m a (ucast v)"

definition load32 :: "memory \<Rightarrow> u64 \<Rightarrow> u32" where
  "load32 m a = ucast (load_le 4 m a)"

definition store64 :: "memory \<Rightarrow> u64 \<Rightarrow> u64 \<Rightarrow> memory" where
  "store64 m a v = store_le 8 m a v"

definition load64 :: "memory \<Rightarrow> u64 \<Rightarrow> u64" where
  "load64 m a = load_le 8 m a"

text \<open>Unfolded forms, to evaluate loads at concrete addresses.\<close>

lemma load_le_unfold:
  "load_le 4 m a = ucast (m a) OR push_bit 8 (ucast (m (a + 1)) OR push_bit 8
     (ucast (m (a + 1 + 1)) OR push_bit 8 (ucast (m (a + 1 + 1 + 1)) OR push_bit 8 0)))"
  "load_le 8 m a = ucast (m a) OR push_bit 8 (ucast (m (a + 1)) OR push_bit 8
     (ucast (m (a + 1 + 1)) OR push_bit 8 (ucast (m (a + 1 + 1 + 1)) OR push_bit 8
       (load_le 4 m (a + 1 + 1 + 1 + 1)))))"
proof -
  have n4: "4 = Suc (Suc (Suc (Suc 0)))" and n8: "8 = Suc (Suc (Suc (Suc 4)))" by simp_all
  show "load_le 4 m a = ucast (m a) OR push_bit 8 (ucast (m (a + 1)) OR push_bit 8
     (ucast (m (a + 1 + 1)) OR push_bit 8 (ucast (m (a + 1 + 1 + 1)) OR push_bit 8 0)))"
    by (subst n4) (simp only: load_le.simps)
  show "load_le 8 m a = ucast (m a) OR push_bit 8 (ucast (m (a + 1)) OR push_bit 8
     (ucast (m (a + 1 + 1)) OR push_bit 8 (ucast (m (a + 1 + 1 + 1)) OR push_bit 8
       (load_le 4 m (a + 1 + 1 + 1 + 1)))))"
    by (subst n8) (simp only: load_le.simps)
qed

lemma bit_load_le:
  "bit (load_le n m a) k \<longleftrightarrow> k < 64 \<and> k < 8 * n \<and> bit (m (a + of_nat (k div 8))) (k mod 8)"
proof (induction n arbitrary: a k)
  case (Suc n)
  show ?case
  proof (cases "k < 8")
    case True
    then show ?thesis by (auto simp: bit_simps)
  next
    case False
    have "a + 1 + of_nat ((k - 8) div 8) = a + of_nat (k div 8)"
    proof -
      have "of_nat (k div 8) = (of_nat (Suc ((k - 8) div 8)) :: u64)"
        using False by (intro arg_cong [where f = of_nat]) linarith
      then show ?thesis by simp
    qed
    moreover have "(k - 8) mod 8 = k mod 8" using False by (simp add: mod_if)
    ultimately have "bit (load_le n m (a + 1)) (k - 8) \<longleftrightarrow>
        k - 8 < 64 \<and> k - 8 < 8 * n \<and> bit (m (a + of_nat (k div 8))) (k mod 8)"
      using Suc.IH [of "a + 1" "k - 8"] by (simp only:)
    then show ?thesis
      using False by (auto simp: bit_simps dest: bit_imp_le_length)
  qed
qed simp

lemma load_le_cong:
  assumes "\<And>i. i < n \<Longrightarrow> m (a + of_nat i) = m' (a + of_nat i)"
  shows "load_le n m a = load_le n m' a"
  by (rule bit_word_eqI) (auto simp: bit_load_le assms)

lemma load_store_le_same:
  assumes "n \<le> 8"
  shows "load_le n (store_le n m a v) a = take_bit (8 * n) v"
proof (rule bit_word_eqI)
  fix k assume "k < LENGTH(64)"
  then have k: "k div 8 < 18446744073709551616" by simp
  have "8 * (k div 8) + k mod 8 = k" by simp
  then show "bit (load_le n (store_le n m a v) a) k = bit (take_bit (8 * n) v) k"
    using k \<open>k < LENGTH(64)\<close> by (auto simp: bit_load_le store_le_def bit_simps simp del: mult_div_mod_eq)
qed

lemma load_store_le_other:
  assumes "\<And>i. i < k \<Longrightarrow> n \<le> unat (b + of_nat i - a)"
  shows "load_le k (store_le n m a v) b = load_le k m b"
  by (rule load_le_cong) (use assms in \<open>force simp: store_le_def\<close>)


lemma load32_store32 [simp]: "load32 (store32 m a v) a = v"
proof -
  have "ucast (take_bit 32 (ucast v :: u64)) = v"
    by (rule bit_word_eqI) (simp add: bit_simps)
  then show ?thesis by (simp add: load32_def store32_def load_store_le_same)
qed

lemma load64_store64 [simp]: "load64 (store64 m a v) a = v"
  unfolding load64_def store64_def
  by (rule bit_word_eqI) (simp add: load_store_le_same bit_simps)

text \<open>Two ranges of addresses that do not meet, none running past the top of memory.\<close>

definition apart :: "nat \<Rightarrow> nat \<Rightarrow> nat \<Rightarrow> nat \<Rightarrow> bool" where
  "apart a n b k \<longleftrightarrow> a + n \<le> 2 ^ 64 \<and> b + k \<le> 2 ^ 64 \<and> (a + n \<le> b \<or> b + k \<le> a)"

lemma apart_unat:
  assumes "apart a n b k" and "i < k"
  shows "n \<le> unat (of_nat b + of_nat i - of_nat a :: u64)"
proof (cases "a \<le> b")
  case True
  then have "of_nat b + of_nat i - of_nat a = (of_nat (b + i - a) :: u64)"
    by (simp add: of_nat_diff)
  moreover have "b + i - a < 18446744073709551616" "n \<le> b + i - a"
    using assms True by (auto simp: apart_def)
  ultimately show ?thesis by simp
next
  case False
  define d where "d = a - (b + i)"
  have d: "0 < d" "d + n \<le> 2 ^ 64" "b + i \<le> a"
    using assms False by (auto simp: apart_def d_def)
  have "of_nat b + of_nat i - of_nat a = - (of_nat d :: u64)"
    using d by (simp add: d_def of_nat_diff)
  also have "\<dots> = of_nat (2 ^ 64 - d)"
    using d by (simp add: of_nat_diff)
  finally have "unat (of_nat b + of_nat i - of_nat a :: u64) = unat (of_nat (2 ^ 64 - d) :: u64)"
    by (rule arg_cong)
  also have "\<dots> = 2 ^ 64 - d"
    using d by (intro unat_of_nat_u64) simp
  finally show ?thesis using d by simp
qed

lemma load_store_apart:
  assumes "apart a n b k"
  shows "load_le k (store_le n m (of_nat a) v) (of_nat b) = load_le k m (of_nat b)"
  by (rule load_store_le_other) (rule apart_unat [OF assms])

section \<open>The memory functions of the C library\<close>

fun memcpy_bytes :: "memory \<Rightarrow> u64 \<Rightarrow> u64 \<Rightarrow> nat \<Rightarrow> memory" where
  "memcpy_bytes m d s 0 = m"
| "memcpy_bytes m d s (Suc n) = memcpy_bytes (m(d := m s)) (d + 1) (s + 1) n"

text \<open>The first loop stops at an 8-byte boundary of \<open>d\<close> and hands on its position.\<close>

fun memcpy_head :: "memory \<Rightarrow> u64 \<Rightarrow> u64 \<Rightarrow> nat \<Rightarrow> memory \<times> u64 \<times> u64 \<times> nat" where
  "memcpy_head m d s 0 = (m, d, s, 0)"
| "memcpy_head m d s (Suc n) =
     (if d AND 7 \<noteq> 0 then memcpy_head (m(d := m s)) (d + 1) (s + 1) n else (m, d, s, Suc n))"

function memcpy_words :: "memory \<Rightarrow> u64 \<Rightarrow> u64 \<Rightarrow> nat \<Rightarrow> memory \<times> u64 \<times> u64 \<times> nat" where
  "memcpy_words m d s n =
     (if 8 \<le> n then memcpy_words (store64 m d (load64 m s)) (d + 8) (s + 8) (n - 8)
      else (m, d, s, n))"
  by pat_completeness auto
termination by (relation "measure (\<lambda>(m, d, s, n). n)") auto

definition memcpy :: "memory \<Rightarrow> u64 \<Rightarrow> u64 \<Rightarrow> nat \<Rightarrow> memory" where
  "memcpy m dest src cnt =
     (if cnt = 0 \<or> dest = src then m
      else case memcpy_head m dest src cnt of (m1, d1, s1, n1) \<Rightarrow>
           case memcpy_words m1 d1 s1 n1 of (m2, d2, s2, n2) \<Rightarrow>
             memcpy_bytes m2 d2 s2 n2)"

fun memset_bytes :: "memory \<Rightarrow> u64 \<Rightarrow> u8 \<Rightarrow> nat \<Rightarrow> memory" where
  "memset_bytes m d c 0 = m"
| "memset_bytes m d c (Suc n) = memset_bytes (m(d := c)) (d + 1) c n"

fun memset_head :: "memory \<Rightarrow> u64 \<Rightarrow> u8 \<Rightarrow> nat \<Rightarrow> memory \<times> u64 \<times> nat" where
  "memset_head m d c 0 = (m, d, 0)"
| "memset_head m d c (Suc n) =
     (if d AND 7 \<noteq> 0 then memset_head (m(d := c)) (d + 1) c n else (m, d, Suc n))"

definition memset_pattern :: "u8 \<Rightarrow> u64" where
  "memset_pattern c =
     (let lc = ucast c;
          lc = lc OR push_bit 8 lc;
          lc = lc OR push_bit 16 lc
      in lc OR push_bit 32 lc)"

function memset_words :: "memory \<Rightarrow> u64 \<Rightarrow> u64 \<Rightarrow> nat \<Rightarrow> memory \<times> u64 \<times> nat" where
  "memset_words m d lc n =
     (if 8 \<le> n then memset_words (store64 m d lc) (d + 8) lc (n - 8) else (m, d, n))"
  by pat_completeness auto
termination by (relation "measure (\<lambda>(m, d, lc, n). n)") auto

definition memset :: "memory \<Rightarrow> u64 \<Rightarrow> int \<Rightarrow> nat \<Rightarrow> memory" where
  "memset m dest ch cnt =
     (let c = word_of_int ch in
      if cnt = 0 then m
      else case memset_head m dest c cnt of (m1, d1, n1) \<Rightarrow>
           (if 8 \<le> n1 then
              (case memset_words m1 d1 (memset_pattern c) n1 of (m2, d2, n2) \<Rightarrow>
                 memset_bytes m2 d2 c n2)
            else memset_bytes m1 d1 c n1))"

text \<open>
  \<open>memcmp\<close>: the loops either find a difference, which is the result, or run to their end.
  The word loop subtracts whole 64-bit words and returns the sign of the difference.
\<close>

fun memcmp_bytes :: "memory \<Rightarrow> u64 \<Rightarrow> u64 \<Rightarrow> nat \<Rightarrow> int" where
  "memcmp_bytes m l r 0 = 0"
| "memcmp_bytes m l r (Suc n) =
     (let diff = uint (m l) - uint (m r) in
      if diff \<noteq> 0 then diff else memcmp_bytes m (l + 1) (r + 1) n)"

fun memcmp_head :: "memory \<Rightarrow> u64 \<Rightarrow> u64 \<Rightarrow> nat \<Rightarrow> int + u64 \<times> u64 \<times> nat" where
  "memcmp_head m l r 0 = Inr (l, r, 0)"
| "memcmp_head m l r (Suc n) =
     (if r AND 7 \<noteq> 0 then
        (let diff = uint (m l) - uint (m r) in
         if diff \<noteq> 0 then Inl diff else memcmp_head m (l + 1) (r + 1) n)
      else Inr (l, r, Suc n))"

function memcmp_words :: "memory \<Rightarrow> u64 \<Rightarrow> u64 \<Rightarrow> nat \<Rightarrow> int + u64 \<times> u64 \<times> nat" where
  "memcmp_words m l r n =
     (if 8 \<le> n then
        (let ldiff = load64 m l - load64 m r in
         if ldiff \<noteq> 0 then Inl (if sint ldiff < 0 then -1 else 1)
         else memcmp_words m (l + 8) (r + 8) (n - 8))
      else Inr (l, r, n))"
  by pat_completeness auto
termination by (relation "measure (\<lambda>(m, l, r, n). n)") auto

definition memcmp :: "memory \<Rightarrow> u64 \<Rightarrow> u64 \<Rightarrow> nat \<Rightarrow> int" where
  "memcmp m lhs rhs cnt =
     (if cnt = 0 \<or> lhs = rhs then 0
      else case memcmp_head m lhs rhs cnt of Inl diff \<Rightarrow> diff
         | Inr (l1, r1, n1) \<Rightarrow>
             (case memcmp_words m l1 r1 n1 of Inl res \<Rightarrow> res
              | Inr (l2, r2, n2) \<Rightarrow> memcmp_bytes m l2 r2 n2))"

declare memcpy_words.simps [simp del] memset_words.simps [simp del] memcmp_words.simps [simp del]


section \<open>The memory functions against byte-wise references\<close>

definition memcpy_ref :: "memory \<Rightarrow> u64 \<Rightarrow> u64 \<Rightarrow> nat \<Rightarrow> memory" where
  "memcpy_ref m d s n = (\<lambda>x. if unat (x - d) < n then m (s + (x - d)) else m x)"

definition memset_ref :: "memory \<Rightarrow> u64 \<Rightarrow> u8 \<Rightarrow> nat \<Rightarrow> memory" where
  "memset_ref m d c n = (\<lambda>x. if unat (x - d) < n then c else m x)"

text \<open>No source byte lies in the destination.\<close>

definition no_overlap :: "u64 \<Rightarrow> u64 \<Rightarrow> nat \<Rightarrow> bool" where
  "no_overlap d s n \<longleftrightarrow> (\<forall>i < n. n \<le> unat (s + of_nat i - d))"

lemma unat_sub_of_nat:
  "n < 2 ^ 64 \<Longrightarrow>
   unat (y - of_nat n :: u64) = (if n \<le> unat y then unat y - n else 2 ^ 64 + unat y - n)"
  by (auto simp: unat_sub_if')

lemma no_overlap_bound: "no_overlap d s n \<Longrightarrow> n < 2 ^ 64"
proof (cases n)
  case (Suc k)
  assume "no_overlap d s n"
  then have "n \<le> unat (s - d)" by (auto simp: no_overlap_def Suc dest: spec [of _ 0])
  then show ?thesis using unsigned_less [where 'a = nat, of "s - d"] by simp
qed simp

lemma no_overlap_split:
  assumes "no_overlap d s (n + k)"
  shows "no_overlap d s n" and "no_overlap (d + of_nat n) (s + of_nat n) k"
proof -
  have "n \<le> unat (s + of_nat i - d)" if "i < n" for i
    using assms that unfolding no_overlap_def by (metis add_leD1 trans_less_add1)
  then show "no_overlap d s n" by (simp add: no_overlap_def)
  have "k \<le> unat (s + of_nat n + of_nat i - (d + of_nat n))" if "i < k" for i
  proof -
    have "n + k \<le> unat (s + of_nat i - d)" using assms that by (simp add: no_overlap_def)
    then show ?thesis by (simp add: algebra_simps)
  qed
  then show "no_overlap (d + of_nat n) (s + of_nat n) k" by (simp add: no_overlap_def)
qed

lemma memcpy_ref_0 [simp]: "memcpy_ref m d s 0 = m"
  by (simp add: memcpy_ref_def)

lemma memset_ref_0 [simp]: "memset_ref m d c 0 = m"
  by (simp add: memset_ref_def)

lemma memcpy_ref_add:
  assumes "no_overlap d s (n + k)"
  shows "memcpy_ref (memcpy_ref m d s n) (d + of_nat n) (s + of_nat n) k = memcpy_ref m d s (n + k)"
proof
  fix x
  have n: "n + k < 2 ^ 64" using assms by (rule no_overlap_bound)
  have u: "unat (x - (d + of_nat n)) =
      (if n \<le> unat (x - d) then unat (x - d) - n else 2 ^ 64 + unat (x - d) - n)"
    using unat_sub_of_nat [of n "x - d"] n by (simp add: algebra_simps)
  have "n + k \<le> unat (s + (x - d) - d)" if "unat (x - d) < n + k"
    using assms that by (force simp: no_overlap_def dest: spec [of _ "unat (x - d)"])
  then show "memcpy_ref (memcpy_ref m d s n) (d + of_nat n) (s + of_nat n) k x = memcpy_ref m d s (n + k) x"
    using n by (auto simp: memcpy_ref_def u)
qed

lemma memset_ref_add:
  assumes "n + k \<le> 2 ^ 64"
  shows "memset_ref (memset_ref m d c n) (d + of_nat n) c k = memset_ref m d c (n + k)"
proof (cases "n = 2 ^ 64")
  case False
  then have n: "n < 2 ^ 64" using assms by simp
  have "unat (x - (d + of_nat n)) =
      (if n \<le> unat (x - d) then unat (x - d) - n else 2 ^ 64 + unat (x - d) - n)" for x
    using unat_sub_of_nat [OF n, of "x - d"] by (simp add: algebra_simps)
  then show ?thesis using assms n by (auto simp: memset_ref_def fun_eq_iff)
qed (use assms in simp)

lemma memcpy_ref_byte: "m(d := m s) = memcpy_ref m d s 1"
  by (auto simp: memcpy_ref_def fun_eq_iff unsigned_eq_0_iff)

lemma memset_ref_byte: "m(d := c) = memset_ref m d c 1"
  by (auto simp: memset_ref_def fun_eq_iff unsigned_eq_0_iff)

lemma load_le_byte:
  "k < n \<Longrightarrow> n \<le> 8 \<Longrightarrow> ucast (drop_bit (8 * k) (load_le n m a)) = m (a + of_nat k)"
  by (rule bit_word_eqI) (auto simp: bit_simps bit_load_le)

lemma memcpy_ref_word: "store64 m d (load64 m s) = memcpy_ref m d s 8"
  by (auto simp: store64_def load64_def store_le_def memcpy_ref_def fun_eq_iff load_le_byte)

lemma bit_repeat:
  assumes lc: "\<And>j. bit lc j \<longleftrightarrow> j < w \<and> bit (c :: u8) (j mod 8)" and "8 dvd w" and w: "2 * w \<le> 64"
  shows "bit (lc OR push_bit w lc :: u64) j \<longleftrightarrow> j < 2 * w \<and> bit c (j mod 8)"
proof (cases "w \<le> j")
  case True
  then obtain t where t: "j = w + t" using le_Suc_ex by blast
  have "t mod 8 = j mod 8"
    using assms(2) by (auto simp: t elim!: dvdE)
  then show ?thesis using w by (auto simp: bit_or_iff bit_push_bit_iff lc t)
next
  case False
  then show ?thesis using w by (simp add: bit_or_iff bit_push_bit_iff lc)
qed

lemma bit_memset_pattern: "bit (memset_pattern c) j \<longleftrightarrow> j < 64 \<and> bit c (j mod 8)"
proof -
  have "bit (ucast c :: u64) j \<longleftrightarrow> j < 8 \<and> bit c (j mod 8)" for j
    by (cases "j < 8") (auto simp: bit_simps dest: bit_imp_le_length)
  from bit_repeat [of "ucast c" 8, OF this] bit_repeat [of "ucast c OR push_bit 8 (ucast c)" 16 c]
    bit_repeat [of "(ucast c OR push_bit 8 (ucast c)) OR push_bit 16 (ucast c OR push_bit 8 (ucast c))" 32 c j]
  show ?thesis by (simp add: memset_pattern_def Let_def)
qed

lemma memset_pattern_byte: "k < 8 \<Longrightarrow> ucast (drop_bit (8 * k) (memset_pattern c)) = c"
  by (rule bit_word_eqI) (auto simp: bit_simps bit_memset_pattern)

lemma memset_ref_word: "store64 m d (memset_pattern c) = memset_ref m d c 8"
  by (auto simp: store64_def store_le_def memset_ref_def fun_eq_iff memset_pattern_byte)


lemma memcpy_bytes_ref: "no_overlap d s n \<Longrightarrow> memcpy_bytes m d s n = memcpy_ref m d s n"
proof (induction m d s n rule: memcpy_bytes.induct)
  case (2 m d s n)
  then have "no_overlap d s (1 + n)" by simp
  from no_overlap_split(2) [OF this] memcpy_ref_add [OF this, of m] 2
  show ?case by (simp add: memcpy_ref_byte)
qed simp

lemma memcpy_head_ref:
  assumes "no_overlap d s n" "memcpy_head m d s n = (m', d', s', n')"
  shows "\<exists>k \<le> n. m' = memcpy_ref m d s k \<and> d' = d + of_nat k \<and> s' = s + of_nat k \<and> n' = n - k"
  using assms
proof (induction m d s n rule: memcpy_head.induct)
  case (2 m d s n)
  show ?case
  proof (cases "d AND 7 \<noteq> 0")
    case True
    from 2(2) have no: "no_overlap d s (1 + n)" by simp
    from 2(1) [OF True] True 2(3) no_overlap_split(2) [OF no] obtain k where k: "k \<le> n"
      "m' = memcpy_ref (memcpy_ref m d s 1) (d + 1) (s + 1) k" "d' = d + 1 + of_nat k"
      "s' = s + 1 + of_nat k" "n' = n - k"
      by (auto simp: memcpy_ref_byte)
    have "no_overlap d s (1 + k)"
      using no_overlap_split(1) [of d s "1 + k" "n - k"] no k(1) by simp
    from memcpy_ref_add [OF this, of m] k
    show ?thesis by (intro exI [of _ "Suc k"]) (simp add: add.assoc)
  qed (use 2(3) in \<open>auto intro!: exI [of _ 0]\<close>)
qed simp

lemma memcpy_words_ref:
  assumes "no_overlap d s n" "memcpy_words m d s n = (m', d', s', n')"
  shows "\<exists>k \<le> n. m' = memcpy_ref m d s k \<and> d' = d + of_nat k \<and> s' = s + of_nat k \<and> n' = n - k"
  using assms
proof (induction m d s n rule: memcpy_words.induct)
  case (1 m d s n)
  show ?case
  proof (cases "8 \<le> n")
    case True
    then have no: "no_overlap d s (8 + (n - 8))" using 1(2) by simp
    have "memcpy_words (memcpy_ref m d s 8) (d + 8) (s + 8) (n - 8) = (m', d', s', n')"
      using 1(3) True by (simp add: memcpy_words.simps [of m] memcpy_ref_word)
    with 1(1) [OF True] no_overlap_split(2) [OF no] obtain k where k: "k \<le> n - 8"
      "m' = memcpy_ref (memcpy_ref m d s 8) (d + 8) (s + 8) k" "d' = d + 8 + of_nat k"
      "s' = s + 8 + of_nat k" "n' = n - 8 - k"
      by (auto simp: memcpy_ref_word)
    have "no_overlap d s (8 + k)"
      using no_overlap_split(1) [of d s "8 + k" "n - 8 - k"] no k(1) True by simp
    from memcpy_ref_add [OF this, of m] k True
    show ?thesis by (intro exI [of _ "8 + k"]) (simp add: add.assoc)
  qed (use 1(3) in \<open>auto simp: memcpy_words.simps [of m] intro!: exI [of _ 0]\<close>)
qed

lemma memcpy_eq_ref:
  assumes "no_overlap d s n"
  shows "memcpy m d s n = memcpy_ref m d s n"
proof (cases "n = 0 \<or> d = s")
  case True
  then show ?thesis by (auto simp: memcpy_def memcpy_ref_def)
next
  case False
  obtain m1 d1 s1 n1 where h: "memcpy_head m d s n = (m1, d1, s1, n1)" by (metis surj_pair)
  obtain m2 d2 s2 n2 where w: "memcpy_words m1 d1 s1 n1 = (m2, d2, s2, n2)" by (metis surj_pair)
  from memcpy_head_ref [OF assms h] obtain a where a: "a \<le> n" "m1 = memcpy_ref m d s a"
    "d1 = d + of_nat a" "s1 = s + of_nat a" "n1 = n - a" by auto
  have no1: "no_overlap d s (a + (n - a))" using assms a by simp
  have no2: "no_overlap d1 s1 n1" using no_overlap_split(2) [OF no1] a by simp
  from memcpy_words_ref [OF no2 w] obtain b where b: "b \<le> n1" "m2 = memcpy_ref m1 d1 s1 b"
    "d2 = d1 + of_nat b" "s2 = s1 + of_nat b" "n2 = n1 - b" by auto
  have no3: "no_overlap d1 s1 (b + (n1 - b))" using no2 b by simp
  have "memcpy m d s n = memcpy_ref m2 d2 s2 n2"
    using False no_overlap_split(2) [OF no3] b by (simp add: memcpy_def h w memcpy_bytes_ref)
  also have "\<dots> = memcpy_ref m1 d1 s1 n1"
    using memcpy_ref_add [OF no3, of m1] b by simp
  also have "\<dots> = memcpy_ref m d s n"
    using memcpy_ref_add [OF no1, of m] a by simp
  finally show ?thesis .
qed


lemma memset_bytes_ref: "n \<le> 2 ^ 64 \<Longrightarrow> memset_bytes m d c n = memset_ref m d c n"
proof (induction m d c n rule: memset_bytes.induct)
  case (2 m d c n)
  then show ?case using memset_ref_add [of 1 n m d c] by (simp add: memset_ref_byte)
qed simp

lemma memset_head_ref:
  assumes "n \<le> 2 ^ 64" "memset_head m d c n = (m', d', n')"
  shows "\<exists>k \<le> n. m' = memset_ref m d c k \<and> d' = d + of_nat k \<and> n' = n - k"
  using assms
proof (induction m d c n rule: memset_head.induct)
  case (2 m d c n)
  show ?case
  proof (cases "d AND 7 \<noteq> 0")
    case True
    with 2 obtain k where k: "k \<le> n" "m' = memset_ref (memset_ref m d c 1) (d + 1) c k"
      "d' = d + 1 + of_nat k" "n' = n - k"
      by (auto simp: memset_ref_byte)
    with memset_ref_add [of 1 k m d c] 2(2)
    show ?thesis by (intro exI [of _ "Suc k"]) (simp add: add.assoc)
  qed (use 2(3) in \<open>auto intro!: exI [of _ 0]\<close>)
qed simp

lemma memset_words_ref:
  assumes "n \<le> 2 ^ 64" "memset_words m d (memset_pattern c) n = (m', d', n')"
  shows "\<exists>k \<le> n. m' = memset_ref m d c k \<and> d' = d + of_nat k \<and> n' = n - k"
  using assms
proof (induction n arbitrary: m d rule: less_induct)
  case (less n)
  show ?case
  proof (cases "8 \<le> n")
    case True
    have "memset_words (memset_ref m d c 8) (d + 8) (memset_pattern c) (n - 8) = (m', d', n')"
      using less.prems(2) True by (simp add: memset_words.simps [of m] memset_ref_word)
    with less.IH [of "n - 8"] less.prems(1) True obtain k where k: "k \<le> n - 8"
      "m' = memset_ref (memset_ref m d c 8) (d + 8) c k" "d' = d + 8 + of_nat k" "n' = n - 8 - k"
      by fastforce
    with memset_ref_add [of 8 k m d c] less.prems(1) True
    show ?thesis by (intro exI [of _ "8 + k"]) (simp add: add.assoc)
  qed (use less.prems in \<open>auto simp: memset_words.simps [of m] intro!: exI [of _ 0]\<close>)
qed

lemma memset_eq_ref:
  assumes "n \<le> 2 ^ 64"
  shows "memset m d ch n = memset_ref m d (word_of_int ch) n"
proof (cases "n = 0")
  case False
  let ?c = "word_of_int ch"
  obtain m1 d1 n1 where h: "memset_head m d ?c n = (m1, d1, n1)" by (metis surj_pair)
  obtain m2 d2 n2 where w: "memset_words m1 d1 (memset_pattern ?c) n1 = (m2, d2, n2)" by (metis surj_pair)
  from memset_head_ref [OF assms h] obtain a where a: "a \<le> n" "m1 = memset_ref m d ?c a"
    "d1 = d + of_nat a" "n1 = n - a" by auto
  have n1: "n1 \<le> 2 ^ 64" using assms a by simp
  from memset_words_ref [OF n1 w] obtain b where b: "b \<le> n1" "m2 = memset_ref m1 d1 ?c b"
    "d2 = d1 + of_nat b" "n2 = n1 - b" by auto
  have "memset_bytes m2 d2 ?c n2 = memset_ref m1 d1 ?c n1"
    using memset_ref_add [of b "n1 - b" m1 d1 ?c] b n1 by (simp add: memset_bytes_ref)
  moreover have "memset_ref m1 d1 ?c n1 = memset_ref m d ?c n"
    using memset_ref_add [of a "n - a" m d ?c] a assms by simp
  ultimately show ?thesis
    using False n1 by (simp add: memset_def Let_def h w memset_bytes_ref)
qed (simp add: memset_def)

text \<open>Equality of two ranges, and how it splits.\<close>

definition same_bytes :: "memory \<Rightarrow> u64 \<Rightarrow> u64 \<Rightarrow> nat \<Rightarrow> bool" where
  "same_bytes m l r n \<longleftrightarrow> (\<forall>i < n. m (l + of_nat i) = m (r + of_nat i))"

lemma same_bytes_0 [simp]: "same_bytes m l r 0"
  by (simp add: same_bytes_def)

lemma same_bytes_add:
  "same_bytes m l r (n + k) \<longleftrightarrow> same_bytes m l r n \<and> same_bytes m (l + of_nat n) (r + of_nat n) k"
proof
  assume L: "same_bytes m l r (n + k)"
  have "m (l + of_nat n + of_nat i) = m (r + of_nat n + of_nat i)" if "i < k" for i
    using L that by (auto simp: same_bytes_def add.assoc dest!: spec [of _ "n + i"])
  then show "same_bytes m l r n \<and> same_bytes m (l + of_nat n) (r + of_nat n) k"
    using L by (simp add: same_bytes_def)
next
  assume R: "same_bytes m l r n \<and> same_bytes m (l + of_nat n) (r + of_nat n) k"
  have "m (l + of_nat i) = m (r + of_nat i)" if "i < n + k" for i
  proof (cases "i < n")
    case False
    then obtain j where "i = n + j" "j < k" using \<open>i < n + k\<close> less_imp_add_positive
      by (metis add_less_cancel_left le_Suc_ex not_less)
    then show ?thesis using R by (simp add: same_bytes_def add.assoc)
  qed (use R in \<open>simp add: same_bytes_def\<close>)
  then show "same_bytes m l r (n + k)" by (simp add: same_bytes_def)
qed

lemma same_bytes_Suc:
  "same_bytes m l r (Suc n) \<longleftrightarrow> m l = m r \<and> same_bytes m (l + 1) (r + 1) n"
  using same_bytes_add [of m l r 1 n] by (simp add: same_bytes_def)

lemma same_bytes_8: "same_bytes m l r 8 \<longleftrightarrow> load64 m l = load64 m r"
proof
  assume "same_bytes m l r 8"
  then show "load64 m l = load64 m r"
    unfolding load64_def by (intro bit_word_eqI) (simp add: bit_load_le same_bytes_def)
next
  assume eq: "load64 m l = load64 m r"
  have "m (l + of_nat i) = m (r + of_nat i)" if "i < 8" for i
    using eq load_le_byte [of i 8 m l] load_le_byte [of i 8 m r] that by (simp add: load64_def)
  then show "same_bytes m l r 8" by (simp add: same_bytes_def)
qed

lemma memcmp_bytes_0: "memcmp_bytes m l r n = 0 \<longleftrightarrow> same_bytes m l r n"
proof (induction m l r n rule: memcmp_bytes.induct)
  case (2 m l r n)
  then show ?case by (simp add: Let_def same_bytes_Suc word_uint_eq_iff [symmetric])
qed simp

lemma memcmp_head_split:
  "case memcmp_head m l r n of
     Inl diff \<Rightarrow> diff \<noteq> 0 \<and> \<not> same_bytes m l r n
   | Inr (l', r', n') \<Rightarrow> (\<exists>k \<le> n. same_bytes m l r k \<and> l' = l + of_nat k \<and> r' = r + of_nat k \<and> n' = n - k)"
proof (induction m l r n rule: memcmp_head.induct)
  case (2 m l r n)
  show ?case
  proof (cases "r AND 7 \<noteq> 0 \<and> m l = m r")
    case True
    then have IH: "case memcmp_head m (l + 1) (r + 1) n of
        Inl diff \<Rightarrow> diff \<noteq> 0 \<and> \<not> same_bytes m (l + 1) (r + 1) n
      | Inr (l', r', n') \<Rightarrow> (\<exists>k \<le> n. same_bytes m (l + 1) (r + 1) k
          \<and> l' = l + 1 + of_nat k \<and> r' = r + 1 + of_nat k \<and> n' = n - k)"
      using 2 [of 0] by simp
    have "same_bytes m l r (Suc k) \<longleftrightarrow> same_bytes m (l + 1) (r + 1) k" for k
      using True by (simp add: same_bytes_Suc)
    with IH True show ?thesis
      by (force split: sum.splits intro: exI [of _ "Suc _"] simp: add.assoc)
  next
    case False
    then show ?thesis
      by (auto simp: Let_def same_bytes_Suc word_uint_eq_iff [symmetric] intro!: exI [of _ 0])
  qed
qed simp


lemma memcmp_words_split:
  "case memcmp_words m l r n of
     Inl res \<Rightarrow> res \<noteq> 0 \<and> \<not> same_bytes m l r n
   | Inr (l', r', n') \<Rightarrow> (\<exists>k \<le> n. same_bytes m l r k \<and> l' = l + of_nat k \<and> r' = r + of_nat k \<and> n' = n - k)"
proof (induction m l r n rule: memcmp_words.induct)
  case (1 m l r n)
  show ?case
  proof (cases "8 \<le> n \<and> load64 m l = load64 m r")
    case True
    then have IH: "case memcmp_words m (l + 8) (r + 8) (n - 8) of
        Inl res \<Rightarrow> res \<noteq> 0 \<and> \<not> same_bytes m (l + 8) (r + 8) (n - 8)
      | Inr (l', r', n') \<Rightarrow> (\<exists>k \<le> n - 8. same_bytes m (l + 8) (r + 8) k
          \<and> l' = l + 8 + of_nat k \<and> r' = r + 8 + of_nat k \<and> n' = n - 8 - k)"
      using 1 [of 0] by simp
    have eq: "same_bytes m l r (8 + k) \<longleftrightarrow> same_bytes m (l + 8) (r + 8) k" for k
      using same_bytes_add [of m l r 8 k] True by (simp add: same_bytes_8)
    have step: "memcmp_words m l r n = memcmp_words m (l + 8) (r + 8) (n - 8)"
      using True by (subst memcmp_words.simps) simp
    show ?thesis
    proof (cases "memcmp_words m (l + 8) (r + 8) (n - 8)")
      case (Inl res)
      then show ?thesis using IH eq [of "n - 8"] True by (simp add: step)
    next
      case (Inr p)
      then obtain k where "k \<le> n - 8" "same_bytes m (l + 8) (r + 8) k"
        "p = (l + 8 + of_nat k, r + 8 + of_nat k, n - 8 - k)" using IH by auto
      then show ?thesis
        using eq [of k] True Inr by (auto simp: step add.assoc intro!: exI [of _ "8 + k"])
    qed
  next
    case False
    have "\<not> same_bytes m l r n" if "8 \<le> n" "load64 m l \<noteq> load64 m r"
      using same_bytes_add [of m l r 8 "n - 8"] that by (simp add: same_bytes_8)
    then show ?thesis
      using False by (subst memcmp_words.simps) (auto simp: Let_def intro!: exI [of _ 0])
  qed
qed

lemma memcmp_0_iff: "memcmp m l r n = 0 \<longleftrightarrow> same_bytes m l r n"
proof (cases "n = 0 \<or> l = r")
  case True
  then show ?thesis by (auto simp: memcmp_def same_bytes_def)
next
  case False
  show ?thesis
  proof (cases "memcmp_head m l r n")
    case (Inl d)
    then show ?thesis using False memcmp_head_split [of m l r n] by (simp add: memcmp_def)
  next
    case (Inr p)
    then obtain a where a: "a \<le> n" "same_bytes m l r a" "p = (l + of_nat a, r + of_nat a, n - a)"
      using memcmp_head_split [of m l r n] by (auto split: prod.splits)
    have eq1: "same_bytes m l r n \<longleftrightarrow> same_bytes m (l + of_nat a) (r + of_nat a) (n - a)"
      using same_bytes_add [of m l r a "n - a"] a by simp
    let ?w = "memcmp_words m (l + of_nat a) (r + of_nat a) (n - a)"
    show ?thesis
    proof (cases ?w)
      case Inl': (Inl d)
      then show ?thesis
        using False Inr a eq1 memcmp_words_split [of m "l + of_nat a" "r + of_nat a" "n - a"]
        by (simp add: memcmp_def)
    next
      case Inr': (Inr q)
      then obtain b where b: "b \<le> n - a" "same_bytes m (l + of_nat a) (r + of_nat a) b"
        "q = (l + of_nat a + of_nat b, r + of_nat a + of_nat b, n - a - b)"
        using memcmp_words_split [of m "l + of_nat a" "r + of_nat a" "n - a"] by (auto split: prod.splits)
      then show ?thesis
        using False Inr Inr' a eq1 same_bytes_add [of m "l + of_nat a" "r + of_nat a" b "n - a - b"]
        by (simp add: memcmp_def memcmp_bytes_0)
    qed
  qed
qed

section \<open>Properties\<close>

text \<open>C40: when no source byte lies in the destination, the three-loop \<open>memcpy\<close> equals the
  byte-wise copy: every destination byte becomes the corresponding source byte of the old
  memory, and no other byte changes.\<close>

theorem memcpy_correct:
  assumes "\<forall>i < n. n \<le> unat (src + of_nat i - dest)"
  shows "memcpy m dest src n x =
    (if unat (x - dest) < n then m (src + (x - dest)) else m x)"
proof -
  have "no_overlap dest src n" using assms by (simp add: no_overlap_def)
  then show ?thesis by (simp add: memcpy_eq_ref memcpy_ref_def)
qed

theorem memcpy_correct_witness:
  "memcpy (\<lambda>x. ucast x) 3 64 20 22 = 83 \<and> memcpy (\<lambda>x. ucast x) 3 64 20 23 = 23"
proof -
  have *: "\<forall>i < 20. 20 \<le> unat ((64 :: u64) + of_nat i - 3)"
  proof (intro allI impI)
    fix i :: nat assume "i < 20"
    moreover have "(64 :: u64) + of_nat i - 3 = of_nat (61 + i)" by simp
    ultimately show "20 \<le> unat ((64 :: u64) + of_nat i - 3)" by (simp only: unat_of_nat_u64)
  qed
  show ?thesis
    using memcpy_correct [OF *, of "\<lambda>x. ucast x" 22] memcpy_correct [OF *, of "\<lambda>x. ucast x" 23]
    by simp
qed

text \<open>\<open>memset\<close> writes the low byte of \<open>ch\<close> into every byte of the range and changes nothing
  else, although it writes eight bytes at a time once \<open>d\<close> is aligned.\<close>

theorem memset_correct:
  assumes "n \<le> 2 ^ 64"
  shows "memset m dest ch n x = (if unat (x - dest) < n then word_of_int ch else m x)"
  using assms by (simp add: memset_eq_ref memset_ref_def)

theorem memset_correct_witness:
  "memset (\<lambda>_. 7) 5 0x1AB 30 34 = 0xAB \<and> memset (\<lambda>_. 7) 5 0x1AB 30 35 = 7"
  using memset_correct [of 30 "\<lambda>_. 7" 5 "0x1AB" 34] memset_correct [of 30 "\<lambda>_. 7" 5 "0x1AB" 35]
  by simp

text \<open>\<open>memcmp\<close> returns 0 exactly when the two ranges hold the same bytes.\<close>

theorem memcmp_zero_iff_equal:
  "memcmp m lhs rhs n = 0 \<longleftrightarrow>
     map (\<lambda>i. m (lhs + of_nat i)) [0..<n] = map (\<lambda>i. m (rhs + of_nat i)) [0..<n]"
  by (auto simp: memcmp_0_iff same_bytes_def)

text \<open>The sign of \<open>memcmp\<close> is not the sign of the first differing byte: the word loop
  compares little-endian words and takes the sign of a wrapped difference, so on these
  two ranges it answers "less" where the byte loop of the same function answers
  "greater".\<close>

theorem memcmp_sign_not_lexicographic:
  "let m = (\<lambda>_. 0)(8 := 1, 17 := 1) in memcmp m 8 16 8 = -1 \<and> memcmp_bytes m 8 16 8 = 1"
proof -
  let ?m = "(\<lambda>_. 0)(8 := 1, 17 := 1) :: memory"
  have "load64 ?m 8 = 1" "load64 ?m 16 = 256"
    by (simp_all add: load64_def load_le_unfold)
  moreover have "8 = Suc 7" by simp
  then have "memcmp_head ?m 8 16 8 = Inr (8, 16, 8)" "memcmp_bytes ?m 8 16 8 = 1"
    by (simp_all only: memcmp_head.simps memcmp_bytes.simps) simp_all
  ultimately show ?thesis
    by (simp add: Let_def memcmp_def memcmp_words.simps)
qed

end
