(* ===== verification/Alloc.thy ===== *)
theory Alloc
  imports Memory
begin

text \<open>
  The first-level allocator of \<^verbatim>\<open>rtprog/alloc.c\<close>: a doubly linked list of blocks that tile
  one region, with a second list threaded through the free ones, both kept as 32-bit
  distances in block headers that live in the memory they manage. Every definition is
  the source's sequence of header reads and writes on byte-addressed memory.
\<close>

section \<open>Data\<close>

record alloc_t =
  a_base :: u64
  a_free :: u64
  a_end :: u64

text \<open>The fields of \<open>ablock_t\<close> at their offsets; \<open>NULL\<close> is the address 0.\<close>

definition b_prev :: "memory \<Rightarrow> u64 \<Rightarrow> u32" where
  "b_prev m b = load32 m b"

definition b_next :: "memory \<Rightarrow> u64 \<Rightarrow> u32" where
  "b_next m b = load32 m (b + 4)"

definition b_used :: "memory \<Rightarrow> u64 \<Rightarrow> u32" where
  "b_used m b = load32 m (b + 8)"

definition b_next_free :: "memory \<Rightarrow> u64 \<Rightarrow> u32" where
  "b_next_free m b = load32 m (b + 12)"

definition b_prev_free :: "memory \<Rightarrow> u64 \<Rightarrow> u32" where
  "b_prev_free m b = load32 m (b + 16)"

definition set_prev :: "u64 \<Rightarrow> u32 \<Rightarrow> memory \<Rightarrow> memory" where
  "set_prev b v m = store32 m b v"

definition set_next :: "u64 \<Rightarrow> u32 \<Rightarrow> memory \<Rightarrow> memory" where
  "set_next b v m = store32 m (b + 4) v"

definition set_used :: "u64 \<Rightarrow> u32 \<Rightarrow> memory \<Rightarrow> memory" where
  "set_used b v m = store32 m (b + 8) v"

definition set_next_free :: "u64 \<Rightarrow> u32 \<Rightarrow> memory \<Rightarrow> memory" where
  "set_next_free b v m = store32 m (b + 12) v"

definition set_prev_free :: "u64 \<Rightarrow> u32 \<Rightarrow> memory \<Rightarrow> memory" where
  "set_prev_free b v m = store32 m (b + 16) v"

definition USED_HEADER_SIZE :: u64 where
  "USED_HEADER_SIZE = 3 * 4"

definition UNUSED_HEADER_SIZE :: u64 where
  "UNUSED_HEADER_SIZE = 20"

definition BLOCK_PTR :: "u64 \<Rightarrow> u64" where
  "BLOCK_PTR b = b + USED_HEADER_SIZE"

definition PTR_BLOCK :: "u64 \<Rightarrow> u64" where
  "PTR_BLOCK p = p - USED_HEADER_SIZE"

definition MIN_SPLIT_THRESHOLD :: u64 where
  "MIN_SPLIT_THRESHOLD = 2 * UNUSED_HEADER_SIZE"

section \<open>Operations\<close>

definition alloc_init :: "memory \<Rightarrow> u64 \<Rightarrow> u64 \<Rightarrow> alloc_t \<times> memory" where
  "alloc_init m base sz =
     (let a = \<lparr>a_base = base, a_free = base, a_end = base + sz\<rparr>;
          m = set_prev (a_free a) 0 m;
          m = set_next (a_free a) (ucast sz) m;
          m = set_used (a_free a) 0 m;
          m = set_next_free (a_free a) (ucast sz) m;
          m = set_prev_free (a_free a) 0 m
      in (a, m))"

definition nfree :: "memory \<Rightarrow> u64 \<Rightarrow> u64" where
  "nfree m b = b + ucast (b_next_free m b)"

definition pfree :: "memory \<Rightarrow> u64 \<Rightarrow> u64" where
  "pfree m b = b - ucast (b_prev_free m b)"

definition next_blk :: "memory \<Rightarrow> u64 \<Rightarrow> u64" where
  "next_blk m b = b + ucast (b_next m b)"

definition prev_blk :: "memory \<Rightarrow> u64 \<Rightarrow> u64" where
  "prev_blk m b = (if b_prev m b = 0 then 0 else b - ucast (b_prev m b))"

definition split_blk :: "alloc_t \<Rightarrow> u64 \<Rightarrow> u32 \<Rightarrow> memory \<Rightarrow> memory" where
  "split_blk a b sz m =
     (let s = b + ucast sz;
          m = set_next s (b_next m b - sz) m;
          m = set_next b sz m;
          m = set_prev s sz m;
          m = set_next_free s (b_next_free m b - sz) m;
          m = set_next_free b (b_next m b) m;
          m = set_prev_free s (b_prev m s) m;
          m = set_used s 0 m;
          n = next_blk m s;
          m = (if n \<noteq> a_end a then set_prev n (b_prev m n - sz) m else m);
          n = nfree m s
      in if n \<noteq> a_end a then set_prev_free n (b_prev_free m n - sz) m else m)"

definition use_block :: "alloc_t \<Rightarrow> u64 \<Rightarrow> memory \<Rightarrow> alloc_t \<times> memory" where
  "use_block a b m =
     (let (a, m) =
        (if b = a_free a then
           (let a = a\<lparr>a_free := nfree m b\<rparr> in (a, set_prev_free (a_free a) 0 m))
         else
           (let pf = pfree m b;
                m = set_next_free pf (b_next_free m pf + b_next_free m b) m;
                nf = nfree m b
            in (a, if nf \<noteq> a_end a
                   then set_prev_free nf (b_prev_free m nf + b_prev_free m b) m else m)))
      in (a, set_used b 1 m))"

text \<open>
  The search of \<open>alloc\<close> follows the free list until it meets \<open>a_end\<close>; on a damaged list it
  need not end, so it is a partial function.
\<close>

partial_function (option) alloc_search :: "memory \<Rightarrow> u64 \<Rightarrow> u64 \<Rightarrow> u64 \<Rightarrow> u64 \<Rightarrow> u64 option" where
  "alloc_search m fin xlen cur best =
     (if cur \<noteq> fin then
        alloc_search m fin xlen (nfree m cur)
          (if ucast (b_next m cur) \<ge> xlen \<and> (best = 0 \<or> b_next m best > b_next m cur)
           then cur else best)
      else Some best)"

declare alloc_search.simps [code]

definition take_best :: "alloc_t \<Rightarrow> u64 \<Rightarrow> u64 \<Rightarrow> memory \<Rightarrow> u64 \<times> alloc_t \<times> memory" where
  "take_best a best xlen m =
     (let m = (if ucast (b_next m best) - xlen \<ge> MIN_SPLIT_THRESHOLD
               then split_blk a best (ucast xlen) m else m);
          (a, m) = use_block a best m
      in (BLOCK_PTR best, a, m))"

definition alloc :: "alloc_t \<Rightarrow> u64 \<Rightarrow> memory \<Rightarrow> (u64 \<times> alloc_t \<times> memory) res" where
  "alloc a sz m =
     (let xlen = sz + USED_HEADER_SIZE in
      case alloc_search m (a_end a) xlen (a_free a) 0 of
        None \<Rightarrow> Inl No_return
      | Some best \<Rightarrow>
          if best = 0 then Inr (0, a, m) else Inr (take_best a best xlen m))"

definition get_align :: "u64 \<Rightarrow> u64 \<Rightarrow> u64" where
  "get_align p align = p AND (align - 1)"

partial_function (option) aligned_search ::
  "memory \<Rightarrow> u64 \<Rightarrow> u64 \<Rightarrow> u64 \<Rightarrow> u64 \<Rightarrow> u64 \<Rightarrow> u64 option" where
  "aligned_search m fin xlen align cur best =
     (if cur \<noteq> fin then
        aligned_search m fin xlen align (nfree m cur)
          (if ucast (b_next m cur) \<ge> xlen then
             (let ca = get_align (BLOCK_PTR cur) align in
              if ca = 0 \<and> (best = 0 \<or> b_next m best > b_next m cur) then cur
              else if ucast (b_next m cur) \<ge> (align - ca) + xlen then cur
              else best)
           else best)
      else Some best)"

declare aligned_search.simps [code]

definition aligned_alloc ::
  "alloc_t \<Rightarrow> u64 \<Rightarrow> u64 \<Rightarrow> memory \<Rightarrow> (u64 \<times> alloc_t \<times> memory) res" where
  "aligned_alloc a sz align m =
     (let xlen = sz + USED_HEADER_SIZE in
      case aligned_search m (a_end a) xlen align (a_free a) 0 of
        None \<Rightarrow> Inl No_return
      | Some best \<Rightarrow>
          if best = 0 then Inr (0, a, m)
          else
            (let ca = get_align (BLOCK_PTR best) align;
                 m' = (if ca \<noteq> 0 then split_blk a best (ucast (align - ca)) m else m);
                 best' = (if ca \<noteq> 0 then next_blk m' best else best)
             in Inr (take_best a best' xlen m')))"

text \<open>The two walks of \<open>free\<close>: to the next unused block, and back to the previous one.\<close>

partial_function (option) walk_next :: "memory \<Rightarrow> u64 \<Rightarrow> u64 \<Rightarrow> u64 option" where
  "walk_next m fin n =
     (if n \<noteq> fin \<and> b_used m n \<noteq> 0 then walk_next m fin (next_blk m n) else Some n)"

declare walk_next.simps [code]

partial_function (option) walk_prev :: "memory \<Rightarrow> u64 \<Rightarrow> u64 option" where
  "walk_prev m p =
     (if p \<noteq> 0 \<and> b_used m p \<noteq> 0 then walk_prev m (prev_blk m p) else Some p)"

declare walk_prev.simps [code]

text \<open>One round of the coalescing loop of \<open>free\<close>.\<close>

definition coalesce :: "alloc_t \<Rightarrow> u64 \<Rightarrow> u64 \<Rightarrow> memory \<Rightarrow> memory" where
  "coalesce a b n m =
     (if n \<noteq> a_end a \<and> n = next_blk m b then
        (let nn = nfree m n;
             m = (if nn \<noteq> a_end a
                  then set_prev_free nn (b_prev_free m nn + b_next_free m b) m else m);
             nn = next_blk m n;
             m = (if nn \<noteq> a_end a then set_prev nn (b_prev m nn + b_next m b) m else m);
             m = set_next_free b (b_next_free m b + b_next_free m n) m
         in set_next b (b_next m b + b_next m n) m)
      else m)"

definition KASSERT :: "bool \<Rightarrow> 'a res \<Rightarrow> 'a res" where
  "KASSERT c k = (if c then k else Inl (Kernel_panic JRT_EASSERT))"

definition free_link :: "alloc_t \<Rightarrow> u64 \<Rightarrow> u64 \<Rightarrow> u64 \<Rightarrow> memory \<Rightarrow> memory" where
  "free_link a b n p m =
     (let m = set_next_free b (ucast (n - b)) m;
          m = (if n \<noteq> a_end a then set_prev_free n (b_next_free m b) m else m)
      in if p \<noteq> 0 then
           (let m = set_prev_free b (ucast (b - p)) m
            in set_next_free p (b_prev_free m b) m)
         else m)"

definition free :: "alloc_t \<Rightarrow> u64 \<Rightarrow> memory \<Rightarrow> (alloc_t \<times> memory) res" where
  "free a ptr m =
     KASSERT (ptr < a_end a) (KASSERT (ptr > a_base a)
       (let b = PTR_BLOCK ptr in
        KASSERT (b_used m b = 1)
          (let m = set_prev_free b 0 m;
               m = set_used b 0 m;
               a = (if b < a_free a then a\<lparr>a_free := b\<rparr> else a)
           in case walk_next m (a_end a) (next_blk m b) of
                None \<Rightarrow> Inl No_return
              | Some n \<Rightarrow>
                  (case (if n \<noteq> a_end a then Some (pfree m n) else walk_prev m (prev_blk m b)) of
                     None \<Rightarrow> Inl No_return
                   | Some p \<Rightarrow>
                       (let m = free_link a b n p m;
                            m = coalesce a b n m;
                            m = (if p \<noteq> 0 then coalesce a p b m else m)
                        in Inr (a, m))))))"

definition realloc_in_place ::
  "alloc_t \<Rightarrow> u64 \<Rightarrow> u64 \<Rightarrow> u64 \<Rightarrow> memory \<Rightarrow> alloc_t \<times> memory" where
  "realloc_in_place a b n nlen m =
     (let m = (if ucast (b_next m n) - nlen \<ge> MIN_SPLIT_THRESHOLD
               then split_blk a n (ucast nlen) m else m);
          (a, m) = use_block a n m;
          nn = next_blk m n;
          m = (if nn \<noteq> a_end a then set_prev nn (b_prev m nn + b_next m b) m else m)
      in (a, set_next b (b_next m b + b_next m n) m))"

definition realloc :: "alloc_t \<Rightarrow> u64 \<Rightarrow> u64 \<Rightarrow> memory \<Rightarrow> (u64 \<times> alloc_t \<times> memory) res" where
  "realloc a p sz m =
     KASSERT (p < a_end a) (KASSERT (p > a_base a)
       (let b = PTR_BLOCK p in
        KASSERT (b_used m b = 1)
          (let blen = ucast (b_next m b) - USED_HEADER_SIZE;
               n = next_blk m b
           in if n = a_end a \<or> b_used m n \<noteq> 0 \<or> blen + ucast (b_next m n) < sz then
                bindE (alloc a sz m) (\<lambda>(np, a, m).
                  if np = 0 then Inr (0, a, m)
                  else bindE (free a p (memcpy m np p (unat blen)))
                         (\<lambda>(a, m). Inr (np, a, m)))
              else
                (let (a, m) = realloc_in_place a b n (sz - blen) m in Inr (p, a, m)))))"

end
