(* ===== verification/Alloc_Inv.thy ===== *)
theory Alloc_Inv
  imports Alloc
begin

text \<open>
  The allocator's invariant and its proof. The headers in memory are read through a map from
  block addresses (natural numbers) and fields to 32-bit values; the blocks that tile the
  region are a list of sizes and used marks, and \<open>chain\<close> says that the headers describe that
  list: distances to both neighbours, the used mark, and for free blocks the distances to
  the free blocks around. On this view \<open>alloc\<close> is best fit on the list, and \<open>free\<close> returns
  a block and merges it with its free neighbours.
\<close>

section \<open>Headers\<close>

datatype field = FPrev | FNext | FUsed | FNextFree | FPrevFree

definition off :: "field \<Rightarrow> nat" where
  "off f = (case f of FPrev \<Rightarrow> 0 | FNext \<Rightarrow> 4 | FUsed \<Rightarrow> 8 | FNextFree \<Rightarrow> 12 | FPrevFree \<Rightarrow> 16)"

definition hd_at :: "memory \<Rightarrow> nat \<Rightarrow> field \<Rightarrow> u32" where
  "hd_at m a f = load32 m (of_nat (a + off f))"

definition wr :: "nat \<Rightarrow> field \<Rightarrow> u32 \<Rightarrow> memory \<Rightarrow> memory" where
  "wr b f v m = store32 m (of_nat (b + off f)) v"

lemma field_reads:
  "b_prev m (of_nat a) = hd_at m a FPrev"
  "b_next m (of_nat a) = hd_at m a FNext"
  "b_used m (of_nat a) = hd_at m a FUsed"
  "b_next_free m (of_nat a) = hd_at m a FNextFree"
  "b_prev_free m (of_nat a) = hd_at m a FPrevFree"
  by (simp_all add: hd_at_def off_def b_prev_def b_next_def b_used_def b_next_free_def
      b_prev_free_def ac_simps)

lemma field_writes:
  "set_prev (of_nat b) v m = wr b FPrev v m"
  "set_next (of_nat b) v m = wr b FNext v m"
  "set_used (of_nat b) v m = wr b FUsed v m"
  "set_next_free (of_nat b) v m = wr b FNextFree v m"
  "set_prev_free (of_nat b) v m = wr b FPrevFree v m"
  by (simp_all add: wr_def off_def set_prev_def set_next_def set_used_def set_next_free_def
      set_prev_free_def ac_simps)

lemma load32_store32_apart:
  assumes "apart a 4 b 4"
  shows "load32 (store32 m (of_nat a) v) (of_nat b) = load32 m (of_nat b)"
  using load_store_apart [OF assms] by (simp add: load32_def store32_def)

lemma hd_at_wr:
  assumes "a + 20 \<le> 2 ^ 64" "b + 20 \<le> 2 ^ 64" "a = b \<or> a + 20 \<le> b \<or> b + 20 \<le> a"
  shows "hd_at (wr b f v m) a g = (if a = b \<and> f = g then v else hd_at m a g)"
proof (cases "a = b \<and> f = g")
  case True
  then show ?thesis by (simp add: hd_at_def wr_def)
next
  case False
  have "apart (b + off f) 4 (a + off g) 4"
    using False assms by (cases f; cases g) (auto simp: apart_def off_def)
  from load32_store32_apart [OF this] show ?thesis
    using False unfolding hd_at_def wr_def by auto
qed

text \<open>
  A map of headers holds on a set of block addresses that are pairwise a header apart; there
  a store is an update of the map.
\<close>

definition sep :: "nat set \<Rightarrow> bool" where
  "sep S \<longleftrightarrow> (\<forall>x \<in> S. x + 20 \<le> 2 ^ 64) \<and> (\<forall>x \<in> S. \<forall>y \<in> S. x \<noteq> y \<longrightarrow> x + 20 \<le> y \<or> y + 20 \<le> x)"

definition holds :: "nat set \<Rightarrow> memory \<Rightarrow> (nat \<Rightarrow> field \<Rightarrow> u32) \<Rightarrow> bool" where
  "holds S m G \<longleftrightarrow> (\<forall>x \<in> S. \<forall>f. hd_at m x f = G x f)"

definition put :: "nat \<Rightarrow> field \<Rightarrow> u32 \<Rightarrow> (nat \<Rightarrow> field \<Rightarrow> u32) \<Rightarrow> nat \<Rightarrow> field \<Rightarrow> u32" where
  "put b f v G = G(b := (G b)(f := v))"

lemma put_apply: "put b f v G x g = (if x = b \<and> g = f then v else G x g)"
  by (simp add: put_def)

lemma holds_wr: "holds S m G \<Longrightarrow> sep S \<Longrightarrow> b \<in> S \<Longrightarrow> holds S (wr b f v m) (put b f v G)"
  unfolding holds_def sep_def put_apply by (metis hd_at_wr)

lemma holds_hd_at: "holds UNIV m (hd_at m)" "holds S m (hd_at m)"
  by (simp_all add: holds_def)

lemma holdsD: "holds S m G \<Longrightarrow> x \<in> S \<Longrightarrow> hd_at m x f = G x f"
  by (simp add: holds_def)

text \<open>Which header fields a sequence of stores may have written: all other bytes are as before.\<close>

definition touch :: "(nat \<times> field) set \<Rightarrow> memory \<Rightarrow> memory \<Rightarrow> bool" where
  "touch W m m' \<longleftrightarrow> (\<forall>i < 2 ^ 64. (\<forall>(y, f) \<in> W. i < y + off f \<or> y + off f + 4 \<le> i) \<longrightarrow>
     m' (of_nat i) = m (of_nat i))"

lemma touch_refl: "touch W m m"
  by (simp add: touch_def)

lemma wr_byte:
  assumes "i < 2 ^ 64" "b + 20 \<le> 2 ^ 64" "i < b + off f \<or> b + off f + 4 \<le> i"
  shows "wr b f v m (of_nat i) = m (of_nat i)"
proof -
  have "apart (b + off f) 4 i 1" using assms by (cases f) (auto simp: apart_def off_def)
  from apart_unat [OF this, of 0] show ?thesis
    by (simp add: wr_def store32_def store_le_def)
qed

lemma touch_wr:
  assumes "touch W m m'" "(b, f) \<in> W" "b + 20 \<le> 2 ^ 64"
  shows "touch W m (wr b f v m')"
  unfolding touch_def
proof (intro allI impI)
  fix i assume i: "i < 2 ^ 64" "\<forall>(y, f) \<in> W. i < y + off f \<or> y + off f + 4 \<le> i"
  then have "i < b + off f \<or> b + off f + 4 \<le> i" using assms(2) by blast
  then have "wr b f v m' (of_nat i) = m' (of_nat i)" using i(1) assms(3) by (intro wr_byte)
  then show "wr b f v m' (of_nat i) = m (of_nat i)" using assms(1) i by (simp add: touch_def)
qed

lemma touch_mono: "touch W m m' \<Longrightarrow> W \<subseteq> W' \<Longrightarrow> touch W' m m'"
  unfolding touch_def by blast

lemma touch_trans: "touch W m m' \<Longrightarrow> touch W m' m'' \<Longrightarrow> touch W m m''"
  by (simp add: touch_def)

lemma sepD: "sep S \<Longrightarrow> x \<in> S \<Longrightarrow> x + 20 \<le> 2 ^ 64"
  by (simp add: sep_def)

section \<open>The block list\<close>

type_synonym blocks = "(nat \<times> bool) list"  \<comment> \<open>size in bytes, used\<close>

definition total :: "blocks \<Rightarrow> nat" where
  "total bs = sum_list (map fst bs)"

lemma total_simps [simp]:
  "total [] = 0" "total ((n, u) # bs) = n + total bs" "total (xs @ ys) = total xs + total ys"
  by (simp_all add: total_def)

text \<open>The first free block from \<open>a\<close> on, or \<open>nf\<close>, the address that follows on the free list.\<close>

fun next_free_from :: "nat \<Rightarrow> blocks \<Rightarrow> nat \<Rightarrow> nat" where
  "next_free_from a [] nf = nf"
| "next_free_from a ((n, u) # bs) nf = (if u then next_free_from (a + n) bs nf else a)"

fun last_size :: "nat \<Rightarrow> blocks \<Rightarrow> nat" where
  "last_size p [] = p"
| "last_size p ((n, u) # bs) = last_size n bs"

fun last_free :: "nat option \<Rightarrow> nat \<Rightarrow> blocks \<Rightarrow> nat option" where
  "last_free pf a [] = pf"
| "last_free pf a ((n, u) # bs) = last_free (if u then pf else Some a) (a + n) bs"

definition back_dist :: "nat option \<Rightarrow> nat \<Rightarrow> nat" where
  "back_dist pf a = (case pf of None \<Rightarrow> 0 | Some p \<Rightarrow> a - p)"

fun chain :: "(nat \<Rightarrow> field \<Rightarrow> u32) \<Rightarrow> nat \<Rightarrow> nat option \<Rightarrow> nat \<Rightarrow> blocks \<Rightarrow> nat \<Rightarrow> bool" where
  "chain G p pf a [] nf = True"
| "chain G p pf a ((n, u) # bs) nf \<longleftrightarrow>
     20 \<le> n \<and> G a FPrev = of_nat p \<and> G a FNext = of_nat n \<and> G a FUsed = (if u then 1 else 0) \<and>
     (\<not> u \<longrightarrow> G a FNextFree = of_nat (next_free_from (a + n) bs nf - a) \<and>
              G a FPrevFree = of_nat (back_dist pf a)) \<and>
     chain G n (if u then pf else Some a) (a + n) bs nf"

fun addrs :: "nat \<Rightarrow> blocks \<Rightarrow> nat set" where
  "addrs a [] = {}"
| "addrs a ((n, u) # bs) = insert a (addrs (a + n) bs)"

lemma next_free_from_append [simp]:
  "next_free_from a (xs @ ys) nf = next_free_from a xs (next_free_from (a + total xs) ys nf)"
  by (induction a xs nf rule: next_free_from.induct) (auto simp: ac_simps)

lemma last_size_append [simp]: "last_size p (xs @ ys) = last_size (last_size p xs) ys"
  by (induction p xs rule: last_size.induct) auto

lemma last_free_append [simp]: "last_free pf a (xs @ ys) = last_free (last_free pf a xs) (a + total xs) ys"
  by (induction pf a xs rule: last_free.induct) (auto simp: ac_simps)

lemma addrs_append [simp]: "addrs a (xs @ ys) = addrs a xs \<union> addrs (a + total xs) ys"
  by (induction a xs rule: addrs.induct) (auto simp: ac_simps)

lemma chain_append [simp]:
  "chain G p pf a (xs @ ys) nf \<longleftrightarrow>
     chain G p pf a xs (next_free_from (a + total xs) ys nf) \<and>
     chain G (last_size p xs) (last_free pf a xs) (a + total xs) ys nf"
  by (induction xs arbitrary: p pf a) (auto simp: ac_simps)

lemma chain_cong:
  assumes "\<And>x f. x \<in> addrs a bs \<Longrightarrow> G x f = G' x f"
  shows "chain G p pf a bs nf = chain G' p pf a bs nf"
  using assms
proof (induction bs arbitrary: p pf a)
  case (Cons b bs)
  obtain n u where b: "b = (n, u)" by (cases b)
  have "chain G q qf (a + n) bs nf = chain G' q qf (a + n) bs nf" for q qf
    using Cons.IH [of "a + n" q qf] Cons.prems b by simp
  then show ?case using Cons.prems [of a] b by auto
qed simp

definition sizes_ok :: "blocks \<Rightarrow> bool" where
  "sizes_ok bs \<longleftrightarrow> (\<forall>b \<in> set bs. 20 \<le> fst b)"

lemma sizes_ok_simps [simp]:
  "sizes_ok []" "sizes_ok ((n, u) # bs) \<longleftrightarrow> 20 \<le> n \<and> sizes_ok bs"
  "sizes_ok (xs @ ys) \<longleftrightarrow> sizes_ok xs \<and> sizes_ok ys"
  by (auto simp: sizes_ok_def)

lemma chain_sizes_ok: "chain G p pf a bs nf \<Longrightarrow> sizes_ok bs"
  by (induction bs arbitrary: p pf a) auto

lemma addrs_range_ok: "sizes_ok bs \<Longrightarrow> x \<in> addrs a bs \<Longrightarrow> a \<le> x \<and> x + 20 \<le> a + total bs"
proof (induction bs arbitrary: a)
  case (Cons b bs)
  obtain n u where b: "b = (n, u)" by (cases b)
  show ?case
  proof (cases "x = a")
    case False
    then have "x \<in> addrs (a + n) bs" using Cons.prems(2) b by simp
    then show ?thesis using Cons.IH [of "a + n"] Cons.prems(1) b by simp
  qed (use Cons.prems b in simp)
qed simp

lemmas addrs_range = addrs_range_ok [OF chain_sizes_ok]

lemma addrs_sep:
  assumes "sizes_ok bs" "x \<in> addrs a bs" "y \<in> addrs a bs" "x \<noteq> y"
  shows "x + 20 \<le> y \<or> y + 20 \<le> x"
  using assms
proof (induction bs arbitrary: a)
  case (Cons b bs)
  obtain n u where b: "b = (n, u)" by (cases b)
  then have c: "sizes_ok bs" "20 \<le> n" using Cons.prems(1) by auto
  note rng = addrs_range_ok [OF c(1), of _ "a + n"]
  show ?case
    using Cons.IH [OF c(1), of "a + n"] Cons.prems(2-4) rng [of x] rng [of y] c(2) b by auto
qed simp

lemma sep_addrs:
  assumes "sizes_ok bs" "a + total bs + 20 \<le> 2 ^ 64"
  shows "sep (insert (a + total bs) (addrs a bs))"
  using addrs_sep [OF assms(1)] addrs_range_ok [OF assms(1)] assms(2) unfolding sep_def by fastforce

section \<open>Addresses as words\<close>

lemma of_nat_u64_eq_iff:
  "x < 2 ^ 64 \<Longrightarrow> y < 2 ^ 64 \<Longrightarrow> (of_nat x :: u64) = of_nat y \<longleftrightarrow> x = y"
  using unat_of_nat_u64 [of x] unat_of_nat_u64 [of y] by (auto dest: arg_cong [where f = unat])

lemma ucast_u32_u64: "n < 2 ^ 32 \<Longrightarrow> (ucast (of_nat n :: u32) :: u64) = of_nat n"
  by (simp add: word_unat_eq_iff unsigned_ucast_eq unsigned_of_nat take_bit_nat_eq_self)

lemma ucast_u64_u32: "(ucast (of_nat n :: u64) :: u32) = of_nat n"
  by (simp add: word_unat_eq_iff unsigned_ucast_eq unsigned_of_nat)

lemma of_nat_u32_diff: "k \<le> n \<Longrightarrow> (of_nat n - of_nat k :: u32) = of_nat (n - k)"
  by (simp add: of_nat_diff)

section \<open>The two list operations on headers\<close>

lemma split_holds:
  assumes S: "holds S m G" "sep S" "b \<in> S" "b + sz \<in> S" "b + n \<in> S" "fx \<in> S"
    and e: "a_end a = of_nat e" "e < 2 ^ 64" "b + n \<le> e" "fx \<le> e"
    and sz: "0 < sz" "sz < n" "n < 2 ^ 32" "b + n \<le> fx" "fx - b < 2 ^ 32"
    and G: "G b FNext = of_nat n" "G b FNextFree = of_nat (fx - b)"
  defines "G1 \<equiv> put (b + sz) FUsed 0 (put (b + sz) FPrevFree (of_nat sz) (put b FNextFree (of_nat sz)
      (put (b + sz) FNextFree (of_nat (fx - (b + sz))) (put (b + sz) FPrev (of_nat sz)
        (put b FNext (of_nat sz) (put (b + sz) FNext (of_nat (n - sz)) G))))))"
  defines "G2 \<equiv> if b + n \<noteq> e then put (b + n) FPrev (G1 (b + n) FPrev - of_nat sz) G1 else G1"
  shows "holds S (split_blk a (of_nat b) (of_nat sz) m)
    (if fx \<noteq> e then put fx FPrevFree (G2 fx FPrevFree - of_nat sz) G2 else G2) \<and>
    touch ({b + sz, b} \<times> UNIV \<union> (if b + n \<noteq> e then {(b + n, FPrev)} else {}) \<union>
      (if fx \<noteq> e then {(fx, FPrevFree)} else {})) m (split_blk a (of_nat b) (of_nat sz) m)"
    (is "_ \<and> touch ?W _ _")
proof -
  note hw = holds_wr [OF _ S(2)]
  define s where "s = b + sz"
  define m1 where "m1 = wr s FNext (of_nat (n - sz)) m"
  define m3 where "m3 = wr s FPrev (of_nat sz) (wr b FNext (of_nat sz) m1)"
  define m4 where "m4 = wr s FNextFree (of_nat (fx - s)) m3"
  define m7 where "m7 = wr s FUsed 0 (wr s FPrevFree (of_nat sz) (wr b FNextFree (of_nat sz) m4))"
  define m8 where "m8 = (if b + n \<noteq> e then wr (b + n) FPrev (G1 (b + n) FPrev - of_nat sz) m7 else m7)"
  have ne: "s \<noteq> b" "b + n \<noteq> s" using sz by (auto simp: s_def)
  have s: "of_nat b + ucast (of_nat sz :: u32) = (of_nat s :: u64)"
    using sz by (subst ucast_u32_u64) (simp_all add: s_def)
  have h1: "holds S m1 (put s FNext (of_nat (n - sz)) G)"
    unfolding m1_def s_def by (rule hw [OF S(1) S(4)])
  have h3: "holds S m3 (put s FPrev (of_nat sz) (put b FNext (of_nat sz) (put s FNext (of_nat (n - sz)) G)))"
    unfolding m3_def using S(3,4) by (intro hw h1) (simp_all add: s_def)
  have h4: "holds S m4 (put s FNextFree (of_nat (fx - s)) (put s FPrev (of_nat sz)
      (put b FNext (of_nat sz) (put s FNext (of_nat (n - sz)) G))))"
    unfolding m4_def using S(4) by (intro hw h3) (simp add: s_def)
  have h7: "holds S m7 G1"
    unfolding m7_def G1_def s_def [symmetric] using S(3,4) by (intro hw h4) (simp_all add: s_def)
  have h8: "holds S m8 G2" using h7 S(5) by (auto simp: m8_def G2_def intro: hw)
  have r0: "b_next m (of_nat b) - of_nat sz = of_nat (n - sz)"
    unfolding field_reads holdsD [OF S(1,3)] G(1) using sz by (intro of_nat_u32_diff) simp
  have r1: "b_next_free m3 (of_nat b) - of_nat sz = of_nat (fx - s)"
  proof -
    have "b_next_free m3 (of_nat b) = of_nat (fx - b)"
      unfolding field_reads holdsD [OF h3 S(3)] put_apply using G(2) ne(1) by simp
    moreover have "sz \<le> fx - b" "fx - b - sz = fx - s" using sz by (simp_all add: s_def)
    ultimately show ?thesis using of_nat_u32_diff [of sz "fx - b"] by simp
  qed
  have r2: "b_next m4 (of_nat b) = of_nat sz"
    unfolding field_reads holdsD [OF h4 S(3)] put_apply using ne(1) by simp
  have "s \<in> S" using S(4) by (simp add: s_def)
  note h5 = hw [OF h4 S(3), of FNextFree "of_nat sz"]
  have r3: "b_prev (wr b FNextFree (of_nat sz) m4) (of_nat s) = of_nat sz"
    unfolding field_reads holdsD [OF h5 \<open>s \<in> S\<close>] put_apply using ne(1) by simp
  have n7: "next_blk m7 (of_nat s) = of_nat (b + n)"
  proof -
    have "b_next m7 (of_nat s) = of_nat (n - sz)"
      unfolding field_reads holdsD [OF h7 \<open>s \<in> S\<close>] G1_def put_apply s_def [symmetric]
      using ne(1) by simp
    moreover have "n - sz < 2 ^ 32" "s + (n - sz) = b + n" using sz by (simp_all add: s_def)
    ultimately show ?thesis
      unfolding next_blk_def by (simp only: ucast_u32_u64 of_nat_add [symmetric])
  qed
  have n8: "nfree m8 (of_nat s) = of_nat fx"
  proof -
    have "b_next_free m8 (of_nat s) = of_nat (fx - s)"
      unfolding field_reads holdsD [OF h8 \<open>s \<in> S\<close>] G2_def G1_def put_apply s_def [symmetric]
      using ne by (simp add: put_apply)
    moreover have "fx - s < 2 ^ 32" "s + (fx - s) = fx" using sz by (simp_all add: s_def)
    ultimately show ?thesis
      unfolding nfree_def by (simp only: ucast_u32_u64 of_nat_add [symmetric])
  qed
  have q: "b_prev m7 (of_nat (b + n)) = G1 (b + n) FPrev" "b_prev_free m8 (of_nat fx) = G2 fx FPrevFree"
    using holdsD [OF h7 S(5)] holdsD [OF h8 S(6)] by (simp_all only: field_reads)
  have c: "(of_nat (b + n) :: u64) \<noteq> a_end a \<longleftrightarrow> b + n \<noteq> e" "(of_nat fx :: u64) \<noteq> a_end a \<longleftrightarrow> fx \<noteq> e"
    using e of_nat_u64_eq_iff [of "b + n" e] of_nat_u64_eq_iff [of fx e] by auto
  have "split_blk a (of_nat b) (of_nat sz) m =
      (if fx \<noteq> e then wr fx FPrevFree (G2 fx FPrevFree - of_nat sz) m8 else m8)"
    unfolding split_blk_def Let_def s field_writes r0 m1_def [symmetric] m3_def [symmetric] r1
      m4_def [symmetric] r2 r3 m7_def [symmetric] n7 c q m8_def [symmetric] n8 ..
  moreover have "touch ?W m (if fx \<noteq> e then wr fx FPrevFree (G2 fx FPrevFree - of_nat sz) m8 else m8)"
    unfolding m8_def m7_def m4_def m3_def m1_def s_def
    using S(3-6) sepD [OF S(2)] by (auto intro!: touch_wr touch_refl)
  ultimately show ?thesis using h8 S(6) by (auto intro: hw)
qed

lemma use_block_first:
  assumes S: "holds S m G" "sep S" "b \<in> S" "fx \<in> S"
    and b: "a_free a = of_nat b" "b \<le> fx" "fx - b < 2 ^ 32"
    and G: "G b FNextFree = of_nat (fx - b)"
  obtains m' where "use_block a (of_nat b) m = (a\<lparr>a_free := of_nat fx\<rparr>, m')"
    "holds S m' (put b FUsed 1 (put fx FPrevFree 0 G))" "touch {(b, FUsed), (fx, FPrevFree)} m m'"
proof -
  note hw = holds_wr [OF _ S(2)]
  have "nfree m (of_nat b) = of_nat fx"
  proof -
    have "b_next_free m (of_nat b) = of_nat (fx - b)" unfolding field_reads holdsD [OF S(1,3)] by (rule G)
    moreover have "b + (fx - b) = fx" using b by simp
    ultimately show ?thesis
      unfolding nfree_def using b(3) by (simp only: ucast_u32_u64 of_nat_add [symmetric])
  qed
  then have "use_block a (of_nat b) m =
      (a\<lparr>a_free := of_nat fx\<rparr>, wr b FUsed 1 (wr fx FPrevFree 0 m))"
    by (simp add: use_block_def Let_def b(1) field_writes)
  moreover have "holds S (wr b FUsed 1 (wr fx FPrevFree 0 m)) (put b FUsed 1 (put fx FPrevFree 0 G))"
    using S by (intro hw) simp_all
  moreover have "touch {(b, FUsed), (fx, FPrevFree)} m (wr b FUsed 1 (wr fx FPrevFree 0 m))"
    using S sepD [OF S(2)] by (auto intro!: touch_wr touch_refl)
  ultimately show thesis by (rule that)
qed

lemma use_block_later:
  assumes S: "holds S m G" "sep S" "b \<in> S" "fx \<in> S" "q \<in> S"
    and b: "a_free a \<noteq> of_nat b" "b \<le> fx" "fx - b < 2 ^ 32" "q < b" "b - q < 2 ^ 32"
    and e: "a_end a = of_nat e" "e < 2 ^ 64" "fx < 2 ^ 64"
    and G: "G b FNextFree = of_nat (fx - b)" "G b FPrevFree = of_nat (b - q)"
  defines "G1 \<equiv> put q FNextFree (G q FNextFree + G b FNextFree) G"
  obtains m' where "use_block a (of_nat b) m = (a, m')"
    "holds S m' (put b FUsed 1 (if fx \<noteq> e
       then put fx FPrevFree (G1 fx FPrevFree + G1 b FPrevFree) G1 else G1))"
    "touch {(b, FUsed), (q, FNextFree), (fx, FPrevFree)} m m'"
proof -
  note hw = holds_wr [OF _ S(2)]
  have pq: "pfree m (of_nat b) = of_nat q"
  proof -
    have "b_prev_free m (of_nat b) = of_nat (b - q)" unfolding field_reads holdsD [OF S(1,3)] by (rule G)
    moreover have "(of_nat b - of_nat (b - q) :: u64) = of_nat q"
      using b(4) by (simp add: of_nat_diff)
    ultimately show ?thesis unfolding pfree_def by (simp only: ucast_u32_u64 [OF b(5)])
  qed
  let ?m1 = "wr q FNextFree (G q FNextFree + G b FNextFree) m"
  have h1: "holds S ?m1 G1" unfolding G1_def by (rule hw [OF S(1,5)])
  have r: "b_next_free m (of_nat q) + b_next_free m (of_nat b) = G q FNextFree + G b FNextFree"
    unfolding field_reads holdsD [OF S(1,3)] holdsD [OF S(1,5)] ..
  have n1: "nfree ?m1 (of_nat b) = of_nat fx"
  proof -
    have "b_next_free ?m1 (of_nat b) = of_nat (fx - b)"
      unfolding field_reads holdsD [OF h1 S(3)] G1_def put_apply using G(1) b(4) by simp
    moreover have "b + (fx - b) = fx" using b by simp
    ultimately show ?thesis
      unfolding nfree_def using b(3) by (simp only: ucast_u32_u64 of_nat_add [symmetric])
  qed
  have r1: "b_prev_free ?m1 (of_nat fx) + b_prev_free ?m1 (of_nat b) = G1 fx FPrevFree + G1 b FPrevFree"
    unfolding field_reads holdsD [OF h1 S(3)] holdsD [OF h1 S(4)] ..
  have c: "(of_nat fx :: u64) \<noteq> a_end a \<longleftrightarrow> fx \<noteq> e"
    using e of_nat_u64_eq_iff [of fx e] by auto
  let ?m2 = "if fx \<noteq> e then wr fx FPrevFree (G1 fx FPrevFree + G1 b FPrevFree) ?m1 else ?m1"
  have "use_block a (of_nat b) m = (a, wr b FUsed 1 ?m2)"
    unfolding use_block_def Let_def pq field_writes r n1 r1 c using b(1) by auto
  moreover have "holds S (wr b FUsed 1 ?m2) (put b FUsed 1 (if fx \<noteq> e
       then put fx FPrevFree (G1 fx FPrevFree + G1 b FPrevFree) G1 else G1))"
    using S(3,4) h1 by (intro hw) (auto intro: hw)
  moreover have "touch {(b, FUsed), (q, FNextFree), (fx, FPrevFree)} m (wr b FUsed 1 ?m2)"
    using S(3-5) sepD [OF S(2)] by (auto intro!: touch_wr touch_refl)
  ultimately show thesis by (rule that)
qed

section \<open>The list operations on the block list\<close>

definition all_used :: "blocks \<Rightarrow> bool" where
  "all_used bs \<longleftrightarrow> (\<forall>b \<in> set bs. snd b)"

lemma all_used_simps [simp]:
  "all_used []" "all_used ((n, u) # bs) \<longleftrightarrow> u \<and> all_used bs"
  by (auto simp: all_used_def)

lemma next_free_from_cases:
  "next_free_from a bs nf = (if all_used bs then nf else next_free_from a bs 0)"
  by (induction a bs nf rule: next_free_from.induct) auto

lemma last_free_cases:
  "last_free pf a bs = (if all_used bs then pf else last_free None a bs)"
proof (induction bs arbitrary: pf a)
  case (Cons b bs)
  obtain n u where b: "b = (n, u)" by (cases b)
  show ?case
    using Cons.IH [of "if u then pf else Some a" "a + n"] Cons.IH [of "Some a" "a + n"] b by auto
qed simp

lemma next_free_from_in: "\<not> all_used bs \<Longrightarrow> next_free_from a bs nf \<in> addrs a bs"
  by (induction a bs nf rule: next_free_from.induct) auto

lemma last_free_in: "last_free None a bs = Some l \<Longrightarrow> l \<in> addrs a bs"
proof (induction bs arbitrary: a)
  case (Cons b bs)
  obtain n u where b: "b = (n, u)" by (cases b)
  show ?case
    using Cons b last_free_cases [of "Some a" "a + n" bs] by (auto split: if_splits)
qed simp

lemma last_free_None_iff: "last_free None a bs = None \<longleftrightarrow> all_used bs"
proof (induction bs arbitrary: a)
  case (Cons b bs)
  obtain n u where b: "b = (n, u)" by (cases b)
  show ?case using Cons.IH b last_free_cases [of "Some a" "a + n" bs] by auto
qed simp

text \<open>Changing what lies before a list: the first block's \<open>prev\<close> and the first free block's \<open>prev_free\<close>.\<close>

lemma chain_relink:
  assumes "chain G p pf a bs nf"
    and "\<And>x f. x \<in> addrs a bs \<Longrightarrow> \<not> (x = a \<and> f = FPrev) \<Longrightarrow>
      \<not> (x = next_free_from a bs nf \<and> f = FPrevFree) \<Longrightarrow> G' x f = G x f"
    and "bs \<noteq> [] \<Longrightarrow> G' a FPrev = of_nat p'"
    and "\<not> all_used bs \<Longrightarrow> G' (next_free_from a bs nf) FPrevFree
      = of_nat (back_dist pf' (next_free_from a bs nf))"
  shows "chain G' p' pf' a bs nf"
  using assms
proof (induction bs arbitrary: p pf a p')
  case (Cons b bs)
  obtain n u where b: "b = (n, u)" by (cases b)
  have c: "chain G n (if u then pf else Some a) (a + n) bs nf" and n: "20 \<le> n"
    using Cons.prems(1) b by auto
  have tail: "x \<noteq> a" if "x \<in> addrs (a + n) bs" for x
    using addrs_range [OF c that] n by auto
  show ?case
  proof (cases u)
    case True
    have "chain G' n pf' (a + n) bs nf"
    proof (rule Cons.IH [OF c [unfolded if_P [OF True]]])
      show "G' x f = G x f" if "x \<in> addrs (a + n) bs" "\<not> (x = a + n \<and> f = FPrev)"
        "\<not> (x = next_free_from (a + n) bs nf \<and> f = FPrevFree)" for x f
        using Cons.prems(2) [of x f] that tail [OF that(1)] b True by auto
      show "G' (a + n) FPrev = of_nat n" if "bs \<noteq> []"
      proof -
        obtain n2 u2 bs2 where bs: "bs = (n2, u2) # bs2" using \<open>bs \<noteq> []\<close> by (cases bs) auto
        then have "G (a + n) FPrev = of_nat n" using c by simp
        then show ?thesis using Cons.prems(2) [of "a + n" FPrev] n b bs by simp
      qed
    qed (use Cons.prems(4) b True in simp)
    then show ?thesis using Cons.prems b True by auto
  next
    case False
    have "chain G' n (Some a) (a + n) bs nf = chain G n (Some a) (a + n) bs nf"
      using Cons.prems(2) tail b False by (intro chain_cong) auto
    then show ?thesis using Cons.prems b False by auto
  qed
qed simp

lemma chain_first_free:
  "chain G p pf a bs nf \<Longrightarrow> \<not> all_used bs \<Longrightarrow>
   G (next_free_from a bs nf) FPrevFree = of_nat (back_dist pf (next_free_from a bs nf))"
  by (induction bs arbitrary: p pf a) auto

lemma chain_first_prev: "chain G p pf a bs nf \<Longrightarrow> bs \<noteq> [] \<Longrightarrow> G a FPrev = of_nat p"
  by (cases bs) auto

text \<open>Changing what follows on the free list: the last free block's \<open>next_free\<close>.\<close>

lemma chain_renext:
  assumes "chain G p pf a bs nf"
    and "\<And>x f. x \<in> addrs a bs \<Longrightarrow> \<not> (last_free None a bs = Some x \<and> f = FNextFree) \<Longrightarrow> G' x f = G x f"
    and "\<And>l. last_free None a bs = Some l \<Longrightarrow> G' l FNextFree = of_nat (nf' - l)"
  shows "chain G' p pf a bs nf'"
  using assms
proof (induction bs arbitrary: p pf a)
  case (Cons b bs)
  obtain n u where b: "b = (n, u)" by (cases b)
  have c: "chain G n (if u then pf else Some a) (a + n) bs nf" and n: "20 \<le> n"
    using Cons.prems(1) b by auto
  have tail: "x \<noteq> a" if "x \<in> addrs (a + n) bs" for x
    using addrs_range [OF c that] n by auto
  have lf: "last_free None a (b # bs) =
      (if all_used bs then (if u then None else Some a) else last_free None (a + n) bs)"
    using b last_free_cases [of "Some a" "a + n" bs] last_free_None_iff [of "a + n" bs] by auto
  have "chain G' n (if u then pf else Some a) (a + n) bs nf'"
  proof (rule Cons.IH [OF c])
    show "G' x f = G x f" if "x \<in> addrs (a + n) bs"
      "\<not> (last_free None (a + n) bs = Some x \<and> f = FNextFree)" for x f
      using Cons.prems(2) [of x f] that tail [OF that(1)] b lf by (auto split: if_splits)
    show "G' l FNextFree = of_nat (nf' - l)" if "last_free None (a + n) bs = Some l" for l
      using Cons.prems(3) [of l] that lf last_free_None_iff [of "a + n" bs] by auto
  qed
  moreover have "G' a f = G a f" if "\<not> (\<not> u \<and> all_used bs \<and> f = FNextFree)" for f
  proof -
    have "last_free None a (b # bs) \<noteq> Some a \<or> f \<noteq> FNextFree"
      using that lf last_free_in [of "a + n" bs a] tail [of a] by (auto split: if_splits)
    then show ?thesis using Cons.prems(2) [of a f] b by auto
  qed
  moreover have "\<not> u \<Longrightarrow> G' a FNextFree = of_nat (next_free_from (a + n) bs nf' - a)"
    using Cons.prems(1,3) lf b next_free_from_cases [of "a + n" bs nf]
      next_free_from_cases [of "a + n" bs nf'] calculation(2) [of FNextFree] by (cases "all_used bs") auto
  ultimately show ?case using Cons.prems(1) b n by auto
qed simp

section \<open>Payloads\<close>

text \<open>The bytes behind the header of every used block are the same in both memories.\<close>

fun payload_same :: "nat \<Rightarrow> blocks \<Rightarrow> memory \<Rightarrow> memory \<Rightarrow> bool" where
  "payload_same a [] m m' = True"
| "payload_same a ((n, u) # bs) m m' \<longleftrightarrow>
     (u \<longrightarrow> (\<forall>i. a + 12 \<le> i \<longrightarrow> i < a + n \<longrightarrow> m' (of_nat i) = m (of_nat i))) \<and>
     payload_same (a + n) bs m m'"

text \<open>A header field that lies in no used block's payload.\<close>

fun clear_of :: "nat \<Rightarrow> blocks \<Rightarrow> nat \<times> field \<Rightarrow> bool" where
  "clear_of a [] yf = True"
| "clear_of a ((n, u) # bs) yf \<longleftrightarrow>
     (u \<longrightarrow> fst yf + 20 \<le> a \<or> a + n \<le> fst yf \<or> fst yf = a \<and> snd yf \<in> {FPrev, FNext, FUsed}) \<and>
     clear_of (a + n) bs yf"

lemma payload_same_append [simp]:
  "payload_same a (xs @ ys) m m' \<longleftrightarrow> payload_same a xs m m' \<and> payload_same (a + total xs) ys m m'"
  by (induction xs arbitrary: a) (auto simp: ac_simps)

lemma payload_same_refl [simp]: "payload_same a bs m m"
  by (induction bs arbitrary: a) auto

lemma payload_same_trans: "payload_same a bs m m' \<Longrightarrow> payload_same a bs m' m'' \<Longrightarrow> payload_same a bs m m''"
  by (induction bs arbitrary: a) auto

lemma clear_of_append [simp]:
  "clear_of a (xs @ ys) yf \<longleftrightarrow> clear_of a xs yf \<and> clear_of (a + total xs) ys yf"
  by (induction xs arbitrary: a) (auto simp: ac_simps)

lemma clear_of_below: "y + 20 \<le> a \<Longrightarrow> clear_of a bs (y, f)"
  by (induction bs arbitrary: a) auto

lemma clear_of_above: "a + total bs \<le> y \<Longrightarrow> clear_of a bs (y, f)"
  by (induction bs arbitrary: a) auto

lemma clear_of_start:
  assumes "sizes_ok bs" "f \<in> {FPrev, FNext, FUsed}"
  shows "clear_of a bs (a, f)"
proof (cases bs)
  case (Cons b bs')
  obtain n u where b: "b = (n, u)" by (cases b)
  have "clear_of (a + n) bs' (a, f)" using assms(1) Cons b by (intro clear_of_below) auto
  then show ?thesis using assms Cons b by auto
qed simp

lemma clear_of_free:
  assumes "sizes_ok xs" "sizes_ok ys" "20 \<le> n"
  shows "clear_of a (xs @ (n, False) # ys) (a + total xs, f)"
  using assms clear_of_above [of a xs "a + total xs" f] clear_of_below [of "a + total xs" "a + total xs + n" ys f]
  by simp

lemma next_free_split:
  assumes "\<not> all_used bs"
  obtains xs n ys where "bs = xs @ (n, False) # ys" "next_free_from a bs nf = a + total xs"
  using assms
proof (induction bs arbitrary: a thesis)
  case (Cons b bs)
  obtain n u where b: "b = (n, u)" by (cases b)
  show ?case
  proof (cases u)
    case True
    then have "\<not> all_used bs" using Cons.prems(2) b by simp
    then obtain xs k ys where "bs = xs @ (k, False) # ys" "next_free_from (a + n) bs nf = a + n + total xs"
      using Cons.IH [of "a + n"] by blast
    then show ?thesis using Cons.prems(1) [of "b # xs" k ys] b True by simp
  next
    case False
    then show ?thesis using Cons.prems(1) [of "[]" n bs] b by simp
  qed
qed simp

lemma clear_of_next_free:
  assumes "sizes_ok bs" "a + total bs \<le> nf"
  shows "clear_of a bs (next_free_from a bs nf, f)"
proof (cases "all_used bs")
  case True
  then show ?thesis using assms next_free_from_cases [of a bs nf] by (simp add: clear_of_above)
next
  case False
  then obtain xs n ys where "bs = xs @ (n, False) # ys" "next_free_from a bs nf = a + total xs"
    by (rule next_free_split)
  then show ?thesis using assms clear_of_free [of xs ys n a f] by simp
qed

lemma last_free_split:
  assumes "last_free None a bs = Some l"
  obtains xs n ys where "bs = xs @ (n, False) # ys" "l = a + total xs"
  using assms
proof (induction bs arbitrary: a thesis)
  case (Cons b bs)
  obtain n u where b: "b = (n, u)" by (cases b)
  show ?case
  proof (cases "all_used bs")
    case True
    then have "\<not> u" "l = a"
      using Cons.prems(2) b last_free_cases [of "Some a" "a + n" bs] last_free_None_iff [of "a + n" bs]
      by (auto split: if_splits)
    then show ?thesis using Cons.prems(1) [of "[]" n bs] b by simp
  next
    case False
    then have "last_free None (a + n) bs = Some l"
      using Cons.prems(2) b last_free_cases [of "Some a" "a + n" bs] by (auto split: if_splits)
    then obtain xs k ys where "bs = xs @ (k, False) # ys" "l = a + n + total xs"
      using Cons.IH [of "a + n"] by blast
    then show ?thesis using Cons.prems(1) [of "b # xs" k ys] b by simp
  qed
qed simp

lemma clear_of_last_free:
  assumes "sizes_ok bs" "last_free None a bs = Some l"
  shows "clear_of a bs (l, f)"
  using assms(2) by (rule last_free_split) (use assms(1) clear_of_free in auto)

lemma payload_same_touch:
  assumes "touch W m m'" "\<forall>yf \<in> W. clear_of a bs yf" "a + total bs \<le> 2 ^ 64"
  shows "payload_same a bs m m'"
  using assms(2,3)
proof (induction bs arbitrary: a)
  case (Cons b bs)
  obtain n u where b: "b = (n, u)" by (cases b)
  have "m' (of_nat i) = m (of_nat i)" if "u" "a + 12 \<le> i" "i < a + n" for i
  proof -
    have "i < y + off f \<or> y + off f + 4 \<le> i" if "(y, f) \<in> W" for y f
      using Cons.prems(1) \<open>(y, f) \<in> W\<close> \<open>u\<close> \<open>a + 12 \<le> i\<close> \<open>i < a + n\<close> b by (cases f) (force simp: off_def)+
    moreover have "i < 2 ^ 64" using Cons.prems(2) b that(3) by simp
    ultimately show ?thesis using assms(1) unfolding touch_def by blast
  qed
  moreover have "payload_same (a + n) bs m m'"
    using Cons.prems b by (intro Cons.IH) auto
  ultimately show ?case using b by simp
qed simp

section \<open>The invariant\<close>

definition alloc_inv :: "nat \<Rightarrow> blocks \<Rightarrow> alloc_t \<Rightarrow> memory \<Rightarrow> bool" where
  "alloc_inv base bs a m \<longleftrightarrow>
     0 < base \<and> a_base a = of_nat base \<and> a_end a = of_nat (base + total bs) \<and>
     total bs < 2 ^ 32 \<and> base + total bs + 20 \<le> 2 ^ 64 \<and>
     a_free a = of_nat (next_free_from base bs (base + total bs)) \<and>
     chain (hd_at m) 0 None base bs (base + total bs)"

lemma alloc_invD:
  assumes "alloc_inv base bs a m"
  shows "0 < base" "a_base a = of_nat base" "a_end a = of_nat (base + total bs)"
    "total bs < 2 ^ 32" "base + total bs + 20 \<le> 2 ^ 64"
    "a_free a = of_nat (next_free_from base bs (base + total bs))"
    "chain (hd_at m) 0 None base bs (base + total bs)" "sizes_ok bs"
  using assms chain_sizes_ok unfolding alloc_inv_def by blast+

lemma next_free_from_range:
  assumes "sizes_ok bs" "a + total bs \<le> nf"
  shows "a \<le> next_free_from a bs nf" "next_free_from a bs nf \<le> nf"
    "next_free_from a bs nf = nf \<or> next_free_from a bs nf \<in> addrs a bs"
proof -
  show *: "next_free_from a bs nf = nf \<or> next_free_from a bs nf \<in> addrs a bs"
    using next_free_from_in [of bs a nf] next_free_from_cases [of a bs nf] by auto
  then show "a \<le> next_free_from a bs nf" "next_free_from a bs nf \<le> nf"
    using addrs_range_ok [OF assms(1)] assms(2) by (metis add_leD1 order_trans le_refl)+
qed

lemma split_inv:
  assumes inv: "alloc_inv base (xs @ (n, False) # ys) a m" and sz: "20 \<le> sz" "sz + 20 \<le> n"
  shows "alloc_inv base (xs @ (sz, False) # (n - sz, False) # ys) a
      (split_blk a (of_nat (base + total xs)) (of_nat sz) m)"
    "payload_same base (xs @ (n, False) # ys) m (split_blk a (of_nat (base + total xs)) (of_nat sz) m)"
proof -
  define b where "b = base + total xs"
  define e where "e = base + total (xs @ (n, False) # ys)"
  let ?bs = "xs @ (n, False) # ys" and ?bs' = "xs @ (sz, False) # (n - sz, False) # ys"
  let ?m = "split_blk a (of_nat b) (of_nat sz) m"
  note I = alloc_invD [OF inv]
  have e: "e = b + n + total ys" "base + total ?bs' = e" "e < 2 ^ 64"
    using sz I(5) by (simp_all add: b_def e_def)
  define fx where "fx = next_free_from (b + n) ys e"
  have ysok: "sizes_ok ys" "sizes_ok xs" using I(8) by simp_all
  note fxr = next_free_from_range [OF ysok(1), of "b + n" e, folded fx_def]
  have ch: "chain (hd_at m) 0 None base xs b"
      "hd_at m b FPrev = of_nat (last_size 0 xs)" "hd_at m b FNext = of_nat n" "hd_at m b FUsed = 0"
      "hd_at m b FNextFree = of_nat (fx - b)" "hd_at m b FPrevFree = of_nat (back_dist (last_free None base xs) b)"
      "chain (hd_at m) n (Some b) (b + n) ys e"
    using I(7) by (simp_all add: b_def e_def fx_def)
  define S where "S = insert e (addrs base ?bs')"
  have ok': "sizes_ok ?bs'" using ysok sz by simp
  have sep: "sep S" using sep_addrs [OF ok', of base] I(5) e by (simp add: S_def e_def)
  have ySe: "addrs (b + n) ys \<subseteq> S"
    using sz by (auto simp: S_def b_def add.assoc)
  have inS: "b \<in> S" "b + sz \<in> S" "fx \<in> S" "b + n \<in> S"
  proof -
    show "b \<in> S" "b + sz \<in> S" by (simp_all add: S_def b_def)
    show "fx \<in> S" using fxr(3) e ySe by (auto simp: S_def)
    show "b + n \<in> S" using ySe e by (cases ys) (auto simp: S_def)
  qed
  have lt: "0 < sz" "sz < n" "n < 2 ^ 32" "b + n \<le> fx" "fx - b < 2 ^ 32" "b + n \<le> e" "fx \<le> e"
    using sz I(4) fxr e by (auto simp: b_def)
  have ae: "a_end a = of_nat e" using I(3) by (simp add: e_def)
  define G1 where "G1 = put (b + sz) FUsed 0 (put (b + sz) FPrevFree (of_nat sz) (put b FNextFree (of_nat sz)
      (put (b + sz) FNextFree (of_nat (fx - (b + sz))) (put (b + sz) FPrev (of_nat sz)
        (put b FNext (of_nat sz) (put (b + sz) FNext (of_nat (n - sz)) (hd_at m)))))))"
  define G2 where "G2 = (if b + n \<noteq> e then put (b + n) FPrev (G1 (b + n) FPrev - of_nat sz) G1 else G1)"
  define G' where "G' = (if fx \<noteq> e then put fx FPrevFree (G2 fx FPrevFree - of_nat sz) G2 else G2)"
  note Gd = G'_def G2_def G1_def put_apply
  have H: "holds S ?m G'" and T: "touch ({b + sz, b} \<times> UNIV \<union> (if b + n \<noteq> e then {(b + n, FPrev)} else {}) \<union>
      (if fx \<noteq> e then {(fx, FPrevFree)} else {})) m ?m"
    using split_holds [OF holds_hd_at(2) sep inS(1,2,4,3) ae e(3) lt(6,7) lt(1-5) ch(3,5)]
    unfolding G'_def G2_def G1_def by blast+
  have same: "G' x f = hd_at m x f" if "x \<noteq> b" "x \<noteq> b + sz" "\<not> (x = b + n \<and> f = FPrev)"
    "\<not> (x = fx \<and> f = FPrevFree)" for x f
    using that by (auto simp: Gd)
  have "chain G' 0 None base xs b"
  proof -
    have "x \<noteq> b \<and> x \<noteq> b + sz \<and> x \<noteq> b + n \<and> x \<noteq> fx" if "x \<in> addrs base xs" for x
      using addrs_range_ok [OF ysok(2) that] lt(4) by (auto simp: b_def)
    then have "chain (hd_at m) 0 None base xs b = chain G' 0 None base xs b"
      using same by (intro chain_cong) auto
    then show ?thesis using ch(1) by simp
  qed
  moreover have "chain G' (n - sz) (Some (b + sz)) (b + n) ys e"
  proof (rule chain_relink [OF ch(7)], unfold fx_def [symmetric])
    show "G' x f = hd_at m x f" if "x \<in> addrs (b + n) ys" "\<not> (x = b + n \<and> f = FPrev)"
      "\<not> (x = fx \<and> f = FPrevFree)" for x f
      using addrs_range_ok [OF ysok(1) that(1)] that(2,3) lt(1,2) by (intro same) auto
    show "G' (b + n) FPrev = of_nat (n - sz)" if "ys \<noteq> []"
    proof -
      have "b + n \<noteq> e" using that ysok(1) e(1) by (cases ys) auto
      moreover have "hd_at m (b + n) FPrev = of_nat n" using chain_first_prev [OF ch(7) that] .
      ultimately show ?thesis
        using lt(1,2) of_nat_u32_diff [of sz n] by (simp add: Gd)
    qed
    show "G' fx FPrevFree = of_nat (back_dist (Some (b + sz)) fx)" if "\<not> all_used ys"
    proof -
      have "fx \<in> addrs (b + n) ys" unfolding fx_def by (rule next_free_from_in [OF that])
      then have "fx \<noteq> e" using addrs_range_ok [OF ysok(1)] e(1) by force
      moreover have "hd_at m fx FPrevFree = of_nat (fx - b)"
        using chain_first_free [OF ch(7) that] by (simp add: fx_def back_dist_def)
      ultimately show ?thesis
        using lt(1,2,4) of_nat_u32_diff [of sz "fx - b"] by (simp add: Gd back_dist_def)
    qed
  qed
  moreover have "G' b FPrev = of_nat (last_size 0 xs)" "G' b FNext = of_nat sz" "G' b FUsed = 0"
      "G' b FNextFree = of_nat sz" "G' b FPrevFree = of_nat (back_dist (last_free None base xs) b)"
      "G' (b + sz) FPrev = of_nat sz" "G' (b + sz) FNext = of_nat (n - sz)" "G' (b + sz) FUsed = 0"
      "G' (b + sz) FNextFree = of_nat (fx - (b + sz))" "G' (b + sz) FPrevFree = of_nat sz"
    using ch(2,4,6) lt by (auto simp: Gd)
  moreover have "b + sz + (n - sz) = b + n" "20 \<le> n - sz" using sz by simp_all
  ultimately have "chain G' 0 None base ?bs' e"
    using sz(1) by (simp add: b_def [symmetric] fx_def [symmetric] back_dist_def)
  moreover have "chain (hd_at ?m) 0 None base ?bs' e = chain G' 0 None base ?bs' e"
    using H by (intro chain_cong) (auto simp: holds_def S_def)
  moreover have "next_free_from base ?bs' e = next_free_from base ?bs e"
    by (simp add: b_def)
  moreover have "total ?bs' = total ?bs" using sz by simp
  ultimately show "alloc_inv base ?bs' a (split_blk a (of_nat (base + total xs)) (of_nat sz) m)"
    using I(1-6) unfolding alloc_inv_def b_def [symmetric] by (simp only: e_def)
  have "clear_of base ?bs (b + k, f)" if "k \<le> sz" for k f
    using clear_of_above [of base xs "b + k" f] clear_of_below [of "b + k" "b + n" ys f] sz that
    by (simp add: b_def)
  from this [of 0] this [of sz]
  have "clear_of base ?bs (b, f)" "clear_of base ?bs (b + sz, f)" for f by simp_all
  moreover have "clear_of base ?bs (b + n, FPrev)"
    using clear_of_above [of base xs "b + n" FPrev] clear_of_start [OF ysok(1), of FPrev "b + n"]
    by (simp add: b_def)
  moreover have "clear_of base ?bs (fx, FPrevFree)"
    using clear_of_above [of base xs fx FPrevFree] clear_of_next_free [OF ysok(1), of "b + n" e FPrevFree] lt(4) e(1)
    by (simp add: b_def fx_def)
  ultimately show "payload_same base ?bs m (split_blk a (of_nat (base + total xs)) (of_nat sz) m)"
    using T e(3) unfolding b_def [symmetric] by (intro payload_same_touch [OF T]) (auto simp: e_def)
qed

lemma last_free_range:
  assumes "sizes_ok bs" "last_free None a bs = Some l"
  shows "a \<le> l" "l + 20 \<le> a + total bs"
  using addrs_range_ok [OF assms(1) last_free_in [OF assms(2)]] by simp_all

lemma chain_last_free:
  "chain G p pf a bs nf \<Longrightarrow> last_free None a bs = Some l \<Longrightarrow> G l FNextFree = of_nat (nf - l)"
proof (induction bs arbitrary: p pf a)
  case (Cons b bs)
  obtain n u where b: "b = (n, u)" by (cases b)
  show ?case
    using Cons b last_free_cases [of "Some a" "a + n" bs] next_free_from_cases [of "a + n" bs nf]
    by (auto split: if_splits)
qed simp

lemma use_inv:
  assumes inv: "alloc_inv base (xs @ (n, False) # ys) a m"
    and use: "use_block a (of_nat (base + total xs)) m = (a', m')"
  shows "alloc_inv base (xs @ (n, True) # ys) a' m' \<and> payload_same base (xs @ (n, False) # ys) m m'"
proof -
  define b where "b = base + total xs"
  define e where "e = base + total (xs @ (n, False) # ys)"
  let ?bs = "xs @ (n, False) # ys" and ?bs' = "xs @ (n, True) # ys"
  note I = alloc_invD [OF inv]
  have e: "e = b + n + total ys" "e < 2 ^ 64" using I(5) by (simp_all add: b_def e_def)
  define fx where "fx = next_free_from (b + n) ys e"
  have ok: "sizes_ok ys" "sizes_ok xs" "20 \<le> n" using I(8) by simp_all
  note fxr = next_free_from_range [OF ok(1), of "b + n" e, folded fx_def]
  have ch: "chain (hd_at m) 0 None base xs b"
      "hd_at m b FPrev = of_nat (last_size 0 xs)" "hd_at m b FNext = of_nat n"
      "hd_at m b FNextFree = of_nat (fx - b)" "hd_at m b FPrevFree = of_nat (back_dist (last_free None base xs) b)"
      "chain (hd_at m) n (Some b) (b + n) ys e"
    using I(7) by (simp_all add: b_def e_def fx_def)
  define S where "S = insert e (addrs base ?bs)"
  have sep: "sep S" using sep_addrs [OF I(8) I(5)] by (simp add: S_def e_def)
  have inS: "b \<in> S" "fx \<in> S" using fxr(3) e by (auto simp: S_def b_def)
  have lt: "b \<le> fx" "fx - b < 2 ^ 32" "fx \<le> e" "fx < 2 ^ 64" "b + n \<le> fx"
    using I(4) fxr e by (auto simp: b_def)
  have ae: "a_end a = of_nat e" using I(3) by (simp add: e_def)
  have af: "a_free a = of_nat (next_free_from base xs b)"
    using I(6) by (simp add: b_def [symmetric])
  have tail: "chain G' n (last_free None base xs) (b + n) ys e"
    if t: "\<And>x f. b + n \<le> x \<Longrightarrow> x + 20 \<le> e \<Longrightarrow> \<not> (x = fx \<and> f = FPrevFree) \<Longrightarrow> G' x f = hd_at m x f"
      "fx \<noteq> e \<Longrightarrow> G' fx FPrevFree = of_nat (back_dist (last_free None base xs) fx)" for G'
  proof (rule chain_relink [OF ch(6)], unfold fx_def [symmetric])
    show "G' x f = hd_at m x f" if "x \<in> addrs (b + n) ys" "\<not> (x = b + n \<and> f = FPrev)"
      "\<not> (x = fx \<and> f = FPrevFree)" for x f
      using addrs_range_ok [OF ok(1) that(1)] e(1) that(3) by (intro t(1)) auto
    show "G' (b + n) FPrev = of_nat n" if "ys \<noteq> []"
    proof -
      have "b + n + 20 \<le> e" using that ok(1) e(1) by (cases ys) auto
      then show ?thesis using chain_first_prev [OF ch(6) that] t(1) [of "b + n" FPrev] by auto
    qed
    show "G' fx FPrevFree = of_nat (back_dist (last_free None base xs) fx)" if "\<not> all_used ys"
    proof -
      have "fx \<in> addrs (b + n) ys" unfolding fx_def by (rule next_free_from_in [OF that])
      then have "fx \<noteq> e" using addrs_range_ok [OF ok(1)] e(1) by force
      then show ?thesis by (rule t(2))
    qed
  qed
  have pay: "payload_same base ?bs m m'"
    if t: "touch (insert (b, FUsed) (insert (fx, FPrevFree) W)) m m'" "\<And>yf. yf \<in> W \<Longrightarrow> clear_of base ?bs yf" for W
  proof (rule payload_same_touch [OF t(1)])
    have "clear_of base ?bs (b, FUsed)" using clear_of_free [OF ok(2,1,3), of base FUsed] by (simp add: b_def)
    moreover have "clear_of base ?bs (fx, FPrevFree)"
      using clear_of_above [of base xs fx FPrevFree] clear_of_next_free [OF ok(1), of "b + n" e FPrevFree] lt(1) e(1)
      by (simp add: b_def fx_def)
    ultimately show "\<forall>yf \<in> insert (b, FUsed) (insert (fx, FPrevFree) W). clear_of base ?bs yf"
      using t(2) by blast
    show "base + total ?bs \<le> 2 ^ 64" using I(5) by simp
  qed
  have fin: "alloc_inv base ?bs' a' m'"
    if G': "holds S m' G'" "chain G' 0 None base xs fx" "chain G' n (last_free None base xs) (b + n) ys e"
      "G' b FPrev = of_nat (last_size 0 xs)" "G' b FNext = of_nat n" "G' b FUsed = 1"
    and a': "a_base a' = a_base a" "a_end a' = a_end a" "a_free a' = of_nat (next_free_from base xs fx)" for G'
  proof -
    have "chain G' 0 None base ?bs' e"
      using G'(2-6) ok(3) by (simp add: b_def [symmetric] fx_def [symmetric])
    moreover have "chain (hd_at m') 0 None base ?bs' e = chain G' 0 None base ?bs' e"
      using G'(1) by (intro chain_cong) (auto simp: holds_def S_def)
    moreover have "next_free_from base ?bs' e = next_free_from base xs fx"
      by (simp add: b_def fx_def)
    moreover have "total ?bs' = total ?bs" by simp
    ultimately show ?thesis
      using I(1-5) a' unfolding alloc_inv_def by (simp only: e_def)
  qed
  show ?thesis
  proof (cases "last_free None base xs")
    case None
    then have u: "all_used xs" by (simp add: last_free_None_iff)
    then have n: "next_free_from base xs x = x" for x using next_free_from_cases by simp
    have "a_free a = of_nat b" using af n by simp
    then obtain m1 where m1: "use_block a (of_nat b) m = (a\<lparr>a_free := of_nat fx\<rparr>, m1)"
      "holds S m1 (put b FUsed 1 (put fx FPrevFree 0 (hd_at m)))" "touch {(b, FUsed), (fx, FPrevFree)} m m1"
      by (rule use_block_first [OF holds_hd_at(2) sep inS _ lt(1,2) ch(4)])
    let ?G = "put b FUsed 1 (put fx FPrevFree 0 (hd_at m))"
    have "chain (hd_at m) 0 None base xs b = chain ?G 0 None base xs b"
      using addrs_range_ok [OF ok(2), of _ base] lt(1) by (intro chain_cong) (force simp: put_apply b_def)
    then have "chain ?G 0 None base xs fx"
      using chain_renext [of ?G 0 None base xs b ?G fx] ch(1) None by simp
    moreover have "chain ?G n (last_free None base xs) (b + n) ys e"
      using None ok(3) lt(1,5) by (intro tail) (auto simp: put_apply back_dist_def)
    moreover have "a' = a\<lparr>a_free := of_nat fx\<rparr>" "m' = m1" using m1(1) use by (simp_all add: b_def)
    ultimately show ?thesis
      using m1 ch(2,3) n lt(5) ok(3) by (intro conjI fin [of ?G] pay [of "{}"]) (auto simp: put_apply)
  next
    case (Some q)
    have u: "\<not> all_used xs" using Some last_free_None_iff [of base xs] by auto
    have n: "next_free_from base xs x = next_free_from base xs b" for x
      using u next_free_from_cases [of base xs x] next_free_from_cases [of base xs b] by simp
    have q: "base \<le> q" "q + 20 \<le> b" "q \<in> S"
      using last_free_range [OF ok(2) Some] last_free_in [OF Some] by (auto simp: b_def S_def)
    have "next_free_from base xs b \<in> addrs base xs" by (rule next_free_from_in [OF u])
    then have nb: "next_free_from base xs b < b"
      using addrs_range_ok [OF ok(2)] by (force simp: b_def)
    then have "a_free a \<noteq> of_nat b"
      using af e lt of_nat_u64_eq_iff [of "next_free_from base xs b" b] by auto
    moreover have "q < b" "b - q < 2 ^ 32" using q I(4) by (auto simp: b_def)
    moreover have "hd_at m b FPrevFree = of_nat (b - q)" using ch(5) Some by (simp add: back_dist_def)
    moreover define G1 where
      "G1 = put q FNextFree (hd_at m q FNextFree + hd_at m b FNextFree) (hd_at m)"
    define G' where
      "G' = put b FUsed 1 (if fx \<noteq> e then put fx FPrevFree (G1 fx FPrevFree + G1 b FPrevFree) G1 else G1)"
    ultimately obtain m1 where m1: "use_block a (of_nat b) m = (a, m1)" "holds S m1 G'"
      "touch {(b, FUsed), (q, FNextFree), (fx, FPrevFree)} m m1"
      using use_block_later [OF holds_hd_at(2) sep inS q(3) _ lt(1,2) _ _ ae e(2) lt(4) ch(4)]
      unfolding G'_def G1_def by blast
    note Gd = G'_def G1_def put_apply
    have qn: "hd_at m q FNextFree + hd_at m b FNextFree = of_nat (fx - q)"
    proof -
      have "hd_at m q FNextFree = of_nat (b - q)" using chain_last_free [OF ch(1) Some] .
      moreover have "b - q + (fx - b) = fx - q" using q lt(1) by simp
      ultimately show ?thesis using ch(4) by (metis of_nat_add)
    qed
    have "chain G' 0 None base xs fx"
    proof (rule chain_renext [OF ch(1)])
      show "G' x f = hd_at m x f" if "x \<in> addrs base xs"
        "\<not> (last_free None base xs = Some x \<and> f = FNextFree)" for x f
        using addrs_range_ok [OF ok(2) that(1)] that(2) lt(1) Some by (auto simp: Gd b_def)
      show "G' l FNextFree = of_nat (fx - l)" if "last_free None base xs = Some l" for l
        using that Some qn q(2) lt(1) by (auto simp: Gd)
    qed
    moreover have "chain G' n (last_free None base xs) (b + n) ys e"
    proof (rule tail)
      show "G' x f = hd_at m x f" if "b + n \<le> x" "x + 20 \<le> e" "\<not> (x = fx \<and> f = FPrevFree)" for x f
        using that q ok(3) by (auto simp: Gd)
      show "G' fx FPrevFree = of_nat (back_dist (last_free None base xs) fx)" if "fx \<noteq> e"
      proof -
        have nu: "\<not> all_used ys"
          using that next_free_from_cases [of "b + n" ys e] by (auto simp: fx_def)
        have "hd_at m fx FPrevFree = of_nat (fx - b)"
          using chain_first_free [OF ch(6) nu] by (simp add: fx_def back_dist_def)
        moreover have "fx - b + (b - q) = fx - q" using q lt(1) by simp
        ultimately have "hd_at m fx FPrevFree + hd_at m b FPrevFree = of_nat (fx - q)"
          using ch(5) Some by (simp only: back_dist_def option.case of_nat_add [symmetric])
        then show ?thesis using that Some q lt(5) ok(3) by (simp add: Gd back_dist_def)
      qed
    qed
    moreover have "a_free a = of_nat (next_free_from base xs fx)" using af n [of fx] by simp
    moreover have "G' b FPrev = of_nat (last_size 0 xs)" "G' b FNext = of_nat n" "G' b FUsed = 1"
      using ch(2,3) lt(5) ok(3) q by (auto simp: Gd)
    moreover have "a' = a" "m' = m1" using m1(1) use by (simp_all add: b_def)
    moreover have "clear_of base ?bs (q, FNextFree)"
      using clear_of_last_free [OF ok(2) Some, of FNextFree] q(2) clear_of_below [of q "b + n" ys] by (simp add: b_def)
    ultimately show ?thesis
      using m1(2,3) by (intro conjI fin [of G'] pay [of "{(q, FNextFree)}"]) (simp_all add: insert_commute)
  qed
qed

section \<open>Best fit\<close>

text \<open>The first of the smallest free blocks of at least \<open>x\<close> bytes: address and size.\<close>

fun best_fit :: "nat \<Rightarrow> blocks \<Rightarrow> nat \<Rightarrow> (nat \<times> nat) option \<Rightarrow> (nat \<times> nat) option" where
  "best_fit a [] x best = best"
| "best_fit a ((n, u) # bs) x best =
     best_fit (a + n) bs x
       (if \<not> u \<and> x \<le> n \<and> (case best of None \<Rightarrow> True | Some (_, k) \<Rightarrow> n < k) then Some (a, n) else best)"

definition enc_best :: "(nat \<times> nat) option \<Rightarrow> u64" where
  "enc_best best = (case best of None \<Rightarrow> 0 | Some (c, _) \<Rightarrow> of_nat c)"

lemma best_fit_spec:
  assumes "best_fit a bs x best = r"
  shows "(r = best \<or> (\<exists>c n xs ys. r = Some (c, n) \<and> bs = xs @ (n, False) # ys \<and> c = a + total xs \<and> x \<le> n)) \<and>
    (\<forall>k. (k, False) \<in> set bs \<longrightarrow> x \<le> k \<longrightarrow> (\<exists>c n. r = Some (c, n) \<and> n \<le> k)) \<and>
    (\<forall>c k. best = Some (c, k) \<longrightarrow> (\<exists>c' n. r = Some (c', n) \<and> n \<le> k))"
  using assms
proof (induction bs arbitrary: a best)
  case (Cons b bs)
  obtain n u where b: "b = (n, u)" by (cases b)
  let ?best = "if \<not> u \<and> x \<le> n \<and> (case best of None \<Rightarrow> True | Some (_, k) \<Rightarrow> n < k) then Some (a, n) else best"
  have r: "best_fit (a + n) bs x ?best = r" using Cons.prems b by simp
  note IH = Cons.IH [OF r]
  have "r = best \<or> (\<exists>c k xs ys. r = Some (c, k) \<and> b # bs = xs @ (k, False) # ys \<and> c = a + total xs \<and> x \<le> k)"
  proof (cases "r = ?best")
    case True
    show ?thesis
    proof (cases "?best = best")
      case False
      then have "\<not> u" "x \<le> n" "r = Some (a, n)" using True by (auto split: if_splits)
      then have "r = Some (a, n) \<and> b # bs = [] @ (n, False) # bs \<and> a = a + total [] \<and> x \<le> n"
        using b by simp
      then show ?thesis by blast
    qed (use True in simp)
  next
    case False
    then obtain c k xs ys where "r = Some (c, k)" "bs = xs @ (k, False) # ys" "c = a + n + total xs" "x \<le> k"
      using IH by auto
    then have "r = Some (c, k) \<and> b # bs = (b # xs) @ (k, False) # ys \<and> c = a + total (b # xs) \<and> x \<le> k"
      using b by simp
    then show ?thesis by blast
  qed
  moreover have "\<exists>c k'. r = Some (c, k') \<and> k' \<le> k" if t: "(k, False) \<in> set (b # bs)" "x \<le> k" for k
  proof (cases "(k, False) \<in> set bs")
    case True
    then show ?thesis using IH t by blast
  next
    case False
    then have k: "n = k" "\<not> u" using t b by auto
    have "\<exists>c k2. ?best = Some (c, k2) \<and> k2 \<le> k"
      using k t(2) by (cases best; cases "n < snd (the best)") auto
    then obtain c k2 where "?best = Some (c, k2)" "k2 \<le> k" by blast
    then show ?thesis using IH by (meson order_trans)
  qed
  moreover have "\<exists>c' k'. r = Some (c', k') \<and> k' \<le> k" if t: "best = Some (c, k)" for c k
  proof -
    obtain c2 k2 where "?best = Some (c2, k2)" "k2 \<le> k" using t by (cases "\<not> u \<and> x \<le> n \<and> n < k") auto
    then show ?thesis using IH by (meson order_trans)
  qed
  ultimately show ?case by blast
qed simp

lemma ucast_b_next_le:
  assumes "hd_at m c FNext = of_nat n" "n < 2 ^ 32" "x < 2 ^ 64"
  shows "ucast (b_next m (of_nat c)) \<ge> (of_nat x :: u64) \<longleftrightarrow> x \<le> n"
proof -
  have "ucast (b_next m (of_nat c)) = (of_nat n :: u64)"
    unfolding field_reads assms(1) by (rule ucast_u32_u64 [OF assms(2)])
  moreover have "n < 18446744073709551616" "x < 18446744073709551616" using assms(2,3) by simp_all
  ultimately show ?thesis by (simp add: word_le_nat_alt)
qed

lemma b_next_less:
  assumes "hd_at m c FNext = of_nat n" "n < 2 ^ 32" "hd_at m d FNext = of_nat k" "k < 2 ^ 32"
  shows "b_next m (of_nat d) > b_next m (of_nat c) \<longleftrightarrow> n < k"
proof -
  have "n < 4294967296" "k < 4294967296" using assms by simp_all
  then show ?thesis unfolding field_reads assms(1,3) by (simp add: word_less_nat_alt)
qed

lemma alloc_search_best_fit:
  assumes ch: "chain (hd_at m) p pf a bs e" and e: "e = a + total bs" "e < 2 ^ 64" "total bs < 2 ^ 32"
    and x: "x < 2 ^ 64"
    and best: "\<And>c k. best = Some (c, k) \<Longrightarrow> 0 < c \<and> c < 2 ^ 64 \<and> k < 2 ^ 32 \<and> hd_at m c FNext = of_nat k"
    and a: "0 < a"
  shows "alloc_search m (of_nat e) (of_nat x) (of_nat (next_free_from a bs e)) (enc_best best) =
    Some (enc_best (best_fit a bs x best))"
  using ch e best a
proof (induction bs arbitrary: p pf a best)
  case Nil
  then show ?case by (subst alloc_search.simps) simp
next
  case (Cons b bs)
  obtain n u where b: "b = (n, u)" by (cases b)
  have c: "chain (hd_at m) n (if u then pf else Some a) (a + n) bs e" and n: "20 \<le> n" "n < 2 ^ 32"
    and nx: "hd_at m a FNext = of_nat n"
    using Cons.prems(1,4) b by auto
  have ee: "e = a + n + total bs" "total bs < 2 ^ 32" using Cons.prems(2,4) b by auto
  let ?best = "if \<not> u \<and> x \<le> n \<and> (case best of None \<Rightarrow> True | Some (_, k) \<Rightarrow> n < k) then Some (a, n) else best"
  have best': "0 < c \<and> c < 2 ^ 64 \<and> k < 2 ^ 32 \<and> hd_at m c FNext = of_nat k" if "?best = Some (c, k)" for c k
    using that Cons.prems(5) [of c k] Cons.prems(3,6) ee n nx by (auto split: if_splits)
  have IH: "alloc_search m (of_nat e) (of_nat x) (of_nat (next_free_from (a + n) bs e)) (enc_best ?best) =
      Some (enc_best (best_fit (a + n) bs x ?best))"
    using Cons.prems(6) by (intro Cons.IH [OF c ee(1) Cons.prems(3) ee(2) best']) simp_all
  show ?case
  proof (cases u)
    case True
    then show ?thesis using IH b by simp
  next
    case False
    let ?fx = "next_free_from (a + n) bs e"
    have fr: "a + n \<le> ?fx" "?fx \<le> e"
      using next_free_from_range [OF chain_sizes_ok [OF c], of "a + n" e] ee by auto
    have "nfree m (of_nat a) = of_nat ?fx"
    proof -
      have "b_next_free m (of_nat a) = of_nat (?fx - a)"
        unfolding field_reads using Cons.prems(1) b False by simp
      moreover have "a + (?fx - a) = ?fx" "?fx - a < 2 ^ 32" using fr ee Cons.prems(4) b by auto
      ultimately show ?thesis
        unfolding nfree_def by (simp only: ucast_u32_u64 of_nat_add [symmetric])
    qed
    moreover have "(of_nat a :: u64) \<noteq> of_nat e"
      using of_nat_u64_eq_iff [of a e] ee Cons.prems(3) n by auto
    moreover have "(if ucast (b_next m (of_nat a)) \<ge> (of_nat x :: u64) \<and>
        (enc_best best = 0 \<or> b_next m (enc_best best) > b_next m (of_nat a))
        then of_nat a else enc_best best) = enc_best ?best"
    proof (cases best)
      case None
      then show ?thesis using ucast_b_next_le [OF nx n(2) x] False by (simp add: enc_best_def)
    next
      case (Some ck)
      obtain c k where ck: "ck = (c, k)" by (cases ck)
      have B: "0 < c" "c < 2 ^ 64" "k < 2 ^ 32" "hd_at m c FNext = of_nat k"
        using Cons.prems(5) Some ck by auto
      have "(of_nat c :: u64) \<noteq> 0" using of_nat_u64_eq_iff [of c 0] B by auto
      then show ?thesis
        using ucast_b_next_le [OF nx n(2) x] b_next_less [OF nx n(2) B(4,3)] False Some ck
        by (simp add: enc_best_def)
    qed
    ultimately have "alloc_search m (of_nat e) (of_nat x) (of_nat a) (enc_best best) =
        alloc_search m (of_nat e) (of_nat x) (of_nat ?fx) (enc_best ?best)"
      by (subst alloc_search.simps) simp
    then show ?thesis using IH b False by simp
  qed
qed

section \<open>Allocation\<close>

lemma take_best_ok:
  assumes inv: "alloc_inv base (xs @ (n, False) # ys) a m"
    and x: "20 \<le> x" "x \<le> n" "x < 2 ^ 32"
  obtains a' m' where
    "take_best a (of_nat (base + total xs)) (of_nat x) m = (of_nat (base + total xs + 12), a', m')"
    "alloc_inv base (if x + 40 \<le> n then xs @ (x, True) # (n - x, False) # ys else xs @ (n, True) # ys) a' m'"
    "payload_same base (xs @ (n, False) # ys) m m'"
proof -
  let ?b = "base + total xs"
  note I = alloc_invD [OF inv]
  have n: "hd_at m ?b FNext = of_nat n" "n < 2 ^ 32" using I(4,7) by auto
  have "ucast (b_next m (of_nat ?b)) - of_nat x = (of_nat (n - x) :: u64)"
    unfolding field_reads n(1) using x n(2) by (simp add: ucast_u32_u64 of_nat_diff)
  then have split: "ucast (b_next m (of_nat ?b)) - of_nat x \<ge> MIN_SPLIT_THRESHOLD \<longleftrightarrow> x + 40 \<le> n"
  proof -
    have "n - x < 18446744073709551616" using n(2) by simp
    then have "MIN_SPLIT_THRESHOLD \<le> of_nat (n - x) \<longleftrightarrow> 40 \<le> n - x"
      by (simp only: MIN_SPLIT_THRESHOLD_def UNUSED_HEADER_SIZE_def word_le_nat_alt unat_of_nat_u64) simp
    then show ?thesis
      using \<open>ucast (b_next m (of_nat ?b)) - of_nat x = (of_nat (n - x) :: u64)\<close> by auto
  qed
  define m1 where "m1 = (if x + 40 \<le> n then split_blk a (of_nat ?b) (of_nat x) m else m)"
  obtain a' m' where use: "use_block a (of_nat ?b) m1 = (a', m')" by (metis surj_pair)
  have "take_best a (of_nat ?b) (of_nat x) m = (BLOCK_PTR (of_nat ?b), a', m')"
    unfolding take_best_def Let_def split ucast_u64_u32 m1_def [symmetric] use by simp
  moreover have "BLOCK_PTR (of_nat ?b) = of_nat (?b + 12)"
    by (simp add: BLOCK_PTR_def USED_HEADER_SIZE_def)
  moreover have "alloc_inv base (if x + 40 \<le> n then xs @ (x, True) # (n - x, False) # ys else xs @ (n, True) # ys) a' m'
    \<and> payload_same base (xs @ (n, False) # ys) m m'"
  proof (cases "x + 40 \<le> n")
    case True
    then have 1: "alloc_inv base (xs @ (x, False) # (n - x, False) # ys) a m1"
      "payload_same base (xs @ (n, False) # ys) m m1"
      using split_inv [OF inv x(1)] by (simp_all add: m1_def)
    from use_inv [OF 1(1) use] 1(2) show ?thesis using True by (auto simp: add.assoc elim: payload_same_trans)
  next
    case False
    then show ?thesis using use_inv [of base xs n ys a m1 a' m'] inv use by (simp add: m1_def)
  qed
  ultimately show thesis using that by simp
qed

lemma alloc_result:
  assumes inv: "alloc_inv base bs a m" and len: "8 \<le> len" "len + 12 < 2 ^ 32"
  shows "case best_fit base bs (len + 12) None of
      None \<Rightarrow> alloc a (of_nat len) m = Inr (0, a, m)
    | Some (c, n) \<Rightarrow> \<exists>xs ys a' m'. bs = xs @ (n, False) # ys \<and> c = base + total xs \<and>
        alloc a (of_nat len) m = Inr (of_nat (c + 12), a', m') \<and>
        alloc_inv base (if len + 12 + 40 \<le> n then xs @ (len + 12, True) # (n - (len + 12), False) # ys
          else xs @ (n, True) # ys) a' m' \<and> payload_same base bs m m'"
proof -
  note I = alloc_invD [OF inv]
  define r where "r = best_fit base bs (len + 12) None"
  have xl: "of_nat len + USED_HEADER_SIZE = of_nat (len + 12)" by (simp add: USED_HEADER_SIZE_def)
  have "alloc_search m (of_nat (base + total bs)) (of_nat (len + 12))
      (of_nat (next_free_from base bs (base + total bs))) (enc_best None) = Some (enc_best r)"
    unfolding r_def using I len by (intro alloc_search_best_fit [OF I(7)]) simp_all
  then have search: "alloc_search m (a_end a) (of_nat len + USED_HEADER_SIZE) (a_free a) 0 = Some (enc_best r)"
    unfolding xl I(3,6) by (simp add: enc_best_def)
  show ?thesis
  proof (cases r)
    case None
    then show ?thesis using search by (simp add: r_def [symmetric] alloc_def Let_def enc_best_def)
  next
    case (Some cn)
    obtain c n where cn: "cn = (c, n)" by (cases cn)
    then obtain xs ys where xs: "bs = xs @ (n, False) # ys" "c = base + total xs" "len + 12 \<le> n"
      using best_fit_spec [of base bs "len + 12" None r] Some r_def by auto
    have "alloc_inv base (xs @ (n, False) # ys) a m" using inv xs(1) by simp
    then obtain a' m' where t:
      "take_best a (of_nat c) (of_nat (len + 12)) m = (of_nat (c + 12), a', m')"
      "alloc_inv base (if len + 12 + 40 \<le> n then xs @ (len + 12, True) # (n - (len + 12), False) # ys
         else xs @ (n, True) # ys) a' m'"
      "payload_same base bs m m'"
      unfolding xs(1,2) by (rule take_best_ok) (use len xs(3) in auto)
    have "enc_best r = of_nat c" using Some cn by (simp add: enc_best_def)
    moreover have "(of_nat c :: u64) \<noteq> 0"
      using of_nat_u64_eq_iff [of c 0] I(1,5) xs by auto
    ultimately have "alloc a (of_nat len) m = Inr (of_nat (c + 12), a', m')"
      using search t(1) unfolding alloc_def Let_def xl by simp
    then show ?thesis
      unfolding r_def [symmetric] Some cn option.case prod.case using xs(1,2) t(2,3) by blast
  qed
qed

section \<open>Merging two free neighbours\<close>

lemma coalesce_skip:
  "c = a_end a \<or> c \<noteq> next_blk m b \<Longrightarrow> coalesce a b c m = m"
  by (auto simp: coalesce_def)

lemma merge_holds:
  assumes S: "holds S m G" "sep S" "b \<in> S" "b + n \<in> S" "b + n + k \<in> S" "fx \<in> S"
    and e: "a_end a = of_nat e" "e < 2 ^ 64" "b + n + k \<le> e" "fx \<le> e"
    and sz: "0 < n" "0 < k" "n + k < 2 ^ 32" "b + n + k \<le> fx" "fx - (b + n) < 2 ^ 32"
    and G: "G b FNext = of_nat n" "G b FNextFree = of_nat n" "G (b + n) FNext = of_nat k"
      "G (b + n) FNextFree = of_nat (fx - (b + n))"
  defines "G1 \<equiv> if fx \<noteq> e then put fx FPrevFree (G fx FPrevFree + of_nat n) G else G"
  defines "G2 \<equiv> if b + n + k \<noteq> e then put (b + n + k) FPrev (G1 (b + n + k) FPrev + of_nat n) G1 else G1"
  shows "holds S (coalesce a (of_nat b) (of_nat (b + n)) m)
      (put b FNext (of_nat (n + k)) (put b FNextFree (of_nat (fx - b)) G2)) \<and>
    touch ({b} \<times> UNIV \<union> (if b + n + k \<noteq> e then {(b + n + k, FPrev)} else {}) \<union>
      (if fx \<noteq> e then {(fx, FPrevFree)} else {})) m (coalesce a (of_nat b) (of_nat (b + n)) m)"
    (is "_ \<and> touch ?W _ _")
proof -
  note hw = holds_wr [OF _ S(2)]
  define c where "c = b + n"
  define m1 where "m1 = (if fx \<noteq> e then wr fx FPrevFree (G fx FPrevFree + of_nat n) m else m)"
  define m2 where "m2 = (if c + k \<noteq> e then wr (c + k) FPrev (G1 (c + k) FPrev + of_nat n) m1 else m1)"
  define m3 where "m3 = wr b FNextFree (of_nat (fx - b)) m2"
  have cS: "c \<in> S" "c + k \<in> S" using S by (simp_all add: c_def)
  have ne: "c \<noteq> b" "c + k \<noteq> b" "c + k \<noteq> c" "fx \<noteq> b" "fx \<noteq> c" using sz by (auto simp: c_def)
  have h1: "holds S m1 G1" unfolding m1_def G1_def using S(1,6) by (auto intro: hw)
  have h2: "holds S m2 G2" unfolding m2_def G2_def c_def [symmetric] using h1 cS(2) by (auto intro: hw)
  have h3: "holds S m3 (put b FNextFree (of_nat (fx - b)) G2)" unfolding m3_def by (rule hw [OF h2 S(3)])
  have Gb: "G1 b f = G b f" "G1 c f = G c f" "G2 b f = G b f" "G2 c f = G c f" for f
    using ne by (simp_all add: G1_def G2_def put_apply c_def [symmetric])
  have nx: "next_blk m (of_nat b) = of_nat c"
    unfolding next_blk_def field_reads holdsD [OF S(1,3)] G(1) using sz by (simp add: ucast_u32_u64 c_def)
  have nf: "nfree m (of_nat c) = of_nat fx"
    unfolding nfree_def field_reads holdsD [OF S(1) cS(1)] G(4) [folded c_def] ucast_u32_u64 [OF sz(5) [folded c_def]]
      of_nat_add [symmetric] using sz(4) by (simp add: c_def)
  have r1: "b_prev_free m (of_nat fx) + b_next_free m (of_nat b) = G fx FPrevFree + of_nat n"
    unfolding field_reads holdsD [OF S(1,3)] holdsD [OF S(1,6)] G(2) ..
  have n1: "next_blk m1 (of_nat c) = of_nat (c + k)"
    unfolding next_blk_def field_reads holdsD [OF h1 cS(1)] Gb G(3) [folded c_def]
    using sz by (simp add: ucast_u32_u64)
  have r2: "b_prev m1 (of_nat (c + k)) + b_next m1 (of_nat b) = G1 (c + k) FPrev + of_nat n"
    unfolding field_reads holdsD [OF h1 S(3)] holdsD [OF h1 cS(2)] Gb G(1) ..
  have r3: "b_next_free m2 (of_nat b) + b_next_free m2 (of_nat c) = of_nat (fx - b)"
  proof -
    have "n + (fx - c) = fx - b" using sz by (simp add: c_def)
    then show ?thesis
      unfolding field_reads holdsD [OF h2 S(3)] holdsD [OF h2 cS(1)] Gb G(2) G(4) [folded c_def]
      by (metis of_nat_add)
  qed
  have r4: "b_next m3 (of_nat b) + b_next m3 (of_nat c) = of_nat (n + k)"
    unfolding field_reads holdsD [OF h3 S(3)] holdsD [OF h3 cS(1)] put_apply
    using ne G by (simp add: Gb c_def [symmetric])
  have "c < 2 ^ 64" "c + k < 2 ^ 64" "fx < 2 ^ 64" "c \<noteq> e" using e sz by (simp_all add: c_def)
  then have q: "(of_nat c :: u64) \<noteq> a_end a" "(of_nat fx :: u64) \<noteq> a_end a \<longleftrightarrow> fx \<noteq> e"
      "(of_nat (c + k) :: u64) \<noteq> a_end a \<longleftrightarrow> c + k \<noteq> e"
    using e of_nat_u64_eq_iff [of c e] of_nat_u64_eq_iff [of fx e] of_nat_u64_eq_iff [of "c + k" e] by auto
  have "coalesce a (of_nat b) (of_nat c) m = wr b FNext (of_nat (n + k)) m3"
    unfolding coalesce_def Let_def nx nf field_writes r1 q m1_def [symmetric] n1 r2 m2_def [symmetric] r3
      m3_def [symmetric] r4 using q(1) by simp
  moreover have "touch ?W m (wr b FNext (of_nat (n + k)) m3)"
    unfolding m3_def m2_def m1_def c_def using S(3-6) sepD [OF S(2)]
    by (auto intro!: touch_wr touch_refl simp: add.assoc)
  ultimately show ?thesis using hw [OF h3 S(3)] by (simp add: c_def)
qed

lemma merge_inv:
  assumes inv: "alloc_inv base (xs @ (n, False) # (k, False) # ys) a m"
  shows "alloc_inv base (xs @ (n + k, False) # ys) a
      (coalesce a (of_nat (base + total xs)) (of_nat (base + total xs + n)) m)"
    "payload_same base (xs @ (n + k, False) # ys) m
      (coalesce a (of_nat (base + total xs)) (of_nat (base + total xs + n)) m)"
proof -
  define b where "b = base + total xs"
  let ?bs = "xs @ (n, False) # (k, False) # ys" and ?bs' = "xs @ (n + k, False) # ys"
  define e where "e = base + total ?bs"
  let ?m = "coalesce a (of_nat b) (of_nat (b + n)) m"
  note I = alloc_invD [OF inv]
  have e: "e = b + n + k + total ys" "base + total ?bs' = e" "e < 2 ^ 64"
    using I(5) by (simp_all add: b_def e_def)
  define fx where "fx = next_free_from (b + n + k) ys e"
  have ok: "sizes_ok ys" "sizes_ok xs" "20 \<le> n" "20 \<le> k" using I(8) by simp_all
  note fxr = next_free_from_range [OF ok(1), of "b + n + k" e, folded fx_def]
  have ch: "chain (hd_at m) 0 None base xs b"
      "hd_at m b FPrev = of_nat (last_size 0 xs)" "hd_at m b FNext = of_nat n" "hd_at m b FUsed = 0"
      "hd_at m b FNextFree = of_nat n" "hd_at m b FPrevFree = of_nat (back_dist (last_free None base xs) b)"
      "hd_at m (b + n) FNext = of_nat k" "hd_at m (b + n) FNextFree = of_nat (fx - (b + n))"
      "chain (hd_at m) k (Some (b + n)) (b + n + k) ys e"
    using I(7) by (simp_all add: b_def e_def fx_def)
  define S where "S = insert e (addrs base ?bs)"
  have sep: "sep S" using sep_addrs [OF I(8) I(5)] by (simp add: S_def e_def)
  have inS: "b \<in> S" "b + n \<in> S" "b + n + k \<in> S" "fx \<in> S"
  proof -
    show "b + n + k \<in> S" using e by (cases ys) (auto simp: S_def b_def)
  qed (use fxr(3) e in \<open>auto simp: S_def b_def\<close>)
  have lt: "0 < n" "0 < k" "n + k < 2 ^ 32" "b + n + k \<le> fx" "fx - (b + n) < 2 ^ 32" "b + n + k \<le> e" "fx \<le> e"
    using ok I(4) fxr e by (auto simp: b_def)
  have ae: "a_end a = of_nat e" using I(3) by (simp add: e_def)
  define G1 where "G1 = (if fx \<noteq> e then put fx FPrevFree (hd_at m fx FPrevFree + of_nat n) (hd_at m) else hd_at m)"
  define G2 where "G2 = (if b + n + k \<noteq> e then put (b + n + k) FPrev (G1 (b + n + k) FPrev + of_nat n) G1 else G1)"
  define G' where "G' = put b FNext (of_nat (n + k)) (put b FNextFree (of_nat (fx - b)) G2)"
  note Gd = G'_def G2_def G1_def put_apply
  have H: "holds S ?m G'" and T: "touch ({b} \<times> UNIV \<union> (if b + n + k \<noteq> e then {(b + n + k, FPrev)} else {}) \<union>
      (if fx \<noteq> e then {(fx, FPrevFree)} else {})) m ?m"
    using merge_holds [OF holds_hd_at(2) sep inS ae e(3) lt(6,7) lt(1-5) ch(3,5,7,8)]
    unfolding G'_def G2_def G1_def by blast+
  have same: "G' x f = hd_at m x f" if "x \<noteq> b" "\<not> (x = b + n + k \<and> f = FPrev)"
    "\<not> (x = fx \<and> f = FPrevFree)" for x f
    using that by (auto simp: Gd)
  have "chain G' 0 None base xs b"
  proof -
    have "x \<noteq> b \<and> x \<noteq> b + n + k \<and> x \<noteq> fx" if "x \<in> addrs base xs" for x
      using addrs_range_ok [OF ok(2) that] lt(4) by (auto simp: b_def)
    then have "chain (hd_at m) 0 None base xs b = chain G' 0 None base xs b"
      using same by (intro chain_cong) auto
    then show ?thesis using ch(1) by simp
  qed
  moreover have "chain G' (n + k) (Some b) (b + n + k) ys e"
  proof (rule chain_relink [OF ch(9)], unfold fx_def [symmetric])
    show "G' x f = hd_at m x f" if "x \<in> addrs (b + n + k) ys" "\<not> (x = b + n + k \<and> f = FPrev)"
      "\<not> (x = fx \<and> f = FPrevFree)" for x f
      using addrs_range_ok [OF ok(1) that(1)] that(2,3) lt(1,2) by (intro same) auto
    show "G' (b + n + k) FPrev = of_nat (n + k)" if "ys \<noteq> []"
    proof -
      have "b + n + k \<noteq> e" using that ok(1) e(1) by (cases ys) auto
      moreover have "hd_at m (b + n + k) FPrev = of_nat k" using chain_first_prev [OF ch(9) that] .
      ultimately show ?thesis using lt(1,2) by (simp add: Gd)
    qed
    show "G' fx FPrevFree = of_nat (back_dist (Some b) fx)" if "\<not> all_used ys"
    proof -
      have "fx \<in> addrs (b + n + k) ys" unfolding fx_def by (rule next_free_from_in [OF that])
      then have "fx \<noteq> e" using addrs_range_ok [OF ok(1)] e(1) by force
      moreover have "hd_at m fx FPrevFree = of_nat (fx - (b + n))"
        using chain_first_free [OF ch(9) that] by (simp add: fx_def back_dist_def)
      moreover have "fx - (b + n) + n = fx - b" using lt(4) by simp
      ultimately show ?thesis
        using lt(1,2,4) by (simp add: Gd back_dist_def)
    qed
  qed
  moreover have "G' b FPrev = of_nat (last_size 0 xs)" "G' b FNext = of_nat (n + k)" "G' b FUsed = 0"
      "G' b FNextFree = of_nat (fx - b)" "G' b FPrevFree = of_nat (back_dist (last_free None base xs) b)"
    using ch(2,4,6) lt by (auto simp: Gd)
  ultimately have "chain G' 0 None base ?bs' e"
    using ok(3) by (simp add: b_def [symmetric] fx_def add.assoc)
  moreover have "chain (hd_at ?m) 0 None base ?bs' e = chain G' 0 None base ?bs' e"
    using H by (intro chain_cong) (auto simp: holds_def S_def add.assoc)
  moreover have "next_free_from base ?bs' e = next_free_from base ?bs e"
    by (simp add: b_def)
  moreover have "total ?bs' = total ?bs" by simp
  ultimately show "alloc_inv base ?bs' a (coalesce a (of_nat (base + total xs)) (of_nat (base + total xs + n)) m)"
    using I(1-6) unfolding alloc_inv_def b_def [symmetric] by (simp only: e_def)
  have "clear_of base ?bs' (b, f)" for f
    using clear_of_free [OF ok(2,1), of "n + k" base f] ok(3) by (simp add: b_def)
  moreover have "clear_of base ?bs' (b + n + k, FPrev)"
    using clear_of_above [of base xs "b + n + k" FPrev] clear_of_start [OF ok(1), of FPrev "b + n + k"]
    by (simp add: b_def add.assoc)
  moreover have "clear_of base ?bs' (fx, FPrevFree)"
    using clear_of_above [of base xs fx FPrevFree] clear_of_next_free [OF ok(1), of "b + n + k" e FPrevFree] lt(4) e(1)
    by (simp add: b_def fx_def add.assoc)
  ultimately show "payload_same base ?bs' m (coalesce a (of_nat (base + total xs)) (of_nat (base + total xs + n)) m)"
    using T e(2,3) unfolding b_def [symmetric] by (intro payload_same_touch [OF T]) auto
qed

section \<open>Freeing\<close>

lemma walk_next_ok:
  assumes "chain (hd_at m) p pf a bs e" "e = a + total bs" "e < 2 ^ 64" "total bs < 2 ^ 32"
  shows "walk_next m (of_nat e) (of_nat a) = Some (of_nat (next_free_from a bs e))"
  using assms
proof (induction bs arbitrary: p pf a)
  case Nil
  then show ?case by (subst walk_next.simps) simp
next
  case (Cons b bs)
  obtain n u where b: "b = (n, u)" by (cases b)
  have c: "chain (hd_at m) n (if u then pf else Some a) (a + n) bs e" "20 \<le> n" "n < 2 ^ 32"
      "hd_at m a FNext = of_nat n" "hd_at m a FUsed = (if u then 1 else 0)"
    and ee: "e = a + n + total bs" "total bs < 2 ^ 32"
    using Cons.prems b by auto
  have "(of_nat a :: u64) \<noteq> of_nat e" using of_nat_u64_eq_iff [of a e] ee c(2) Cons.prems(3) by auto
  moreover have "next_blk m (of_nat a) = of_nat (a + n)"
    unfolding next_blk_def field_reads c(4) by (simp add: ucast_u32_u64 [OF c(3)])
  ultimately show ?case
    using Cons.IH [OF c(1) ee(1) Cons.prems(3) ee(2)] c(5) b
    by (subst walk_next.simps) (auto simp: field_reads)
qed

lemma prev_blk_ok:
  assumes "hd_at m b FPrev = of_nat k" "0 < k" "k < 2 ^ 32" "b = x + k"
  shows "prev_blk m (of_nat b) = of_nat x"
proof -
  have "(of_nat k :: u32) \<noteq> 0"
    using assms(2,3) by (simp add: word_unat_eq_iff unsigned_of_nat take_bit_nat_eq_self)
  then show ?thesis
    unfolding prev_blk_def field_reads assms(1) ucast_u32_u64 [OF assms(3)] using assms(4) by simp
qed

lemma walk_prev_ok:
  assumes "chain (hd_at m) 0 None base xs nf" "hd_at m b FPrev = of_nat (last_size 0 xs)"
    "b = base + total xs" "0 < base" "b < 2 ^ 64" "total xs < 2 ^ 32"
  shows "walk_prev m (prev_blk m (of_nat b)) =
    Some (case last_free None base xs of None \<Rightarrow> 0 | Some l \<Rightarrow> of_nat l)"
  using assms
proof (induction xs arbitrary: b nf rule: rev_induct)
  case Nil
  then have "prev_blk m (of_nat b) = 0" by (simp add: prev_blk_def field_reads)
  then show ?case by (subst walk_prev.simps) simp
next
  case (snoc kx xs)
  obtain k u where k: "kx = (k, u)" by (cases kx)
  define p where "p = base + total xs"
  have c: "20 \<le> k" "hd_at m p FPrev = of_nat (last_size 0 xs)" "hd_at m p FUsed = (if u then 1 else 0)"
    using snoc.prems(1) k by (auto simp: p_def)
  obtain nf' where ch: "chain (hd_at m) 0 None base xs nf'" using snoc.prems(1) by auto
  have pb: "prev_blk m (of_nat b) = of_nat p"
    using snoc.prems k c(1) by (intro prev_blk_ok [of _ _ k]) (auto simp: p_def)
  have p: "p < 2 ^ 64" "total xs < 2 ^ 32" using snoc.prems k by (auto simp: p_def)
  have "(of_nat p :: u64) \<noteq> 0" using of_nat_u64_eq_iff [of p 0] p(1) \<open>0 < base\<close> by (auto simp: p_def)
  then show ?case
    using snoc.IH [OF ch c(2) p_def \<open>0 < base\<close> p] k c(3) unfolding pb
    by (subst walk_prev.simps) (auto simp: field_reads p_def [symmetric])
qed

lemma free_link_holds:
  assumes S: "holds S m G" "sep S" "b \<in> S" "fx \<in> S" "\<And>q. pq = Some q \<Longrightarrow> q \<in> S \<and> 0 < q \<and> q \<le> b"
    and b: "b \<le> fx" "fx < 2 ^ 64" "a_end a = of_nat e" "e < 2 ^ 64" "b \<noteq> fx"
  defines "G1 \<equiv> put b FNextFree (of_nat (fx - b)) G"
  defines "G2 \<equiv> if fx \<noteq> e then put fx FPrevFree (of_nat (fx - b)) G1 else G1"
  shows "holds S (free_link a (of_nat b) (of_nat fx) (case pq of None \<Rightarrow> 0 | Some q \<Rightarrow> of_nat q) m)
      (case pq of None \<Rightarrow> G2 | Some q \<Rightarrow> put q FNextFree (of_nat (b - q)) (put b FPrevFree (of_nat (b - q)) G2)) \<and>
    touch ({b} \<times> UNIV \<union> {(fx, FPrevFree)} \<union> (\<lambda>q. (q, FNextFree)) ` set_option pq) m
      (free_link a (of_nat b) (of_nat fx) (case pq of None \<Rightarrow> 0 | Some q \<Rightarrow> of_nat q) m)"
    (is "_ \<and> touch ?W _ _")
proof -
  note hw = holds_wr [OF _ S(2)]
  define m1 where "m1 = wr b FNextFree (of_nat (fx - b)) m"
  define m2 where "m2 = (if fx \<noteq> e then wr fx FPrevFree (of_nat (fx - b)) m1 else m1)"
  have d: "ucast (of_nat fx - of_nat b :: u64) = (of_nat (fx - b) :: u32)"
    using b(1) by (simp only: of_nat_diff [symmetric] ucast_u64_u32)
  have h1: "holds S m1 G1" unfolding m1_def G1_def by (rule hw [OF S(1,3)])
  have h2: "holds S m2 G2" unfolding m2_def G2_def using h1 S(4) by (auto intro: hw)
  have r: "b_next_free m1 (of_nat b) = of_nat (fx - b)"
    unfolding field_reads holdsD [OF h1 S(3)] by (simp add: G1_def put_apply)
  have c: "(of_nat fx :: u64) \<noteq> a_end a \<longleftrightarrow> fx \<noteq> e" using b of_nat_u64_eq_iff [of fx e] by auto
  have t: "touch ?W m m2"
    unfolding m2_def m1_def using S(3,4) sepD [OF S(2)] by (auto intro!: touch_wr touch_refl)
  show ?thesis
  proof (cases pq)
    case None
    have "free_link a (of_nat b) (of_nat fx) 0 m = m2"
      unfolding free_link_def Let_def field_writes d m1_def [symmetric] r c m2_def [symmetric] by simp
    then show ?thesis using None h2 t by simp
  next
    case (Some q)
    have q: "q \<in> S" "0 < q" "q \<le> b" using S(5) [OF Some] by auto
    have z: "(of_nat q :: u64) \<noteq> 0" using of_nat_u64_eq_iff [of q 0] q b(1,2) by auto
    have d2: "ucast (of_nat b - of_nat q :: u64) = (of_nat (b - q) :: u32)"
      using q(3) by (simp only: of_nat_diff [symmetric] ucast_u64_u32)
    let ?m3 = "wr b FPrevFree (of_nat (b - q)) m2"
    have h3: "holds S ?m3 (put b FPrevFree (of_nat (b - q)) G2)" by (rule hw [OF h2 S(3)])
    have r3: "b_prev_free ?m3 (of_nat b) = of_nat (b - q)"
      unfolding field_reads holdsD [OF h3 S(3)] by (simp add: put_apply)
    have "free_link a (of_nat b) (of_nat fx) (of_nat q) m = wr q FNextFree (of_nat (b - q)) ?m3"
      unfolding free_link_def Let_def field_writes d m1_def [symmetric] r c m2_def [symmetric] d2 r3
      using z by simp
    moreover have "touch ?W m (wr q FNextFree (of_nat (b - q)) ?m3)"
      using t S(3) q sepD [OF S(2)] Some by (auto intro!: touch_wr)
    ultimately show ?thesis using Some hw [OF h3 q(1)] by simp
  qed
qed

text \<open>
  The block is put back on the free list between its free neighbours, and then merged with
  the one behind it and the one before it where they touch.
\<close>

definition opt_addr :: "nat option \<Rightarrow> u64" where
  "opt_addr pq = (case pq of None \<Rightarrow> 0 | Some q \<Rightarrow> of_nat q)"

lemma pfree_ok:
  "hd_at m x FPrevFree = of_nat (x - q) \<Longrightarrow> x - q < 2 ^ 32 \<Longrightarrow> q \<le> x \<Longrightarrow> pfree m (of_nat x) = of_nat q"
  unfolding pfree_def field_reads by (simp only: ucast_u32_u64) (simp add: of_nat_diff)

lemma release_ok:
  assumes inv: "alloc_inv base (xs @ (n, True) # ys) a m" and cond: "all_used ys \<or> \<not> all_used xs"
  defines "b \<equiv> base + total xs" and "e \<equiv> base + total (xs @ (n, True) # ys)"
  defines "fx \<equiv> next_free_from (b + n) ys e"
  defines "m1 \<equiv> wr b FUsed 0 (wr b FPrevFree 0 m)"
  defines "a1 \<equiv> if of_nat b < a_free a then a\<lparr>a_free := of_nat b\<rparr> else a"
  defines "m2 \<equiv> free_link a1 (of_nat b) (of_nat fx) (opt_addr (last_free None base xs)) m1"
  shows "walk_next m1 (a_end a1) (next_blk m1 (of_nat b)) = Some (of_nat fx)" (is ?walk)
    "(if of_nat fx \<noteq> a_end a1 then Some (pfree m1 (of_nat fx)) else walk_prev m1 (prev_blk m1 (of_nat b))) =
      Some (opt_addr (last_free None base xs))" (is ?prev)
    "alloc_inv base (xs @ (n, False) # ys) a1 m2 \<and> payload_same base (xs @ (n, False) # ys) m m2" (is "?inv \<and> ?pay")
proof -
  let ?bs = "xs @ (n, True) # ys" and ?bs' = "xs @ (n, False) # ys"
  define pq where "pq = last_free None base xs"
  note I = alloc_invD [OF inv]
  have e: "e = b + n + total ys" "e < 2 ^ 64" "base + total ?bs' = e" using I(5) by (simp_all add: b_def e_def)
  have ok: "sizes_ok ys" "sizes_ok xs" "20 \<le> n" using I(8) by simp_all
  note fxr = next_free_from_range [OF ok(1), of "b + n" e, folded fx_def]
  have ch: "chain (hd_at m) 0 None base xs fx"
      "hd_at m b FPrev = of_nat (last_size 0 xs)" "hd_at m b FNext = of_nat n"
      "chain (hd_at m) n pq (b + n) ys e"
    using I(7) by (simp_all add: b_def e_def fx_def pq_def)
  define S where "S = insert e (addrs base ?bs)"
  have sep: "sep S" using sep_addrs [OF I(8) I(5)] by (simp add: S_def e_def)
  have inS: "b \<in> S" "fx \<in> S" using fxr(3) e by (auto simp: S_def b_def)
  have lt: "b \<le> fx" "fx - base < 2 ^ 32" "fx \<le> e" "fx < 2 ^ 64" "b + n \<le> fx" "b \<noteq> fx" "n < 2 ^ 32"
    using I(4) fxr e ok by (auto simp: b_def)
  have q: "q \<in> S" "0 < q" "q + 20 \<le> b" "base \<le> q" if "pq = Some q" for q
    using last_free_range [OF ok(2), of base q] last_free_in [of base xs q] that I(1) by (auto simp: pq_def b_def S_def)
  have a1: "a_base a1 = a_base a" "a_end a1 = a_end a" "a_end a1 = of_nat e" using I(3) by (auto simp: a1_def e_def)
  define G0 where "G0 = put b FUsed 0 (put b FPrevFree 0 (hd_at m))"
  have h0: "holds S m1 G0"
    unfolding m1_def G0_def using holds_wr [OF _ sep inS(1)] holds_hd_at(2) by blast
  have G0: "G0 x f = hd_at m x f" if "x \<noteq> b \<or> f = FPrev \<or> f = FNext \<or> f = FNextFree" for x f
    using that by (auto simp: G0_def put_apply)
  have hd1: "hd_at m1 x f = hd_at m x f" if "x \<in> S" "x \<noteq> b \<or> f = FPrev \<or> f = FNext \<or> f = FNextFree" for x f
    using holdsD [OF h0 that(1)] G0 [OF that(2)] by simp
  have addr: "x \<in> S" "x \<noteq> b" if "x \<in> addrs base xs \<or> x \<in> addrs (b + n) ys" for x
    using that addrs_range_ok [OF ok(2), of x base] addrs_range_ok [OF ok(1), of x "b + n"] ok(3)
    by (auto simp: S_def b_def)
  have c1: "chain (hd_at m1) 0 None base xs fx" "chain (hd_at m1) n pq (b + n) ys e"
  proof -
    have "chain (hd_at m) 0 None base xs fx = chain (hd_at m1) 0 None base xs fx"
      "chain (hd_at m) n pq (b + n) ys e = chain (hd_at m1) n pq (b + n) ys e"
      by (intro chain_cong hd1 [symmetric]; use addr in blast)+
    then show "chain (hd_at m1) 0 None base xs fx" "chain (hd_at m1) n pq (b + n) ys e" using ch by simp_all
  qed
  show ?walk
  proof -
    have "next_blk m1 (of_nat b) = of_nat (b + n)"
      unfolding next_blk_def field_reads hd1 [OF inS(1)] using ch(3) lt(7) by (simp add: ucast_u32_u64 hd1 inS)
    moreover have "walk_next m1 (of_nat e) (of_nat (b + n)) = Some (of_nat fx)"
      unfolding fx_def using I(4) e by (intro walk_next_ok [OF c1(2)]) (auto simp: b_def)
    ultimately show ?thesis by (simp only: a1(3))
  qed
  have nu: "\<not> all_used ys \<and> hd_at m fx FPrevFree = of_nat (back_dist pq fx)" if "fx \<noteq> e"
  proof -
    have "\<not> all_used ys" using that next_free_from_cases [of "b + n" ys e] by (auto simp: fx_def)
    then show ?thesis using chain_first_free [OF ch(4)] by (simp add: fx_def)
  qed
  show ?prev
  proof (cases "fx = e")
    case True
    have "walk_prev m1 (prev_blk m1 (of_nat b)) = Some (opt_addr (last_free None base xs))"
      unfolding opt_addr_def using hd1 [OF inS(1), of FPrev] ch(2) I(1,4) e
      by (intro walk_prev_ok [OF c1(1)]) (auto simp: b_def)
    then show ?thesis using True a1(3) by simp
  next
    case False
    then obtain p where p: "pq = Some p" using cond nu last_free_None_iff [of base xs] by (auto simp: pq_def)
    have "hd_at m1 fx FPrevFree = of_nat (fx - p)"
      using nu [OF False] hd1 [OF inS(2), of FPrevFree] lt(6) p by (simp add: back_dist_def)
    then have "pfree m1 (of_nat fx) = of_nat p"
      using q [OF p] lt by (intro pfree_ok) auto
    moreover have "(of_nat fx :: u64) \<noteq> of_nat e" using of_nat_u64_eq_iff [of fx e] e lt False by auto
    ultimately show ?thesis using p by (simp add: a1(3) opt_addr_def pq_def)
  qed
  define G1 where "G1 = put b FNextFree (of_nat (fx - b)) G0"
  define G2 where "G2 = (if fx \<noteq> e then put fx FPrevFree (of_nat (fx - b)) G1 else G1)"
  define G' where "G' = (case pq of None \<Rightarrow> G2
    | Some q \<Rightarrow> put q FNextFree (of_nat (b - q)) (put b FPrevFree (of_nat (b - q)) G2))"
  let ?W = "{b} \<times> UNIV \<union> {(fx, FPrevFree)} \<union> (\<lambda>q. (q, FNextFree)) ` set_option pq"
  have q': "x \<in> S \<and> 0 < x \<and> x \<le> b" if "pq = Some x" for x using q [OF that] by simp
  have H: "holds S m2 G'" and T: "touch ?W m1 m2"
    using free_link_holds [OF h0 sep inS q' lt(1,4) a1(3) e(2) lt(6)]
    unfolding m2_def opt_addr_def G'_def G2_def G1_def pq_def [symmetric] by blast+
  note Gd = G'_def G2_def G1_def G0_def put_apply
  have same: "G' x f = hd_at m x f" if "x \<noteq> b" "\<not> (x = fx \<and> f = FPrevFree)" "\<not> (pq = Some x \<and> f = FNextFree)" for x f
    using that by (auto simp: Gd split: option.splits)
  have "chain G' 0 None base xs b"
  proof (rule chain_renext [OF ch(1)])
    show "G' x f = hd_at m x f" if "x \<in> addrs base xs" "\<not> (last_free None base xs = Some x \<and> f = FNextFree)" for x f
      using addrs_range_ok [OF ok(2) that(1)] that(2) lt(1) by (intro same) (auto simp: pq_def b_def)
    show "G' l FNextFree = of_nat (b - l)" if "last_free None base xs = Some l" for l
      using that by (auto simp: Gd pq_def)
  qed
  moreover have "chain G' n (Some b) (b + n) ys e"
  proof (rule chain_relink [OF ch(4)], unfold fx_def [symmetric])
    show *: "G' x f = hd_at m x f" if "x \<in> addrs (b + n) ys" "\<not> (x = b + n \<and> f = FPrev)"
      "\<not> (x = fx \<and> f = FPrevFree)" for x f
      using addrs_range_ok [OF ok(1) that(1)] that(2,3) q [of x] ok(3) by (intro same) auto
    show "G' (b + n) FPrev = of_nat n" if "ys \<noteq> []"
      using chain_first_prev [OF ch(4) that] same [of "b + n" FPrev] ok(3) by simp
    show "G' fx FPrevFree = of_nat (back_dist (Some b) fx)" if "\<not> all_used ys"
    proof -
      have "fx \<in> addrs (b + n) ys" unfolding fx_def by (rule next_free_from_in [OF that])
      then have "fx \<noteq> e" using addrs_range_ok [OF ok(1)] e(1) by force
      then show ?thesis using lt(6) by (auto simp: Gd back_dist_def split: option.splits)
    qed
  qed
  moreover have "G' b FPrev = of_nat (last_size 0 xs)" "G' b FNext = of_nat n" "G' b FUsed = 0"
      "G' b FNextFree = of_nat (fx - b)" "G' b FPrevFree = of_nat (back_dist pq b)"
    using ch(2,3) lt(6) q by (auto simp: Gd back_dist_def split: option.splits)
  ultimately have "chain G' 0 None base ?bs' e"
    using ok(3) by (simp add: b_def [symmetric] fx_def pq_def)
  moreover have "chain (hd_at m2) 0 None base ?bs' e = chain G' 0 None base ?bs' e"
    using H by (intro chain_cong) (auto simp: holds_def S_def)
  moreover have "a_free a1 = of_nat (next_free_from base ?bs' e)"
  proof -
    have af: "a_free a = of_nat (next_free_from base xs fx)"
      using I(6) by (simp add: b_def fx_def e_def)
    show ?thesis
    proof (cases "all_used xs")
      case True
      then have "a_free a = of_nat fx" "next_free_from base ?bs' e = b"
        using af next_free_from_cases [of base xs] by (simp_all add: b_def)
      moreover have "(of_nat b :: u64) < of_nat fx"
        unfolding word_less_nat_alt using lt by (subst (1 2) unat_of_nat_u64) auto
      ultimately show ?thesis by (simp add: a1_def)
    next
      case False
      let ?f = "next_free_from base xs fx"
      have "?f \<in> addrs base xs" by (rule next_free_from_in [OF False])
      then have "?f < b" using addrs_range_ok [OF ok(2)] by (force simp: b_def)
      then have "\<not> (of_nat b :: u64) < of_nat ?f"
        unfolding word_less_nat_alt using lt by (subst (1 2) unat_of_nat_u64) auto
      moreover have "next_free_from base ?bs' e = ?f"
        using False next_free_from_cases [of base xs fx] next_free_from_cases [of base xs "base + total xs"] by simp
      ultimately show ?thesis using af by (simp add: a1_def)
    qed
  qed
  moreover have "total ?bs' = total ?bs" by simp
  ultimately have ?inv
    using I(1-5) a1(1,2) unfolding alloc_inv_def by (simp only: e_def)
  moreover have ?pay
  proof (rule payload_same_touch)
    have "touch ?W m m1" unfolding m1_def using sepD [OF sep inS(1)] by (auto intro!: touch_wr touch_refl)
    then show "touch ?W m m2" using T by (rule touch_trans)
    have "clear_of base ?bs' (b, f)" for f using clear_of_free [OF ok(2,1,3), of base f] by (simp add: b_def)
    moreover have "clear_of base ?bs' (fx, FPrevFree)"
      using clear_of_above [of base xs fx FPrevFree] clear_of_next_free [OF ok(1), of "b + n" e FPrevFree] lt(1) e(1)
      by (simp add: b_def fx_def)
    moreover have "clear_of base ?bs' (x, FNextFree)" if "pq = Some x" for x
      using clear_of_last_free [OF ok(2) that [unfolded pq_def], of FNextFree] q(3) [OF that]
        clear_of_below [of x "b + n" ys] by (simp add: b_def)
    ultimately show "\<forall>yf \<in> ?W. clear_of base ?bs' yf" by (cases pq) auto
    show "base + total ?bs' \<le> 2 ^ 64" using e by simp
  qed
  ultimately show "?inv \<and> ?pay" ..
qed

text \<open>The block list after a block is freed.\<close>

fun join_right :: "nat \<Rightarrow> blocks \<Rightarrow> blocks" where
  "join_right n ((k, False) # ys) = (n + k, False) # ys"
| "join_right n ys = (n, False) # ys"

fun join_left :: "blocks \<Rightarrow> blocks \<Rightarrow> blocks" where
  "join_left ((k, False) # rxs) ((n, u) # ys) = rev rxs @ (k + n, False) # ys"
| "join_left rxs ys = rev rxs @ ys"

definition freed :: "blocks \<Rightarrow> nat \<Rightarrow> blocks \<Rightarrow> blocks" where
  "freed xs n ys = join_left (rev xs) (join_right n ys)"

lemma join_right_step:
  assumes inv: "alloc_inv base (xs @ (n, False) # ys) a m"
  defines "b \<equiv> base + total xs" and "e \<equiv> base + total (xs @ (n, False) # ys)"
  defines "m' \<equiv> coalesce a (of_nat b) (of_nat (next_free_from (b + n) ys e)) m"
  shows "alloc_inv base (xs @ join_right n ys) a m' \<and> payload_same base (xs @ join_right n ys) m m'"
proof -
  note I = alloc_invD [OF inv]
  have nx: "next_blk m (of_nat b) = of_nat (b + n)"
    unfolding next_blk_def field_reads using I(4,7) by (simp add: b_def ucast_u32_u64)
  have ee: "e < 2 ^ 64" "e = b + n + total ys" using I(5) by (simp_all add: b_def e_def)
  show ?thesis
  proof (cases "\<exists>k zs. ys = (k, False) # zs")
    case True
    then obtain k zs where "ys = (k, False) # zs" by blast
    then show ?thesis
      using merge_inv [of base xs n k zs a m] inv by (simp add: m'_def b_def)
  next
    case False
    then have jr: "join_right n ys = (n, False) # ys" by (cases "(n, ys)" rule: join_right.cases) auto
    have ok: "sizes_ok ys" using I(8) by simp
    let ?f = "next_free_from (b + n) ys e"
    have "?f = e \<or> ?f \<noteq> b + n"
    proof (cases ys)
      case (Cons y zs)
      then obtain k where y: "y = (k, True)" using False by (cases y) auto
      then have "b + n + k \<le> ?f"
        using next_free_from_range(1) [of zs "b + n + k" e] ok ee Cons by simp
      then show ?thesis using ok Cons y by simp
    qed simp
    moreover have "?f \<le> e" using next_free_from_range(2) [OF ok, of "b + n" e] ee by simp
    ultimately have "of_nat ?f = a_end a \<or> of_nat ?f \<noteq> next_blk m (of_nat b)"
      using I(3) ee of_nat_u64_eq_iff [of ?f "b + n"] unfolding nx by (auto simp: e_def)
    then have "m' = m" unfolding m'_def by (rule coalesce_skip)
    then show ?thesis using inv jr by simp
  qed
qed

lemma join_left_step:
  assumes inv: "alloc_inv base (xs @ (n, False) # ys) a m"
  defines "b \<equiv> base + total xs" and "p \<equiv> opt_addr (last_free None base xs)"
  defines "m' \<equiv> if p \<noteq> 0 then coalesce a p (of_nat b) m else m"
  shows "alloc_inv base (join_left (rev xs) ((n, False) # ys)) a m' \<and>
    payload_same base (join_left (rev xs) ((n, False) # ys)) m m'"
proof -
  note I = alloc_invD [OF inv]
  show ?thesis
  proof (cases "\<exists>k zs. xs = zs @ [(k, False)]")
    case True
    then obtain k zs where xs: "xs = zs @ [(k, False)]" by blast
    have "p = of_nat (base + total zs)" "b = base + total zs + k"
      by (simp_all add: p_def b_def xs opt_addr_def)
    moreover have "(of_nat (base + total zs) :: u64) \<noteq> 0"
      using of_nat_u64_eq_iff [of "base + total zs" 0] I(1,5) xs by auto
    ultimately have "m' = coalesce a (of_nat (base + total zs)) (of_nat (base + total zs + k)) m"
      by (simp add: m'_def)
    then show ?thesis using merge_inv [of base zs k n ys a m] inv xs by simp
  next
    case False
    have jl: "join_left (rev xs) ((n, False) # ys) = xs @ (n, False) # ys"
    proof (cases xs rule: rev_cases)
      case (snoc zs z)
      then have "snd z" using False by (cases z) auto
      then show ?thesis using snoc by (cases z) simp
    qed simp
    have "m' = m"
    proof (cases "last_free None base xs")
      case None
      then show ?thesis by (simp add: m'_def p_def opt_addr_def)
    next
      case (Some q)
      then obtain zs k ws where xs: "xs = zs @ (k, False) # ws" "q = base + total zs"
        by (rule last_free_split)
      have k: "hd_at m q FNext = of_nat k" "k < 2 ^ 32" using I(4,7) xs by auto
      have nx: "next_blk m (of_nat q) = of_nat (q + k)"
        unfolding next_blk_def field_reads k(1) using k(2) by (simp add: ucast_u32_u64)
      have "ws \<noteq> []" using False xs by auto
      then have "0 < total ws" using I(8) xs by (cases ws) auto
      then have "q + k \<noteq> b" "q + k < 2 ^ 64" "b < 2 ^ 64" using I(5) xs by (auto simp: b_def)
      then have "of_nat b \<noteq> next_blk m (of_nat q)"
        unfolding nx using of_nat_u64_eq_iff [of b "q + k"] by auto
      then show ?thesis using Some by (simp add: m'_def p_def opt_addr_def coalesce_skip)
    qed
    then show ?thesis using inv jl by simp
  qed
qed

lemma free_result:
  assumes inv: "alloc_inv base (xs @ (n, True) # ys) a m" and cond: "all_used ys \<or> \<not> all_used xs"
  shows "\<exists>a' m'. free a (of_nat (base + total xs + 12)) m = Inr (a', m') \<and>
    alloc_inv base (freed xs n ys) a' m' \<and> payload_same base (freed xs n ys) m m'"
proof -
  define b where "b = base + total xs"
  define e where "e = base + total (xs @ (n, True) # ys)"
  define fx where "fx = next_free_from (b + n) ys e"
  define p where "p = opt_addr (last_free None base xs)"
  define m1 where "m1 = wr b FUsed 0 (wr b FPrevFree 0 m)"
  define a1 where "a1 = (if of_nat b < a_free a then a\<lparr>a_free := of_nat b\<rparr> else a)"
  define m2 where "m2 = free_link a1 (of_nat b) (of_nat fx) p m1"
  define m3 where "m3 = coalesce a1 (of_nat b) (of_nat fx) m2"
  define m4 where "m4 = (if p \<noteq> 0 then coalesce a1 p (of_nat b) m3 else m3)"
  note I = alloc_invD [OF inv]
  note defs = b_def e_def fx_def p_def m1_def a1_def m2_def
  note R = release_ok [OF inv cond, folded b_def e_def, folded fx_def p_def m1_def a1_def, folded m2_def]
  have R3: "alloc_inv base (xs @ (n, False) # ys) a1 m2" "payload_same base (xs @ (n, False) # ys) m m2"
    using R(3) by auto
  have "base + total (xs @ (n, False) # ys) = e" by (simp add: e_def)
  then have J: "alloc_inv base (xs @ join_right n ys) a1 m3" "payload_same base (xs @ join_right n ys) m2 m3"
    using join_right_step [OF R3(1)] unfolding m3_def fx_def b_def by auto
  obtain k zs where jr: "join_right n ys = (k, False) # zs" by (cases "(n, ys)" rule: join_right.cases) auto
  have L: "alloc_inv base (freed xs n ys) a1 m4" "payload_same base (freed xs n ys) m3 m4"
    using join_left_step [OF J(1) [unfolded jr]] unfolding m4_def p_def b_def freed_def jr by auto
  have pay: "payload_same base (freed xs n ys) m m4"
  proof -
    have r: "payload_same base (xs @ join_right n ys) m' m''" if "payload_same base (xs @ (n, False) # ys) m' m''" for m' m''
      using that by (cases "(n, ys)" rule: join_right.cases) (auto simp: add.assoc)
    have l: "payload_same base (freed xs n ys) m' m''" if "payload_same base (xs @ (k, False) # zs) m' m''" for m' m''
    proof (cases xs rule: rev_cases)
      case (snoc ws w)
      obtain i u where "w = (i, u)" by (cases w)
      then show ?thesis using that snoc unfolding freed_def jr by (cases u) (auto simp: add.assoc)
    qed (use that in \<open>simp add: freed_def jr\<close>)
    from r [OF R3(2)] J(2) have "payload_same base (xs @ (k, False) # zs) m m3"
      unfolding jr by (rule payload_same_trans)
    then show ?thesis using payload_same_trans [OF l L(2)] by blast
  qed
  have ptr: "PTR_BLOCK (of_nat (b + 12)) = of_nat b" by (simp add: PTR_BLOCK_def USED_HEADER_SIZE_def)
  have g: "of_nat (b + 12) < a_end a" "of_nat (b + 12) > a_base a"
    unfolding I(2,3) word_less_nat_alt using I(5,8)
    by (subst (1 2) unat_of_nat_u64; force simp: b_def)+
  have u: "b_used m (of_nat b) = 1" unfolding field_reads b_def using I(7) by simp
  have "free a (of_nat (b + 12)) m = Inr (a1, m4)"
    unfolding free_def Let_def ptr u field_writes m1_def [symmetric] a1_def [symmetric] R(1) option.case
      R(2) m2_def [symmetric] m3_def [symmetric] m4_def [symmetric]
    using g by (simp add: KASSERT_def)
  then show ?thesis using L(1) pay unfolding b_def by blast
qed

section \<open>Initialisation\<close>

lemma alloc_init_inv:
  assumes "0 < base" "20 \<le> n" "n < 2 ^ 32" "base + n + 20 \<le> 2 ^ 64" "alloc_init m (of_nat base) (of_nat n) = (a, m')"
  shows "alloc_inv base [(n, False)] a m'"
proof -
  have a: "a = \<lparr>a_base = of_nat base, a_free = of_nat base, a_end = of_nat (base + n)\<rparr>"
    and m': "m' = wr base FPrevFree 0 (wr base FNextFree (of_nat n) (wr base FUsed 0 (wr base FNext (of_nat n)
      (wr base FPrev 0 m))))"
    using assms(5) by (simp_all add: alloc_init_def Let_def field_writes ucast_u64_u32)
  have "holds {base} m' (put base FPrevFree 0 (put base FNextFree (of_nat n) (put base FUsed 0
      (put base FNext (of_nat n) (put base FPrev 0 (hd_at m))))))"
    unfolding m' using assms(4) by (intro holds_wr holds_hd_at) (simp_all add: sep_def)
  then have "hd_at m' base f = (if f = FNext \<or> f = FNextFree then of_nat n else 0)" for f
    by (cases f) (simp_all add: holds_def put_apply)
  then show ?thesis using assms a by (simp add: alloc_inv_def back_dist_def)
qed

section \<open>Freeing below the free list\<close>

text \<open>
  When the block to free lies below every free block, the free block behind it has
  \<open>prev_free = 0\<close>, and \<open>pfree\<close> returns that block itself instead of \<open>NULL\<close>: its \<open>next_free\<close>
  becomes a negative distance, which is added to its address as an unsigned 32-bit value.
\<close>

lemma ucast_minus_u32:
  assumes "0 < n" "n < 2 ^ 32" shows "ucast (- of_nat n :: u32) = (of_nat (2 ^ 32 - n) :: u64)"
proof -
  have "(- of_nat n :: u32) = of_nat (2 ^ 32 - n)"
    using assms by (simp add: of_nat_diff)
  then show ?thesis by (rule ssubst) (rule ucast_u32_u64, use assms in simp)
qed

lemma ucast_neg_u64_u32:
  assumes "c = b + n" "c < 2 ^ 64"
  shows "ucast (of_nat c - of_nat b :: u64) = (of_nat n :: u32)" "ucast (of_nat b - of_nat c :: u64) = (- of_nat n :: u32)"
proof -
  have "(of_nat b - of_nat c :: u64) = of_nat (2 ^ 64 - n)" using assms by (simp add: of_nat_diff)
  moreover have "(of_nat (2 ^ 64 - n) :: u32) = - of_nat n" using assms by (simp add: of_nat_diff)
  ultimately show "ucast (of_nat b - of_nat c :: u64) = (- of_nat n :: u32)" by (simp only: ucast_u64_u32)
  have "(of_nat c - of_nat b :: u64) = of_nat n" using assms by simp
  then show "ucast (of_nat c - of_nat b :: u64) = (of_nat n :: u32)" by (simp only: ucast_u64_u32)
qed

lemma free_below_result:
  assumes inv: "alloc_inv base (xs @ (n, True) # (k, False) # ys) a m" and xs: "all_used xs"
    and far: "base + total xs + 2 ^ 32 + 20 \<le> 2 ^ 64" "total (xs @ (n, True) # (k, False) # ys) + 20 \<le> 2 ^ 32"
  shows "\<exists>a' m'. free a (of_nat (base + total xs + 12)) m = Inr (a', m') \<and>
    hd_at m' (base + total xs + 2 ^ 32) FPrevFree = hd_at m (base + total xs + 2 ^ 32) FPrevFree + of_nat n"
proof -
  define b where "b = base + total xs"
  define c where "c = b + n"
  let ?bs = "xs @ (n, True) # (k, False) # ys"
  define e where "e = base + total ?bs"
  define w where "w = b + 2 ^ 32"
  define S where "S = insert w (insert e (addrs base ?bs))"
  note I = alloc_invD [OF inv]
  have e: "e = c + k + total ys" "e + 20 \<le> 2 ^ 64" "e + 20 \<le> w" "w + 20 \<le> 2 ^ 64"
    using I(5) far by (simp_all add: b_def c_def e_def w_def)
  have ok: "20 \<le> n" "20 \<le> k" "n < 2 ^ 32" "k < 2 ^ 32" "sizes_ok ys" using I(4,8) by auto
  have sep: "sep S"
  proof -
    have s: "sep (insert e (addrs base ?bs))" using sep_addrs [OF I(8) I(5)] by (simp add: e_def)
    have "x \<le> e" if "x \<in> insert e (addrs base ?bs)" for x
      using addrs_range_ok [OF I(8), of x base] that by (auto simp: e_def)
    then have "x + 20 \<le> w" if "x \<in> insert e (addrs base ?bs)" for x
      using e(3) that by (meson add_le_mono1 order_trans)
    then show ?thesis using s e(4) unfolding S_def sep_def by blast
  qed
  have inS: "b \<in> S" "c \<in> S" "w \<in> S" "c + k \<in> S"
  proof -
    show "c + k \<in> S" using e(1) by (cases ys) (auto simp: S_def b_def c_def)
  qed (simp_all add: S_def b_def c_def)
  note hw = holds_wr [OF _ sep]
  have ne: "b \<noteq> c" "b \<noteq> w" "c \<noteq> w" "c + k \<noteq> w" "c \<noteq> e" "c + k \<noteq> b" using e ok by (auto simp: c_def)
  have hd: "hd_at m b FNext = of_nat n" "hd_at m b FUsed = 1" "hd_at m c FPrevFree = 0" "hd_at m c FUsed = 0"
      "hd_at m c FNext = of_nat k"
    using I(7) last_free_None_iff [of base xs] xs by (simp_all add: b_def c_def back_dist_def)
  define m1 where "m1 = wr b FUsed 0 (wr b FPrevFree 0 m)"
  define a1 where "a1 = (if of_nat b < a_free a then a\<lparr>a_free := of_nat b\<rparr> else a)"
  define m2 where "m2 = wr c FNextFree (- of_nat n) (wr b FPrevFree (- of_nat n) (wr c FPrevFree (of_nat n)
     (wr b FNextFree (of_nat n) m1)))"
  define v where "v = hd_at m w FPrevFree + of_nat n"
  define m3 where "m3 = wr w FPrevFree v m2"
  define G1 where "G1 = put b FUsed 0 (put b FPrevFree 0 (hd_at m))"
  define G2 where "G2 = put c FNextFree (- of_nat n) (put b FPrevFree (- of_nat n) (put c FPrevFree (of_nat n)
     (put b FNextFree (of_nat n) G1)))"
  note Gd = G1_def G2_def put_apply
  have h1: "holds S m1 G1" unfolding m1_def G1_def by (intro hw holds_hd_at inS)
  have h2: "holds S m2 G2" unfolding m2_def G2_def by (intro hw h1 inS)
  have h3: "holds S m3 (put w FPrevFree v G2)" unfolding m3_def by (intro hw h2 inS)
  have lt: "b < 2 ^ 64" "c < 2 ^ 64" "w < 2 ^ 64" "e < 2 ^ 64" "0 < c" "c + k < 2 ^ 64" "w \<noteq> e" using e ok by (auto simp: c_def)
  have ae: "a_end a1 = of_nat e" using I(3) by (simp add: a1_def e_def)
  have cond: "(of_nat c :: u64) \<noteq> of_nat e" "(of_nat w :: u64) \<noteq> of_nat e" "(of_nat c :: u64) \<noteq> 0"
    using of_nat_u64_eq_iff [OF lt(2,4)] of_nat_u64_eq_iff [OF lt(3,4)] of_nat_u64_eq_iff [OF lt(2), of 0] lt ne
    by simp_all
  have n1: "next_blk m1 (of_nat b) = of_nat c"
    unfolding next_blk_def field_reads holdsD [OF h1 inS(1)] Gd using hd(1) ok(3)
    by (simp add: ucast_u32_u64 c_def)
  have w1: "walk_next m1 (of_nat e) (of_nat c) = Some (of_nat c)"
    using holdsD [OF h1 inS(2), of FUsed] hd(4) ne by (subst walk_next.simps) (simp add: field_reads Gd)
  have p1: "pfree m1 (of_nat c) = of_nat c"
    using holdsD [OF h1 inS(2), of FPrevFree] hd(3) ne by (simp add: pfree_def field_reads Gd)
  note d = ucast_neg_u64_u32 [OF c_def lt(2)]
  have link: "free_link a1 (of_nat b) (of_nat c) (of_nat c) m1 = m2"
  proof -
    have "b_next_free (wr b FNextFree (of_nat n) m1) (of_nat b) = of_nat n"
      unfolding field_reads holdsD [OF hw [OF h1 inS(1)] inS(1)] by (simp add: put_apply)
    moreover have "b_prev_free (wr b FPrevFree v' m') (of_nat b) = v'" for v' m'
      unfolding field_reads holdsD [OF hw [OF holds_hd_at(2) inS(1)] inS(1)] by (simp add: put_apply)
    ultimately show ?thesis
      unfolding free_link_def Let_def field_writes d ae m2_def using cond by simp
  qed
  have n2: "next_blk m2 (of_nat b) = of_nat c" "nfree m2 (of_nat c) = of_nat w"
  proof -
    show "next_blk m2 (of_nat b) = of_nat c"
      unfolding next_blk_def field_reads holdsD [OF h2 inS(1)] Gd using hd(1) ok(3) ne(1)
      by (simp add: ucast_u32_u64 c_def)
    have "c + (2 ^ 32 - n) = w" using ok(3) by (simp add: c_def w_def)
    moreover have "hd_at m2 c FNextFree = - of_nat n" unfolding holdsD [OF h2 inS(2)] Gd by simp
    moreover have "ucast (- of_nat n :: u32) = (of_nat (2 ^ 32 - n) :: u64)" using ok by (intro ucast_minus_u32) auto
    ultimately show "nfree m2 (of_nat c) = of_nat w"
      unfolding nfree_def field_reads by (metis of_nat_add)
  qed
  have v2: "b_prev_free m2 (of_nat w) + b_next_free m2 (of_nat b) = v"
    unfolding field_reads holdsD [OF h2 inS(3)] holdsD [OF h2 inS(1)] v_def Gd using ne by simp
  have n3: "next_blk m3 (of_nat c) = of_nat (c + k)"
    unfolding next_blk_def field_reads holdsD [OF h3 inS(2)] Gd using hd(5) ok(4) ne by (simp add: ucast_u32_u64)
  obtain m4 where m4: "coalesce a1 (of_nat b) (of_nat c) m2 = m4" "hd_at m4 w FPrevFree = v"
      "hd_at m4 c FNext = of_nat k"
  proof -
    define m' where "m' = (if (of_nat (c + k) :: u64) \<noteq> a_end a1
      then wr (c + k) FPrev (b_prev m3 (of_nat (c + k)) + b_next m3 (of_nat b)) m3 else m3)"
    have keep: "hd_at m' x f = put w FPrevFree v G2 x f" if "x \<in> {w, c}" "f = FPrevFree \<or> f = FNext" for x f
      using that holdsD [OF h3] holdsD [OF hw [OF h3 inS(4)]] inS unfolding m'_def by (auto simp: put_apply)
    obtain y z where "coalesce a1 (of_nat b) (of_nat c) m2 = wr b FNext y (wr b FNextFree z m')"
      unfolding coalesce_def Let_def n2 field_writes ae v2 m3_def [symmetric] cond [THEN eqTrueI] simp_thms if_True n3
        m'_def [unfolded ae, symmetric] by blast
    moreover have "hd_at (wr b FNext y (wr b FNextFree z m')) x f = hd_at m' x f" if "x \<in> {w, c}" for x f
    proof -
      have "holds S (wr b FNext y (wr b FNextFree z m')) (put b FNext y (put b FNextFree z (hd_at m')))"
        by (intro hw holds_hd_at inS)
      then show ?thesis using holdsD [of S _ _ x f] that ne inS by (auto simp: put_apply)
    qed
    ultimately show thesis
      using that keep [of w FPrevFree] keep [of c FNext] hd(5) ne by (simp add: Gd)
  qed
  have last: "coalesce a1 (of_nat c) (of_nat b) m4 = m4"
  proof (rule coalesce_skip)
    have "next_blk m4 (of_nat c) = of_nat (c + k)"
      unfolding next_blk_def field_reads m4(3) using ok(4) by (simp add: ucast_u32_u64)
    then show "of_nat b = a_end a1 \<or> of_nat b \<noteq> next_blk m4 (of_nat c)"
      using of_nat_u64_eq_iff [OF lt(1,6)] ne(6) by auto
  qed
  have ptr: "PTR_BLOCK (of_nat (b + 12)) = of_nat b" by (simp add: PTR_BLOCK_def USED_HEADER_SIZE_def)
  have g: "of_nat (b + 12) < a_end a" "of_nat (b + 12) > a_base a"
    unfolding I(2,3) word_less_nat_alt using I(5,8)
    by (subst (1 2) unat_of_nat_u64; force simp: b_def)+
  have u: "b_used m (of_nat b) = 1" unfolding field_reads by (rule hd)
  have "free a (of_nat (b + 12)) m = Inr (a1, m4)"
    unfolding free_def Let_def ptr u field_writes m1_def [symmetric] a1_def [symmetric] n1 ae w1 option.case p1
    using g cond by (simp add: KASSERT_def link m4(1) last)
  then show ?thesis using m4(2) unfolding b_def v_def w_def by blast
qed

end
