(* ===== verification/Alloc_Props.thy ===== *)
theory Alloc_Props
  imports Alloc_Inv
begin

text \<open>
  The allocator's contract and its properties. The interface \<open>allocator\<close> speaks only of live
  regions: a client learns from it that what it was handed is disjoint from everything else
  that is live and that live bytes stay as they are. It is interpreted on \<open>alloc\<close> with the
  regions behind the used blocks' headers as the live ones.
\<close>

section \<open>The interface\<close>

definition apart_regions :: "nat \<times> nat \<Rightarrow> nat \<times> nat \<Rightarrow> bool" where
  "apart_regions r s \<longleftrightarrow> fst r + snd r \<le> fst s \<or> fst s + snd s \<le> fst r"

text \<open>Requests served one after the other; the first failure ends the sequence.\<close>

fun take_all :: "('s \<Rightarrow> nat \<Rightarrow> (nat \<times> 's) option) \<Rightarrow> 's \<Rightarrow> nat list \<Rightarrow> (nat list \<times> 's) option" where
  "take_all f s [] = Some ([], s)"
| "take_all f s (l # ls) =
     (case f s l of None \<Rightarrow> None
      | Some (p, s') \<Rightarrow> map_option (\<lambda>(ps, s''). (p # ps, s'')) (take_all f s' ls))"

locale allocator =
  fixes live :: "'s \<Rightarrow> (nat \<times> nat) set \<Rightarrow> bool"
    and take_one :: "'s \<Rightarrow> nat \<Rightarrow> (nat \<times> 's) option"
    and fits :: "nat \<Rightarrow> bool"
    and same :: "nat \<times> nat \<Rightarrow> 's \<Rightarrow> 's \<Rightarrow> bool"
  assumes live_apart: "live s L \<Longrightarrow> r \<in> L \<Longrightarrow> r' \<in> L \<Longrightarrow> r \<noteq> r' \<Longrightarrow> apart_regions r r'"
    and take_live: "live s L \<Longrightarrow> fits len \<Longrightarrow> take_one s len = Some (p, s') \<Longrightarrow>
      \<exists>k \<ge> len. (p, k) \<notin> L \<and> live s' (insert (p, k) L) \<and> (\<forall>r \<in> L. same r s s')"
    and same_refl: "same r s s"
    and same_trans: "same r s s' \<Longrightarrow> same r s' s'' \<Longrightarrow> same r s s''"
begin

lemma take_all_live:
  assumes "live s L" "\<forall>l \<in> set ls. fits l" "take_all take_one s ls = Some (ps, s')"
  obtains ks where "length ps = length ls" "length ks = length ls" "list_all2 (\<le>) ls ks"
    "live s' (L \<union> set (zip ps ks))" "distinct (zip ps ks)" "set (zip ps ks) \<inter> L = {}" "\<forall>r \<in> L. same r s s'"
  using assms
proof (induction ls arbitrary: s L ps thesis)
  case Nil
  then show ?case by (auto simp: same_refl)
next
  case (Cons l ls)
  obtain p s1 qs where t: "take_one s l = Some (p, s1)" "take_all take_one s1 ls = Some (qs, s')" "ps = p # qs"
    using Cons.prems(4) by (auto split: option.splits)
  obtain k where k: "l \<le> k" "(p, k) \<notin> L" "live s1 (insert (p, k) L)" "\<forall>r \<in> L. same r s s1"
    using take_live [OF Cons.prems(2) _ t(1)] Cons.prems(3) by auto
  obtain ks where ks: "length qs = length ls" "length ks = length ls" "list_all2 (\<le>) ls ks"
    "live s' (insert (p, k) L \<union> set (zip qs ks))" "distinct (zip qs ks)"
    "set (zip qs ks) \<inter> insert (p, k) L = {}" "\<forall>r \<in> insert (p, k) L. same r s1 s'"
    using Cons.IH [OF _ k(3) _ t(2)] Cons.prems(3) by auto
  show ?case
  proof (rule Cons.prems(1) [of "k # ks"])
    show "live s' (L \<union> set (zip ps (k # ks)))" using ks(4) t(3) by simp
  qed (use ks t k in \<open>auto intro: same_trans\<close>)
qed

lemma take_all_apart:
  assumes "live s L" "\<forall>l \<in> set ls. fits l" "take_all take_one s ls = Some (ps, s')"
  shows "i < length ls \<Longrightarrow> j < length ls \<Longrightarrow> i \<noteq> j \<Longrightarrow> apart_regions (ps ! i, ls ! i) (ps ! j, ls ! j)"
    and "i < length ls \<Longrightarrow> r \<in> L \<Longrightarrow> apart_regions (ps ! i, ls ! i) r"
    and "r \<in> L \<Longrightarrow> same r s s'" and "length ps = length ls"
proof -
  obtain ks where ks: "length ps = length ls" "length ks = length ls" "list_all2 (\<le>) ls ks"
    "live s' (L \<union> set (zip ps ks))" "distinct (zip ps ks)" "set (zip ps ks) \<inter> L = {}" "\<forall>r \<in> L. same r s s'"
    using assms by (rule take_all_live)
  have le: "ls ! i \<le> ks ! i" if "i < length ls" for i using ks(3) that by (rule list_all2_nthD)
  have z: "(ps ! i, ks ! i) \<in> set (zip ps ks)" if "i < length ls" for i
    using that ks(1,2) by (auto simp: set_zip)
  show "apart_regions (ps ! i, ls ! i) (ps ! j, ls ! j)" if ij: "i < length ls" "j < length ls" "i \<noteq> j"
  proof -
    have "(ps ! i, ks ! i) \<noteq> (ps ! j, ks ! j)"
      using ks(1,2,5) ij by (metis length_zip min.idem nth_eq_iff_index_eq nth_zip)
    then have "apart_regions (ps ! i, ks ! i) (ps ! j, ks ! j)"
      using live_apart [OF ks(4)] z ij by blast
    then show ?thesis using le [OF ij(1)] le [OF ij(2)] by (auto simp: apart_regions_def)
  qed
  show "apart_regions (ps ! i, ls ! i) r" if ir: "i < length ls" "r \<in> L"
  proof -
    have "apart_regions (ps ! i, ks ! i) r"
      using live_apart [OF ks(4), of "(ps ! i, ks ! i)" r] z [OF ir(1)] ir(2) ks(6) by blast
    then show ?thesis using le [OF ir(1)] by (auto simp: apart_regions_def)
  qed
  show "r \<in> L \<Longrightarrow> same r s s'" "length ps = length ls" using ks by auto
qed

end

section \<open>The kernel's allocator as an instance\<close>

fun used_regions :: "nat \<Rightarrow> blocks \<Rightarrow> (nat \<times> nat) set" where
  "used_regions a [] = {}"
| "used_regions a ((n, u) # bs) = (if u then {(a + 12, n - 12)} else {}) \<union> used_regions (a + n) bs"

definition live_at :: "nat \<Rightarrow> alloc_t \<times> memory \<Rightarrow> (nat \<times> nat) set \<Rightarrow> bool" where
  "live_at base s L \<longleftrightarrow> (\<exists>bs. alloc_inv base bs (fst s) (snd s) \<and> L = used_regions base bs)"

definition alloc_one :: "alloc_t \<times> memory \<Rightarrow> nat \<Rightarrow> (nat \<times> alloc_t \<times> memory) option" where
  "alloc_one s len =
     (case alloc (fst s) (of_nat len) (snd s) of
        Inl _ \<Rightarrow> None
      | Inr (p, s') \<Rightarrow> if p = 0 then None else Some (unat p, s'))"

definition alloc_size_ok :: "nat \<Rightarrow> bool" where
  "alloc_size_ok len \<longleftrightarrow> 8 \<le> len \<and> len + 12 < 2 ^ 32"

definition region_same :: "nat \<times> nat \<Rightarrow> alloc_t \<times> memory \<Rightarrow> alloc_t \<times> memory \<Rightarrow> bool" where
  "region_same r s s' \<longleftrightarrow> (\<forall>i. fst r \<le> i \<longrightarrow> i < fst r + snd r \<longrightarrow> snd s' (of_nat i) = snd s (of_nat i))"

lemma used_regions_append [simp]:
  "used_regions a (xs @ ys) = used_regions a xs \<union> used_regions (a + total xs) ys"
  by (induction xs arbitrary: a) (auto simp: ac_simps)

lemma used_regions_range:
  "sizes_ok bs \<Longrightarrow> r \<in> used_regions a bs \<Longrightarrow> a + 12 \<le> fst r \<and> fst r + snd r \<le> a + total bs \<and> 8 \<le> snd r"
proof (induction bs arbitrary: a)
  case (Cons b bs)
  obtain n u where b: "b = (n, u)" by (cases b)
  then show ?case using Cons.IH [of "a + n"] Cons.prems by (auto split: if_splits)
qed simp

lemma used_regions_apart:
  "sizes_ok bs \<Longrightarrow> r \<in> used_regions a bs \<Longrightarrow> r' \<in> used_regions a bs \<Longrightarrow> r \<noteq> r' \<Longrightarrow> apart_regions r r'"
proof (induction bs arbitrary: a)
  case (Cons b bs)
  obtain n u where b: "b = (n, u)" by (cases b)
  then have ok: "sizes_ok bs" "20 \<le> n" using Cons.prems(1) by auto
  note rng = used_regions_range [OF ok(1), of _ "a + n"]
  have h: "x \<in> used_regions (a + n) bs \<Longrightarrow>
      apart_regions x (a + 12, n - 12) \<and> apart_regions (a + 12, n - 12) x" for x
    using rng [of x] ok(2) by (simp add: apart_regions_def)
  show ?case using Cons.IH [OF ok(1), of "a + n"] Cons.prems(2-4) h [of r] h [of r'] b by (auto split: if_splits)
qed simp

lemma payload_same_regions:
  "payload_same a bs m m' \<Longrightarrow> r \<in> used_regions a bs \<Longrightarrow> region_same r (x, m) (y, m')"
  by (induction bs arbitrary: a) (auto simp: region_same_def split: if_splits)

section \<open>Best fit and the instance\<close>

lemma alloc_best:
  assumes inv: "alloc_inv base bs a m" and len: "8 \<le> len" "len + 12 < 2 ^ 32"
  shows "(\<exists>xs n ys a' m'. bs = xs @ (n, False) # ys \<and> len + 12 \<le> n \<and>
        (\<forall>k. (k, False) \<in> set bs \<longrightarrow> len + 12 \<le> k \<longrightarrow> n \<le> k) \<and>
        alloc a (of_nat len) m = Inr (of_nat (base + total xs + 12), a', m') \<and>
        alloc_inv base (if len + 52 \<le> n then xs @ (len + 12, True) # (n - (len + 12), False) # ys
          else xs @ (n, True) # ys) a' m' \<and> payload_same base bs m m') \<or>
    ((\<forall>k. (k, False) \<in> set bs \<longrightarrow> k < len + 12) \<and> alloc a (of_nat len) m = Inr (0, a, m))"
proof -
  define r where "r = best_fit base bs (len + 12) None"
  note spec = best_fit_spec [OF r_def [symmetric]]
  note res = alloc_result [OF inv len, folded r_def]
  show ?thesis
  proof (cases r)
    case None
    then show ?thesis using spec res by fastforce
  next
    case (Some cn)
    obtain c n where cn: "cn = (c, n)" by (cases cn)
    have le: "\<forall>k. (k, False) \<in> set bs \<longrightarrow> len + 12 \<le> k \<longrightarrow> n \<le> k" "len + 12 \<le> n" using spec Some cn by auto
    obtain xs ys a' m' where x: "bs = xs @ (n, False) # ys" "c = base + total xs"
        "alloc a (of_nat len) m = Inr (of_nat (c + 12), a', m')"
        "alloc_inv base (if len + 12 + 40 \<le> n then xs @ (len + 12, True) # (n - (len + 12), False) # ys
          else xs @ (n, True) # ys) a' m'" "payload_same base bs m m'"
      using res unfolding Some cn option.case prod.case by blast
    have "len + 12 + 40 = len + 52" by simp
    then show ?thesis using x(1,3,4,5) le unfolding x(2) by metis
  qed
qed

lemma alloc_one_law:
  assumes "live_at base s L" "alloc_size_ok len" "alloc_one s len = Some (p, s')"
  shows "\<exists>k \<ge> len. (p, k) \<notin> L \<and> live_at base s' (insert (p, k) L) \<and> (\<forall>r \<in> L. region_same r s s')"
proof -
  obtain a m where s: "s = (a, m)" by (cases s)
  obtain bs where inv: "alloc_inv base bs a m" and L: "L = used_regions base bs"
    using assms(1) by (auto simp: live_at_def s)
  note I = alloc_invD [OF inv]
  have len: "8 \<le> len" "len + 12 < 2 ^ 32" using assms(2) by (auto simp: alloc_size_ok_def)
  have "alloc a (of_nat len) m \<noteq> Inr (0, a, m)" using assms(3) by (auto simp: alloc_one_def s)
  then obtain xs n ys a' m' where r: "bs = xs @ (n, False) # ys" "len + 12 \<le> n"
      "alloc a (of_nat len) m = Inr (of_nat (base + total xs + 12), a', m')"
      "alloc_inv base (if len + 52 \<le> n then xs @ (len + 12, True) # (n - (len + 12), False) # ys
          else xs @ (n, True) # ys) a' m'" "payload_same base bs m m'"
    using alloc_best [OF inv len] by blast
  define k where "k = (if len + 52 \<le> n then len else n - 12)"
  have "base + total xs + 12 < 2 ^ 64" using I(5,8) r(1) by simp
  then have p: "p = base + total xs + 12" "s' = (a', m')"
    using assms(3) r(3) unfolding alloc_one_def s by (auto simp: unat_of_nat_u64 split: if_splits simp del: of_nat_add)
  have new: "(p, k) \<notin> L"
    using used_regions_range [of xs "(p, k)" base] used_regions_range [of ys "(p, k)" "base + total xs + n"] I(8) r(1) p
    by (auto simp: L)
  have "live_at base s' (insert (p, k) L)"
    unfolding live_at_def p using r(4) by (intro exI conjI, simp) (auto simp: L r(1) k_def p add.assoc)
  moreover have "\<forall>r \<in> L. region_same r s s'"
    using payload_same_regions [OF r(5)] by (auto simp: L s p)
  moreover have "len \<le> k" using r(2) by (auto simp: k_def)
  ultimately show ?thesis using new by blast
qed

interpretation kalloc: allocator "live_at base" alloc_one alloc_size_ok region_same for base
proof
  show "apart_regions r r'" if "live_at base s L" "r \<in> L" "r' \<in> L" "r \<noteq> r'" for s L r r'
    using that used_regions_apart [OF alloc_invD(8)] unfolding live_at_def by blast
  show "\<exists>k \<ge> len. (p, k) \<notin> L \<and> live_at base s' (insert (p, k) L) \<and> (\<forall>r \<in> L. region_same r s s')"
    if "live_at base s L" "alloc_size_ok len" "alloc_one s len = Some (p, s')" for s L len p s'
    using that by (rule alloc_one_law)
qed (auto simp: region_same_def)

section \<open>No two free neighbours\<close>

fun coalesced :: "blocks \<Rightarrow> bool" where
  "coalesced ((n, u) # (k, v) # bs) \<longleftrightarrow> (u \<or> v) \<and> coalesced ((k, v) # bs)"
| "coalesced bs = True"

lemma coalesced_Cons: "coalesced (b # bs) \<longleftrightarrow> (bs \<noteq> [] \<longrightarrow> snd b \<or> snd (hd bs)) \<and> coalesced bs"
  by (cases b; cases bs) auto

lemma coalesced_append:
  "coalesced (xs @ ys) \<longleftrightarrow>
     coalesced xs \<and> coalesced ys \<and> (xs \<noteq> [] \<longrightarrow> ys \<noteq> [] \<longrightarrow> snd (last xs) \<or> snd (hd ys))"
  by (induction xs) (auto simp: coalesced_Cons)

lemma join_right_coalesced:
  "coalesced ys \<Longrightarrow> coalesced (join_right n ys)"
  by (cases "(n, ys)" rule: join_right.cases) (auto simp: coalesced_Cons)

lemma join_left_cases:
  "join_left (rev xs) ((n, u) # ys) =
     (if xs \<noteq> [] \<and> \<not> snd (last xs) then butlast xs @ (fst (last xs) + n, False) # ys else xs @ (n, u) # ys)"
proof (cases xs rule: rev_cases)
  case (snoc zs z)
  then show ?thesis by (cases z) auto
qed simp

lemma freed_coalesced:
  assumes "coalesced (xs @ (n, True) # ys)"
  shows "coalesced (freed xs n ys)"
proof -
  have c: "coalesced xs" "coalesced ys" using assms by (auto simp: coalesced_append coalesced_Cons)
  obtain k zs where jr: "join_right n ys = (k, False) # zs" by (cases "(n, ys)" rule: join_right.cases) auto
  have zs: "coalesced ((j, False) # zs)" for j
    using join_right_coalesced [OF c(2), of n] by (simp add: jr coalesced_Cons)
  show ?thesis
  proof (cases "xs \<noteq> [] \<and> \<not> snd (last xs)")
    case True
    then obtain ws w where xs: "xs = ws @ [(w, False)]" by (cases xs rule: rev_cases) auto
    then have "coalesced ws" "ws \<noteq> [] \<Longrightarrow> snd (last ws)" using c(1) by (auto simp: coalesced_append)
    then show ?thesis using zs xs by (simp add: freed_def jr coalesced_append)
  next
    case False
    then show ?thesis using zs c(1) unfolding freed_def jr join_left_cases by (auto simp: coalesced_append)
  qed
qed

lemma blocks_split_unique:
  "sizes_ok (xs @ b # ys) \<Longrightarrow> xs @ b # ys = xs' @ b' # ys' \<Longrightarrow> total xs = total xs' \<Longrightarrow>
   xs = xs' \<and> b = b' \<and> ys = ys'"
proof (induction xs arbitrary: xs')
  case Nil
  then show ?case by (cases xs'; cases b) auto
next
  case (Cons x xs)
  then show ?case by (cases xs'; cases x) auto
qed

section \<open>Properties\<close>

definition demo_region :: "alloc_t \<times> memory" where
  "demo_region = alloc_init (\<lambda>_. 0) 4096 4096"

lemma demo_region_inv: "alloc_inv 4096 [(4096, False)] (fst demo_region) (snd demo_region)"
  by (rule alloc_init_inv [of 4096 4096 "\<lambda>_. 0"]) (simp_all add: demo_region_def)

text \<open>
  \<open>alloc_init\<close> on a region of 20 bytes or more, below 4 GiB, leaves one free block that is
  the whole region, whatever the memory held before.
\<close>
theorem alloc_init_correct:
  assumes "0 < base" "20 \<le> n" "n < 2 ^ 32" "base + n + 20 \<le> 2 ^ 64"
  shows "case alloc_init m (of_nat base) (of_nat n) of (a, m') \<Rightarrow> alloc_inv base [(n, False)] a m'"
  using assms alloc_init_inv [of base n m] by (auto split: prod.splits)

theorem alloc_init_correct_witness:
  "case alloc_init (\<lambda>_. 0) 4096 4096 of (a, m') \<Rightarrow> alloc_inv 4096 [(4096, False)] a m'"
  using alloc_init_correct [of 4096 4096 "\<lambda>_. 0"] by simp

text \<open>
  C21: \<open>alloc\<close> of \<open>len\<close> bytes (at least 8) is best fit: it takes the smallest free block that holds
  the request and a header, splits off the rest when that leaves 40 bytes or more, returns the
  address behind the header, leaves a well-formed block list, and changes no byte of any
  block in use. It returns \<open>NULL\<close> and changes nothing exactly when no free block is large enough.
\<close>
theorem alloc_correct:
  assumes "alloc_inv base bs a m" "8 \<le> len" "len + 12 < 2 ^ 32"
  shows "(\<exists>xs n ys a' m'. bs = xs @ (n, False) # ys \<and> len + 12 \<le> n \<and>
        (\<forall>k. (k, False) \<in> set bs \<longrightarrow> len + 12 \<le> k \<longrightarrow> n \<le> k) \<and>
        alloc a (of_nat len) m = Inr (of_nat (base + total xs + 12), a', m') \<and>
        alloc_inv base (if len + 52 \<le> n then xs @ (len + 12, True) # (n - (len + 12), False) # ys
          else xs @ (n, True) # ys) a' m' \<and> payload_same base bs m m') \<or>
    ((\<forall>k. (k, False) \<in> set bs \<longrightarrow> k < len + 12) \<and> alloc a (of_nat len) m = Inr (0, a, m))"
  using assms by (rule alloc_best)

theorem alloc_correct_witness:
  "alloc_inv 4096 [(4096, False)] (fst demo_region) (snd demo_region) \<and>
   (\<exists>a' m'. alloc (fst demo_region) 100 (snd demo_region) = Inr (4108, a', m') \<and>
     alloc_inv 4096 [(112, True), (3984, False)] a' m')"
  using demo_region_inv alloc_correct [OF demo_region_inv, of 100] by (auto simp: Cons_eq_append_conv)

text \<open>
  C23: \<open>free\<close> of a block in use, when a free block lies below it or none lies above it, returns the
  block to the free list, merged with the free block right behind it and with the one right
  before it; the block list stays well formed and without two free neighbours, and no byte of
  any other block in use changes. In particular both walks and the merging end.
\<close>
theorem free_correct:
  assumes "alloc_inv base (xs @ (n, True) # ys) a m" "all_used ys \<or> \<not> all_used xs"
    "coalesced (xs @ (n, True) # ys)"
  shows "\<exists>a' m'. free a (of_nat (base + total xs + 12)) m = Inr (a', m') \<and>
    alloc_inv base (freed xs n ys) a' m' \<and> coalesced (freed xs n ys) \<and> payload_same base (freed xs n ys) m m'"
  using free_result [OF assms(1,2)] freed_coalesced [OF assms(3)] by blast

lemma demo_full: "\<exists>a m. alloc (fst demo_region) 4084 (snd demo_region) = Inr (4108, a, m) \<and> alloc_inv 4096 [(4096, True)] a m"
  using alloc_best [OF demo_region_inv, of 4084] by (auto simp: Cons_eq_append_conv)

theorem free_correct_witness:
  "\<exists>a m a' m'. alloc_inv 4096 [(4096, True)] a m \<and> coalesced [(4096, True)] \<and>
     free a 4108 m = Inr (a', m') \<and> alloc_inv 4096 [(4096, False)] a' m'"
proof -
  obtain a m where "alloc_inv 4096 [(4096, True)] a m" using demo_full by blast
  then show ?thesis using free_correct [of 4096 "[]" 4096 "[]" a m] by (fastforce simp: freed_def)
qed

text \<open>
  Allocating and freeing is a round trip: on a block list without free neighbours, freeing what
  \<open>alloc\<close> just returned gives the same block list again, if a free block lies below it
  (or none lies above it and the block was handed out whole).
\<close>
theorem alloc_free_roundtrip:
  assumes "alloc_inv base (xs @ (n, False) # ys) a m" "coalesced (xs @ (n, False) # ys)"
    "8 \<le> len" "len + 12 < 2 ^ 32" "alloc a (of_nat len) m = Inr (of_nat (base + total xs + 12), a', m')"
    "\<not> all_used xs \<or> all_used ys \<and> n < len + 52"
  shows "\<exists>a'' m''. free a' (of_nat (base + total xs + 12)) m' = Inr (a'', m'') \<and>
    alloc_inv base (xs @ (n, False) # ys) a'' m''"
proof -
  note I = alloc_invD [OF assms(1)]
  have nz: "(of_nat (base + total xs + 12) :: u64) \<noteq> 0"
    using of_nat_u64_eq_iff [of "base + total xs + 12" 0] I(1,5,8) by simp
  obtain xs' n' ys' where r: "xs @ (n, False) # ys = xs' @ (n', False) # ys'" "len + 12 \<le> n'"
      "(of_nat (base + total xs' + 12) :: u64) = of_nat (base + total xs + 12)"
      "alloc_inv base (if len + 52 \<le> n' then xs' @ (len + 12, True) # (n' - (len + 12), False) # ys'
          else xs' @ (n', True) # ys') a' m'"
    using alloc_best [OF assms(1,3,4)] assms(5) nz by auto
  have t: "total xs + n + total ys = total xs' + n' + total ys'"
    using arg_cong [OF r(1), of total] by simp
  have "20 \<le> n" "20 \<le> n'" using I(8) unfolding r(1) using I(8) by auto
  then have "total xs = total xs'"
    using r(3) I(5) t of_nat_u64_eq_iff [of "base + total xs' + 12" "base + total xs + 12"] by simp
  then have eq: "xs' = xs" "n' = n" "ys' = ys" using blocks_split_unique [OF I(8) r(1)] by auto
  have last: "xs \<noteq> [] \<Longrightarrow> snd (last xs)" and first: "ys \<noteq> [] \<Longrightarrow> snd (hd ys)"
    using assms(2) by (auto simp: coalesced_append coalesced_Cons)
  have jr: "join_right n ys = (n, False) # ys"
    using first by (cases "(n, ys)" rule: join_right.cases) auto
  show ?thesis
  proof (cases "len + 52 \<le> n")
    case True
    then have "alloc_inv base (xs @ (len + 12, True) # (n - (len + 12), False) # ys) a' m'" "\<not> all_used xs"
      using r(4) assms(6) by (auto simp: eq)
    moreover have "freed xs (len + 12) ((n - (len + 12), False) # ys) = xs @ (n, False) # ys"
      using last r(2) by (auto simp: freed_def join_left_cases eq)
    ultimately show ?thesis using free_result [of base xs "len + 12" "(n - (len + 12), False) # ys" a' m'] by auto
  next
    case False
    then have "alloc_inv base (xs @ (n, True) # ys) a' m'" "all_used ys \<or> \<not> all_used xs"
      using r(4) assms(6) by (auto simp: eq)
    moreover have "freed xs n ys = xs @ (n, False) # ys"
      using last by (auto simp: freed_def join_left_cases jr)
    ultimately show ?thesis using free_result [of base xs n ys a' m'] by auto
  qed
qed

theorem alloc_free_roundtrip_witness:
  "\<exists>a m a' m'. alloc (fst demo_region) 4084 (snd demo_region) = Inr (4108, a, m) \<and>
     free a 4108 m = Inr (a', m') \<and> alloc_inv 4096 [(4096, False)] a' m'"
proof -
  obtain a m where a: "alloc (fst demo_region) 4084 (snd demo_region) = Inr (4108, a, m)" using demo_full by blast
  then show ?thesis
    using alloc_free_roundtrip [of 4096 "[]" 4096 "[]" "fst demo_region" "snd demo_region" 4084 a m] demo_region_inv by simp
qed

text \<open>
  C24: what a sequence of successful \<open>alloc\<close> calls returns are pairwise disjoint regions of at
  least the requested sizes, disjoint from every region in use before, whose bytes stay as
  they were.
\<close>
theorem allocations_disjoint:
  assumes "alloc_inv base bs a m" "\<forall>l \<in> set ls. 8 \<le> l \<and> l + 12 < 2 ^ 32"
    "take_all alloc_one (a, m) ls = Some (ps, s')"
  shows "length ps = length ls \<and>
    (\<forall>i < length ls. \<forall>j < length ls. i \<noteq> j \<longrightarrow> apart_regions (ps ! i, ls ! i) (ps ! j, ls ! j)) \<and>
    (\<forall>r \<in> used_regions base bs. region_same r (a, m) s' \<and>
      (\<forall>i < length ls. apart_regions (ps ! i, ls ! i) r))"
proof -
  have "live_at base (a, m) (used_regions base bs)" using assms(1) by (auto simp: live_at_def)
  moreover have "\<forall>l \<in> set ls. alloc_size_ok l" using assms(2) by (simp add: alloc_size_ok_def)
  ultimately show ?thesis using kalloc.take_all_apart [OF _ _ assms(3)] by blast
qed

theorem allocations_disjoint_witness:
  "\<exists>ps s'. take_all alloc_one demo_region [100, 200] = Some (ps, s') \<and> length ps = 2 \<and>
     apart_regions (ps ! 0, 100) (ps ! 1, 200)"
proof -
  have "map_option fst (take_all alloc_one demo_region [100, 200]) = Some [4108, 4220]" by code_simp
  then obtain s' where t: "take_all alloc_one demo_region [100, 200] = Some ([4108, 4220], s')" by auto
  then show ?thesis
    using allocations_disjoint [OF demo_region_inv, of "[100, 200]"] by (auto simp: less_Suc_eq)
qed

text \<open>
  \<open>free\<close> of a block that lies below every free block, with a free block right behind it, adds
  the block's size to the 32-bit word at the block's address plus 4 GiB plus 16, far outside
  the region: \<open>pfree\<close> of the first free block returns that block instead of \<open>NULL\<close>.
\<close>
theorem free_below_free_list_writes_outside:
  assumes "alloc_inv base (xs @ (n, True) # (k, False) # ys) a m" "all_used xs"
    "base + total xs + 2 ^ 32 + 20 \<le> 2 ^ 64" "total (xs @ (n, True) # (k, False) # ys) + 20 \<le> 2 ^ 32"
  shows "\<exists>a' m'. free a (of_nat (base + total xs + 12)) m = Inr (a', m') \<and>
    load32 m' (of_nat (base + total xs + 2 ^ 32 + 16)) = load32 m (of_nat (base + total xs + 2 ^ 32 + 16)) + of_nat n"
  using free_below_result [OF assms] by (simp add: hd_at_def off_def)

theorem free_below_free_list_writes_outside_witness:
  "\<exists>a m a' m'. alloc (fst demo_region) 100 (snd demo_region) = Inr (4108, a, m) \<and>
     free a 4108 m = Inr (a', m') \<and> load32 m' 0x100001010 = load32 m 0x100001010 + 112"
proof -
  obtain a m where "alloc (fst demo_region) 100 (snd demo_region) = Inr (4108, a, m)"
      "alloc_inv 4096 [(112, True), (3984, False)] a m"
    using alloc_best [OF demo_region_inv, of 100] by (auto simp: Cons_eq_append_conv)
  then show ?thesis
    using free_below_free_list_writes_outside [of 4096 "[]" 112 3984 "[]" a m] by simp
qed

end
