(* ===== verification/Alloc_Aligned.thy ===== *)
theory Alloc_Aligned
  imports Alloc_Props
begin

text \<open>
  \<open>aligned_alloc\<close> of \<^verbatim>\<open>rtprog/alloc.c\<close> on the block list, for alignments that are powers of two. The
  function cuts the bytes in front of the aligned block off as a free block of their own; when they are
  fewer than the 20 bytes of a free header the two headers overlap, so the lemmas are about block lists in
  which no free block has such a sliver in front of its first aligned address.
\<close>

section \<open>The search\<close>

definition misfit :: "nat \<Rightarrow> nat \<Rightarrow> nat" where
  "misfit k a = (a + 12) mod 2 ^ k"

definition gap :: "nat \<Rightarrow> nat \<Rightarrow> nat" where
  "gap k a = (if misfit k a = 0 then 0 else 2 ^ k - misfit k a)"

lemma misfit_less: "misfit k a < 2 ^ k"
  by (simp add: misfit_def)

lemma gap_aligned: "(a + gap k a + 12) mod 2 ^ k = 0"
proof (cases "misfit k a = 0")
  case False
  have "a + (2 ^ k - misfit k a) + 12 = (a + 12) + 2 ^ k - misfit k a" using misfit_less [of k a] by simp
  also have "\<dots> = (a + 12) div 2 ^ k * 2 ^ k + 2 ^ k"
    using div_mult_mod_eq [of "a + 12" "2 ^ k"] by (simp add: misfit_def)
  finally show ?thesis using False by (simp add: gap_def)
qed (simp add: gap_def misfit_def)

fun aligned_fit :: "nat \<Rightarrow> nat \<Rightarrow> blocks \<Rightarrow> nat \<Rightarrow> (nat \<times> nat) option \<Rightarrow> (nat \<times> nat) option" where
  "aligned_fit k a [] x best = best"
| "aligned_fit k a ((n, u) # bs) x best =
     aligned_fit k (a + n) bs x
       (if \<not> u \<and> x \<le> n then
          (if misfit k a = 0 \<and> (case best of None \<Rightarrow> True | Some (_, s) \<Rightarrow> n < s) then Some (a, n)
           else if 2 ^ k - misfit k a + x \<le> n then Some (a, n) else best)
        else best)"

text \<open>What is chosen holds the gap and the request; nothing is chosen only when no free block does.\<close>

lemma aligned_fit_spec:
  assumes "aligned_fit k a bs x best = r"
  shows "(r = best \<or> (\<exists>xs n ys. r = Some (a + total xs, n) \<and> bs = xs @ (n, False) # ys \<and> gap k (a + total xs) + x \<le> n)) \<and>
    (r = None \<longrightarrow> best = None \<and> (\<forall>xs n ys. bs = xs @ (n, False) # ys \<longrightarrow> n < gap k (a + total xs) + x))"
  using assms
proof (induction bs arbitrary: a best)
  case (Cons b bs)
  obtain n u where b: "b = (n, u)" by (cases b)
  let ?best = "if \<not> u \<and> x \<le> n then
          (if misfit k a = 0 \<and> (case best of None \<Rightarrow> True | Some (_, s) \<Rightarrow> n < s) then Some (a, n)
           else if 2 ^ k - misfit k a + x \<le> n then Some (a, n) else best) else best"
  have r: "aligned_fit k (a + n) bs x ?best = r" using Cons.prems b by simp
  note IH = Cons.IH [OF r]
  have B: "?best = best \<or> ?best = Some (a, n) \<and> \<not> u \<and> gap k a + x \<le> n"
    by (auto simp: gap_def)
  have here: "\<exists>xs n' ys. Some (a, n) = Some (a + total xs, n') \<and> b # bs = xs @ (n', False) # ys \<and> gap k (a + total xs) + x \<le> n'"
    if "\<not> u" "gap k a + x \<le> n"
    using that b by (intro exI [of _ "[]"] exI [of _ n] exI [of _ bs]) simp
  have there: "\<exists>xs' n' ys'. r = Some (a + total xs', n') \<and> b # bs = xs' @ (n', False) # ys' \<and> gap k (a + total xs') + x \<le> n'"
    if "r = Some (a + n + total xs, n')" "bs = xs @ (n', False) # ys" "gap k (a + n + total xs) + x \<le> n'" for xs n' ys
    using that b by (intro exI [of _ "b # xs"] exI [of _ n'] exI [of _ ys]) (simp add: add.assoc)
  have 1: "r = best \<or> (\<exists>xs n ys. r = Some (a + total xs, n) \<and> b # bs = xs @ (n, False) # ys \<and> gap k (a + total xs) + x \<le> n)"
    using IH B here there by (elim conjE disjE exE) (metis | blast)+
  have 2: "best = None \<and> (\<forall>xs n ys. b # bs = xs @ (n, False) # ys \<longrightarrow> n < gap k (a + total xs) + x)" if "r = None"
  proof -
    have i: "?best = None" "\<And>xs n' ys. bs = xs @ (n', False) # ys \<Longrightarrow> n' < gap k (a + n + total xs) + x"
      using IH that by auto
    then have bn: "best = None" using B by auto
    have "n' < gap k (a + total xs) + x" if e: "b # bs = xs @ (n', False) # ys" for xs n' ys
    proof (cases xs)
      case Nil
      then have "\<not> u" "n' = n" using e b by auto
      then show ?thesis using i(1) bn Nil by (auto simp: gap_def split: if_splits)
    next
      case (Cons b' xs')
      then show ?thesis using i(2) [of xs' n' ys] e b by (auto simp: add.assoc)
    qed
    then show ?thesis using bn by blast
  qed
  show ?case using 1 2 by blast
qed simp

lemma get_align_nat: "a + 12 < 2 ^ 64 \<Longrightarrow> k < 64 \<Longrightarrow> get_align (BLOCK_PTR (of_nat a)) (2 ^ k) = of_nat (misfit k a)"
proof -
  assume a: "a + 12 < 2 ^ 64" and k: "k < 64"
  have "get_align (BLOCK_PTR (of_nat a)) (2 ^ k) = take_bit k (of_nat (a + 12))"
    unfolding get_align_def BLOCK_PTR_def USED_HEADER_SIZE_def by (simp add: take_bit_eq_mask mask_eq_exp_minus_1)
  also have "\<dots> = of_nat (take_bit k (a + 12))" by (simp add: take_bit_of_nat del: of_nat_add)
  finally show ?thesis by (simp add: misfit_def take_bit_eq_mod)
qed

lemma nfree_first:
  assumes "chain (hd_at m) p pf a ((n, False) # bs) e" "e = a + n + total bs" "n + total bs < 2 ^ 32"
  shows "nfree m (of_nat a) = of_nat (next_free_from (a + n) bs e)"
proof -
  let ?fx = "next_free_from (a + n) bs e"
  have "sizes_ok bs" using chain_sizes_ok [OF assms(1)] by simp
  then have fr: "a + n \<le> ?fx" "?fx \<le> e" using next_free_from_range [of bs "a + n" e] assms(2) by auto
  have "b_next_free m (of_nat a) = of_nat (?fx - a)" unfolding field_reads using assms(1) by simp
  moreover have "a + (?fx - a) = ?fx" "?fx - a < 2 ^ 32" using fr assms(2,3) by auto
  ultimately show ?thesis unfolding nfree_def by (simp only: ucast_u32_u64 of_nat_add [symmetric])
qed

lemma aligned_search_fit:
  assumes ch: "chain (hd_at m) p pf a bs e" and e: "e = a + total bs" "e + 12 < 2 ^ 64" "total bs < 2 ^ 32"
    and x: "x < 2 ^ 32" and k: "k < 32"
    and best: "\<And>c s. best = Some (c, s) \<Longrightarrow> 0 < c \<and> c < 2 ^ 64 \<and> s < 2 ^ 32 \<and> hd_at m c FNext = of_nat s"
    and a: "0 < a"
  shows "aligned_search m (of_nat e) (of_nat x) (2 ^ k) (of_nat (next_free_from a bs e)) (enc_best best) =
    Some (enc_best (aligned_fit k a bs x best))"
  using ch e best a
proof (induction bs arbitrary: p pf a best)
  case Nil
  then show ?case by (subst aligned_search.simps) simp
next
  case (Cons b bs)
  obtain n u where b: "b = (n, u)" by (cases b)
  have c: "chain (hd_at m) n (if u then pf else Some a) (a + n) bs e" and n: "20 \<le> n" "n < 2 ^ 32"
    and nx: "hd_at m a FNext = of_nat n"
    using Cons.prems(1,4) b by auto
  have ee: "e = a + n + total bs" "total bs < 2 ^ 32" "e < 2 ^ 64" using Cons.prems(2,3,4) b by auto
  let ?best = "if \<not> u \<and> x \<le> n then
          (if misfit k a = 0 \<and> (case best of None \<Rightarrow> True | Some (_, s) \<Rightarrow> n < s) then Some (a, n)
           else if 2 ^ k - misfit k a + x \<le> n then Some (a, n) else best) else best"
  have "?best = Some (a, n) \<or> ?best = best" by auto
  then have best': "0 < c \<and> c < 2 ^ 64 \<and> s < 2 ^ 32 \<and> hd_at m c FNext = of_nat s" if "?best = Some (c, s)" for c s
    using that Cons.prems(5) [of c s] Cons.prems(6) ee n nx by auto
  have IH: "aligned_search m (of_nat e) (of_nat x) (2 ^ k) (of_nat (next_free_from (a + n) bs e)) (enc_best ?best) =
      Some (enc_best (aligned_fit k (a + n) bs x ?best))"
    using Cons.prems(6) by (intro Cons.IH [OF c ee(1) Cons.prems(3) ee(2) best']) simp_all
  show ?case
  proof (cases u)
    case True
    then show ?thesis using IH b by simp
  next
    case False
    have nf: "nfree m (of_nat a) = of_nat (next_free_from (a + n) bs e)"
      using Cons.prems(1) b False ee(1) Cons.prems(4) by (intro nfree_first [of m p pf]) simp_all
    have ne: "(of_nat a :: u64) \<noteq> of_nat e"
      using of_nat_u64_eq_iff [of a e] ee n by auto
    have ca: "get_align (BLOCK_PTR (of_nat a)) (2 ^ k) = of_nat (misfit k a)"
      using ee Cons.prems(3) k by (intro get_align_nat) auto
    have mf: "misfit k a < 2 ^ k" "(2 :: nat) ^ k \<le> 2 ^ 31" using misfit_less power_increasing [of k 31 "2 :: nat"] k by simp_all
    have z: "(of_nat (misfit k a) :: u64) = 0 \<longleftrightarrow> misfit k a = 0"
      using of_nat_u64_eq_iff [of "misfit k a" 0] mf by auto
    have sum: "(2 ^ k - of_nat (misfit k a)) + of_nat x = (of_nat (2 ^ k - misfit k a + x) :: u64)"
      using mf(1) by (simp add: of_nat_diff)
    have lt: "2 ^ k - misfit k a + x < 2 ^ 64" using mf x by simp
    have fits: "ucast (b_next m (of_nat a)) \<ge> (2 ^ k - of_nat (misfit k a)) + (of_nat x :: u64) \<longleftrightarrow> 2 ^ k - misfit k a + x \<le> n"
      unfolding sum by (rule ucast_b_next_le [OF nx n(2) lt])
    have xl: "ucast (b_next m (of_nat a)) \<ge> (of_nat x :: u64) \<longleftrightarrow> x \<le> n"
      using ucast_b_next_le [OF nx n(2), of x] x by simp
    have smaller: "(enc_best best = 0 \<or> b_next m (enc_best best) > b_next m (of_nat a)) \<longleftrightarrow>
        (case best of None \<Rightarrow> True | Some (_, s) \<Rightarrow> n < s)"
    proof (cases best)
      case (Some cs)
      obtain c s where cs: "cs = (c, s)" by (cases cs)
      have B: "0 < c" "c < 2 ^ 64" "s < 2 ^ 32" "hd_at m c FNext = of_nat s" using Cons.prems(5) Some cs by auto
      have "(of_nat c :: u64) \<noteq> 0" using of_nat_u64_eq_iff [of c 0] B by auto
      then show ?thesis using b_next_less [OF nx n(2) B(4,3)] Some cs by (simp add: enc_best_def)
    qed (simp add: enc_best_def)
    have "aligned_search m (of_nat e) (of_nat x) (2 ^ k) (of_nat a) (enc_best best) =
        aligned_search m (of_nat e) (of_nat x) (2 ^ k) (of_nat (next_free_from (a + n) bs e)) (enc_best ?best)"
      using ne False smaller xl
      by (subst aligned_search.simps) (simp add: nf ca z fits Let_def, auto simp: enc_best_def)
    then show ?thesis using IH b False by simp
  qed
qed

section \<open>The result\<close>

definition sliver_free :: "nat \<Rightarrow> nat \<Rightarrow> blocks \<Rightarrow> bool" where
  "sliver_free k base bs \<longleftrightarrow> (\<forall>xs n ys. bs = xs @ (n, False) # ys \<longrightarrow>
     gap k (base + total xs) = 0 \<or> 20 \<le> gap k (base + total xs))"

text \<open>The block list after an allocation of \<open>x\<close> bytes, header included, behind a gap of \<open>g\<close> bytes in a block of \<open>n\<close>.\<close>

definition carved :: "nat \<Rightarrow> nat \<Rightarrow> nat \<Rightarrow> blocks" where
  "carved g x n = (if g = 0 then [] else [(g, False)]) @
     (if x + 40 \<le> n - g then [(x, True), (n - g - x, False)] else [(n - g, True)])"

lemma split_front:
  assumes inv: "alloc_inv base (xs @ (n, False) # ys) a m" and g: "g = 0 \<or> 20 \<le> g" "g + 20 \<le> n"
  defines "m' \<equiv> (if g \<noteq> 0 then split_blk a (of_nat (base + total xs)) (of_nat g) m else m)"
    and "fr \<equiv> (if g = 0 then [] else [(g, False)])"
  shows "alloc_inv base ((xs @ fr) @ (n - g, False) # ys) a m'" "payload_same base (xs @ (n, False) # ys) m m'"
    "g \<noteq> 0 \<Longrightarrow> next_blk m' (of_nat (base + total xs)) = of_nat (base + total xs + g)"
proof -
  show i: "alloc_inv base ((xs @ fr) @ (n - g, False) # ys) a m'" and "payload_same base (xs @ (n, False) # ys) m m'"
    using split_inv [OF inv, of g] inv g by (auto simp: m'_def fr_def)
  assume "g \<noteq> 0"
  then have "hd_at m' (base + total xs) FNext = of_nat g" using alloc_invD(7) [OF i] by (simp add: fr_def)
  moreover have "g < 2 ^ 32" using alloc_invD(4) [OF i] g by (simp add: fr_def split: if_splits)
  ultimately show "next_blk m' (of_nat (base + total xs)) = of_nat (base + total xs + g)"
    unfolding next_blk_def field_reads by (simp add: ucast_u32_u64)
qed

lemma aligned_take:
  assumes inv: "alloc_inv base (xs @ (n, False) # ys) a m" and k: "k < 32"
    and x: "20 \<le> x" "x < 2 ^ 32" and g: "gap k (base + total xs) + x \<le> n" "gap k (base + total xs) = 0 \<or> 20 \<le> gap k (base + total xs)"
  defines "b \<equiv> of_nat (base + total xs)" and "g \<equiv> gap k (base + total xs)"
  shows "\<exists>a' m'. (let ca = get_align (BLOCK_PTR b) (2 ^ k);
                 m' = (if ca \<noteq> 0 then split_blk a b (ucast (2 ^ k - ca)) m else m);
                 best' = (if ca \<noteq> 0 then next_blk m' b else b)
             in take_best a best' (of_nat x) m') = (of_nat (base + total xs + g + 12), a', m') \<and>
      alloc_inv base (xs @ carved g x n @ ys) a' m' \<and> payload_same base (xs @ (n, False) # ys) m m'"
proof -
  note I = alloc_invD [OF inv]
  define m1 where "m1 = (if g \<noteq> 0 then split_blk a b (of_nat g) m else m)"
  define fr where "fr = (if g = 0 then [] else [(g, False)])"
  have gg: "g = 0 \<or> 20 \<le> g" "g + 20 \<le> n" "g + x \<le> n" using g x by (auto simp: g_def)
  note s = split_front [OF inv gg(1,2), folded fr_def, folded b_def, folded m1_def]
  have bb: "base + total xs + 12 < 2 ^ 64" using I(5,8) by simp
  have ca: "get_align (BLOCK_PTR b) (2 ^ k) = of_nat (misfit k (base + total xs))"
    unfolding b_def using bb k by (intro get_align_nat) simp_all
  have mf: "misfit k (base + total xs) < 2 ^ k" "(2 :: nat) ^ k \<le> 2 ^ 31"
    using misfit_less power_increasing [of k 31 "2 :: nat"] k by simp_all
  have z: "(of_nat (misfit k (base + total xs)) :: u64) \<noteq> 0 \<longleftrightarrow> g \<noteq> 0"
    using of_nat_u64_eq_iff [of "misfit k (base + total xs)" 0] mf by (auto simp: g_def gap_def)
  have al: "ucast (2 ^ k - of_nat (misfit k (base + total xs)) :: u64) = (of_nat g :: u32)" if "g \<noteq> 0"
  proof -
    have "(2 ^ k - of_nat (misfit k (base + total xs)) :: u64) = of_nat g"
      using that mf(1) by (auto simp: g_def gap_def of_nat_diff split: if_splits)
    then show ?thesis by (simp only: ucast_u64_u32)
  qed
  have m1: "(if g \<noteq> 0 then split_blk a b (ucast (2 ^ k - of_nat (misfit k (base + total xs)) :: u64)) m else m) = m1"
    using al by (simp add: m1_def)
  have "base + total (xs @ fr) = base + total xs + g" by (simp add: fr_def)
  moreover have "(if g \<noteq> 0 then next_blk m1 b else b) = of_nat (base + total xs + g)"
    using s(3) by (simp add: b_def)
  ultimately have best: "(if g \<noteq> 0 then next_blk m1 b else b) = of_nat (base + total (xs @ fr))" by simp
  obtain a' m' where t: "take_best a (of_nat (base + total (xs @ fr))) (of_nat x) m1 = (of_nat (base + total (xs @ fr) + 12), a', m')"
    "alloc_inv base (if x + 40 \<le> n - g then (xs @ fr) @ (x, True) # (n - g - x, False) # ys else (xs @ fr) @ (n - g, True) # ys) a' m'"
    "payload_same base ((xs @ fr) @ (n - g, False) # ys) m1 m'"
    by (rule take_best_ok [OF s(1) x(1) _ x(2)]) (use gg in auto)
  have "payload_same base (xs @ (n, False) # ys) m1 m'" using t(3) gg by (auto simp: fr_def add.assoc split: if_splits)
  then have "payload_same base (xs @ (n, False) # ys) m m'" using s(2) payload_same_trans by blast
  moreover have "alloc_inv base (xs @ carved g x n @ ys) a' m'" using t(2) by (auto simp: carved_def fr_def split: if_splits)
  moreover have "base + total (xs @ fr) + 12 = base + total xs + g + 12" by (simp add: fr_def)
  ultimately show ?thesis
    unfolding Let_def ca z m1 best t(1) by auto
qed

lemma aligned_alloc_result:
  assumes inv: "alloc_inv base bs a m" and len: "8 \<le> len" "len + 12 < 2 ^ 32" and k: "k < 32"
    and sl: "sliver_free k base bs"
  shows "(\<exists>xs n ys a' m'. bs = xs @ (n, False) # ys \<and> gap k (base + total xs) + (len + 12) \<le> n \<and>
      aligned_alloc a (of_nat len) (2 ^ k) m = Inr (of_nat (base + total xs + gap k (base + total xs) + 12), a', m') \<and>
      alloc_inv base (xs @ carved (gap k (base + total xs)) (len + 12) n @ ys) a' m' \<and> payload_same base bs m m') \<or>
    (\<forall>xs n ys. bs = xs @ (n, False) # ys \<longrightarrow> n < gap k (base + total xs) + (len + 12)) \<and>
      aligned_alloc a (of_nat len) (2 ^ k) m = Inr (0, a, m)"
proof -
  note I = alloc_invD [OF inv]
  define r where "r = aligned_fit k base bs (len + 12) None"
  note spec = aligned_fit_spec [OF r_def [symmetric]]
  have xl: "of_nat len + USED_HEADER_SIZE = of_nat (len + 12)" by (simp add: USED_HEADER_SIZE_def)
  have "aligned_search m (of_nat (base + total bs)) (of_nat (len + 12)) (2 ^ k)
      (of_nat (next_free_from base bs (base + total bs))) (enc_best None) = Some (enc_best r)"
    unfolding r_def using I len k by (intro aligned_search_fit [OF I(7)]) simp_all
  then have search: "aligned_search m (a_end a) (of_nat len + USED_HEADER_SIZE) (2 ^ k) (a_free a) 0 = Some (enc_best r)"
    unfolding xl I(3,6) by (simp add: enc_best_def)
  show ?thesis
  proof (cases r)
    case None
    then have "aligned_alloc a (of_nat len) (2 ^ k) m = Inr (0, a, m)"
      using search by (simp add: aligned_alloc_def Let_def enc_best_def)
    then show ?thesis using spec None by blast
  next
    case (Some cn)
    then obtain xs n ys where xs: "r = Some (base + total xs, n)" "bs = xs @ (n, False) # ys"
        "gap k (base + total xs) + (len + 12) \<le> n"
      using spec by auto
    have "gap k (base + total xs) = 0 \<or> 20 \<le> gap k (base + total xs)" using sl xs(2) by (auto simp: sliver_free_def)
    from aligned_take [OF inv [unfolded xs(2)] k _ len(2) xs(3) this] len(1)
    obtain a' m' where t: "(let ca = get_align (BLOCK_PTR (of_nat (base + total xs))) (2 ^ k);
                 m' = (if ca \<noteq> 0 then split_blk a (of_nat (base + total xs)) (ucast (2 ^ k - ca)) m else m);
                 best' = (if ca \<noteq> 0 then next_blk m' (of_nat (base + total xs)) else of_nat (base + total xs))
             in take_best a best' (of_nat (len + 12)) m') = (of_nat (base + total xs + gap k (base + total xs) + 12), a', m')"
      "alloc_inv base (xs @ carved (gap k (base + total xs)) (len + 12) n @ ys) a' m'"
      "payload_same base bs m m'"
      unfolding xs(2) by auto
    define b where "b = (of_nat (base + total xs) :: u64)"
    have "enc_best r = b" using xs(1) by (simp add: enc_best_def b_def)
    moreover have "b \<noteq> 0"
      using of_nat_u64_eq_iff [of "base + total xs" 0] I(1,5) xs by (auto simp: b_def)
    ultimately have "aligned_alloc a (of_nat len) (2 ^ k) m =
        Inr (of_nat (base + total xs + gap k (base + total xs) + 12), a', m')"
      using search t(1) unfolding aligned_alloc_def xl b_def [symmetric] Let_def by simp
    then show ?thesis using xs(2,3) t(2,3) by blast
  qed
qed

text \<open>
  C22: \<open>aligned_alloc\<close> of \<open>len\<close> bytes at an alignment of \<open>2 ^ k\<close>, on a block list without slivers, returns:
  either a payload at a multiple of the alignment inside a block that was free, with the bytes in front of it
  left as a free block, the rest split off when it is 40 bytes or more, the list well formed and every used
  block's bytes as they were; or \<open>NULL\<close> with nothing changed, and then no free block could hold the request
  behind its gap.
\<close>

theorem aligned_alloc_correct:
  assumes "alloc_inv base bs a m" "8 \<le> len" "len + 12 < 2 ^ 32" "k < 32" "sliver_free k base bs"
  shows "(\<exists>xs n ys g p a' m'. bs = xs @ (n, False) # ys \<and> p = base + total xs + g + 12 \<and> p mod 2 ^ k = 0 \<and> g < 2 ^ k \<and>
      g + len + 12 \<le> n \<and> aligned_alloc a (of_nat len) (2 ^ k) m = Inr (of_nat p, a', m') \<and>
      alloc_inv base (xs @ carved g (len + 12) n @ ys) a' m' \<and> payload_same base bs m m') \<or>
    (\<forall>xs n ys. bs = xs @ (n, False) # ys \<longrightarrow> n < gap k (base + total xs) + len + 12) \<and>
      aligned_alloc a (of_nat len) (2 ^ k) m = Inr (0, a, m)"
proof -
  have less: "gap k c < 2 ^ k" for c using misfit_less [of k c] by (simp add: gap_def)
  consider xs n ys a' m' where "bs = xs @ (n, False) # ys" "gap k (base + total xs) + (len + 12) \<le> n"
      "aligned_alloc a (of_nat len) (2 ^ k) m = Inr (of_nat (base + total xs + gap k (base + total xs) + 12), a', m')"
      "alloc_inv base (xs @ carved (gap k (base + total xs)) (len + 12) n @ ys) a' m'" "payload_same base bs m m'"
    | "\<forall>xs n ys. bs = xs @ (n, False) # ys \<longrightarrow> n < gap k (base + total xs) + (len + 12)"
      "aligned_alloc a (of_nat len) (2 ^ k) m = Inr (0, a, m)"
    using aligned_alloc_result [OF assms] by blast
  then show ?thesis
  proof cases
    case 1
    then show ?thesis using gap_aligned [of "base + total xs" k] less [of "base + total xs"]
      by (intro disjI1 exI [of _ xs] exI [of _ n] exI [of _ ys] exI [of _ "gap k (base + total xs)"]
          exI [of _ "base + total xs + gap k (base + total xs) + 12"] exI [of _ a'] exI [of _ m']) simp
  next
    case 2
    then show ?thesis by (simp add: add.assoc)
  qed
qed

theorem aligned_alloc_correct_witness:
  "\<exists>a' m'. aligned_alloc (fst demo_region) 100 256 (snd demo_region) = Inr (4352, a', m') \<and>
    alloc_inv 4096 [(244, False), (112, True), (3740, False)] a' m'"
proof -
  have only: "[(4096, False)] = xs @ (n, False) # ys \<longleftrightarrow> xs = [] \<and> n = 4096 \<and> ys = []" for xs ys :: blocks and n
    by (cases xs) auto
  have g: "gap 8 4096 = 244" by (simp add: gap_def misfit_def)
  then have s: "sliver_free 8 4096 [(4096, False)]" by (simp add: sliver_free_def only)
  have unique: "256 dvd 4108 + g \<Longrightarrow> g < 256 \<Longrightarrow> g = 244" for g :: nat by presburger
  show ?thesis
    using aligned_alloc_correct [OF demo_region_inv _ _ _ s, of 100]
    by (auto simp: only g carved_def dest!: unique)
qed

end
