(* ===== verification/Mmu.thy ===== *)
theory Mmu
  imports Alloc
begin

text \<open>
  The page tables of \<^verbatim>\<open>rtprog/mmu.c\<close> and \<^verbatim>\<open>rtprog/mmu.h\<close> (4 KiB granule, four levels,
  48-bit addresses) and the constants of \<^verbatim>\<open>shared/memory_layout.h\<close> and \<^verbatim>\<open>config.mk\<close>. Tables
  are pages of the byte memory obtained from the allocator, so every operation passes the
  allocator and the memory along; \<open>MMU_ALLOC\<close> is the kernel's only allocator, which
  \<open>mmu_set_alloc\<close> installs before the first map is built. The linker's \<open>__kernel_end\<close> is an
  argument \<open>kend\<close>.
\<close>

section \<open>Constants\<close>

definition JRT_MEM_PHYS :: u64 where "JRT_MEM_PHYS = 0x51000000"
definition JRT_MEM_SIZE :: u64 where "JRT_MEM_SIZE = 0x01000000"
definition JRT_CODE_PHYS :: u64 where "JRT_CODE_PHYS = 0x50000000"
definition JRT_CODE_SIZE :: u64 where "JRT_CODE_SIZE = 0x01000000"

text \<open>\<open>sizeof(struct mpsc_ring)\<close>: a 64-byte head, 4096 flag bytes, 4096 records of 32 bytes.\<close>

definition MPSC_RING_SIZE :: u64 where
  "MPSC_RING_SIZE = 64 + 4096 + 4096 * 32"

definition TOJRT_RING_ADDR :: u64 where
  "TOJRT_RING_ADDR = JRT_MEM_PHYS"

definition JRT_STACK_START :: u64 where
  "JRT_STACK_START = JRT_MEM_PHYS + JRT_MEM_SIZE"

definition JRT_HEAP_START :: u64 where
  "JRT_HEAP_START = (JRT_MEM_PHYS + MPSC_RING_SIZE + 15) AND NOT 15"

definition TOJRT_RING_SIZE :: u64 where
  "TOJRT_RING_SIZE = (JRT_HEAP_START - TOJRT_RING_ADDR) - 1"

definition JRT_HEAP_SIZE :: u64 where
  "JRT_HEAP_SIZE = (JRT_STACK_START - JRT_HEAP_START) - 1"

definition VA_BITS :: u32 where "VA_BITS = 48"
definition PA_BITS :: u32 where "PA_BITS = 36"

definition PAGE_SIZE :: u64 where
  "PAGE_SIZE = push_bit 12 1"

definition PAGE_MASK :: u64 where
  "PAGE_MASK = NOT (PAGE_SIZE - 1)"

definition CODE_0 :: u64 where "CODE_0 = JRT_CODE_PHYS"
definition MEM_0 :: u64 where "MEM_0 = JRT_MEM_PHYS"

definition MEM_END :: u64 where
  "MEM_END = JRT_MEM_PHYS + (JRT_MEM_SIZE - 1)"

definition UART_PA_BASE :: u64 where "UART_PA_BASE = 0x09000000"
definition UART_PA_SIZE :: u64 where "UART_PA_SIZE = 0x1000"
definition GICD_PA_BASE :: u64 where "GICD_PA_BASE = 0x08000000"
definition GICD_PA_SIZE :: u64 where "GICD_PA_SIZE = 0x00010000"
definition GICR_PA_BASE0 :: u64 where "GICR_PA_BASE0 = 0x080A0000"
definition GICR_FRAME_SIZE :: u64 where "GICR_FRAME_SIZE = 0x00020000"
definition GICR_NUM_CPUS :: nat where "GICR_NUM_CPUS = 4"

definition DESC_BLOCK :: u64 where "DESC_BLOCK = 1"
definition DESC_TABLE :: u64 where "DESC_TABLE = 3"
definition DESC_PAGE :: u64 where "DESC_PAGE = 3"
definition PTE_UXN :: u64 where "PTE_UXN = push_bit 54 1"
definition PTE_PXN :: u64 where "PTE_PXN = push_bit 53 1"
definition PTE_nG :: u64 where "PTE_nG = push_bit 11 1"
definition PTE_AF :: u64 where "PTE_AF = push_bit 10 1"
definition PTE_SH_OUTER :: u64 where "PTE_SH_OUTER = push_bit 8 2"
definition PTE_SH_INNER :: u64 where "PTE_SH_INNER = push_bit 8 3"
definition PTE_AP_RW_EL1 :: u64 where "PTE_AP_RW_EL1 = push_bit 6 0"
definition PTE_ATTRIDX :: "nat \<Rightarrow> u64" where "PTE_ATTRIDX i = push_bit 2 (of_nat i)"
definition PTE_VALID :: u64 where "PTE_VALID = push_bit 0 1"
definition MAIR_IDX_NORMAL :: nat where "MAIR_IDX_NORMAL = 0"
definition MAIR_IDX_DEVICE :: nat where "MAIR_IDX_DEVICE = 1"

definition PTE_KERN_RWX :: u64 where
  "PTE_KERN_RWX = PTE_VALID OR DESC_PAGE OR PTE_AF OR PTE_SH_INNER OR PTE_AP_RW_EL1
     OR PTE_ATTRIDX MAIR_IDX_NORMAL OR PTE_UXN"

definition PTE_PROC_RWX :: u64 where
  "PTE_PROC_RWX = PTE_VALID OR DESC_PAGE OR PTE_AF OR PTE_SH_INNER OR PTE_AP_RW_EL1
     OR PTE_ATTRIDX MAIR_IDX_NORMAL OR PTE_UXN OR PTE_nG"

definition PTE_DEV_RW_G :: u64 where
  "PTE_DEV_RW_G = PTE_VALID OR DESC_PAGE OR PTE_AF OR PTE_SH_OUTER OR PTE_AP_RW_EL1
     OR PTE_ATTRIDX MAIR_IDX_DEVICE OR PTE_UXN OR PTE_PXN"

section \<open>Data\<close>

record pt_root_t =
  l0 :: u64
  l0_pa :: u64

record mmu_map_t =
  root :: pt_root_t
  asid :: u16

type_synonym pst = "alloc_t \<times> memory"

section \<open>Registers\<close>

definition make_mair_el1 :: u64 where
  "make_mair_el1 = push_bit (8 * MAIR_IDX_NORMAL) 0xFF OR push_bit (8 * MAIR_IDX_DEVICE) 0x04"

definition tcr_ips_enc :: "u32 \<Rightarrow> u64" where
  "tcr_ips_enc pa_bits =
     (if pa_bits = 32 then 0 else if pa_bits = 36 then 1 else if pa_bits = 40 then 2
      else if pa_bits = 42 then 3 else if pa_bits = 44 then 4 else if pa_bits = 48 then 5
      else if pa_bits = 52 then 6 else 1)"

definition make_tcr_el1 :: "u32 \<Rightarrow> u32 \<Rightarrow> bool \<Rightarrow> u64" where
  "make_tcr_el1 va_bits pa_bits enable_ttbr1 =
     (let t0sz = 64 - va_bits;
          t1sz = 64 - va_bits;
          tcr = ucast t0sz;
          tcr = tcr OR push_bit 7 0;
          tcr = tcr OR push_bit 8 1;
          tcr = tcr OR push_bit 10 1;
          tcr = tcr OR push_bit 12 3;
          tcr = tcr OR push_bit 14 0;
          tcr = tcr OR push_bit 16 (ucast t1sz);
          tcr = tcr OR push_bit 22 0;
          tcr = tcr OR push_bit 23 (if enable_ttbr1 then 0 else 1);
          tcr = tcr OR push_bit 24 1;
          tcr = tcr OR push_bit 26 1;
          tcr = tcr OR push_bit 28 3;
          tcr = tcr OR push_bit 30 1
      in tcr OR push_bit 32 (tcr_ips_enc pa_bits))"

text \<open>\<open>write_ttbr0_asid\<close> of \<open>mmu_el1.S\<close>: the value put into \<open>TTBR0_EL1\<close>.\<close>

definition write_ttbr0_asid :: "u64 \<Rightarrow> u16 \<Rightarrow> u64" where
  "write_ttbr0_asid ttbr0_pa as = (ttbr0_pa AND NOT 0xFFF) OR push_bit 48 (ucast as)"

definition mmu_map_switch :: "mmu_map_t \<Rightarrow> u64" where
  "mmu_map_switch pm = write_ttbr0_asid (l0_pa (root pm)) (asid pm)"

section \<open>Descriptors and indices\<close>

definition idx_l0 :: "u64 \<Rightarrow> u64" where "idx_l0 va = drop_bit 39 va AND 0x1FF"
definition idx_l1 :: "u64 \<Rightarrow> u64" where "idx_l1 va = drop_bit 30 va AND 0x1FF"
definition idx_l2 :: "u64 \<Rightarrow> u64" where "idx_l2 va = drop_bit 21 va AND 0x1FF"
definition idx_l3 :: "u64 \<Rightarrow> u64" where "idx_l3 va = drop_bit 12 va AND 0x1FF"

definition desc_table :: "u64 \<Rightarrow> u64" where
  "desc_table pa = (pa AND NOT 0xFFF) OR PTE_VALID OR DESC_TABLE"

definition desc_page :: "u64 \<Rightarrow> u64 \<Rightarrow> u64" where
  "desc_page pa attrs = (pa AND NOT 0xFFF) OR attrs"

definition valid :: "u64 \<Rightarrow> bool" where
  "valid d \<longleftrightarrow> d AND PTE_VALID \<noteq> 0"

section \<open>Building tables\<close>

definition pt_alloc_page_or_die :: "pst \<Rightarrow> (u64 \<times> pst) res" where
  "pt_alloc_page_or_die st =
     bindE (aligned_alloc (fst st) PAGE_SIZE PAGE_SIZE (snd st)) (\<lambda>(p, a, m).
       KASSERT (p \<noteq> 0)
         (let align = p AND (PAGE_SIZE - 1) in
          KASSERT (align = 0) (Inr (p, a, memset m p 0 (unat PAGE_SIZE)))))"

text \<open>The entry \<open>lvl[idx]\<close> of a table at address \<open>lvl\<close>.\<close>

definition pte :: "memory \<Rightarrow> u64 \<Rightarrow> u64 \<Rightarrow> u64" where
  "pte m lvl i = load64 m (lvl + 8 * i)"

definition set_pte :: "u64 \<Rightarrow> u64 \<Rightarrow> u64 \<Rightarrow> memory \<Rightarrow> memory" where
  "set_pte lvl i d m = store64 m (lvl + 8 * i) d"

definition ensure_next :: "u64 \<Rightarrow> u64 \<Rightarrow> pst \<Rightarrow> (u64 \<times> pst) res" where
  "ensure_next lvl i st =
     (let d = pte (snd st) lvl i in
      if \<not> valid d then
        bindE (pt_alloc_page_or_die st) (\<lambda>(p, a, m). Inr (p, a, set_pte lvl i (desc_table p) m))
      else Inr (d AND NOT 0xFFF, st))"

definition pt_root_new :: "pst \<Rightarrow> (pt_root_t \<times> pst) res" where
  "pt_root_new st =
     bindE (pt_alloc_page_or_die st) (\<lambda>(p, st). Inr (\<lparr>l0 = p, l0_pa = p\<rparr>, st))"

definition map_page :: "pt_root_t \<Rightarrow> u64 \<Rightarrow> u64 \<Rightarrow> u64 \<Rightarrow> pst \<Rightarrow> pst res" where
  "map_page r va pa attrs st =
     bindE (ensure_next (l0 r) (idx_l0 va) st) (\<lambda>(l1, st).
     bindE (ensure_next l1 (idx_l1 va) st) (\<lambda>(l2, st).
     bindE (ensure_next l2 (idx_l2 va) st) (\<lambda>(l3, st).
       Inr (fst st, set_pte l3 (idx_l3 va) (desc_page pa attrs) (snd st)))))"

partial_function (option) map_pages ::
  "pt_root_t \<Rightarrow> u64 \<Rightarrow> u64 \<Rightarrow> u64 \<Rightarrow> u64 \<Rightarrow> pst \<Rightarrow> pst res option" where
  "map_pages r va pa fin attrs st =
     (if va < fin then
        (case map_page r va pa attrs st of
           Inl e \<Rightarrow> Some (Inl e)
         | Inr st' \<Rightarrow> map_pages r (va + PAGE_SIZE) (pa + PAGE_SIZE) fin attrs st')
      else Some (Inr st))"

declare map_pages.simps [code]

definition map_range_pages ::
  "pt_root_t \<Rightarrow> u64 \<Rightarrow> u64 \<Rightarrow> u64 \<Rightarrow> u64 \<Rightarrow> pst \<Rightarrow> pst res" where
  "map_range_pages r va pa sz attrs st =
     (let fin = va + sz;
          va = va AND PAGE_MASK;
          pa = pa AND PAGE_MASK;
          fin = (fin + PAGE_SIZE - 1) AND PAGE_MASK
      in case map_pages r va pa fin attrs st of None \<Rightarrow> Inl No_return | Some res \<Rightarrow> res)"

definition map_uart :: "pt_root_t \<Rightarrow> pst \<Rightarrow> pst res" where
  "map_uart r st = map_range_pages r UART_PA_BASE UART_PA_BASE UART_PA_SIZE PTE_DEV_RW_G st"

fun map_gicr :: "pt_root_t \<Rightarrow> nat list \<Rightarrow> pst \<Rightarrow> pst res" where
  "map_gicr r [] st = Inr st"
| "map_gicr r (i # is) st =
     (let base = GICR_PA_BASE0 + of_nat i * GICR_FRAME_SIZE in
      bindE (map_range_pages r base base GICR_FRAME_SIZE PTE_DEV_RW_G st) (map_gicr r is))"

definition map_gic :: "pt_root_t \<Rightarrow> pst \<Rightarrow> pst res" where
  "map_gic r st =
     bindE (map_range_pages r GICD_PA_BASE GICD_PA_BASE GICD_PA_SIZE PTE_DEV_RW_G st)
       (map_gicr r [0..<GICR_NUM_CPUS])"

definition build_process_map :: "u64 \<Rightarrow> pt_root_t \<Rightarrow> u64 \<Rightarrow> u64 \<Rightarrow> pst \<Rightarrow> pst res" where
  "build_process_map kend r proc_base_pa proc_image_len st =
     (let low_len = (if proc_image_len < CODE_0 then proc_image_len else CODE_0);
          k_end = (if proc_base_pa < kend then proc_base_pa else kend)
      in bindE (map_range_pages r 0 proc_base_pa low_len PTE_PROC_RWX st) (\<lambda>st.
         bindE (if k_end > CODE_0
                then map_range_pages r CODE_0 CODE_0 (k_end - CODE_0) PTE_KERN_RWX st
                else Inr st) (\<lambda>st.
         bindE (map_range_pages r MEM_0 MEM_0 ((MEM_END + 1) - MEM_0) PTE_KERN_RWX st)
           (map_uart r))))"

definition build_kernel_map :: "pt_root_t \<Rightarrow> pst \<Rightarrow> pst res" where
  "build_kernel_map r st =
     bindE (map_range_pages r CODE_0 CODE_0 ((MEM_END + 1) - CODE_0) PTE_KERN_RWX st) (\<lambda>st.
     bindE (map_uart r st) (map_gic r))"

definition proc_map_create :: "u64 \<Rightarrow> u64 \<Rightarrow> u64 \<Rightarrow> u16 \<Rightarrow> pst \<Rightarrow> (mmu_map_t \<times> pst) res" where
  "proc_map_create kend proc_base_pa image_len as st =
     bindE (pt_root_new st) (\<lambda>(r, st).
     bindE (build_process_map kend r proc_base_pa image_len st) (\<lambda>st.
       Inr (\<lparr>root = r, asid = as\<rparr>, st)))"

definition kern_map_create :: "u16 \<Rightarrow> pst \<Rightarrow> (mmu_map_t \<times> pst) res" where
  "kern_map_create as st =
     bindE (pt_root_new st) (\<lambda>(r, st).
     bindE (build_kernel_map r st) (\<lambda>st. Inr (\<lparr>root = r, asid = as\<rparr>, st)))"

section \<open>Freeing tables\<close>

text \<open>
  The loop over the 512 entries of one table; \<open>sub\<close> frees the table below an entry. The
  recursion of \<open>free_table_level\<close> is over the number of levels below the current one.
\<close>

fun free_entries :: "(u64 \<Rightarrow> pst \<Rightarrow> pst res) \<Rightarrow> u64 \<Rightarrow> nat list \<Rightarrow> pst \<Rightarrow> pst res" where
  "free_entries sub table [] st = Inr st"
| "free_entries sub table (i # is) st =
     (let d = pte (snd st) table (of_nat i) in
      if d AND PTE_VALID = 0 then free_entries sub table is st
      else bindE (sub d st) (\<lambda>st.
             free_entries sub table is (fst st, set_pte table (of_nat i) 0 (snd st))))"

primrec free_table_level :: "nat \<Rightarrow> u64 \<Rightarrow> pst \<Rightarrow> pst res" where
  "free_table_level 0 table st =
     bindE (free_entries (\<lambda>d st. Inr st) table [0..<512] st)
       (\<lambda>st. free (fst st) table (snd st))"
| "free_table_level (Suc below) table st =
     bindE (free_entries
         (\<lambda>d st. if d AND 3 = DESC_TABLE then free_table_level below (d AND NOT 0xFFF) st
                 else Inr st)
         table [0..<512] st)
       (\<lambda>st. free (fst st) table (snd st))"

definition pt_root_free :: "pt_root_t \<Rightarrow> pst \<Rightarrow> pst res" where
  "pt_root_free r st = (if l0 r = 0 then Inr st else free_table_level 3 (l0 r) st)"

definition mmu_map_destroy :: "mmu_map_t \<Rightarrow> pst \<Rightarrow> (mmu_map_t \<times> pst) res" where
  "mmu_map_destroy km st =
     bindE (pt_root_free (root km) st) (\<lambda>st. Inr (\<lparr>root = \<lparr>l0 = 0, l0_pa = 0\<rparr>, asid = 0\<rparr>, st))"

section \<open>Turning the MMU on\<close>

text \<open>
  The registers \<open>el1_mmu_on\<close> of \<^verbatim>\<open>mmu_el1.S\<close> programs, and the two static variables that keep
  their values. The invalidation of the translation cache has no counterpart: the model
  has no such cache.
\<close>

record mmu_regs =
  mair_el1 :: u64
  tcr_el1 :: u64
  ttbr0_el1 :: u64
  sctlr_el1 :: u64
  G_MAIR :: u64
  G_TCR :: u64

definition el1_mmu_on :: "u64 \<Rightarrow> u64 \<Rightarrow> u64 \<Rightarrow> mmu_regs \<Rightarrow> mmu_regs" where
  "el1_mmu_on mair tcr ttbr0_pa r =
     r\<lparr>mair_el1 := mair, tcr_el1 := tcr, ttbr0_el1 := ttbr0_pa,
       sctlr_el1 := sctlr_el1 r OR push_bit 0 1 OR push_bit 2 1 OR push_bit 12 1\<rparr>"

definition mmu_enable :: "mmu_map_t \<Rightarrow> mmu_regs \<Rightarrow> mmu_regs" where
  "mmu_enable mp r =
     (let r = r\<lparr>G_MAIR := make_mair_el1\<rparr>;
          r = r\<lparr>G_TCR := make_tcr_el1 VA_BITS PA_BITS False\<rparr>
      in el1_mmu_on (G_MAIR r) (G_TCR r) (l0_pa (root mp)) r)"

end
