(* ===== verification/Mmu_Tables.thy ===== *)
theory Mmu_Tables
  imports Mmu
begin

text \<open>
  What the page tables of \<^verbatim>\<open>rtprog/mmu.c\<close> mean. A map is a tree of pages; looking an address up in it is
  the table walk of the hardware. \<open>map_page\<close> is an update of the map at one page, \<open>map_range_pages\<close> at a
  range of pages. The proofs rest on what the page allocator promises, stated as a locale: a page it hands
  out is aligned, zero and new, and it leaves the pages handed out before alone.
\<close>

section \<open>Pages and entries\<close>

definition page :: "u64 \<Rightarrow> u64 set" where
  "page p = {a. drop_bit 12 a = drop_bit 12 p}"

definition aligned :: "u64 \<Rightarrow> bool" where
  "aligned p \<longleftrightarrow> take_bit 12 p = 0"

lemma pages_disjoint: "aligned p \<Longrightarrow> aligned q \<Longrightarrow> p \<noteq> q \<Longrightarrow> page p \<inter> page q = {}"
proof -
  assume "aligned p" "aligned q" "p \<noteq> q"
  then have "drop_bit 12 p \<noteq> drop_bit 12 q"
    unfolding aligned_def by (metis bits_ident add_0_right)
  then show ?thesis by (auto simp: page_def)
qed

lemma in_page:
  assumes "aligned p" "k < 4096"
  shows "p + of_nat k \<in> page p"
proof -
  have p: "unat p mod 4096 = 0"
  proof -
    have "unat (take_bit 12 p) = unat p mod 4096" by (simp add: take_bit_eq_mod unat_mod_distrib)
    then show ?thesis using assms(1) by (simp add: aligned_def)
  qed
  have lt: "unat p + k < 2 ^ 64"
  proof -
    have "unat p < 2 ^ 64" using unsigned_less [of p] by simp
    moreover have "unat p = 4096 * (unat p div 4096)" using mult_div_mod_eq [of 4096 "unat p"] p by simp
    ultimately have "unat p div 4096 < 2 ^ 52" by (simp add: less_mult_imp_div_less)
    then have "4096 * (unat p div 4096) + 4096 \<le> 2 ^ 64" by simp
    then show ?thesis using \<open>unat p = _\<close> assms(2) by simp
  qed
  have "k < 18446744073709551616" using assms(2) by simp
  then have "unat (p + of_nat k) = unat p + k" using lt by (simp add: unat_word_ariths)
  moreover have "(unat p + k) div 4096 = unat p div 4096" using p assms(2) by (simp add: div_add1_eq)
  ultimately have "unat (drop_bit 12 (p + of_nat k)) = unat (drop_bit 12 p)"
    by (simp add: drop_bit_eq_div unat_div_distrib)
  then show ?thesis unfolding page_def by (simp add: word_unat_eq_iff)
qed

lemma entry_in_page:
  assumes "aligned t" "i < 512" "j < 8"
  shows "t + 8 * i + of_nat j \<in> page t"
proof -
  have "unat i < 512" using assms(2) by (simp add: word_less_nat_alt)
  then have "t + of_nat (8 * unat i + j) \<in> page t" using assms by (intro in_page) simp_all
  then show ?thesis by (simp add: add.assoc)
qed

lemma pte_frame:
  assumes "aligned t" "i < 512" "\<And>a. a \<in> page t \<Longrightarrow> m' a = m a"
  shows "pte m' t i = pte m t i"
  unfolding pte_def load64_def by (rule load_le_cong) (use assms entry_in_page in blast)

lemma set_pte_outside:
  assumes "aligned t" "i < 512" "a \<notin> page t"
  shows "set_pte t i d m a = m a"
proof -
  have "\<not> unat (a - (t + 8 * i)) < 8"
  proof
    assume u: "unat (a - (t + 8 * i)) < 8"
    then have "t + 8 * i + of_nat (unat (a - (t + 8 * i))) \<in> page t" using assms(1,2) entry_in_page by blast
    then show False using assms(3) by simp
  qed
  then show ?thesis by (simp add: set_pte_def store64_def store_le_def)
qed

lemma pte_set_pte:
  assumes "i < 512" "j < 512"
  shows "pte (set_pte t i d m) t j = (if j = i then d else pte m t j)"
proof (cases "j = i")
  case False
  have n: "unat i < 512" "unat j < 512" using assms by (simp_all add: word_less_nat_alt)
  have ne: "unat i \<noteq> unat j" using False by (simp add: word_unat_eq_iff)
  have "8 \<le> unat (t + 8 * j + of_nat k - (t + 8 * i))" if k: "k < 8" for k
  proof -
    have e: "t + 8 * j + of_nat k - (t + 8 * i) = of_nat (8 * unat j + k) - of_nat (8 * unat i)" by simp
    show ?thesis
    proof (cases "unat i < unat j")
      case True
      then have "8 * unat j + k - 8 * unat i \<ge> 8" "8 * unat j + k - 8 * unat i < 18446744073709551616" using n k by auto
      moreover have "of_nat (8 * unat j + k) - of_nat (8 * unat i) = (of_nat (8 * unat j + k - 8 * unat i) :: u64)"
        using True by (intro of_nat_diff [symmetric]) simp
      ultimately show ?thesis unfolding e by (simp only: unat_of_nat_u64)
    next
      case False
      define r where "r = 8 * unat i - (8 * unat j + k)"
      have r: "0 < r" "r < 4096" "8 * unat j + k + r = 8 * unat i" using False ne n k by (auto simp: r_def)
      have "of_nat (8 * unat j + k) - of_nat (8 * unat i) = - (of_nat r :: u64)"
        unfolding r(3) [symmetric] by simp
      also have "\<dots> = of_nat (2 ^ 64 - r)" using r by (simp add: of_nat_diff)
      finally have "unat (of_nat (8 * unat j + k) - of_nat (8 * unat i) :: u64) = unat (of_nat (2 ^ 64 - r) :: u64)"
        by (rule arg_cong)
      moreover have "2 ^ 64 - r < 18446744073709551616" using r by simp
      ultimately have "unat (of_nat (8 * unat j + k) - of_nat (8 * unat i) :: u64) = 2 ^ 64 - r"
        by (simp only: unat_of_nat_u64)
      moreover have "8 \<le> (2 :: nat) ^ 64 - r" using r(2) by simp
      ultimately show ?thesis unfolding e by (simp only:)
    qed
  qed
  then show ?thesis using False unfolding pte_def set_pte_def load64_def store64_def
    by (simp add: load_store_le_other)
qed (simp add: pte_def set_pte_def)

section \<open>The tree\<close>

definition ix :: "nat \<Rightarrow> u64 \<Rightarrow> u64" where
  "ix k va = take_bit 9 (drop_bit (12 + 9 * k) va)"

lemma ix_levels: "idx_l0 = ix 3" "idx_l1 = ix 2" "idx_l2 = ix 1" "idx_l3 = ix 0"
proof -
  have "x AND 0x1FF = take_bit 9 x" for x :: u64 by (simp add: take_bit_eq_mask mask_eq_exp_minus_1)
  then show "idx_l0 = ix 3" "idx_l1 = ix 2" "idx_l2 = ix 1" "idx_l3 = ix 0"
    by (simp_all add: fun_eq_iff ix_def idx_l0_def idx_l1_def idx_l2_def idx_l3_def)
qed

lemma ix_less: "ix k va < 512"
  using take_bit_tightened_less_eq_int by (simp add: ix_def take_bit_eq_mod word_less_nat_alt unat_mod_distrib)

text \<open>The table an entry points to, and the tables below a table of a map, itself first.\<close>

definition child :: "u64 \<Rightarrow> u64" where
  "child d = (if d AND 3 = DESC_TABLE then d AND NOT 0xFFF else 0)"

definition slots :: "u64 list" where
  "slots = map of_nat [0..<512]"

primrec tabs :: "nat \<Rightarrow> memory \<Rightarrow> u64 \<Rightarrow> u64 list" where
  "tabs 0 m t = [t]"
| "tabs (Suc k) m t = t # concat (map (\<lambda>i. if valid (pte m t i) then tabs k m (child (pte m t i)) else []) slots)"

text \<open>The hardware's walk through tables of which the upper levels hold no block entries: the page entry, or 0.\<close>

primrec desc_at :: "nat \<Rightarrow> memory \<Rightarrow> u64 \<Rightarrow> u64 \<Rightarrow> u64" where
  "desc_at 0 m t va = pte m t (ix 0 va)"
| "desc_at (Suc k) m t va =
     (let d = pte m t (ix (Suc k) va) in if valid d then desc_at k m (child d) va else 0)"

primrec tmap :: "nat \<Rightarrow> u64 \<Rightarrow> u64 \<Rightarrow> u64 \<Rightarrow> pst \<Rightarrow> pst res" where
  "tmap 0 t va d st = Inr (fst st, set_pte t (ix 0 va) d (snd st))"
| "tmap (Suc k) t va d st = bindE (ensure_next t (ix (Suc k) va) st) (\<lambda>(t', st). tmap k t' va d st)"

lemma map_page_tmap: "map_page r va pa attrs = tmap 3 (l0 r) va (desc_page pa attrs)"
  by (simp add: fun_eq_iff map_page_def ix_levels numeral_3_eq_3 numeral_2_eq_2)

definition subs :: "nat \<Rightarrow> memory \<Rightarrow> u64 \<Rightarrow> u64 \<Rightarrow> u64 list" where
  "subs k m t i = (if valid (pte m t i) then tabs k m (child (pte m t i)) else [])"

lemma tabs_Suc: "tabs (Suc k) m t = t # concat (map (subs k m t) slots)"
  by (simp add: subs_def [abs_def])

lemma set_slots: "set slots = {i. i < 512}"
proof
  show "{i. i < 512} \<subseteq> set slots"
  proof
    fix i :: u64 assume "i \<in> {i. i < 512}"
    then have "unat i < 512" by (simp add: word_less_nat_alt)
    then have "of_nat (unat i) \<in> set slots" unfolding slots_def set_map by (intro imageI) simp
    then show "i \<in> set slots" by simp
  qed
qed (auto simp: slots_def word_less_nat_alt)

lemma distinct_slots: "distinct slots"
  unfolding slots_def distinct_map by (auto intro!: inj_onI simp: word_unat_eq_iff)

lemma top_in_tabs [simp]: "t \<in> set (tabs k m t)"
  by (cases k) simp_all

lemma set_tabs_Suc: "set (tabs (Suc k) m t) = insert t (\<Union>i \<in> {i. i < 512}. set (subs k m t i))"
  by (simp add: set_slots tabs_Suc del: tabs.simps)

lemma distinct_concat_map:
  "distinct is \<Longrightarrow> distinct (concat (map f is)) \<longleftrightarrow>
   (\<forall>i \<in> set is. distinct (f i)) \<and> pairwise (\<lambda>i j. set (f i) \<inter> set (f j) = {}) (set is)"
proof (induction "is")
  case (Cons a xs)
  then have "pairwise (\<lambda>i j. set (f i) \<inter> set (f j) = {}) (set (a # xs)) \<longleftrightarrow>
      pairwise (\<lambda>i j. set (f i) \<inter> set (f j) = {}) (set xs) \<and> set (f a) \<inter> (\<Union>j \<in> set xs. set (f j)) = {}"
    by (fastforce simp: pairwise_insert)
  then show ?case using Cons by auto
qed simp

lemma distinct_tabs_Suc:
  "distinct (tabs (Suc k) m t) \<longleftrightarrow>
   (\<forall>i. i < 512 \<longrightarrow> t \<notin> set (subs k m t i) \<and> distinct (subs k m t i)) \<and>
   pairwise (\<lambda>i j. set (subs k m t i) \<inter> set (subs k m t j) = {}) {i. i < 512}"
  using distinct_concat_map [OF distinct_slots, of "subs k m t"]
  by (simp add: set_slots tabs_Suc del: tabs.simps) blast

text \<open>A tree depends on its own pages only.\<close>

definition unchanged :: "u64 set \<Rightarrow> memory \<Rightarrow> memory \<Rightarrow> bool" where
  "unchanged P m m' \<longleftrightarrow> (\<forall>p \<in> P. \<forall>a \<in> page p. m' a = m a)"

lemma unchanged_mono: "unchanged P m m' \<Longrightarrow> Q \<subseteq> P \<Longrightarrow> unchanged Q m m'"
  by (auto simp: unchanged_def)

lemma unchanged_trans: "unchanged P m m' \<Longrightarrow> unchanged P m' m'' \<Longrightarrow> unchanged P m m''"
  by (simp add: unchanged_def)

lemma unchanged_pte: "unchanged P m m' \<Longrightarrow> t \<in> P \<Longrightarrow> aligned t \<Longrightarrow> i < 512 \<Longrightarrow> pte m' t i = pte m t i"
  by (rule pte_frame) (auto simp: unchanged_def)

lemma tabs_frame:
  assumes "unchanged (set (tabs k m t)) m m'" "\<forall>p \<in> set (tabs k m t). aligned p"
  shows "tabs k m' t = tabs k m t" "desc_at k m' t va = desc_at k m t va"
proof -
  have "tabs k m' t = tabs k m t \<and> desc_at k m' t va = desc_at k m t va"
    using assms
  proof (induction k arbitrary: t)
    case 0
    then show ?case using unchanged_pte [of "{t}" m m' t "ix 0 va"] by (simp add: ix_less)
  next
    case (Suc k)
    have t: "t \<in> set (tabs (Suc k) m t)" by simp
    have e: "pte m' t i = pte m t i" if "i < 512" for i
      using unchanged_pte [OF Suc.prems(1) t _ that] Suc.prems(2) t by blast
    have sub: "set (subs k m t i) \<subseteq> set (tabs (Suc k) m t)" if "i < 512" for i
      using that unfolding set_tabs_Suc by blast
    have c: "tabs k m' (child (pte m t i)) = tabs k m (child (pte m t i)) \<and>
        desc_at k m' (child (pte m t i)) va = desc_at k m (child (pte m t i)) va" if "i < 512" "valid (pte m t i)" for i
      using Suc.IH [of "child (pte m t i)"] sub [OF that(1)] that(2) Suc.prems
      by (auto simp: subs_def intro: unchanged_mono)
    have "map (subs k m' t) slots = map (subs k m t) slots"
      using e c by (intro map_cong) (auto simp: set_slots subs_def)
    then have "tabs (Suc k) m' t = tabs (Suc k) m t" by (simp only: tabs_Suc)
    moreover have "desc_at (Suc k) m' t va = desc_at (Suc k) m t va"
      using e c [of "ix (Suc k) va"] by (simp add: ix_less Let_def)
    ultimately show ?case by blast
  qed
  then show "tabs k m' t = tabs k m t" "desc_at k m' t va = desc_at k m t va" by blast+
qed

lemma subs_frame:
  assumes "unchanged (insert t (set (subs k m t i))) m m'" "aligned t" "\<forall>p \<in> set (subs k m t i). aligned p" "i < 512"
  shows "subs k m' t i = subs k m t i"
    "valid (pte m t i) \<Longrightarrow> desc_at k m' (child (pte m t i)) va = desc_at k m (child (pte m t i)) va"
proof -
  have "pte m' t i = pte m t i" using unchanged_pte [OF assms(1)] assms(2,4) by blast
  then show "subs k m' t i = subs k m t i"
    using tabs_frame(1) [of k m "child (pte m t i)" m'] assms(1,3) unfolding subs_def
    by (auto intro: unchanged_mono split: if_splits)
  show "desc_at k m' (child (pte m t i)) va = desc_at k m (child (pte m t i)) va" if "valid (pte m t i)"
    using tabs_frame(2) [of k m "child (pte m t i)" m'] assms(1,3) that unfolding subs_def
    by (auto intro: unchanged_mono split: if_splits)
qed

text \<open>A change below one entry: the new tables come from \<open>N\<close>, outside the pages \<open>P\<close> known before.\<close>

lemma replace_subtree:
  assumes d: "distinct (tabs (Suc k) m t)" and P: "set (tabs (Suc k) m t) \<subseteq> P" "\<forall>p \<in> P. aligned p"
    and i: "i < 512" "valid (pte m t i)" and c: "c = child (pte m t i)"
    and same: "unchanged (P - set (tabs k m c)) m m'"
    and new: "distinct (tabs k m' c)" "set (tabs k m' c) = set (tabs k m c) \<union> N" "N \<inter> P = {}"
  shows "distinct (tabs (Suc k) m' t)" "set (tabs (Suc k) m' t) = set (tabs (Suc k) m t) \<union> N"
    "ix (Suc k) va = i \<Longrightarrow> desc_at (Suc k) m' t va = desc_at k m' c va"
    "ix (Suc k) va \<noteq> i \<Longrightarrow> desc_at (Suc k) m' t va = desc_at (Suc k) m t va"
proof -
  let ?S = "\<lambda>j. set (subs k m t j)"
  have Si: "subs k m t i = tabs k m c" using i(2) c by (simp add: subs_def)
  have D: "\<And>j. j < 512 \<Longrightarrow> t \<notin> ?S j \<and> distinct (subs k m t j)"
    "\<And>j l. j < 512 \<Longrightarrow> l < 512 \<Longrightarrow> j \<noteq> l \<Longrightarrow> ?S j \<inter> ?S l = {}"
    using d unfolding distinct_tabs_Suc pairwise_def by simp_all
  have sub: "insert t (?S j) \<subseteq> P" if "j < 512" for j
    using that P(1) unfolding set_tabs_Suc by blast
  have tc: "t \<in> P - set (tabs k m c)" using D(1) [OF i(1)] sub [OF i(1)] Si by auto
  have al: "aligned t" "\<And>j p. j < 512 \<Longrightarrow> p \<in> ?S j \<Longrightarrow> aligned p" using sub P(2) i(1) by auto
  have e: "pte m' t j = pte m t j" if "j < 512" for j using unchanged_pte [OF same tc al(1) that] .
  have u: "unchanged (insert t (?S j)) m m'" if "j < 512" "j \<noteq> i" for j
    by (rule unchanged_mono [OF same]) (use sub [OF that(1)] D(2) [OF that(1) i(1) that(2)] tc Si in auto)
  have other: "subs k m' t j = subs k m t j" if "j < 512" "j \<noteq> i" for j
    using subs_frame(1) [OF u [OF that] al(1) _ that(1)] al(2) [OF that(1)] by blast
  have here: "subs k m' t i = tabs k m' c" using e [OF i(1)] i(2) c by (simp add: subs_def)
  have tN: "t \<notin> N" "\<And>j. j < 512 \<Longrightarrow> ?S j \<inter> N = {}" using sub i(1) new(3) by blast+
  have newS: "set (subs k m' t i) = ?S i \<union> N" using here Si new(2) by simp
  have pw: "set (subs k m' t j) \<inter> set (subs k m' t l) = {}" if "j < 512" "l < 512" "j \<noteq> l" for j l
    using D(2) [OF that] other newS tN(2) that by (cases "j = i"; cases "l = i") fastforce+
  have "t \<notin> set (subs k m' t j) \<and> distinct (subs k m' t j)" if "j < 512" for j
    using D(1) [OF that] other [OF that] newS tN(1) here new(1) by (cases "j = i") auto
  then show "distinct (tabs (Suc k) m' t)" using pw unfolding distinct_tabs_Suc pairwise_def by simp
  have "set (subs k m' t j) = ?S j \<union> (if j = i then N else {})" if "j < 512" for j
    using other [OF that] newS by simp
  then have "(\<Union>j \<in> {j. j < 512}. set (subs k m' t j)) = (\<Union>j \<in> {j. j < 512}. ?S j \<union> (if j = i then N else {}))"
    by (intro SUP_cong) simp_all
  also have "\<dots> = (\<Union>j \<in> {j. j < 512}. ?S j) \<union> N" using i(1) by (auto split: if_splits)
  finally show "set (tabs (Suc k) m' t) = set (tabs (Suc k) m t) \<union> N" unfolding set_tabs_Suc by simp
  show "desc_at (Suc k) m' t va = desc_at k m' c va" if "ix (Suc k) va = i"
    using e [OF i(1)] i(2) c that by (simp add: Let_def)
  show "desc_at (Suc k) m' t va = desc_at (Suc k) m t va" if n: "ix (Suc k) va \<noteq> i"
    using e [OF ix_less] subs_frame(2) [OF u [OF ix_less n] al(1) _ ix_less] al(2) [OF ix_less]
    by (simp add: Let_def)
qed

text \<open>A table of zeros has no tables below it and maps nothing.\<close>

lemma load64_zero: "(\<And>i. i < 8 \<Longrightarrow> m (a + of_nat i) = 0) \<Longrightarrow> load64 m a = 0"
proof -
  assume z: "\<And>i. i < 8 \<Longrightarrow> m (a + of_nat i) = 0"
  have "load64 m a = load_le 8 (\<lambda>_. 0) a" unfolding load64_def by (rule load_le_cong) (simp add: z)
  then show ?thesis by (simp add: bit_eq_iff bit_load_le)
qed

lemma zero_page:
  assumes "aligned p" "\<And>a. a \<in> page p \<Longrightarrow> m a = 0"
  shows "tabs k m p = [p]" "desc_at k m p va = 0"
proof -
  have z: "pte m p i = 0" if "i < 512" for i
    unfolding pte_def by (rule load64_zero) (use assms entry_in_page [OF assms(1) that] in blast)
  have "subs k m p i = []" if "i < 512" for k i using z [OF that] by (simp add: subs_def valid_def)
  then have "set (map (subs k m p) slots) \<subseteq> {[]}" for k by (auto simp: set_slots)
  then have "concat (map (subs k m p) slots) = []" for k by (auto simp: concat_eq_Nil_conv)
  then show "tabs k m p = [p]" by (cases k) (simp_all add: tabs_Suc del: tabs.simps(2))
  show "desc_at k m p va = 0" using z [OF ix_less] by (cases k) (simp_all add: valid_def)
qed

lemma aligned_bit: "aligned p \<longleftrightarrow> (\<forall>n < 12. \<not> bit p n)"
  unfolding aligned_def bit_eq_iff by (auto simp: bit_take_bit_iff)

lemma low_mask: "(0xFFF :: u64) = mask 12" "(3 :: u64) = mask 2"
  by (simp_all add: mask_eq_exp_minus_1)

lemma desc_table_props: "aligned p \<Longrightarrow> child (desc_table p) = p" "valid (desc_table p)"
proof -
  have b: "bit (desc_table p) n \<longleftrightarrow> bit p n \<and> \<not> n < 12 \<or> n < 2" for n
    unfolding desc_table_def PTE_VALID_def DESC_TABLE_def low_mask
    by (cases "n < 64") (auto simp: bit_simps dest: bit_imp_le_length)
  have "desc_table p AND 3 = DESC_TABLE"
    unfolding DESC_TABLE_def low_mask by (rule bit_word_eqI) (auto simp: b bit_simps)
  then have c: "child (desc_table p) = desc_table p AND NOT 0xFFF" by (simp add: child_def)
  show "child (desc_table p) = p" if "aligned p"
    unfolding c low_mask by (rule bit_word_eqI) (use that in \<open>auto simp: b bit_simps aligned_bit\<close>)
  have "bit (desc_table p AND PTE_VALID) 0" unfolding PTE_VALID_def using b by (simp add: bit_simps)
  then show "valid (desc_table p)" unfolding valid_def by (metis bit_0_eq bot_fun_def bot_bool_def)
qed

text \<open>Hanging a new table of zeros into an empty entry changes no translation.\<close>

lemma fresh_subtree:
  assumes d: "distinct (tabs (Suc k) m t)" and P: "set (tabs (Suc k) m t) \<subseteq> P" "\<forall>p \<in> P. aligned p"
    and i: "i < 512" "\<not> valid (pte m t i)" and p: "aligned p" "p \<notin> P" "\<And>a. a \<in> page p \<Longrightarrow> m1 a = 0"
    and same: "unchanged P m m1"
  defines "m2 \<equiv> set_pte t i (desc_table p) m1"
  shows "pte m2 t i = desc_table p" "tabs k m2 p = [p]" "distinct (tabs (Suc k) m2 t)"
    "set (tabs (Suc k) m2 t) = insert p (set (tabs (Suc k) m t))"
    "desc_at (Suc k) m2 t va = desc_at (Suc k) m t va" "unchanged (P - {t}) m m2"
proof -
  let ?S = "\<lambda>j. set (subs k m t j)"
  have D: "\<And>j. j < 512 \<Longrightarrow> t \<notin> ?S j \<and> distinct (subs k m t j)"
    "\<And>j l. j < 512 \<Longrightarrow> l < 512 \<Longrightarrow> j \<noteq> l \<Longrightarrow> ?S j \<inter> ?S l = {}"
    using d unfolding distinct_tabs_Suc pairwise_def by simp_all
  have sub: "insert t (?S j) \<subseteq> P" if "j < 512" for j using that P(1) unfolding set_tabs_Suc by blast
  have t: "t \<in> P" "aligned t" "t \<noteq> p" using sub [OF i(1)] P(2) p(2) by auto
  have out: "m2 a = m1 a" if "a \<notin> page t" for a unfolding m2_def using set_pte_outside [OF t(2) i(1) that] .
  have dj: "page q \<inter> page t = {}" if "q \<noteq> t" "aligned q" for q using pages_disjoint that t(2) by blast
  show u: "unchanged (P - {t}) m m2" using same out dj P(2) by (fastforce simp: unchanged_def)
  have e1: "pte m1 t j = pte m t j" if "j < 512" for j using unchanged_pte [OF same t(1,2) that] .
  have e: "pte m2 t j = (if j = i then desc_table p else pte m t j)" if "j < 512" for j
    unfolding m2_def using pte_set_pte [OF i(1) that] e1 [OF that] by simp
  then show pi: "pte m2 t i = desc_table p" using i(1) by simp
  have z: "m2 a = 0" if "a \<in> page p" for a using out [of a] p(3) [OF that] dj [OF t(3) [symmetric] p(1)] that by (auto simp: disjoint_iff)
  show tp: "tabs k m2 p = [p]" using zero_page(1) [OF p(1) z] .
  have dp: "desc_at k m2 p va = 0" using zero_page(2) [OF p(1) z] .
  have Si: "subs k m t i = []" "subs k m2 t i = [p]"
    using i(2) pi tp desc_table_props p(1) by (simp_all add: subs_def)
  have uj: "unchanged (?S j) m m2" "\<forall>q \<in> ?S j. aligned q" if "j < 512" for j
    using sub [OF that] D(1) [OF that] P(2) by (auto intro: unchanged_mono [OF u])
  have fr: "tabs k m2 (child (pte m t j)) = tabs k m (child (pte m t j))"
    "desc_at k m2 (child (pte m t j)) va = desc_at k m (child (pte m t j)) va" if "j < 512" "valid (pte m t j)" for j
    using tabs_frame [of k m "child (pte m t j)" m2] uj [OF that(1)] that(2) by (simp_all add: subs_def)
  have other: "subs k m2 t j = subs k m t j" if "j < 512" "j \<noteq> i" for j
    using e [OF that(1)] that(2) fr(1) [OF that(1)] by (simp add: subs_def)
  have pS: "p \<notin> ?S j" if "j < 512" for j using sub [OF that] p(2) by blast
  have "set (subs k m2 t j) \<inter> set (subs k m2 t l) = {}" if "j < 512" "l < 512" "j \<noteq> l" for j l
    using D(2) [OF that] other Si(2) pS that by (cases "j = i"; cases "l = i") auto
  moreover have "t \<notin> set (subs k m2 t j) \<and> distinct (subs k m2 t j)" if "j < 512" for j
    using D(1) [OF that] other [OF that] Si(2) t(3) by (cases "j = i") auto
  ultimately show "distinct (tabs (Suc k) m2 t)" unfolding distinct_tabs_Suc pairwise_def by simp
  have "set (subs k m2 t j) = ?S j \<union> (if j = i then {p} else {})" if "j < 512" for j
    using other [OF that] Si by simp
  then have "(\<Union>j \<in> {j. j < 512}. set (subs k m2 t j)) = (\<Union>j \<in> {j. j < 512}. ?S j \<union> (if j = i then {p} else {}))"
    by (intro SUP_cong) simp_all
  also have "\<dots> = insert p (\<Union>j \<in> {j. j < 512}. ?S j)" using i(1) by (auto split: if_splits)
  finally show "set (tabs (Suc k) m2 t) = insert p (set (tabs (Suc k) m t))" unfolding set_tabs_Suc by (simp add: insert_commute)
  show "desc_at (Suc k) m2 t va = desc_at (Suc k) m t va"
    using e [OF ix_less, of "Suc k" va] fr(2) [OF ix_less, of "Suc k" va] dp i(2) desc_table_props p(1)
    by (cases "ix (Suc k) va = i") (simp_all add: Let_def)
qed

section \<open>The page source\<close>

text \<open>
  \<open>owned st P\<close>: in the state \<open>st\<close> of allocator and memory, \<open>P\<close> are pages handed out and not yet
  given back. A page can be written to freely; the only failure is the assertion that finds no page.
\<close>

locale page_source =
  fixes owned :: "pst \<Rightarrow> u64 set \<Rightarrow> bool"
  assumes owned_aligned: "owned st P \<Longrightarrow> p \<in> P \<Longrightarrow> aligned p \<and> p \<noteq> 0"
    and owned_new: "owned st P \<Longrightarrow> pt_alloc_page_or_die st = Inr (p, st') \<Longrightarrow>
      p \<notin> P \<and> owned st' (insert p P) \<and> (\<forall>a \<in> page p. snd st' a = 0) \<and> unchanged P (snd st) (snd st')"
    and owned_fail: "owned st P \<Longrightarrow> pt_alloc_page_or_die st = Inl e \<Longrightarrow> e = Kernel_panic JRT_EASSERT"
    and owned_write: "owned (a, m) P \<Longrightarrow> t \<in> P \<Longrightarrow> i < 512 \<Longrightarrow> owned (a, set_pte t i d m) P"
begin

definition tree :: "nat \<Rightarrow> pst \<Rightarrow> u64 set \<Rightarrow> u64 \<Rightarrow> bool" where
  "tree k st P t \<longleftrightarrow> owned st P \<and> distinct (tabs k (snd st) t) \<and> set (tabs k (snd st) t) \<subseteq> P"

text \<open>What an operation on the tree at \<open>t\<close> may do: take new pages, and change pages of the tree.\<close>

definition grown :: "nat \<Rightarrow> u64 \<Rightarrow> pst \<Rightarrow> u64 set \<Rightarrow> pst \<Rightarrow> u64 set \<Rightarrow> bool" where
  "grown k t st P st' P' \<longleftrightarrow> P \<subseteq> P' \<and> tree k st' P' t \<and>
     set (tabs k (snd st') t) = set (tabs k (snd st) t) \<union> (P' - P) \<and>
     unchanged (P - set (tabs k (snd st) t)) (snd st) (snd st')"

lemma ensure_next_ok:
  assumes "tree (Suc k) st P t" "i < 512" "ensure_next t i st = Inr (c, st')"
  shows "\<exists>P'. P' = (if valid (pte (snd st) t i) then P else insert c P) \<and> grown (Suc k) t st P st' P' \<and>
    valid (pte (snd st') t i) \<and> c = child (pte (snd st') t i) \<and>
    (\<forall>va. desc_at (Suc k) (snd st') t va = desc_at (Suc k) (snd st) t va)"
proof (cases "valid (pte (snd st) t i)")
  case True
  then have "child (pte (snd st) t i) \<in> set (tabs (Suc k) (snd st) t)"
    using assms(2) unfolding set_tabs_Suc by (auto simp: subs_def)
  then have "child (pte (snd st) t i) \<noteq> 0"
    using assms(1) owned_aligned unfolding tree_def by blast
  then have "c = child (pte (snd st) t i)" "st' = st"
    using assms(3) True by (auto simp: ensure_next_def Let_def child_def split: if_splits)
  then show ?thesis using True assms(1) by (intro exI [of _ P]) (simp add: grown_def unchanged_def)
next
  case False
  obtain p a m1 where n: "pt_alloc_page_or_die st = Inr (p, a, m1)" "c = p" "st' = (a, set_pte t i (desc_table p) m1)"
    using assms(3) False by (auto simp: ensure_next_def Let_def)
  have T: "owned st P" "distinct (tabs (Suc k) (snd st) t)" "set (tabs (Suc k) (snd st) t) \<subseteq> P"
    using assms(1) by (simp_all add: tree_def del: tabs.simps)
  have N: "p \<notin> P" "owned (a, m1) (insert p P)" "\<And>x. x \<in> page p \<Longrightarrow> m1 x = 0" "unchanged P (snd st) m1"
    using owned_new [OF T(1) n(1)] by auto
  have al: "\<forall>q \<in> P. aligned q" "aligned p" using owned_aligned [OF T(1)] owned_aligned [OF N(2)] by auto
  have t: "t \<in> P" using T(3) by simp
  note F = fresh_subtree [OF T(2,3) al(1) assms(2) False al(2) N(1,3,4)]
  have "grown (Suc k) t st P st' (insert p P)"
    unfolding grown_def tree_def n(3) snd_conv
  proof (intro conjI)
    show "owned (a, set_pte t i (desc_table p) m1) (insert p P)" using owned_write [OF N(2)] t assms(2) by simp
    show "distinct (tabs (Suc k) (set_pte t i (desc_table p) m1) t)" by (rule F(3))
    show "set (tabs (Suc k) (set_pte t i (desc_table p) m1) t) \<subseteq> insert p P" using F(4) T(3) by blast
    show "set (tabs (Suc k) (set_pte t i (desc_table p) m1) t) = set (tabs (Suc k) (snd st) t) \<union> (insert p P - P)"
      using F(4) N(1) by (simp add: insert_Diff_if)
    show "unchanged (P - set (tabs (Suc k) (snd st) t)) (snd st) (set_pte t i (desc_table p) m1)"
      by (rule unchanged_mono [OF F(6)]) auto
  qed auto
  then show ?thesis using False F(1,5) n desc_table_props al(2) by (intro exI [of _ "insert p P"]) (simp del: tabs.simps desc_at.simps)
qed

lemma ensure_next_fail:
  assumes "tree k st P t" "ensure_next t i st = Inl e"
  shows "e = Kernel_panic JRT_EASSERT"
proof -
  have "owned st P" using assms(1) by (simp add: tree_def)
  then show ?thesis using owned_fail assms(2)
    by (cases "pt_alloc_page_or_die st") (auto simp: ensure_next_def Let_def split: if_splits)
qed

lemma tree_child:
  assumes "tree (Suc k) st P t" "i < 512" "valid (pte (snd st) t i)"
  shows "tree k st P (child (pte (snd st) t i))"
proof -
  have "subs k (snd st) t i = tabs k (snd st) (child (pte (snd st) t i))" using assms(3) by (simp add: subs_def)
  moreover have "set (subs k (snd st) t i) \<subseteq> set (tabs (Suc k) (snd st) t)" using assms(2) unfolding set_tabs_Suc by blast
  moreover have "distinct (subs k (snd st) t i)" using assms(1,2) unfolding tree_def distinct_tabs_Suc by blast
  ultimately show ?thesis using assms(1) by (auto simp: tree_def simp del: tabs.simps)
qed

lemma grown_trans:
  assumes "grown k t st P st1 P1" "grown k t st1 P1 st2 P2"
  shows "grown k t st P st2 P2"
proof -
  let ?T = "\<lambda>s. set (tabs k (snd s) t)"
  have u: "unchanged (P - ?T st) (snd st) (snd st1)" "unchanged (P1 - ?T st1) (snd st1) (snd st2)"
    and s: "P \<subseteq> P1" "P1 \<subseteq> P2" "?T st1 = ?T st \<union> (P1 - P)" "?T st2 = ?T st1 \<union> (P2 - P1)"
    using assms by (simp_all add: grown_def)
  have "unchanged (P - ?T st) (snd st1) (snd st2)" by (rule unchanged_mono [OF u(2)]) (use s in blast)
  with u(1) have "unchanged (P - ?T st) (snd st) (snd st2)" by (rule unchanged_trans)
  then show ?thesis using assms s unfolding grown_def by blast
qed

text \<open>An operation on the subtree below one entry is an operation on the whole tree.\<close>

lemma grown_child:
  assumes T1: "tree (Suc k) st1 P1 t" and v: "i < 512" "valid (pte (snd st1) t i)" and c: "c = child (pte (snd st1) t i)"
    and g: "grown k c st1 P1 st' P2"
  shows "grown (Suc k) t st1 P1 st' P2" "pte (snd st') t i = pte (snd st1) t i"
    "ix (Suc k) va = i \<Longrightarrow> desc_at (Suc k) (snd st') t va = desc_at k (snd st') c va"
    "ix (Suc k) va \<noteq> i \<Longrightarrow> desc_at (Suc k) (snd st') t va = desc_at (Suc k) (snd st1) t va"
proof -
  have T: "distinct (tabs (Suc k) (snd st1) t)" "set (tabs (Suc k) (snd st1) t) \<subseteq> P1" "\<forall>p \<in> P1. aligned p"
    using T1 owned_aligned unfolding tree_def by blast+
  have G: "unchanged (P1 - set (tabs k (snd st1) c)) (snd st1) (snd st')" "distinct (tabs k (snd st') c)"
    "set (tabs k (snd st') c) = set (tabs k (snd st1) c) \<union> (P2 - P1)" "P1 \<subseteq> P2" "owned st' P2"
    using g unfolding grown_def tree_def by blast+
  have "(P2 - P1) \<inter> P1 = {}" by blast
  note R = replace_subtree [OF T v c G(1-3) this]
  have S: "subs k (snd st1) t i = tabs k (snd st1) c" using v(2) c by (simp add: subs_def)
  have "set (subs k (snd st1) t i) \<subseteq> set (tabs (Suc k) (snd st1) t)" using v(1) unfolding set_tabs_Suc by blast
  then have cs: "set (tabs k (snd st1) c) \<subseteq> set (tabs (Suc k) (snd st1) t)" unfolding S .
  show "grown (Suc k) t st1 P1 st' P2"
    unfolding grown_def tree_def
    using R(1,2) G(4,5) T(2) unchanged_mono [OF G(1), of "P1 - set (tabs (Suc k) (snd st1) t)"] cs by blast
  have "t \<notin> set (tabs k (snd st1) c)" using T(1) v(1) unfolding distinct_tabs_Suc S [symmetric] by blast
  moreover have "t \<in> P1" using T(2) top_in_tabs [of t "Suc k" "snd st1"] by blast
  ultimately show "pte (snd st') t i = pte (snd st1) t i" using unchanged_pte [OF G(1) _ _ v(1)] T(3) by blast
  show "ix (Suc k) va = i \<Longrightarrow> desc_at (Suc k) (snd st') t va = desc_at k (snd st') c va"
    "ix (Suc k) va \<noteq> i \<Longrightarrow> desc_at (Suc k) (snd st') t va = desc_at (Suc k) (snd st1) t va" using R(3,4) by blast+
qed

lemma tmap_ok:
  assumes "tree k st P t" "tmap k t va d st = Inr st'"
  shows "\<exists>P'. grown k t st P st' P' \<and>
    (\<forall>va'. desc_at k (snd st') t va' = (if \<forall>j \<le> k. ix j va' = ix j va then d else desc_at k (snd st) t va'))"
  using assms
proof (induction k arbitrary: st P t)
  case 0
  obtain a m where st: "st = (a, m)" by (cases st)
  have o: "owned (a, m) P" "t \<in> P" using 0(1) by (auto simp: tree_def st)
  have st': "st' = (a, set_pte t (ix 0 va) d m)" using 0(2) by (simp add: st)
  have al: "\<And>p. p \<in> P \<Longrightarrow> aligned p" using owned_aligned [OF o(1)] by blast
  have "unchanged (P - {t}) m (set_pte t (ix 0 va) d m)"
    using set_pte_outside [OF al [OF o(2)] ix_less] pages_disjoint [OF al al [OF o(2)]] by (fastforce simp: unchanged_def)
  then have "grown 0 t st P st' P"
    using o owned_write [OF o ix_less] by (simp add: grown_def tree_def st st')
  moreover have "desc_at 0 (snd st') t va' = (if \<forall>j \<le> 0. ix j va' = ix j va then d else desc_at 0 (snd st) t va')" for va'
    using pte_set_pte [OF ix_less ix_less] by (simp add: st st')
  ultimately show ?case by blast
next
  case (Suc k)
  let ?i = "ix (Suc k) va"
  obtain c st1 where e: "ensure_next t ?i st = Inr (c, st1)" and r: "tmap k c va d st1 = Inr st'"
    using Suc.prems(2) by auto
  obtain P1 where g1: "grown (Suc k) t st P st1 P1" and v: "valid (pte (snd st1) t ?i)" and c: "c = child (pte (snd st1) t ?i)"
    and same: "\<And>va. desc_at (Suc k) (snd st1) t va = desc_at (Suc k) (snd st) t va"
    using ensure_next_ok [OF Suc.prems(1) ix_less e] by blast
  have T1: "tree (Suc k) st1 P1 t" using g1 by (simp add: grown_def)
  have Tc: "tree k st1 P1 c" unfolding c by (rule tree_child [OF T1 ix_less v])
  obtain P2 where g2: "grown k c st1 P1 st' P2"
    and look: "\<And>va'. desc_at k (snd st') c va' = (if \<forall>j \<le> k. ix j va' = ix j va then d else desc_at k (snd st1) c va')"
    using Suc.IH [OF Tc r] by blast
  note R = grown_child [OF T1 ix_less v c g2]
  from R(1) have "grown (Suc k) t st P st' P2" using g1 grown_trans by blast
  moreover have "desc_at (Suc k) (snd st') t va' =
      (if \<forall>j \<le> Suc k. ix j va' = ix j va then d else desc_at (Suc k) (snd st) t va')" for va'
  proof (cases "ix (Suc k) va' = ?i")
    case True
    have "desc_at (Suc k) (snd st1) t va' = desc_at k (snd st1) c va'" using v c True by (simp add: Let_def)
    then show ?thesis using R(3) [OF True] look same True by (auto simp: le_Suc_eq simp del: desc_at.simps)
  next
    case False
    then show ?thesis using R(4) [OF False] same by (auto simp del: desc_at.simps)
  qed
  ultimately show ?case by blast
qed

lemma tmap_fail:
  assumes "tree k st P t" "tmap k t va d st = Inl e"
  shows "e = Kernel_panic JRT_EASSERT"
  using assms
proof (induction k arbitrary: st P t)
  case (Suc k)
  show ?case
  proof (cases "ensure_next t (ix (Suc k) va) st")
    case (Inl e')
    then show ?thesis using ensure_next_fail [OF Suc.prems(1)] Suc.prems(2) by simp
  next
    case (Inr cs)
    obtain c st1 where cs: "cs = (c, st1)" by (cases cs)
    obtain P1 where "grown (Suc k) t st P st1 P1" "valid (pte (snd st1) t (ix (Suc k) va))"
        "c = child (pte (snd st1) t (ix (Suc k) va))"
      using ensure_next_ok [OF Suc.prems(1) ix_less] Inr cs by blast
    then have "tree k st1 P1 c" using tree_child ix_less by (simp add: grown_def)
    then show ?thesis using Suc.IH Suc.prems(2) Inr cs by simp
  qed
qed simp

end

section \<open>Ranges\<close>

lemma PAGE_MASK_mask: "PAGE_MASK = NOT (mask 12)"
  by (simp add: PAGE_MASK_def PAGE_SIZE_def mask_eq_exp_minus_1)

text \<open>The page number of a 48-bit address, and a map with a range of pages replaced.\<close>

definition vpn :: "u64 \<Rightarrow> nat" where
  "vpn va = unat (take_bit 36 (drop_bit 12 va))"

lemma same_page: "(\<forall>j \<le> 3. ix j va' = ix j va) \<longleftrightarrow> vpn va' = vpn va"
proof
  assume *: "\<forall>j \<le> 3. ix j va' = ix j va"
  have "bit va' (12 + n) = bit va (12 + n)" if "n < 36" for n
  proof -
    have "n div 9 \<le> 3" using that by simp
    then have "bit (ix (n div 9) va') (n mod 9) = bit (ix (n div 9) va) (n mod 9)" using * by simp
    moreover have "12 + 9 * (n div 9) + n mod 9 = 12 + n" by simp
    ultimately show ?thesis by (simp add: ix_def bit_simps del: mult_div_mod_eq)
  qed
  then have "take_bit 36 (drop_bit 12 va') = take_bit 36 (drop_bit 12 va)"
    by (intro bit_word_eqI) (auto simp: bit_simps)
  then show "vpn va' = vpn va" by (simp add: vpn_def)
next
  assume "vpn va' = vpn va"
  then have e: "take_bit 36 (drop_bit 12 va') = take_bit 36 (drop_bit 12 va)" by (simp add: vpn_def word_unat_eq_iff)
  have b: "bit va' (12 + n) = bit va (12 + n)" if "n < 36" for n
    using arg_cong [OF e, of "\<lambda>w. bit w n"] that by (simp add: bit_simps)
  show "\<forall>j \<le> 3. ix j va' = ix j va"
  proof (intro allI impI)
    fix j :: nat assume j: "j \<le> 3"
    have "bit va' (12 + 9 * j + n) = bit va (12 + 9 * j + n)" if "n < 9" for n
      using b [of "9 * j + n"] j that by (simp add: add.assoc)
    then show "ix j va' = ix j va" unfolding ix_def by (intro bit_word_eqI) (auto simp: bit_simps)
  qed
qed

definition over_range :: "nat \<Rightarrow> nat \<Rightarrow> u64 \<Rightarrow> u64 \<Rightarrow> (u64 \<Rightarrow> u64) \<Rightarrow> u64 \<Rightarrow> u64" where
  "over_range v w pa attrs f va =
     (if v \<le> vpn va \<and> vpn va < w then desc_page (pa + of_nat (4096 * (vpn va - v))) attrs else f va)"

lemma vpn_page: "v < 2 ^ 36 \<Longrightarrow> vpn (of_nat (4096 * v)) = v"
proof -
  assume v: "v < 2 ^ 36"
  have "drop_bit 12 (of_nat (4096 * v) :: u64) = of_nat v"
    using v by (simp add: word_unat_eq_iff drop_bit_eq_div unat_div_distrib del: of_nat_mult)
  then show ?thesis using v by (simp add: vpn_def take_bit_eq_mod unat_mod_distrib)
qed

lemma over_range_none: "over_range v v pa attrs f = f"
  by (auto simp: over_range_def fun_eq_iff)

lemma over_range_first:
  assumes "v < w" "v < 2 ^ 36"
  shows "over_range (Suc v) w (pa + 4096) attrs
      (\<lambda>va'. if vpn va' = v then desc_page pa attrs else f va') = over_range v w pa attrs f"
proof
  fix va
  show "over_range (Suc v) w (pa + 4096) attrs (\<lambda>va'. if vpn va' = v then desc_page pa attrs else f va') va =
      over_range v w pa attrs f va"
  proof (cases "Suc v \<le> vpn va \<and> vpn va < w")
    case True
    then have "vpn va - v = Suc (vpn va - Suc v)" by linarith
    then have "pa + 4096 + of_nat (4096 * (vpn va - Suc v)) = pa + of_nat (4096 * (vpn va - v))" by simp
    then show ?thesis using True by (simp add: over_range_def)
  next
    case False
    then show ?thesis using assms(1) by (auto simp: over_range_def)
  qed
qed

text \<open>The meaning of a map: the page entry of every address.\<close>

definition desc_of :: "pt_root_t \<Rightarrow> pst \<Rightarrow> u64 \<Rightarrow> u64" where
  "desc_of r st = desc_at 3 (snd st) (l0 r)"

lemma map_range_pages_eq:
  assumes "unat va + unat sz \<le> 2 ^ 48"
  shows "map_range_pages r va pa sz attrs st =
    (case map_pages r (of_nat (4096 * (unat va div 4096))) (pa AND PAGE_MASK)
        (of_nat (4096 * ((unat va + unat sz + 4095) div 4096))) attrs st of None \<Rightarrow> Inl No_return | Some res \<Rightarrow> res)"
proof -
  have page: "x AND PAGE_MASK = of_nat (4096 * (unat x div 4096))" for x :: u64
  proof -
    have "x AND PAGE_MASK = push_bit 12 (drop_bit 12 x)" unfolding PAGE_MASK_mask by (rule bit_word_eqI) (auto simp: bit_simps)
    also have "\<dots> = of_nat (4096 * unat (drop_bit 12 x))" by (simp add: push_bit_eq_mult)
    finally show ?thesis by (simp add: drop_bit_eq_div unat_div_distrib)
  qed
  have "unat (va + sz) = unat va + unat sz" using assms by (simp add: unat_word_ariths)
  then have "unat ((va + sz) + 4095) = unat va + unat sz + 4095"
    using assms by (simp add: unat_word_ariths(1) [of "va + sz"])
  moreover have "va + sz + PAGE_SIZE - 1 = (va + sz) + 4095" by (simp add: PAGE_SIZE_def)
  ultimately have "unat (va + sz + PAGE_SIZE - 1) = unat va + unat sz + 4095" by (simp only:)
  then have fin: "(va + sz + PAGE_SIZE - 1) AND PAGE_MASK = of_nat (4096 * ((unat va + unat sz + 4095) div 4096))"
    unfolding page by simp
  show ?thesis unfolding map_range_pages_def Let_def fin page [of va] by simp
qed

context page_source
begin

lemma map_page_ok:
  assumes "tree 3 st P (l0 r)"
  shows "case map_page r va pa attrs st of Inl e \<Rightarrow> e = Kernel_panic JRT_EASSERT
    | Inr st' \<Rightarrow> \<exists>P'. grown 3 (l0 r) st P st' P' \<and>
        desc_of r st' = (\<lambda>va'. if vpn va' = vpn va then desc_page pa attrs else desc_of r st va')"
proof (cases "map_page r va pa attrs st")
  case (Inl e)
  then show ?thesis using tmap_fail [OF assms] by (simp add: map_page_tmap)
next
  case (Inr st')
  then have "tmap 3 (l0 r) va (desc_page pa attrs) st = Inr st'" by (simp add: map_page_tmap)
  from tmap_ok [OF assms this] Inr show ?thesis
    unfolding same_page by (auto simp: desc_of_def fun_eq_iff)
qed

lemma grown_pages: "grown k t st P st' P' \<Longrightarrow> tree k st P t \<Longrightarrow> P' = P \<union> set (tabs k (snd st') t)"
  by (auto simp: grown_def tree_def)

lemma grown_refl: "tree k st P t \<Longrightarrow> grown k t st P st P"
  by (auto simp: grown_def unchanged_def)

lemma map_pages_ok:
  assumes "tree 3 st P (l0 r)" "v + n \<le> 2 ^ 36"
  shows "\<exists>res. map_pages r (of_nat (4096 * v)) pa (of_nat (4096 * (v + n))) attrs st = Some res \<and>
    (case res of Inl e \<Rightarrow> e = Kernel_panic JRT_EASSERT
     | Inr st' \<Rightarrow> \<exists>P'. grown 3 (l0 r) st P st' P' \<and> desc_of r st' = over_range v (v + n) pa attrs (desc_of r st))"
  using assms
proof (induction n arbitrary: v pa st P)
  case 0
  then show ?case using grown_refl [OF 0(1)] by (subst map_pages.simps) (auto simp: over_range_none)
next
  case (Suc n)
  have less: "(of_nat (4096 * v) :: u64) < of_nat (4096 * (v + Suc n))"
  proof -
    have "4096 * v < 18446744073709551616" "4096 * (v + Suc n) < 18446744073709551616" using Suc.prems(2) by simp_all
    then show ?thesis unfolding word_less_nat_alt by (simp only: unat_of_nat_u64) simp
  qed
  have v: "v < 2 ^ 36" using Suc.prems(2) by simp
  note M = map_page_ok [OF Suc.prems(1), of "of_nat (4096 * v)" pa attrs, unfolded vpn_page [OF v]]
  show ?case
  proof (cases "map_page r (of_nat (4096 * v)) pa attrs st")
    case (Inl e)
    then show ?thesis using less M by (subst map_pages.simps) simp
  next
    case (Inr st1)
    then obtain P1 where g: "grown 3 (l0 r) st P st1 P1"
      and d: "desc_of r st1 = (\<lambda>va'. if vpn va' = v then desc_page pa attrs else desc_of r st va')"
      using M by auto
    have next_va: "of_nat (4096 * v) + PAGE_SIZE = (of_nat (4096 * Suc v) :: u64)" by (simp add: PAGE_SIZE_def)
    have "map_pages r (of_nat (4096 * v)) pa (of_nat (4096 * (v + Suc n))) attrs st =
        map_pages r (of_nat (4096 * Suc v)) (pa + PAGE_SIZE) (of_nat (4096 * (Suc v + n))) attrs st1"
      using less Inr by (subst map_pages.simps) (simp only: next_va if_True sum.case add_Suc_shift)
    moreover have "tree 3 st1 P1 (l0 r)" using g by (simp add: grown_def)
    moreover have "over_range (Suc v) (Suc v + n) (pa + PAGE_SIZE) attrs (desc_of r st1) =
        over_range v (v + Suc n) pa attrs (desc_of r st)"
      unfolding d using over_range_first [of v "v + Suc n" pa attrs "desc_of r st"] v by (simp add: PAGE_SIZE_def)
    ultimately show ?thesis
      using Suc.IH [of st1 P1 "Suc v" "pa + PAGE_SIZE"] Suc.prems(2) grown_trans [OF g]
      by (fastforce split: sum.splits)
  qed
qed

lemma map_range_ok:
  assumes "tree 3 st P (l0 r)" "unat va + unat sz \<le> 2 ^ 48"
  shows "case map_range_pages r va pa sz attrs st of Inl e \<Rightarrow> e = Kernel_panic JRT_EASSERT
    | Inr st' \<Rightarrow> \<exists>P'. grown 3 (l0 r) st P st' P' \<and>
        desc_of r st' = over_range (unat va div 4096) ((unat va + unat sz + 4095) div 4096) (pa AND PAGE_MASK) attrs (desc_of r st)"
proof -
  let ?v = "unat va div 4096" and ?w = "(unat va + unat sz + 4095) div 4096"
  define n where "n = ?w - ?v"
  have w: "?v + n = ?w" "?w \<le> 2 ^ 36" using assms(2) by (auto simp: n_def div_le_mono)
  obtain res where "map_pages r (of_nat (4096 * ?v)) (pa AND PAGE_MASK) (of_nat (4096 * (?v + n))) attrs st = Some res"
    "case res of Inl e \<Rightarrow> e = Kernel_panic JRT_EASSERT
     | Inr st' \<Rightarrow> \<exists>P'. grown 3 (l0 r) st P st' P' \<and> desc_of r st' = over_range ?v (?v + n) (pa AND PAGE_MASK) attrs (desc_of r st)"
    using map_pages_ok [OF assms(1), of ?v n "pa AND PAGE_MASK" attrs] w by auto
  then show ?thesis unfolding map_range_pages_eq [OF assms(2)] w(1) by simp
qed

end

end
