(* ===== verification/Mmu_Maps.thy ===== *)
theory Mmu_Maps
  imports Mmu_Tables Alloc_Aligned
begin

text \<open>
  The kernel's allocator as the page source of the tables, and what the maps of the kernel and of a
  process translate. Pages are owned on a block list in which no block has a sliver in front of its first
  page boundary; taking pages keeps that, because a page's block ends 12 bytes behind a boundary.
\<close>

section \<open>Writing to allocated memory\<close>

fun hdr_same :: "nat \<Rightarrow> blocks \<Rightarrow> memory \<Rightarrow> memory \<Rightarrow> bool" where
  "hdr_same a [] m m' = True"
| "hdr_same a ((n, u) # bs) m m' \<longleftrightarrow>
     (\<forall>i < (if u then 12 else 20). m' (of_nat (a + i)) = m (of_nat (a + i))) \<and> hdr_same (a + n) bs m m'"

lemma hd_at_same:
  assumes "\<And>i. off f \<le> i \<Longrightarrow> i < off f + 4 \<Longrightarrow> m' (of_nat (a + i)) = m (of_nat (a + i))"
  shows "hd_at m' a f = hd_at m a f"
proof -
  have "load_le 4 m' (of_nat (a + off f)) = load_le 4 m (of_nat (a + off f))"
    by (rule load_le_cong) (use assms [of "off f + _"] in \<open>simp add: add.assoc [symmetric]\<close>)
  then show ?thesis by (simp add: hd_at_def load32_def)
qed

lemma chain_hdr_same: "hdr_same a bs m m' \<Longrightarrow> chain (hd_at m) p pf a bs nf \<Longrightarrow> chain (hd_at m') p pf a bs nf"
proof (induction bs arbitrary: p pf a)
  case (Cons b bs)
  obtain n u where b: "b = (n, u)" by (cases b)
  have s: "m' (of_nat (a + i)) = m (of_nat (a + i))" if "i < (if u then 12 else 20)" for i
    using Cons.prems(1) that unfolding b by simp
  have "hd_at m' a f = hd_at m a f" if "f \<in> {FPrev, FNext, FUsed} \<or> \<not> u" for f
    by (rule hd_at_same, rule s) (use that in \<open>cases f; auto simp: off_def split: if_splits\<close>)
  then show ?case using Cons b by auto
qed simp

lemma hdr_same_outside:
  "sizes_ok bs \<Longrightarrow> (\<And>i. a \<le> i \<Longrightarrow> i < a + total bs \<Longrightarrow> m' (of_nat i) = m (of_nat i)) \<Longrightarrow> hdr_same a bs m m'"
proof (induction bs arbitrary: a)
  case (Cons b bs)
  obtain n u where b: "b = (n, u)" by (cases b)
  have "m' (of_nat (a + i)) = m (of_nat (a + i))" if "i < 20" for i
    using Cons.prems(2) [of "a + i"] Cons.prems(1) that b by simp
  then show ?case using Cons.IH [of "a + n"] Cons.prems b by (simp del: of_nat_add)
qed simp

lemma hdr_same_payload:
  assumes "sizes_ok bs" "(s, l) \<in> used_regions a bs"
    and "\<And>i. i < s \<or> s + l \<le> i \<Longrightarrow> a \<le> i \<Longrightarrow> i < a + total bs \<Longrightarrow> m' (of_nat i) = m (of_nat i)"
  shows "hdr_same a bs m m'"
  using assms
proof (induction bs arbitrary: a)
  case (Cons b bs)
  obtain n u where b: "b = (n, u)" by (cases b)
  have n: "20 \<le> n" "sizes_ok bs" using Cons.prems(1) b by auto
  show ?case
  proof (cases "(s, l) \<in> used_regions (a + n) bs")
    case True
    then have "a + n + 12 \<le> s" using used_regions_range [OF n(2)] by fastforce
    then have "m' (of_nat (a + i)) = m (of_nat (a + i))" if "i < 20" for i
      using Cons.prems(3) [of "a + i"] that n b by simp
    moreover have "hdr_same (a + n) bs m m'" using Cons.IH [OF n(2) True] Cons.prems(3) b by simp
    ultimately show ?thesis by (simp add: b)
  next
    case False
    then have u: "u" "s = a + 12" "l = n - 12" using Cons.prems(2) b by (auto split: if_splits)
    have "m' (of_nat (a + i)) = m (of_nat (a + i))" if "i < 12" for i
      using Cons.prems(3) [of "a + i"] that u n b by simp
    moreover have "hdr_same (a + n) bs m m'"
      using Cons.prems(3) u n b by (intro hdr_same_outside [OF n(2)]) simp
    ultimately show ?thesis by (simp add: b u(1))
  qed
qed simp

lemma payload_write_within:
  assumes inv: "alloc_inv base bs a m" and r: "(s, l) \<in> used_regions base bs"
    and w: "\<And>x. base \<le> unat x \<Longrightarrow> unat x < base + total bs \<Longrightarrow> unat x < s \<or> s + l \<le> unat x \<Longrightarrow> m' x = m x"
  shows "alloc_inv base bs a m'"
proof -
  note I = alloc_invD [OF inv]
  have "m' (of_nat i) = m (of_nat i)" if "i < s \<or> s + l \<le> i" "base \<le> i" "i < base + total bs" for i
    using w [of "of_nat i"] that I(5) by simp
  then have "hdr_same base bs m m'" by (rule hdr_same_payload [OF I(8) r])
  then show ?thesis using inv chain_hdr_same by (simp add: alloc_inv_def)
qed

lemma payload_write_inv:
  assumes "alloc_inv base bs a m" "(s, l) \<in> used_regions base bs"
    and "\<And>x. unat x < s \<or> s + l \<le> unat x \<Longrightarrow> m' x = m x"
  shows "alloc_inv base bs a m'"
  using assms(3) by (rule payload_write_within [OF assms(1,2)])

section \<open>Pages of the allocator\<close>

lemma aligned_nat: "aligned p \<longleftrightarrow> unat p mod 4096 = 0"
proof -
  have "aligned p \<longleftrightarrow> unat (take_bit 12 p) = 0" by (simp add: aligned_def word_unat_eq_iff)
  then show ?thesis by (simp add: take_bit_eq_mod unat_mod_distrib)
qed

lemma page_nat: "aligned p \<Longrightarrow> a \<in> page p \<longleftrightarrow> unat p \<le> unat a \<and> unat a < unat p + 4096"
proof -
  assume "aligned p"
  then have p: "unat p mod 4096 = 0" by (simp add: aligned_nat)
  have "a \<in> page p \<longleftrightarrow> unat a div 4096 = unat p div 4096"
    by (simp add: page_def word_unat_eq_iff drop_bit_eq_div unat_div_distrib)
  also have "\<dots> \<longleftrightarrow> unat p \<le> unat a \<and> unat a < unat p + 4096"
    using p mult_div_mod_eq [of 4096 "unat a"] mult_div_mod_eq [of 4096 "unat p"] mod_less_divisor [of 4096 "unat a"]
    by (intro iffI conjI) linarith+
  finally show ?thesis .
qed

definition slivers_ok :: "nat \<Rightarrow> blocks \<Rightarrow> bool" where
  "slivers_ok base bs \<longleftrightarrow> (\<forall>c \<in> addrs base bs. gap 12 c = 0 \<or> 20 \<le> gap 12 c)"

definition page_owned :: "nat \<Rightarrow> pst \<Rightarrow> u64 set \<Rightarrow> bool" where
  "page_owned base st P \<longleftrightarrow> (\<exists>bs. alloc_inv base bs (fst st) (snd st) \<and> slivers_ok base bs \<and>
     (\<forall>p \<in> P. aligned p \<and> (\<exists>l \<ge> 4096. (unat p, l) \<in> used_regions base bs)))"

lemma slivers_free: "slivers_ok base bs \<Longrightarrow> sliver_free 12 base bs"
  by (auto simp: slivers_ok_def sliver_free_def)

lemma carved_total: "g + x \<le> n \<Longrightarrow> total (carved g x n) = n"
  by (auto simp: carved_def)

lemma carved_regions:
  "used_regions c (carved g x n) = {(c + g + 12, if x + 40 \<le> n - g then x - 12 else n - g - 12)}"
  by (cases "g = 0") (auto simp: carved_def)

text \<open>The blocks an allocated page adds start at a page boundary less 12, or 4096 behind that.\<close>

lemma slivers_carved:
  assumes "slivers_ok base (xs @ (n, False) # ys)" "gap 12 (base + total xs) + 4108 \<le> n"
  shows "slivers_ok base (xs @ carved (gap 12 (base + total xs)) 4108 n @ ys)"
proof -
  let ?c = "base + total xs"
  let ?g = "gap 12 ?c"
  have m: "(?c + ?g + 12) mod 4096 = 0" using gap_aligned [of ?c 12] by simp
  have g1: "gap 12 (?c + ?g) = 0" using m by (simp add: gap_def misfit_def)
  obtain k where "?c + ?g + 12 = 4096 * k" using m by (auto simp: mod_eq_0_iff_dvd)
  then have "?c + ?g + 4108 + 12 = 4096 * Suc k + 12" by simp
  then have "(?c + ?g + 4108 + 12) mod 4096 = 12" by (simp only: mod_mult_self3) simp
  then have g2: "20 \<le> gap 12 (?c + ?g + 4108)" by (simp add: gap_def misfit_def)
  have t: "total (carved ?g 4108 n) = n" using assms(2) by (simp add: carved_total)
  have "addrs ?c (carved ?g 4108 n) \<subseteq> {?c, ?c + ?g, ?c + ?g + 4108}" by (auto simp: carved_def)
  then show ?thesis using assms(1) g1 g2 t unfolding slivers_ok_def by (auto simp: add.assoc)
qed

lemma page_in_region: "aligned p \<Longrightarrow> 4096 \<le> l \<Longrightarrow> region_same (unat p, l) s s' \<Longrightarrow> x \<in> page p \<Longrightarrow> snd s' x = snd s x"
  using page_nat [of p x] by (auto simp: region_same_def)

text \<open>
  Taking a page on the block list: a free block is carved, the page is zero, no block in use changes.
\<close>

lemma page_alloc:
  assumes inv: "alloc_inv base bs a m" and sl: "slivers_ok base bs"
  obtains "pt_alloc_page_or_die (a, m) = Inl (Kernel_panic JRT_EASSERT)"
      "\<And>xs n ys. bs = xs @ (n, False) # ys \<Longrightarrow> n < gap 12 (base + total xs) + 4108"
    | xs n ys p l a' m' where "pt_alloc_page_or_die (a, m) = Inr (p, a', m')" "bs = xs @ (n, False) # ys"
      "gap 12 (base + total xs) + 4108 \<le> n" "unat p = base + total xs + gap 12 (base + total xs) + 12" "aligned p" "4096 \<le> l"
      "alloc_inv base (xs @ carved (gap 12 (base + total xs)) 4108 n @ ys) a' m'"
      "slivers_ok base (xs @ carved (gap 12 (base + total xs)) 4108 n @ ys)"
      "used_regions base (xs @ carved (gap 12 (base + total xs)) 4108 n @ ys) = insert (unat p, l) (used_regions base bs)"
      "\<And>r. r \<in> used_regions base bs \<Longrightarrow> fst r \<noteq> unat p \<and> region_same r (a, m) (a', m')"
      "\<And>x. x \<in> page p \<Longrightarrow> m' x = 0"
proof -
  note I = alloc_invD [OF inv]
  have ps: "PAGE_SIZE = of_nat 4096" "PAGE_SIZE = 2 ^ 12" by (simp_all add: PAGE_SIZE_def)
  have call: "pt_alloc_page_or_die (a, m) = bindE (aligned_alloc a (of_nat 4096) (2 ^ 12) m) (\<lambda>(p, a, m).
       KASSERT (p \<noteq> 0) (KASSERT (p AND (PAGE_SIZE - 1) = 0) (Inr (p, a, memset m p 0 4096))))"
    unfolding pt_alloc_page_or_die_def by (simp add: Let_def PAGE_SIZE_def)
  consider xs n ys a' m' where "bs = xs @ (n, False) # ys" "gap 12 (base + total xs) + 4108 \<le> n"
      "aligned_alloc a (of_nat 4096) (2 ^ 12) m = Inr (of_nat (base + total xs + gap 12 (base + total xs) + 12), a', m')"
      "alloc_inv base (xs @ carved (gap 12 (base + total xs)) 4108 n @ ys) a' m'" "payload_same base bs m m'"
    | "aligned_alloc a (of_nat 4096) (2 ^ 12) m = Inr (0, a, m)"
      "\<And>xs n ys. bs = xs @ (n, False) # ys \<Longrightarrow> n < gap 12 (base + total xs) + 4108"
    using aligned_alloc_result [OF inv _ _ _ slivers_free [OF sl], of 4096] by auto
  then show thesis
  proof cases
    case 2
    then show thesis by (intro that(1)) (simp_all add: call KASSERT_def)
  next
    case 1
    let ?g = "gap 12 (base + total xs)" and ?bs' = "xs @ carved (gap 12 (base + total xs)) 4108 n @ ys"
    define q where "q = base + total xs + ?g + 12"
    define p where "p = (of_nat q :: u64)"
    define l where "l = (if 4108 + 40 \<le> n - ?g then 4108 - 12 else n - ?g - 12)"
    define m2 where "m2 = memset m' p 0 4096"
    have q: "q + 4096 \<le> base + total xs + n" "q + 4096 + 20 \<le> 2 ^ 64" "0 < q" "q mod 4096 = 0"
      using 1(1,2) I(1,5) gap_aligned [of "base + total xs" 12] by (auto simp: q_def)
    have u: "unat p = q" using q by (simp add: p_def)
    have al: "aligned p" using q(4) u by (simp add: aligned_nat)
    have "p AND (PAGE_SIZE - 1) = take_bit 12 p" by (simp add: PAGE_SIZE_def take_bit_eq_mask mask_eq_exp_minus_1)
    then have ok: "p AND (PAGE_SIZE - 1) = 0" "p \<noteq> 0" using al u q(3) by (auto simp: aligned_def)
    have m2: "m2 x = (if x \<in> page p then 0 else m' x)" for x
    proof -
      have "unat (x - p) < 4096 \<longleftrightarrow> x \<in> page p"
        using in_page [OF al, of "unat (x - p)"] page_nat [OF al, of x] unat_sub [of p x]
        by (auto simp: word_le_nat_alt)
      then show ?thesis using memset_eq_ref [of 4096 m' p 0] by (simp add: m2_def memset_ref_def)
    qed
    have l: "4096 \<le> l" using 1(2) unfolding l_def by (simp split: if_split) linarith
    have regions: "used_regions base ?bs' = insert (q, l) (used_regions base bs)"
      using 1(2) by (auto simp: 1(1) carved_regions carved_total q_def l_def)
    have apart: "fst r + snd r \<le> q \<or> q + 4096 \<le> fst r" "fst r \<noteq> q" if "r \<in> used_regions base bs" for r
      using used_regions_range [of xs r base] used_regions_range [of ys r "base + total xs + n"] I(8) that q(1)
      by (auto simp: 1(1) q_def)
    have "m2 x = m' x" if "unat x < q \<or> q + l \<le> unat x" for x
    proof -
      have "x \<notin> page p" using that page_nat [OF al, of x] u l by linarith
      then show ?thesis by (simp add: m2)
    qed
    moreover have "(q, l) \<in> used_regions base ?bs'" using regions by simp
    ultimately have inv2: "alloc_inv base ?bs' a' m2" by (intro payload_write_inv [OF 1(4)])
    have same: "region_same r (a, m) (a', m2)" if r: "r \<in> used_regions base bs" for r
    proof -
      have "of_nat i \<notin> page p" if "fst r \<le> i" "i < fst r + snd r" for i
        using apart(1) [OF r] that page_nat [OF al, of "of_nat i"] u used_regions_range [OF I(8) r] I(5) by auto
      then show ?thesis
        using payload_same_regions [OF 1(5) r, of a a'] by (simp add: region_same_def m2)
    qed
    show thesis
    proof (rule that(2))
      show "pt_alloc_page_or_die (a, m) = Inr (p, a', m2)"
        using 1(3) ok unfolding call q_def [symmetric] p_def [symmetric] m2_def by (simp add: KASSERT_def)
      show "slivers_ok base ?bs'" using slivers_carved sl 1(1,2) by simp
      show "fst r \<noteq> unat p \<and> region_same r (a, m) (a', m2)" if "r \<in> used_regions base bs" for r
        using apart(2) [OF that] same [OF that] u by simp
    qed (use 1(1,2) u al l inv2 regions m2 q_def in simp_all)
  qed
qed

lemma page_owned_new:
  assumes "page_owned base st P"
  shows "pt_alloc_page_or_die st = Inl (Kernel_panic JRT_EASSERT) \<or>
    (\<exists>p a m. pt_alloc_page_or_die st = Inr (p, a, m) \<and> p \<notin> P \<and> page_owned base (a, m) (insert p P) \<and>
      (\<forall>x \<in> page p. m x = 0) \<and> unchanged P (snd st) m)"
proof -
  obtain a m where st: "st = (a, m)" by (cases st)
  obtain bs where inv: "alloc_inv base bs a m" and sl: "slivers_ok base bs"
    and P: "\<And>p. p \<in> P \<Longrightarrow> aligned p \<and> (\<exists>l \<ge> 4096. (unat p, l) \<in> used_regions base bs)"
    using assms by (auto simp: page_owned_def st)
  show ?thesis
  proof (rule page_alloc [OF inv sl])
    fix xs n ys p l a' m'
    let ?bs' = "xs @ carved (gap 12 (base + total xs)) 4108 n @ ys"
    assume A: "pt_alloc_page_or_die (a, m) = Inr (p, a', m')" "aligned p" "4096 \<le> l" "alloc_inv base ?bs' a' m'"
      "slivers_ok base ?bs'" "used_regions base ?bs' = insert (unat p, l) (used_regions base bs)" "\<And>x. x \<in> page p \<Longrightarrow> m' x = 0"
      and same: "\<And>r. r \<in> used_regions base bs \<Longrightarrow> fst r \<noteq> unat p \<and> region_same r (a, m) (a', m')"
    have "\<forall>r \<in> insert p P. aligned r \<and> (\<exists>l \<ge> 4096. (unat r, l) \<in> used_regions base ?bs')"
      using P A(2,3,6) by blast
    then have "page_owned base (a', m') (insert p P)" using A(4,5) unfolding page_owned_def fst_conv snd_conv by blast
    moreover have "p \<notin> P" using P same by fastforce
    moreover have "unchanged P m m'"
      unfolding unchanged_def using P same page_in_region [of _ _ "(a, m)" "(a', m')"] by fastforce
    ultimately show ?thesis using A(1,7) st by simp
  qed (simp add: st)
qed

lemma pte_write_inv:
  assumes "alloc_inv base bs a m" "aligned t \<and> (\<exists>l \<ge> 4096. (unat t, l) \<in> used_regions base bs)" "i < 512"
  shows "alloc_inv base bs a (set_pte t i d m)"
proof -
  obtain l where l: "aligned t" "4096 \<le> l" "(unat t, l) \<in> used_regions base bs" using assms(2) by blast
  show ?thesis
    using l(2) page_nat [OF l(1)] set_pte_outside [OF l(1) assms(3)] by (intro payload_write_inv [OF assms(1) l(3)]) auto
qed

interpretation kpages: page_source "page_owned base" for base
proof
  fix st P p st' e a m t i d
  show "aligned p \<and> p \<noteq> 0" if "page_owned base st P" "p \<in> P"
    using that used_regions_range [OF alloc_invD(8)] alloc_invD(1) unfolding page_owned_def by fastforce
  show "p \<notin> P \<and> page_owned base st' (insert p P) \<and> (\<forall>a \<in> page p. snd st' a = 0) \<and> unchanged P (snd st) (snd st')"
    if "page_owned base st P" "pt_alloc_page_or_die st = Inr (p, st')"
    using page_owned_new [OF that(1)] that(2) by auto
  show "e = Kernel_panic JRT_EASSERT" if "page_owned base st P" "pt_alloc_page_or_die st = Inl e"
    using page_owned_new [OF that(1)] that(2) by auto
  show "page_owned base (a, set_pte t i d m) P" if "page_owned base (a, m) P" "t \<in> P" "i < 512"
    using that pte_write_inv unfolding page_owned_def fst_conv snd_conv by blast
qed

section \<open>Whole maps\<close>

definition mapped :: "u64 \<Rightarrow> u64 \<Rightarrow> u64 \<Rightarrow> u64 \<Rightarrow> (u64 \<Rightarrow> u64) \<Rightarrow> u64 \<Rightarrow> u64" where
  "mapped va pa sz attrs f =
     over_range (unat va div 4096) ((unat va + unat sz + 4095) div 4096) (pa AND PAGE_MASK) attrs f"

text \<open>The ranges the two builders enter, the last one on top.\<close>

definition proc_desc :: "u64 \<Rightarrow> u64 \<Rightarrow> u64 \<Rightarrow> u64 \<Rightarrow> u64" where
  "proc_desc kend base len =
     (let k_end = min base kend;
          low = mapped 0 base (min len CODE_0) PTE_PROC_RWX (\<lambda>_. 0);
          code = (if k_end > CODE_0 then mapped CODE_0 CODE_0 (k_end - CODE_0) PTE_KERN_RWX low else low)
      in mapped UART_PA_BASE UART_PA_BASE UART_PA_SIZE PTE_DEV_RW_G
           (mapped MEM_0 MEM_0 (MEM_END + 1 - MEM_0) PTE_KERN_RWX code))"

definition kern_desc :: "u64 \<Rightarrow> u64" where
  "kern_desc =
     fold (\<lambda>i. mapped (GICR_PA_BASE0 + of_nat i * GICR_FRAME_SIZE) (GICR_PA_BASE0 + of_nat i * GICR_FRAME_SIZE)
         GICR_FRAME_SIZE PTE_DEV_RW_G) [0..<GICR_NUM_CPUS]
       (mapped GICD_PA_BASE GICD_PA_BASE GICD_PA_SIZE PTE_DEV_RW_G
         (mapped UART_PA_BASE UART_PA_BASE UART_PA_SIZE PTE_DEV_RW_G
           (mapped CODE_0 CODE_0 (MEM_END + 1 - CODE_0) PTE_KERN_RWX (\<lambda>_. 0))))"

definition outcome :: "('a \<Rightarrow> bool) \<Rightarrow> 'a res \<Rightarrow> bool" where
  "outcome Q res \<longleftrightarrow> (case res of Inl e \<Rightarrow> e = Kernel_panic JRT_EASSERT | Inr x \<Rightarrow> Q x)"

lemma outcome_simps [simp]: "outcome Q (Inr x) \<longleftrightarrow> Q x"
  by (simp add: outcome_def)

lemma outcome_bindE: "outcome Q m \<Longrightarrow> (\<And>x. Q x \<Longrightarrow> outcome R (f x)) \<Longrightarrow> outcome R (bindE m f)"
  by (cases m) (simp_all add: outcome_def)

lemmas map_constants = UART_PA_BASE_def UART_PA_SIZE_def GICD_PA_BASE_def GICD_PA_SIZE_def GICR_PA_BASE0_def
  GICR_FRAME_SIZE_def GICR_NUM_CPUS_def CODE_0_def MEM_0_def MEM_END_def JRT_CODE_PHYS_def JRT_MEM_PHYS_def JRT_MEM_SIZE_def

context page_source
begin

text \<open>A map with the entries \<open>f\<close>, built from new pages while the pages \<open>P0\<close> in use before stayed as they were.\<close>

definition built :: "pt_root_t \<Rightarrow> u64 set \<Rightarrow> pst \<Rightarrow> (u64 \<Rightarrow> u64) \<Rightarrow> pst \<Rightarrow> bool" where
  "built r P0 st0 f st \<longleftrightarrow> tree 3 st (P0 \<union> set (tabs 3 (snd st) (l0 r))) (l0 r) \<and>
     set (tabs 3 (snd st) (l0 r)) \<inter> P0 = {} \<and> unchanged P0 (snd st0) (snd st) \<and> desc_of r st = f"

lemma map_range_built:
  assumes "built r P0 st0 f st" "unat va + unat sz \<le> 2 ^ 48"
  shows "outcome (built r P0 st0 (mapped va pa sz attrs f)) (map_range_pages r va pa sz attrs st)"
proof -
  let ?T = "\<lambda>s. set (tabs 3 (snd s) (l0 r))"
  define P where "P = P0 \<union> ?T st"
  have P: "P0 \<subseteq> P" "tree 3 st P (l0 r)" "?T st \<inter> P0 = {}" "unchanged P0 (snd st0) (snd st)" "desc_of r st = f"
    using assms(1) by (auto simp: built_def P_def)
  show ?thesis
  proof (cases "map_range_pages r va pa sz attrs st")
    case (Inl e)
    then show ?thesis using map_range_ok [OF P(2) assms(2), of pa attrs] by (simp add: outcome_def)
  next
    case (Inr st')
    then obtain P' where g: "grown 3 (l0 r) st P st' P'" "desc_of r st' = mapped va pa sz attrs f"
      using map_range_ok [OF P(2) assms(2), of pa attrs] P(5) by (auto simp: mapped_def)
    have G: "P \<subseteq> P'" "tree 3 st' P' (l0 r)" "?T st' = ?T st \<union> (P' - P)" "unchanged (P - ?T st) (snd st) (snd st')"
      using g(1) by (simp_all add: grown_def)
    have "unchanged P0 (snd st) (snd st')" by (rule unchanged_mono [OF G(4)]) (use P in blast)
    then have "unchanged P0 (snd st0) (snd st')" by (rule unchanged_trans [OF P(4)])
    moreover have "P' = P0 \<union> ?T st'" "?T st' \<inter> P0 = {}" using G(1,3) P(3) by (auto simp: P_def)
    ultimately have "built r P0 st0 (mapped va pa sz attrs f) st'"
      unfolding built_def using G(2) g(2) by simp
    then show ?thesis using Inr by (simp add: outcome_def)
  qed
qed

lemma pt_root_new_ok:
  assumes "owned st P"
  shows "outcome (\<lambda>(r, st'). built r P st (\<lambda>_. 0) st' \<and> l0_pa r = l0 r \<and> aligned (l0 r) \<and> l0 r \<noteq> 0) (pt_root_new st)"
proof (cases "pt_alloc_page_or_die st")
  case (Inl e)
  then show ?thesis using owned_fail [OF assms] by (simp add: pt_root_new_def outcome_def)
next
  case (Inr ps)
  obtain p st' where ps: "ps = (p, st')" by (cases ps)
  have N: "p \<notin> P" "owned st' (insert p P)" "\<And>a. a \<in> page p \<Longrightarrow> snd st' a = 0" "unchanged P (snd st) (snd st')"
    using owned_new [OF assms] Inr ps by auto
  have al: "aligned p \<and> p \<noteq> 0" using owned_aligned [OF N(2)] by simp
  have z: "tabs 3 (snd st') p = [p]" "desc_at 3 (snd st') p va = 0" for va
    using zero_page [of p "snd st'"] al N(3) by blast+
  have "built \<lparr>l0 = p, l0_pa = p\<rparr> P st (\<lambda>_. 0) st'"
    unfolding built_def using N z by (auto simp: tree_def desc_of_def fun_eq_iff)
  then show ?thesis using Inr ps al by (simp add: pt_root_new_def)
qed

lemma proc_map_ok:
  assumes "owned st P" "unat kend \<le> 2 ^ 48"
  shows "outcome (\<lambda>(mp, st'). built (root mp) P st (proc_desc kend base len) st' \<and> asid mp = as \<and>
      l0_pa (root mp) = l0 (root mp) \<and> aligned (l0 (root mp))) (proc_map_create kend base len as st)"
proof -
  let ?low = "min len CODE_0" and ?k = "min base kend"
  have eqs: "(if len < CODE_0 then len else CODE_0) = ?low" "(if base < kend then base else kend) = ?k"
    by (auto simp: min_def)
  have "unat ?low \<le> unat CODE_0" by (simp add: word_le_nat_alt [symmetric])
  then have n1: "unat (0 :: u64) + unat ?low \<le> 2 ^ 48" by (simp add: map_constants)
  have "unat ?k \<le> unat kend" by (simp add: word_le_nat_alt [symmetric])
  then have n2: "unat CODE_0 + unat (?k - CODE_0) \<le> 2 ^ 48" if "?k > CODE_0"
    using that assms(2) unat_sub [of CODE_0 ?k] by (simp add: word_less_nat_alt word_le_nat_alt)
  have code: "outcome (built r P st (if ?k > CODE_0 then mapped CODE_0 CODE_0 (?k - CODE_0) PTE_KERN_RWX f else f))
      (if ?k > CODE_0 then map_range_pages r CODE_0 CODE_0 (?k - CODE_0) PTE_KERN_RWX s else Inr s)"
    if "built r P st f s" for r f s using map_range_built [OF that n2] that by simp
  have mem: "outcome (built r P st (mapped MEM_0 MEM_0 (MEM_END + 1 - MEM_0) PTE_KERN_RWX f))
      (map_range_pages r MEM_0 MEM_0 (MEM_END + 1 - MEM_0) PTE_KERN_RWX s)" if "built r P st f s" for r f s
    by (rule map_range_built [OF that]) (simp add: map_constants)
  have uart: "outcome (built r P st (mapped UART_PA_BASE UART_PA_BASE UART_PA_SIZE PTE_DEV_RW_G f)) (map_uart r s)"
    if "built r P st f s" for r f s
    unfolding map_uart_def by (rule map_range_built [OF that]) (simp add: map_constants)
  have b: "outcome (built r P st (proc_desc kend base len)) (build_process_map kend r base len st1)"
    if "built r P st (\<lambda>_. 0) st1" for r st1
    unfolding build_process_map_def proc_desc_def Let_def eqs
    by (rule outcome_bindE [OF map_range_built [OF that n1]], rule outcome_bindE [OF code], assumption,
        rule outcome_bindE [OF mem], assumption, rule uart)
  show ?thesis
    unfolding proc_map_create_def
  proof (rule outcome_bindE [OF pt_root_new_ok [OF assms(1)]], clarify)
    fix r st1 assume "built r P st (\<lambda>_. 0) st1" "l0_pa r = l0 r" "aligned (l0 r)"
    then show "outcome (\<lambda>(mp, st'). built (root mp) P st (proc_desc kend base len) st' \<and> asid mp = as \<and>
        l0_pa (root mp) = l0 (root mp) \<and> aligned (l0 (root mp)))
        (bindE (build_process_map kend r base len st1) (\<lambda>st. Inr (\<lparr>root = r, asid = as\<rparr>, st)))"
      by (intro outcome_bindE [OF b]) simp_all
  qed
qed

lemma map_gicr_built:
  assumes "built r P st f s" "\<forall>i \<in> set is. i < GICR_NUM_CPUS"
  shows "outcome (built r P st (fold (\<lambda>i. mapped (GICR_PA_BASE0 + of_nat i * GICR_FRAME_SIZE)
      (GICR_PA_BASE0 + of_nat i * GICR_FRAME_SIZE) GICR_FRAME_SIZE PTE_DEV_RW_G) is f)) (map_gicr r is s)"
  using assms
proof (induction "is" arbitrary: f s)
  case (Cons i xs)
  have "i \<in> {0, 1, 2, 3}" using Cons.prems(2) by (auto simp: GICR_NUM_CPUS_def)
  then have "unat (GICR_PA_BASE0 + of_nat i * GICR_FRAME_SIZE) + unat GICR_FRAME_SIZE \<le> 2 ^ 48"
    by (auto simp: map_constants)
  from map_range_built [OF Cons.prems(1) this] show ?case
    unfolding map_gicr.simps Let_def fold_simps by (rule outcome_bindE) (use Cons in simp)
qed simp

lemma kern_map_ok:
  assumes "owned st P"
  shows "outcome (\<lambda>(mp, st'). built (root mp) P st kern_desc st' \<and> asid mp = as \<and>
      l0_pa (root mp) = l0 (root mp) \<and> aligned (l0 (root mp))) (kern_map_create as st)"
proof -
  have "outcome (built r P st kern_desc) (build_kernel_map r s)" if "built r P st (\<lambda>_. 0) s" for r s
    unfolding build_kernel_map_def kern_desc_def map_uart_def map_gic_def
    by (rule outcome_bindE [OF map_range_built [OF that]], simp add: map_constants,
        rule outcome_bindE [OF map_range_built], assumption, simp add: map_constants,
        rule outcome_bindE [OF map_range_built], assumption, simp add: map_constants, rule map_gicr_built) simp_all
  then show ?thesis
    unfolding kern_map_create_def
    by (intro outcome_bindE [OF pt_root_new_ok [OF assms]]) (auto intro!: outcome_bindE)
qed

end

section \<open>Translation\<close>

text \<open>What the hardware makes of a page entry: output address and attributes, or a fault.\<close>

definition translation :: "u64 \<Rightarrow> u64 \<Rightarrow> (u64 \<times> u64) option" where
  "translation d va =
     (if d AND 3 = 3 then Some ((d AND 0xFFFFFFFFF000) OR (va AND 0xFFF), d AND NOT 0xFFFFFFFFF000) else None)"

definition translate :: "mmu_map_t \<Rightarrow> pst \<Rightarrow> u64 \<Rightarrow> (u64 \<times> u64) option" where
  "translate mp st va = translation (desc_of (root mp) st va) va"

definition page_ceil :: "nat \<Rightarrow> nat" where
  "page_ceil n = (n + 4095) div 4096 * 4096"

definition attrs_ok :: "u64 \<Rightarrow> bool" where
  "attrs_ok attrs \<longleftrightarrow> attrs AND 3 = 3 \<and> attrs AND 0xFFFFFFFFF000 = 0"

lemma presets_ok: "attrs_ok PTE_KERN_RWX" "attrs_ok PTE_PROC_RWX" "attrs_ok PTE_DEV_RW_G"
  by (simp_all add: attrs_ok_def PTE_KERN_RWX_def PTE_PROC_RWX_def PTE_DEV_RW_G_def PTE_VALID_def DESC_PAGE_def PTE_AF_def
      PTE_SH_INNER_def PTE_SH_OUTER_def PTE_AP_RW_EL1_def PTE_ATTRIDX_def MAIR_IDX_NORMAL_def MAIR_IDX_DEVICE_def PTE_UXN_def
      PTE_PXN_def PTE_nG_def)

lemma out_mask: "bit (0xFFFFFFFFF000 :: u64) n \<longleftrightarrow> 12 \<le> n \<and> n < 48"
proof -
  have m: "(0xFFFFFFFFF000 :: u64) = push_bit 12 (mask 36)" by (simp add: mask_eq_exp_minus_1 push_bit_eq_mult)
  show ?thesis unfolding m by (auto simp: bit_simps)
qed

lemma translation_page:
  assumes "aligned pa" "unat pa < 2 ^ 48" "attrs_ok attrs"
  shows "translation (desc_page pa attrs) va = Some (pa + (va AND 0xFFF), attrs)"
proof -
  have hi: "\<not> bit pa n" if "48 \<le> n" for n
  proof -
    have "take_bit 48 pa = pa" using assms(2) by (simp add: take_bit_eq_mod word_unat_eq_iff unat_mod_distrib)
    then show ?thesis using that by (metis bit_take_bit_iff not_less)
  qed
  have lo: "\<not> bit pa n" if "n < 12" for n using assms(1) that by (simp add: aligned_bit)
  have a: "\<not> bit attrs n" if "12 \<le> n" "n < 48" for n
  proof
    assume "bit attrs n"
    then have "bit (attrs AND 0xFFFFFFFFF000) n" unfolding bit_and_iff out_mask using that by blast
    then show False using assms(3) by (simp add: attrs_ok_def)
  qed
  have a3: "n < 2 \<Longrightarrow> bit attrs n" for n
  proof -
    assume n: "n < 2"
    then have "bit (attrs AND 3) n" using assms(3) by (simp add: attrs_ok_def low_mask bit_simps)
    then show ?thesis by (simp add: bit_simps)
  qed
  have pb: "bit pa n \<Longrightarrow> 12 \<le> n \<and> n < 48" for n using hi lo by (meson not_le)
  have ab: "bit attrs n \<Longrightarrow> \<not> (12 \<le> n \<and> n < 48)" for n using a by blast
  let ?d = "desc_page pa attrs"
  have d: "bit ?d n \<longleftrightarrow> bit pa n \<or> bit attrs n" for n
    using lo [of n] by (cases "n < 64") (auto simp: desc_page_def low_mask bit_simps dest: bit_imp_le_length)
  have "?d AND 3 = 3" by (rule bit_word_eqI) (auto simp: low_mask bit_simps d a3)
  moreover have "?d AND 0xFFFFFFFFF000 = pa"
    by (rule bit_word_eqI, unfold bit_and_iff out_mask d) (use pb ab in blast)
  moreover have "?d AND NOT 0xFFFFFFFFF000 = attrs"
    by (rule bit_word_eqI, unfold bit_and_iff bit_not_iff out_mask d) (use pb ab bit_imp_possible_bit in blast)
  moreover have "pa OR (va AND 0xFFF) = pa + (va AND 0xFFF)"
    by (rule disjunctive_add [symmetric]) (use lo in \<open>auto simp: low_mask bit_simps\<close>)
  ultimately show ?thesis by (simp add: translation_def)
qed

lemma vpn_nat: "va < 2 ^ 48 \<Longrightarrow> vpn va = unat va div 4096"
proof -
  assume "va < 2 ^ 48"
  then have "unat va < 2 ^ 48" by (simp add: word_less_nat_alt)
  then have "unat va div 4096 < 2 ^ 36" by (simp add: less_mult_imp_div_less)
  then show ?thesis by (simp add: vpn_def take_bit_eq_mod drop_bit_eq_div unat_mod_distrib unat_div_distrib)
qed

lemma mapped_translation:
  assumes "aligned va0" "aligned pa" "attrs_ok attrs" "va < 2 ^ 48" "unat pa + unat sz + 4096 \<le> 2 ^ 48" "unat va0 + unat sz \<le> 2 ^ 48"
  shows "translation (mapped va0 pa sz attrs f va) va =
    (if va0 \<le> va \<and> unat va < page_ceil (unat va0 + unat sz) then Some (pa + (va - va0), attrs) else translation (f va) va)"
proof -
  let ?v = "unat va0 div 4096" and ?x = "unat va div 4096"
  have v0: "unat va0 = 4096 * ?v" using assms(1) mult_div_mod_eq [of 4096 "unat va0"] by (simp add: aligned_nat)
  have x: "unat va = 4096 * ?x + unat va mod 4096" by simp
  have m: "unat va mod 4096 < 4096" by simp
  have pm: "pa AND PAGE_MASK = pa"
    unfolding PAGE_MASK_mask by (rule bit_word_eqI) (use assms(2) in \<open>auto simp: aligned_bit bit_simps\<close>)
  have lo: "?v \<le> ?x \<longleftrightarrow> va0 \<le> va" unfolding word_le_nat_alt using v0 x m by (intro iffI) linarith+
  have hi: "?x < (unat va0 + unat sz + 4095) div 4096 \<longleftrightarrow> unat va < page_ceil (unat va0 + unat sz)"
    unfolding page_ceil_def using x m by (intro iffI) linarith+
  show ?thesis
  proof (cases "va0 \<le> va \<and> unat va < page_ceil (unat va0 + unat sz)")
    case True
    define k where "k = 4096 * (?x - ?v)"
    have k: "k + unat va mod 4096 = unat va - unat va0" "k < unat sz + 4095"
    proof -
      have le: "?v \<le> ?x" using lo True by simp
      then show "k + unat va mod 4096 = unat va - unat va0" using v0 x unfolding k_def by (simp add: diff_mult_distrib2)
      have "4096 * ?x < unat va0 + unat sz + 4095"
      proof -
        have "?x < (unat va0 + unat sz + 4095) div 4096" using hi True by blast
        moreover have "4096 * ((unat va0 + unat sz + 4095) div 4096) \<le> unat va0 + unat sz + 4095" by simp
        ultimately show ?thesis by linarith
      qed
      then show "k < unat sz + 4095" using le v0 unfolding k_def by (simp add: diff_mult_distrib2)
    qed
    have "mapped va0 pa sz attrs f va = desc_page (pa + of_nat k) attrs"
      using True lo hi by (simp add: mapped_def over_range_def vpn_nat [OF assms(4)] pm k_def)
    moreover have pk: "unat (pa + of_nat k) = unat pa + k"
      using k(2) assms(5) by (simp add: unat_word_ariths)
    then have "unat (pa + of_nat k) < 2 ^ 48" using k(2) assms(5) by simp
    moreover have "(unat pa + k) mod 4096 = 0" using assms(2) by (simp add: aligned_nat k_def)
    then have "aligned (pa + of_nat k)" by (simp add: aligned_nat pk)
    moreover have "pa + of_nat k + (va AND 0xFFF) = pa + (va - va0)"
    proof -
      have "va AND 0xFFF = of_nat (unat va mod 4096)"
        by (simp add: low_mask take_bit_eq_mask [symmetric] take_bit_eq_mod word_unat_eq_iff unat_mod_distrib)
      moreover have "va - va0 = of_nat (unat va - unat va0)" using True by (simp add: of_nat_diff word_le_nat_alt)
      ultimately show ?thesis unfolding k(1) [symmetric] by simp
    qed
    ultimately show ?thesis using True translation_page [OF _ _ assms(3)] by simp
  next
    case False
    then show ?thesis using lo hi by (auto simp: mapped_def over_range_def vpn_nat [OF assms(4)])
  qed
qed

section \<open>The maps of the kernel and of a process\<close>

definition proc_space :: "u64 \<Rightarrow> u64 \<Rightarrow> u64 \<Rightarrow> u64 \<Rightarrow> (u64 \<times> u64) option" where
  "proc_space kend base len va =
     (if UART_PA_BASE \<le> va \<and> va < UART_PA_BASE + UART_PA_SIZE then Some (va, PTE_DEV_RW_G)
      else if MEM_0 \<le> va \<and> va \<le> MEM_END then Some (va, PTE_KERN_RWX)
      else if CODE_0 \<le> va \<and> unat va < page_ceil (unat (min base kend)) then Some (va, PTE_KERN_RWX)
      else if unat va < page_ceil (unat (min len CODE_0)) then Some (base + va, PTE_PROC_RWX)
      else None)"

definition kern_space :: "u64 \<Rightarrow> (u64 \<times> u64) option" where
  "kern_space va =
     (if GICR_PA_BASE0 \<le> va \<and> va < GICR_PA_BASE0 + of_nat GICR_NUM_CPUS * GICR_FRAME_SIZE \<or>
         GICD_PA_BASE \<le> va \<and> va < GICD_PA_BASE + GICD_PA_SIZE \<or>
         UART_PA_BASE \<le> va \<and> va < UART_PA_BASE + UART_PA_SIZE then Some (va, PTE_DEV_RW_G)
      else if CODE_0 \<le> va \<and> va \<le> MEM_END then Some (va, PTE_KERN_RWX)
      else None)"

lemma constants_aligned:
  "aligned 0" "aligned UART_PA_BASE" "aligned MEM_0" "aligned CODE_0" "aligned GICD_PA_BASE"
  by (simp_all add: aligned_nat map_constants)

lemmas aligned_simps = constants_aligned constants_aligned [unfolded map_constants] presets_ok

lemma translation_none: "translation 0 va = None"
  by (simp add: translation_def)

lemma proc_desc_space:
  assumes "aligned base" "unat base + unat len + 4096 \<le> 2 ^ 48" "unat kend + 4096 \<le> 2 ^ 48" "va < 2 ^ 48"
  shows "translation (proc_desc kend base len va) va = proc_space kend base len va"
proof -
  let ?k = "min base kend" and ?low = "min len CODE_0"
  note M = mapped_translation [OF _ _ _ assms(4)]
  have low_le: "unat ?low \<le> unat len" "unat ?low \<le> unat CODE_0" by (simp_all add: word_le_nat_alt [symmetric])
  have low: "translation (mapped 0 base ?low PTE_PROC_RWX (\<lambda>_. 0) va) va =
      (if unat va < page_ceil (unat ?low) then Some (base + va, PTE_PROC_RWX) else None)"
    using low_le assms(1,2) by (subst M) (simp_all add: aligned_simps translation_none map_constants)
  have k: "unat ?k \<le> unat kend" by (simp add: word_le_nat_alt [symmetric])
  have code: "translation ((if ?k > CODE_0 then mapped CODE_0 CODE_0 (?k - CODE_0) PTE_KERN_RWX f else f) va) va =
      (if CODE_0 \<le> va \<and> unat va < page_ceil (unat ?k) then Some (va, PTE_KERN_RWX) else translation (f va) va)" for f
  proof (cases "?k > CODE_0")
    case True
    then have u: "unat CODE_0 + unat (?k - CODE_0) = unat ?k"
      using unat_sub [of CODE_0 ?k] by (simp add: word_less_nat_alt word_le_nat_alt)
    have "translation (mapped CODE_0 CODE_0 (?k - CODE_0) PTE_KERN_RWX f va) va =
        (if CODE_0 \<le> va \<and> unat va < page_ceil (unat CODE_0 + unat (?k - CODE_0))
         then Some (CODE_0 + (va - CODE_0), PTE_KERN_RWX) else translation (f va) va)"
      using u k assms(3) by (intro M) (simp_all add: aligned_simps)
    then show ?thesis using True unfolding u by simp
  next
    case False
    then have "unat ?k \<le> unat CODE_0" unfolding word_le_nat_alt [symmetric] not_less .
    then have "page_ceil (unat ?k) \<le> page_ceil (unat CODE_0)" unfolding page_ceil_def by (intro mult_right_mono div_le_mono) simp_all
    also have "\<dots> = unat CODE_0" by (simp add: page_ceil_def map_constants)
    finally show ?thesis using False by (auto simp: word_le_nat_alt)
  qed
  have mem: "translation (mapped MEM_0 MEM_0 (MEM_END + 1 - MEM_0) PTE_KERN_RWX f va) va =
      (if MEM_0 \<le> va \<and> va \<le> MEM_END then Some (va, PTE_KERN_RWX) else translation (f va) va)" for f
    by (subst M) (auto simp: aligned_simps map_constants page_ceil_def word_le_nat_alt)
  have uart: "translation (mapped UART_PA_BASE UART_PA_BASE UART_PA_SIZE PTE_DEV_RW_G f va) va =
      (if UART_PA_BASE \<le> va \<and> va < UART_PA_BASE + UART_PA_SIZE then Some (va, PTE_DEV_RW_G) else translation (f va) va)" for f
    by (subst M) (auto simp: aligned_simps map_constants page_ceil_def word_less_nat_alt)
  show ?thesis unfolding proc_desc_def proc_space_def Let_def uart mem code low ..
qed

text \<open>The heap of the kernel right after \<open>alloc_init\<close>, with the addresses of the memory layout.\<close>

definition kernel_heap :: "memory \<Rightarrow> pst" where
  "kernel_heap m = alloc_init m JRT_HEAP_START JRT_HEAP_SIZE"

lemma kernel_heap_inv: "alloc_inv 0x51021040 [(0xFDEFBF, False)] (fst (kernel_heap m)) (snd (kernel_heap m))"
proof -
  have "JRT_HEAP_START = of_nat 0x51021040" "JRT_HEAP_SIZE = of_nat 0xFDEFBF"
    by (simp_all add: JRT_HEAP_START_def JRT_HEAP_SIZE_def JRT_STACK_START_def JRT_MEM_PHYS_def JRT_MEM_SIZE_def
        MPSC_RING_SIZE_def)
  then show ?thesis unfolding kernel_heap_def by (intro alloc_init_inv [of _ _ m]) simp_all
qed

lemma kernel_heap_owned: "page_owned 0x51021040 (kernel_heap m) {}"
proof -
  have "slivers_ok 0x51021040 [(0xFDEFBF, False)]" by (simp add: slivers_ok_def gap_def misfit_def)
  then show ?thesis using kernel_heap_inv by (auto simp: page_owned_def)
qed

lemma kern_desc_space:
  assumes "va < 2 ^ 48"
  shows "translation (kern_desc va) va = kern_space va"
proof -
  note M = mapped_translation [OF _ _ _ assms]
  have code: "translation (mapped CODE_0 CODE_0 (MEM_END + 1 - CODE_0) PTE_KERN_RWX (\<lambda>_. 0) va) va =
      (if CODE_0 \<le> va \<and> va \<le> MEM_END then Some (va, PTE_KERN_RWX) else None)"
    by (subst M) (auto simp: aligned_simps map_constants page_ceil_def word_le_nat_alt translation_none)
  have dev: "translation (mapped b b n PTE_DEV_RW_G f va) va =
      (if b \<le> va \<and> va < b + n then Some (va, PTE_DEV_RW_G) else translation (f va) va)"
    if "aligned b" "aligned n" "unat b + unat n + 4096 \<le> 2 ^ 48" for b n f
  proof -
    have "4096 dvd unat b + unat n" using that(1,2) by (simp add: aligned_nat mod_eq_0_iff_dvd)
    then obtain k where k: "unat b + unat n = 4096 * k" by (auto simp: dvd_def)
    have "(4096 * k + 4095) div 4096 = k" by simp
    then have "page_ceil (unat b + unat n) = unat b + unat n" unfolding k page_ceil_def by simp
    moreover have "unat (b + n) = unat b + unat n" using that(3) by (simp add: unat_word_ariths)
    ultimately have "unat va < page_ceil (unat b + unat n) \<longleftrightarrow> va < b + n" by (simp add: word_less_nat_alt)
    then show ?thesis using that by (subst M) (simp_all add: aligned_simps)
  qed
  have four: "[0..<GICR_NUM_CPUS] = [0, 1, 2, 3]" by (simp add: GICR_NUM_CPUS_def upt_rec)
  have frames: "GICR_PA_BASE0 \<le> va \<and> va < GICR_PA_BASE0 + of_nat GICR_NUM_CPUS * GICR_FRAME_SIZE \<longleftrightarrow>
      0x8100000 \<le> va \<and> va < 0x8120000 \<or> 0x80E0000 \<le> va \<and> va < 0x8100000 \<or> 0x80C0000 \<le> va \<and> va < 0x80E0000 \<or>
      0x80A0000 \<le> va \<and> va < 0x80C0000"
    by (auto simp: map_constants word_less_nat_alt word_le_nat_alt)
  show ?thesis
    unfolding kern_desc_def four frames kern_space_def
    by (simp add: dev code [unfolded map_constants, simplified] aligned_nat map_constants)
qed

end
