(* ===== verification/Mmu_Free.thy ===== *)
theory Mmu_Free
  imports Mmu_Maps
begin

text \<open>
  Destroying a map: \<open>free_table_level\<close>, \<open>pt_root_free\<close> and \<open>mmu_map_destroy\<close> of \<^verbatim>\<open>rtprog/mmu.c\<close>. The interface
  \<open>page_pool\<close> adds giving pages back to \<open>page_source\<close>; over it, freeing a tree returns and gives back exactly
  the pages of the tree. The kernel's heap provides it as long as its lowest free block starts in front of a
  page boundary, which neither taking nor freeing pages changes.
\<close>

section \<open>Freeing a tree\<close>

locale page_pool = page_source +
  assumes owned_free: "owned st P \<Longrightarrow> p \<in> P \<Longrightarrow>
    \<exists>st'. free (fst st) p (snd st) = Inr st' \<and> owned st' (P - {p}) \<and> unchanged (P - {p}) (snd st) (snd st')"
begin

text \<open>What freeing the pages \<open>T\<close> does.\<close>

definition gives_back :: "u64 set \<Rightarrow> pst \<Rightarrow> u64 set \<Rightarrow> pst res \<Rightarrow> bool" where
  "gives_back T st P res \<longleftrightarrow>
     (\<exists>st'. res = Inr st' \<and> owned st' (P - T) \<and> unchanged (P - T) (snd st) (snd st'))"

lemma set_pte_unchanged:
  assumes "owned st P" "t \<in> P" "i < 512"
  shows "unchanged (P - {t}) m (set_pte t i d m)"
proof -
  have al: "\<And>p. p \<in> P \<Longrightarrow> aligned p" using owned_aligned [OF assms(1)] by blast
  show ?thesis
    using set_pte_outside [OF al [OF assms(2)] assms(3)] pages_disjoint [OF al al [OF assms(2)]]
    by (fastforce simp: unchanged_def)
qed

lemma scrub_ok:
  assumes "owned st P" "t \<in> P" "\<forall>i \<in> set is. i < 512"
  shows "\<exists>st'. free_entries (\<lambda>d st. Inr st) t is st = Inr st' \<and> owned st' P \<and> unchanged (P - {t}) (snd st) (snd st')"
  using assms
proof (induction "is" arbitrary: st)
  case Nil
  then show ?case by (simp add: unchanged_def)
next
  case (Cons i xs)
  let ?st = "(fst st, set_pte t (of_nat i) 0 (snd st))"
  have i: "(of_nat i :: u64) < 512" using Cons.prems(3) by (simp add: word_less_nat_alt)
  have w: "owned ?st P" "unchanged (P - {t}) (snd st) (snd ?st)"
    using owned_write [of "fst st" "snd st"] set_pte_unchanged [OF _ _ i] Cons.prems(1,2) i by simp_all
  show ?case
    using Cons.IH [OF Cons.prems(1)] Cons.IH [OF w(1)] Cons.prems(2,3) unchanged_trans [OF w(2)]
    by (auto simp: Let_def)
qed

lemma free_entries_ok:
  assumes sub: "\<And>c st P. tree k st P c \<Longrightarrow> gives_back (set (tabs k (snd st) c)) st P (free_table_level k c st)"
    and "distinct is" "\<forall>i \<in> set is. i < 512" "owned st P" "t \<in> P"
    and "\<forall>i \<in> set is. set (subs k (snd st) t (of_nat i)) \<subseteq> P - {t} \<and> distinct (subs k (snd st) t (of_nat i))"
    and "pairwise (\<lambda>i j. set (subs k (snd st) t (of_nat i)) \<inter> set (subs k (snd st) t (of_nat j)) = {}) (set is)"
  defines "F \<equiv> \<lambda>d st. if d AND 3 = DESC_TABLE then free_table_level k (d AND NOT 0xFFF) st else Inr st"
  shows "\<exists>st'. free_entries F t is st = Inr st' \<and>
    owned st' (P - (\<Union>i \<in> set is. set (subs k (snd st) t (of_nat i)))) \<and>
    unchanged (P - {t} - (\<Union>i \<in> set is. set (subs k (snd st) t (of_nat i)))) (snd st) (snd st')"
  using assms(2-7)
proof (induction "is" arbitrary: st P)
  case Nil
  then show ?case by (simp add: unchanged_def)
next
  case (Cons i xs)
  let ?m = "snd st"
  let ?S = "\<lambda>i. set (subs k ?m t (of_nat i))"
  have i: "(of_nat i :: u64) < 512" using Cons.prems(2) by (simp add: word_less_nat_alt)
  have dis: "?S i \<inter> ?S j = {}" "j \<noteq> i" if "j \<in> set xs" for j
    using Cons.prems(1,6) that by (auto simp: pairwise_def)
  have pw: "pairwise (\<lambda>i j. ?S i \<inter> ?S j = {}) (set xs)"
    using Cons.prems(6) by (rule pairwise_subset) auto
  show ?case
  proof (cases "valid (pte ?m t (of_nat i))")
    case False
    then have "?S i = {}" "free_entries F t (i # xs) st = free_entries F t xs st"
      by (simp_all add: subs_def valid_def Let_def)
    then show ?thesis using Cons.IH [OF _ _ Cons.prems(3,4) _ pw] Cons.prems(1,2,5) by simp
  next
    case True
    define c where "c = child (pte ?m t (of_nat i))"
    have Si: "subs k ?m t (of_nat i) = tabs k ?m c" using True by (simp add: subs_def c_def)
    have T: "tree k st P c" using Cons.prems(3,5) Si by (auto simp: tree_def)
    have "c \<in> ?S i" using Si by simp
    then have "c \<in> P" using Cons.prems(5) by auto
    then have "c \<noteq> 0" using owned_aligned [OF Cons.prems(3)] by blast
    then have call: "F (pte ?m t (of_nat i)) st = free_table_level k c st"
      unfolding F_def c_def child_def by (auto split: if_splits)
    obtain st1 where st1: "free_table_level k c st = Inr st1" "owned st1 (P - ?S i)" "unchanged (P - ?S i) ?m (snd st1)"
      using sub [OF T] unfolding gives_back_def Si by blast
    define st2 where "st2 = (fst st1, set_pte t (of_nat i) 0 (snd st1))"
    have t: "t \<in> P - ?S i" using Cons.prems(4,5) by auto
    have o2: "owned st2 (P - ?S i)" using owned_write [of "fst st1" "snd st1"] st1(2) t i by (simp add: st2_def)
    have al: "\<And>p. p \<in> P \<Longrightarrow> aligned p" using owned_aligned [OF Cons.prems(3)] by blast
    have "unchanged (P - ?S i - {t}) (snd st1) (snd st2)" unfolding st2_def snd_conv by (rule set_pte_unchanged [OF st1(2) t i])
    then have u2: "unchanged (P - ?S i - {t}) ?m (snd st2)"
      by (rule unchanged_trans [rotated]) (rule unchanged_mono [OF st1(3)], auto)
    have same: "subs k (snd st2) t (of_nat j) = subs k ?m t (of_nat j)" if j: "j \<in> set xs" for j
    proof -
      have "j < 512" "i < 512" using Cons.prems(2) j by auto
      then have u: "unat (of_nat j :: u64) = j" "unat (of_nat i :: u64) = i" by simp_all
      have jl: "(of_nat j :: u64) < 512" using \<open>j < 512\<close> by (simp add: word_less_nat_alt)
      have "(of_nat j :: u64) \<noteq> of_nat i" using dis(2) [OF j] u by metis
      then have "pte (snd st2) t (of_nat j) = pte (snd st1) t (of_nat j)"
        unfolding st2_def snd_conv using pte_set_pte [OF i jl] by simp
      also have "\<dots> = pte ?m t (of_nat j)" by (rule unchanged_pte [OF st1(3) t _ jl]) (use al t in blast)
      finally have e: "pte (snd st2) t (of_nat j) = pte ?m t (of_nat j)" .
      have "?S j \<subseteq> P - ?S i - {t}" using Cons.prems(5) dis(1) [OF j] j by auto
      then have "unchanged (?S j) ?m (snd st2)" "\<forall>p \<in> ?S j. aligned p" using unchanged_mono [OF u2] al by auto
      then show ?thesis
        using tabs_frame(1) [of k ?m "child (pte ?m t (of_nat j))" "snd st2"]
        by (cases "valid (pte ?m t (of_nat j))") (simp_all add: subs_def e)
    qed
    have run: "free_entries F t (i # xs) st = free_entries F t xs st2"
      using True call st1(1) by (simp add: Let_def valid_def st2_def)
    have Pi: "P - (\<Union>j \<in> set (i # xs). ?S j) = P - ?S i - (\<Union>j \<in> set xs. ?S j)" by auto
    have Sj: "\<forall>j \<in> set xs. ?S j \<subseteq> P - ?S i - {t} \<and> distinct (subs k ?m t (of_nat j))"
      using Cons.prems(5) dis(1) by auto
    have eqs: "(\<Union>j \<in> set xs. set (subs k (snd st2) t (of_nat j))) = (\<Union>j \<in> set xs. ?S j)"
      using same by simp
    obtain st' where st': "free_entries F t xs st2 = Inr st'" "owned st' (P - ?S i - (\<Union>j \<in> set xs. ?S j))"
      "unchanged (P - ?S i - {t} - (\<Union>j \<in> set xs. ?S j)) (snd st2) (snd st')"
      using Cons.IH [OF _ _ o2 t] Cons.prems(1,2) Sj pw same eqs by (auto simp: pairwise_def)
    have "unchanged (P - ?S i - {t} - (\<Union>j \<in> set xs. ?S j)) ?m (snd st')"
      by (rule unchanged_trans [OF unchanged_mono [OF u2] st'(3)]) auto
    moreover have "P - ?S i - {t} - (\<Union>j \<in> set xs. ?S j) = P - {t} - (\<Union>j \<in> set (i # xs). ?S j)" by auto
    ultimately show ?thesis using st'(1,2) run unfolding Pi by simp
  qed
qed

lemma free_level_ok:
  "tree k st P t \<Longrightarrow> gives_back (set (tabs k (snd st) t)) st P (free_table_level k t st)"
proof (induction k arbitrary: t st P)
  case 0
  then have o: "owned st P" "t \<in> P" by (auto simp: tree_def)
  obtain st1 where st1: "free_entries (\<lambda>d st. Inr st) t [0..<512] st = Inr st1" "owned st1 P" "unchanged (P - {t}) (snd st) (snd st1)"
    using scrub_ok [OF o, of "[0..<512]"] by auto
  obtain st2 where "free (fst st1) t (snd st1) = Inr st2" "owned st2 (P - {t})" "unchanged (P - {t}) (snd st1) (snd st2)"
    using owned_free [OF st1(2) o(2)] by blast
  then show ?case using st1 unchanged_trans [OF st1(3)] by (simp add: gives_back_def)
next
  case (Suc k)
  let ?S = "\<lambda>i. set (subs k (snd st) t i)" and ?m = "snd st"
  have T: "owned st P" "distinct (tabs (Suc k) ?m t)" "set (tabs (Suc k) ?m t) \<subseteq> P"
    using Suc.prems unfolding tree_def by blast+
  have t: "t \<in> P" using T(3) top_in_tabs [of t "Suc k" ?m] by blast
  have lt: "(of_nat i :: u64) < 512" if "i \<in> set [0..<512]" for i using that by (simp add: word_less_nat_alt)
  have S: "t \<notin> ?S (of_nat i)" "distinct (subs k ?m t (of_nat i))" "?S (of_nat i) \<subseteq> P" if "i \<in> set [0..<512]" for i
    using T(2,3) lt [OF that] unfolding distinct_tabs_Suc set_tabs_Suc by blast+
  have Sd: "\<forall>i \<in> set [0..<512]. ?S (of_nat i) \<subseteq> P - {t} \<and> distinct (subs k ?m t (of_nat i))" using S by blast
  have ne: "(of_nat i :: u64) \<noteq> of_nat j" if "i \<in> set [0..<512]" "j \<in> set [0..<512]" "i \<noteq> j" for i j
    using that by (simp add: of_nat_u64_eq_iff)
  have pw: "pairwise (\<lambda>i j. ?S (of_nat i) \<inter> ?S (of_nat j) = {}) (set [0..<512])"
    using T(2) lt ne unfolding distinct_tabs_Suc pairwise_def by blast
  have "(\<Union>i \<in> set [0..<512]. ?S (of_nat i)) = (\<Union>i \<in> set slots. ?S i)" by (simp add: slots_def)
  then have U: "(\<Union>i \<in> set [0..<512]. ?S (of_nat i)) = (\<Union>i \<in> {i. i < 512}. ?S i)" unfolding set_slots .
  let ?U = "\<Union>i \<in> {i. i < 512}. ?S i"
  obtain st1 where st1: "free_entries (\<lambda>d st. if d AND 3 = DESC_TABLE then free_table_level k (d AND NOT 0xFFF) st else Inr st)
      t [0..<512] st = Inr st1" "owned st1 (P - ?U)" "unchanged (P - {t} - ?U) ?m (snd st1)"
    using free_entries_ok [OF Suc.IH distinct_upt _ T(1) t Sd pw] unfolding U by auto
  have "t \<in> P - ?U" using t T(2) unfolding distinct_tabs_Suc by blast
  then obtain st2 where st2: "free (fst st1) t (snd st1) = Inr st2" "owned st2 (P - ?U - {t})"
      "unchanged (P - ?U - {t}) (snd st1) (snd st2)"
    using owned_free [OF st1(2)] by blast
  have P: "P - ?U - {t} = P - set (tabs (Suc k) ?m t)" "P - {t} - ?U = P - set (tabs (Suc k) ?m t)"
    unfolding set_tabs_Suc by blast+
  have "free_table_level (Suc k) t st = Inr st2" using st1(1) st2(1) by simp
  then show ?case unfolding gives_back_def using st2(2) unchanged_trans [OF st1(3) [unfolded P] st2(3) [unfolded P]] unfolding P
    by blast
qed

lemma destroy_ok:
  assumes "tree 3 st P (l0 (root mp))"
  shows "\<exists>st'. mmu_map_destroy mp st = Inr (\<lparr>root = \<lparr>l0 = 0, l0_pa = 0\<rparr>, asid = 0\<rparr>, st') \<and>
    owned st' (P - set (tabs 3 (snd st) (l0 (root mp)))) \<and>
    unchanged (P - set (tabs 3 (snd st) (l0 (root mp)))) (snd st) (snd st')"
proof -
  have "l0 (root mp) \<in> P" using assms top_in_tabs unfolding tree_def by blast
  then have "l0 (root mp) \<noteq> 0" using assms owned_aligned unfolding tree_def by blast
  then show ?thesis using free_level_ok [OF assms] by (auto simp: gives_back_def mmu_map_destroy_def pt_root_free_def)
qed

end

section \<open>The kernel's heap as a page pool\<close>

text \<open>
  A heap in which the blocks \<open>Q\<close> are in use for other purposes and hold what the memory \<open>m0\<close> holds, the pages \<open>P\<close> are in
  use, nothing else is, and the lowest free block starts at \<open>c\<close>, not at a page boundary less the header.
\<close>

definition low_free :: "nat \<Rightarrow> nat \<Rightarrow> blocks \<Rightarrow> bool" where
  "low_free base c bs \<longleftrightarrow>
     (\<exists>xs n ys. bs = xs @ (n, False) # ys \<and> all_used xs \<and> base + total xs = c) \<and> gap 12 c \<noteq> 0"

definition page_heap :: "nat \<Rightarrow> nat \<Rightarrow> (nat \<times> nat) set \<Rightarrow> memory \<Rightarrow> pst \<Rightarrow> u64 set \<Rightarrow> bool" where
  "page_heap base c Q m0 st P \<longleftrightarrow> (\<exists>bs len. alloc_inv base bs (fst st) (snd st) \<and> slivers_ok base bs \<and> low_free base c bs \<and>
     used_regions base bs = Q \<union> (\<lambda>p. (unat p, len p)) ` P \<and>
     (\<forall>p \<in> P. aligned p \<and> 4096 \<le> len p \<and> c < unat p \<and> unat p \<notin> fst ` Q) \<and>
     (\<forall>r \<in> Q. region_same r (fst st, m0) st))"

lemma all_used_append [simp]: "all_used (xs @ ys) \<longleftrightarrow> all_used xs \<and> all_used ys"
  by (auto simp: all_used_def)

text \<open>Any block of the list is in front of the lowest free one, the lowest free one, or behind it.\<close>

lemma low_free_split:
  assumes "low_free base c (xs @ (n, u) # ys)"
  obtains "all_used xs" "u" | "\<not> u" "all_used xs" "base + total xs = c"
    | xl k zs where "xs = xl @ (k, False) # zs" "all_used xl" "base + total xl = c"
proof -
  obtain xl k yl where l: "xs @ (n, u) # ys = xl @ (k, False) # yl" "all_used xl" "base + total xl = c"
    using assms by (auto simp: low_free_def)
  then consider us where "xl = xs @ (n, u) # us" | "xl = xs" "u = False" | us where "xs = xl @ (k, False) # us"
    by (auto simp: append_eq_append_conv2 Cons_eq_append_conv append_eq_Cons_conv)
  then show thesis using that l(2,3) by cases auto
qed

lemma low_free_carved:
  assumes "low_free base c (xs @ (n, False) # ys)"
  shows "low_free base c (xs @ carved (gap 12 (base + total xs)) 4108 n @ ys)" "c \<le> base + total xs"
proof -
  have g: "gap 12 c \<noteq> 0" using assms by (simp add: low_free_def)
  show "low_free base c (xs @ carved (gap 12 (base + total xs)) 4108 n @ ys)"
    using assms
  proof (rule low_free_split)
    assume l: "all_used xs" "base + total xs = c"
    then have "carved (gap 12 (base + total xs)) 4108 n = (gap 12 c, False) # tl (carved (gap 12 c) 4108 n)"
      using g by (simp add: carved_def)
    then show ?thesis using l g unfolding low_free_def by (metis append_Cons)
  qed (use g in \<open>auto simp: low_free_def\<close>)
  show "c \<le> base + total xs" using assms by (rule low_free_split) auto
qed

lemma low_free_freed:
  assumes "low_free base c (xs @ (n, True) # ys)" "c < base + total xs + 12" "sizes_ok (xs @ (n, True) # ys)"
  shows "\<not> all_used xs" "low_free base c (freed xs n ys)"
proof -
  obtain xl k yl where l: "xs @ (n, True) # ys = xl @ (k, False) # yl" "all_used xl" "base + total xl = c" "gap 12 c \<noteq> 0"
    using assms(1) by (auto simp: low_free_def)
  have "\<exists>zs. xs = xl @ (k, False) # zs"
  proof (rule ccontr)
    assume "\<nexists>zs. xs = xl @ (k, False) # zs"
    then obtain us where "xl = xs @ (n, True) # us"
      using l(1) by (auto simp: append_eq_append_conv2 Cons_eq_append_conv append_eq_Cons_conv)
    then have "base + total xs + n \<le> c" using l(3) by simp
    then show False using assms(2,3) by simp
  qed
  then obtain zs where xs: "xs = xl @ (k, False) # zs" by blast
  then show "\<not> all_used xs" by simp
  obtain n' ys' where r: "join_right n ys = (n', False) # ys'" by (cases "(n, ys)" rule: join_right.cases) auto
  have "\<exists>k' yl'. freed xs n ys = xl @ (k', False) # yl'"
    unfolding freed_def r join_left_cases xs by (cases zs rule: rev_cases) (auto simp: butlast_append)
  then show "low_free base c (freed xs n ys)" using l unfolding low_free_def by blast
qed

lemma freed_blocks:
  "used_regions a (freed xs n ys) = used_regions a xs \<union> used_regions (a + total xs + n) ys"
  "addrs a (freed xs n ys) \<subseteq> addrs a (xs @ (n, True) # ys)"
proof -
  obtain n' ys' where r: "join_right n ys = (n', False) # ys'" by (cases "(n, ys)" rule: join_right.cases) auto
  then have "ys' = ys \<and> n' = n \<or> (\<exists>k. ys = (k, False) # ys' \<and> n' = n + k)"
    by (cases "(n, ys)" rule: join_right.cases) auto
  then have ys: "used_regions (a + total xs + n') ys' = used_regions (a + total xs + n) ys"
    "addrs (a + total xs + n') ys' \<subseteq> addrs (a + total xs + n) ys"
    by (auto simp: add.assoc)
  show "used_regions a (freed xs n ys) = used_regions a xs \<union> used_regions (a + total xs + n) ys"
  proof (cases xs rule: rev_cases)
    case Nil
    then show ?thesis using ys(1) by (simp add: freed_def r)
  next
    case (snoc zs y)
    then show ?thesis unfolding freed_def r join_left_cases using ys(1) by (cases y) (simp add: add.assoc Un_assoc)
  qed
  show "addrs a (freed xs n ys) \<subseteq> addrs a (xs @ (n, True) # ys)"
    unfolding freed_def r join_left_cases using ys(2) by (cases xs rule: rev_cases) (auto simp: add.assoc)
qed

lemma used_region_block:
  "(s, l) \<in> used_regions a bs \<Longrightarrow> \<exists>xs n ys. bs = xs @ (n, True) # ys \<and> s = a + total xs + 12 \<and> l = n - 12"
proof (induction bs arbitrary: a)
  case (Cons b bs)
  obtain n u where b: "b = (n, u)" by (cases b)
  show ?case
  proof (cases "(s, l) \<in> used_regions (a + n) bs")
    case True
    then obtain xs k ys where "bs = xs @ (k, True) # ys \<and> s = a + n + total xs + 12 \<and> l = k - 12" using Cons.IH by blast
    then show ?thesis using b by (intro exI [of _ "(n, u) # xs"]) auto
  next
    case False
    then show ?thesis using Cons.prems b by (intro exI [of _ "[]"]) (auto split: if_splits)
  qed
qed simp

text \<open>The laws of the pool. A block list that shows \<open>page_heap\<close>:\<close>

definition heap_shape :: "nat \<Rightarrow> nat \<Rightarrow> (nat \<times> nat) set \<Rightarrow> (u64 \<Rightarrow> nat) \<Rightarrow> u64 set \<Rightarrow> blocks \<Rightarrow> bool" where
  "heap_shape base c Q len P bs \<longleftrightarrow> slivers_ok base bs \<and> low_free base c bs \<and>
     used_regions base bs = Q \<union> (\<lambda>p. (unat p, len p)) ` P \<and>
     (\<forall>p \<in> P. aligned p \<and> 4096 \<le> len p \<and> c < unat p \<and> unat p \<notin> fst ` Q)"

lemma page_heap_shape:
  "page_heap base c Q m0 (a, m) P \<longleftrightarrow>
    (\<exists>bs len. alloc_inv base bs a m \<and> heap_shape base c Q len P bs \<and> (\<forall>r \<in> Q. region_same r (a, m0) (a, m)))"
  by (simp add: page_heap_def heap_shape_def conj_assoc)

lemma region_same_then:
  "region_same r (a, m0) (a, m) \<Longrightarrow> region_same r (a, m) (a', m') \<Longrightarrow> region_same r (a', m0) (a', m')"
  by (simp add: region_same_def)

lemma page_heap_new:
  assumes "page_heap base c Q m0 (a, m) P"
  shows "pt_alloc_page_or_die (a, m) = Inl (Kernel_panic JRT_EASSERT) \<or>
    (\<exists>p a' m'. pt_alloc_page_or_die (a, m) = Inr (p, a', m') \<and> p \<notin> P \<and> page_heap base c Q m0 (a', m') (insert p P) \<and>
      (\<forall>x \<in> page p. m' x = 0) \<and> unchanged P m m')"
proof -
  obtain bs len where inv: "alloc_inv base bs a m" and sh: "heap_shape base c Q len P bs"
    and Q: "\<And>r. r \<in> Q \<Longrightarrow> region_same r (a, m0) (a, m)"
    using assms unfolding page_heap_shape by blast
  have S: "slivers_ok base bs" "low_free base c bs" "used_regions base bs = Q \<union> (\<lambda>p. (unat p, len p)) ` P"
    "\<And>p. p \<in> P \<Longrightarrow> aligned p \<and> 4096 \<le> len p \<and> c < unat p \<and> unat p \<notin> fst ` Q"
    using sh unfolding heap_shape_def by blast+
  show ?thesis
  proof (rule page_alloc [OF inv S(1)])
    fix xs n ys p l a' m'
    let ?bs' = "xs @ carved (gap 12 (base + total xs)) 4108 n @ ys"
    assume A: "pt_alloc_page_or_die (a, m) = Inr (p, a', m')" "bs = xs @ (n, False) # ys"
      "unat p = base + total xs + gap 12 (base + total xs) + 12" "aligned p" "4096 \<le> l" "alloc_inv base ?bs' a' m'"
      "slivers_ok base ?bs'" "used_regions base ?bs' = insert (unat p, l) (used_regions base bs)" "\<And>x. x \<in> page p \<Longrightarrow> m' x = 0"
      and same: "\<And>r. r \<in> used_regions base bs \<Longrightarrow> fst r \<noteq> unat p \<and> region_same r (a, m) (a', m')"
    note L = low_free_carved [OF S(2) [unfolded A(2)]]
    have "fst r \<noteq> unat p" if "r \<in> Q \<union> (\<lambda>p. (unat p, len p)) ` P" for r using same that S(3) by blast
    then have new: "p \<notin> P" "unat p \<notin> fst ` Q" by fastforce+
    have "used_regions base ?bs' = Q \<union> (\<lambda>q. (unat q, (len(p := l)) q)) ` insert p P"
      using A(8) S(3) new(1) by (auto simp: image_iff)
    moreover have "\<forall>q \<in> insert p P. aligned q \<and> 4096 \<le> (len(p := l)) q \<and> c < unat q \<and> unat q \<notin> fst ` Q"
      using S(4) A(3-5) new L(2) by auto
    ultimately have "heap_shape base c Q (len(p := l)) (insert p P) ?bs'"
      unfolding heap_shape_def using A(7) L(1) by blast
    moreover have "region_same r (a', m0) (a', m')" if "r \<in> Q" for r
      using region_same_then [OF Q [OF that]] same S(3) that by blast
    ultimately have "page_heap base c Q m0 (a', m') (insert p P)" unfolding page_heap_shape using A(6) by blast
    moreover have "unchanged P m m'"
      unfolding unchanged_def
    proof (intro ballI)
      fix q x assume q: "q \<in> P" "x \<in> page q"
      have "region_same (unat q, len q) (a, m) (a', m')" using same S(3) q(1) by blast
      then show "m' x = m x" using page_in_region [of q "len q" "(a, m)" "(a', m')" x] S(4) [OF q(1)] q(2) by simp
    qed
    ultimately show ?thesis using A(1,9) new(1) by blast
  qed simp
qed

lemma page_heap_write:
  assumes "page_heap base c Q m0 (a, m) P" "t \<in> P" "i < 512"
  shows "page_heap base c Q m0 (a, set_pte t i d m) P"
proof -
  obtain bs len where inv: "alloc_inv base bs a m" and sh: "heap_shape base c Q len P bs"
    and Q: "\<And>r. r \<in> Q \<Longrightarrow> region_same r (a, m0) (a, m)"
    using assms(1) unfolding page_heap_shape by blast
  have S: "used_regions base bs = Q \<union> (\<lambda>p. (unat p, len p)) ` P" "aligned t" "4096 \<le> len t" "unat t \<notin> fst ` Q"
    using sh assms(2) unfolding heap_shape_def by blast+
  note I = alloc_invD [OF inv]
  have t: "(unat t, len t) \<in> used_regions base bs" using S(1) assms(2) by blast
  have out: "set_pte t i d m x = m x" if "unat x < unat t \<or> unat t + len t \<le> unat x" for x
    by (rule set_pte_outside [OF S(2) assms(3)]) (use that S(3) page_nat [OF S(2), of x] in linarith)
  have "region_same r (a, m) (a, set_pte t i d m)" if r: "r \<in> Q" for r
  proof -
    have ru: "r \<in> used_regions base bs" using S(1) r by blast
    have "r \<noteq> (unat t, len t)" using S(4) r by force
    then have ap: "fst r + snd r \<le> unat t \<or> unat t + len t \<le> fst r"
      using used_regions_apart [OF I(8) ru t] by (auto simp: apart_regions_def)
    have "unat (of_nat j :: u64) = j" if "j < fst r + snd r" for j using that used_regions_range [OF I(8) ru] I(5) by simp
    then show ?thesis unfolding region_same_def using ap by (auto intro!: out)
  qed
  then have "\<forall>r \<in> Q. region_same r (a, m0) (a, set_pte t i d m)" using region_same_then [OF Q] by blast
  then show ?thesis unfolding page_heap_shape using payload_write_inv [OF inv t out] sh by blast
qed

text \<open>\<open>free\<close> of a block in use above the lowest free one: it is the only one that goes, the others keep their contents.\<close>

lemma used_region_freed:
  assumes "alloc_inv base bs a m" "slivers_ok base bs" "low_free base c bs" "r \<in> used_regions base bs" "c < fst r"
  shows "\<exists>bs' a' m'. free a (of_nat (fst r)) m = Inr (a', m') \<and> alloc_inv base bs' a' m' \<and> slivers_ok base bs' \<and>
    low_free base c bs' \<and> used_regions base bs' = used_regions base bs - {r} \<and>
    (\<forall>r' \<in> used_regions base bs - {r}. region_same r' (a, m) (a', m'))"
proof -
  note I = alloc_invD [OF assms(1)]
  obtain s l where r: "r = (s, l)" by (cases r)
  obtain xs n ys where bs: "bs = xs @ (n, True) # ys" "s = base + total xs + 12" "l = n - 12"
    using used_region_block assms(4) unfolding r by blast
  have ok: "sizes_ok (xs @ (n, True) # ys)" using I(8) bs(1) by simp
  have "c < base + total xs + 12" using assms(5) bs(2) r by simp
  note L = low_free_freed [OF assms(3) [unfolded bs(1)] this ok]
  obtain a' m' where f: "free a (of_nat s) m = Inr (a', m')" "alloc_inv base (freed xs n ys) a' m'" "payload_same base (freed xs n ys) m m'"
    using free_result [OF assms(1) [unfolded bs(1)]] L(1) unfolding bs(2) by blast
  have gone: "used_regions base (freed xs n ys) = used_regions base bs - {r}"
  proof -
    have "r \<notin> used_regions base xs" "r \<notin> used_regions (base + total xs + n) ys"
      using used_regions_range [of xs r base] ok bs(2) r
        used_regions_range [of ys r "base + total xs + n"] by auto
    moreover have "used_regions base bs = insert r (used_regions base xs \<union> used_regions (base + total xs + n) ys)"
      using bs r by auto
    ultimately show ?thesis unfolding freed_blocks(1) by simp
  qed
  have "slivers_ok base (freed xs n ys)" using assms(2) freed_blocks(2) [of base xs n ys] unfolding slivers_ok_def bs(1) by blast
  then show ?thesis using f(1,2) L(2) gone payload_same_regions [OF f(3)] unfolding r by auto
qed

text \<open>A page given back, and a block given back that is in use for something else.\<close>

lemma regions_unchanged:
  assumes "\<And>q. q \<in> P \<Longrightarrow> aligned q \<and> 4096 \<le> len q \<and> region_same (unat q, len q) (a, m) (a', m')"
  shows "unchanged P m m'"
  unfolding unchanged_def
proof (intro ballI)
  fix q x assume q: "q \<in> P" "x \<in> page q"
  then show "m' x = m x" using page_in_region [of q "len q" "(a, m)" "(a', m')" x] assms [OF q(1)] by simp
qed

lemma page_heap_free:
  assumes "page_heap base c Q m0 (a, m) P" "p \<in> P"
  shows "\<exists>a' m'. free a p m = Inr (a', m') \<and> page_heap base c Q m0 (a', m') (P - {p}) \<and> unchanged (P - {p}) m m'"
proof -
  obtain bs len where inv: "alloc_inv base bs a m" and sh: "heap_shape base c Q len P bs"
    and Q: "\<And>r. r \<in> Q \<Longrightarrow> region_same r (a, m0) (a, m)"
    using assms(1) unfolding page_heap_shape by blast
  have S: "slivers_ok base bs" "low_free base c bs" "used_regions base bs = Q \<union> (\<lambda>p. (unat p, len p)) ` P"
    "\<And>p. p \<in> P \<Longrightarrow> aligned p \<and> 4096 \<le> len p \<and> c < unat p \<and> unat p \<notin> fst ` Q"
    using sh unfolding heap_shape_def by blast+
  have "(unat p, len p) \<in> used_regions base bs" "c < fst (unat p, len p)" using S(3,4) assms(2) by auto
  from used_region_freed [OF inv S(1,2) this, unfolded fst_conv of_nat_unat ucast_id] obtain bs' a' m' where f: "free a p m = Inr (a', m')" "alloc_inv base bs' a' m'"
      "slivers_ok base bs'" "low_free base c bs'" "used_regions base bs' = used_regions base bs - {(unat p, len p)}"
      "\<And>r'. r' \<in> used_regions base bs - {(unat p, len p)} \<Longrightarrow> region_same r' (a, m) (a', m')"
    by blast
  have "inj (\<lambda>p :: u64. (unat p, len p))" by (auto intro!: injI simp: word_unat_eq_iff)
  then have "(\<lambda>p. (unat p, len p)) ` (P - {p}) = (\<lambda>p. (unat p, len p)) ` P - {(unat p, len p)}"
    by (simp add: image_set_diff)
  moreover have "(unat p, len p) \<notin> Q" using S(4) [OF assms(2)] by force
  ultimately have regs: "used_regions base bs - {(unat p, len p)} = Q \<union> (\<lambda>p. (unat p, len p)) ` (P - {p})"
    unfolding S(3) by blast
  then have "heap_shape base c Q len (P - {p}) bs'" unfolding heap_shape_def using f(3-5) S(4) by blast
  moreover have "\<forall>r \<in> Q. region_same r (a', m0) (a', m')" using region_same_then [OF Q] f(6) regs by blast
  ultimately have "page_heap base c Q m0 (a', m') (P - {p})" unfolding page_heap_shape using f(2) by blast
  moreover have "region_same (unat q, len q) (a, m) (a', m')" if "q \<in> P - {p}" for q using f(6) that unfolding regs by blast
  then have "unchanged (P - {p}) m m'" using S(4) by (intro regions_unchanged [of _ len a m a']) auto
  ultimately show ?thesis using f(1) by blast
qed

lemma page_heap_free_block:
  assumes "page_heap base c Q m0 (a, m) P" "r \<in> Q" "c < fst r"
  shows "\<exists>a' m'. free a (of_nat (fst r)) m = Inr (a', m') \<and> page_heap base c (Q - {r}) m0 (a', m') P \<and> unchanged P m m'"
proof -
  obtain bs len where inv: "alloc_inv base bs a m" and sh: "heap_shape base c Q len P bs"
    and Q: "\<And>r. r \<in> Q \<Longrightarrow> region_same r (a, m0) (a, m)"
    using assms(1) unfolding page_heap_shape by blast
  have S: "slivers_ok base bs" "low_free base c bs" "used_regions base bs = Q \<union> (\<lambda>p. (unat p, len p)) ` P"
    "\<And>p. p \<in> P \<Longrightarrow> aligned p \<and> 4096 \<le> len p \<and> c < unat p \<and> unat p \<notin> fst ` Q"
    using sh unfolding heap_shape_def by blast+
  have "r \<in> used_regions base bs" using S(3) assms(2) by blast
  from used_region_freed [OF inv S(1,2) this assms(3)] obtain bs' a' m' where f: "free a (of_nat (fst r)) m = Inr (a', m')"
      "alloc_inv base bs' a' m'" "slivers_ok base bs'" "low_free base c bs'" "used_regions base bs' = used_regions base bs - {r}"
      "\<And>r'. r' \<in> used_regions base bs - {r} \<Longrightarrow> region_same r' (a, m) (a', m')"
    by blast
  have "r \<noteq> (unat p, len p)" if "p \<in> P" for p using S(4) [OF that] assms(2) by force
  then have regs: "used_regions base bs - {r} = (Q - {r}) \<union> (\<lambda>p. (unat p, len p)) ` P" unfolding S(3) by auto
  have "\<forall>p \<in> P. aligned p \<and> 4096 \<le> len p \<and> c < unat p \<and> unat p \<notin> fst ` (Q - {r})" using S(4) by fast
  then have "heap_shape base c (Q - {r}) len P bs'" unfolding heap_shape_def f(5) regs using f(3,4) by simp
  moreover have "\<forall>r' \<in> Q - {r}. region_same r' (a', m0) (a', m')" using region_same_then [OF Q] f(6) regs by blast
  ultimately have "page_heap base c (Q - {r}) m0 (a', m') P" unfolding page_heap_shape using f(2) by blast
  moreover have "region_same (unat q, len q) (a, m) (a', m')" if "q \<in> P" for q using f(6) that unfolding regs by blast
  then have "unchanged P m m'" using S(4) by (intro regions_unchanged [of _ len a m a']) auto
  ultimately show ?thesis using f(1) by blast
qed

section \<open>Other blocks of the heap\<close>

text \<open>
  Memory for something else than tables comes from \<open>alloc\<close>, best fit at any address. It may end so that the block
  behind it starts less than a header in front of where a page's block would, and it may be the lowest free block.
  Where neither is the case, it is one more block in use.
\<close>

definition tidy_end :: "nat \<Rightarrow> bool" where
  "tidy_end e \<longleftrightarrow> gap 12 e = 0 \<or> 20 \<le> gap 12 e"

lemma low_free_taken:
  assumes "low_free base c (xs @ (n, False) # ys)" "c \<noteq> base + total xs"
  shows "low_free base c (xs @ zs)"
  using assms(1)
proof (rule low_free_split)
  fix xl k us assume "xs = xl @ (k, False) # us" "all_used xl" "base + total xl = c"
  then show ?thesis using assms(1) by (auto simp: low_free_def)
qed (use assms(2) in auto)

lemma alloc_block:
  assumes inv: "alloc_inv base bs a m" and sl: "slivers_ok base bs" and low: "low_free base c bs"
    and len: "8 \<le> unat n" "unat n + 12 < 2 ^ 32" and al: "alloc a n m = Inr (p, a', m')"
    and fit: "c + 12 < unat p" "tidy_end (unat p + unat n)"
  obtains bs' l where "alloc_inv base bs' a' m'" "slivers_ok base bs'" "low_free base c bs'" "unat n \<le> l"
    "used_regions base bs' = insert (unat p, l) (used_regions base bs)"
    "\<And>r. r \<in> used_regions base bs \<Longrightarrow> fst r \<noteq> unat p \<and> region_same r (a, m) (a', m')"
proof -
  let ?len = "unat n"
  note I = alloc_invD [OF inv]
  have "p \<noteq> 0" using fit(1) by auto
  then obtain xs k ys where 1: "bs = xs @ (k, False) # ys" "?len + 12 \<le> k" "p = of_nat (base + total xs + 12)"
      "alloc_inv base (if ?len + 52 \<le> k then xs @ (?len + 12, True) # (k - (?len + 12), False) # ys else xs @ (k, True) # ys) a' m'"
      "payload_same base bs m m'"
    using alloc_best [OF inv len] al by auto
  define bs' where "bs' = xs @ (if ?len + 52 \<le> k then (?len + 12, True) # (k - (?len + 12), False) # ys else (k, True) # ys)"
  define l where "l = (if ?len + 52 \<le> k then ?len else k - 12)"
  have p: "unat p = base + total xs + 12" unfolding 1(3) by (rule unat_of_nat_u64) (use 1(1,2) I(5) in simp)
  have "c \<noteq> base + total xs" using fit(1) p by simp
  then have low': "low_free base c bs'" unfolding bs'_def by (rule low_free_taken [OF low [unfolded 1(1)]])
  have "addrs base bs' \<subseteq> insert (unat p + ?len) (addrs base bs)" using 1(2) by (auto simp: bs'_def 1(1) p add_ac)
  then have sl': "slivers_ok base bs'" using sl fit(2) unfolding slivers_ok_def tidy_end_def by blast
  have regs: "used_regions base bs' = insert (unat p, l) (used_regions base bs)"
    using 1(2) by (auto simp: bs'_def 1(1) p l_def add_ac)
  have "fst r \<noteq> unat p" if "r \<in> used_regions base bs" for r
    using used_regions_range [of xs r base] used_regions_range [of ys r "base + total xs + k"] I(8) that 1(2) by (auto simp: 1(1) p)
  moreover have "alloc_inv base bs' a' m'" using 1(4) unfolding bs'_def by (simp split: if_splits)
  moreover have "?len \<le> l" using add_le_imp_le_diff [OF 1(2)] by (simp add: l_def)
  ultimately show thesis using that low' sl' regs payload_same_regions [OF 1(5)] by blast
qed

lemma page_heap_alloc:
  assumes "page_heap base c Q m0 (a, m) P" "8 \<le> unat n" "unat n + 12 < 2 ^ 32" "alloc a n m = Inr (p, a', m')"
    "c + 12 < unat p" "tidy_end (unat p + unat n)"
  obtains l where "unat n \<le> l" "unat p \<notin> fst ` Q" "page_heap base c (insert (unat p, l) Q) m' (a', m') P" "unchanged P m m'"
proof -
  obtain bs len where inv: "alloc_inv base bs a m" and sh: "heap_shape base c Q len P bs"
    using assms(1) unfolding page_heap_shape by blast
  have S: "slivers_ok base bs" "low_free base c bs" "used_regions base bs = Q \<union> (\<lambda>p. (unat p, len p)) ` P"
    "\<And>p. p \<in> P \<Longrightarrow> aligned p \<and> 4096 \<le> len p \<and> c < unat p \<and> unat p \<notin> fst ` Q"
    using sh unfolding heap_shape_def by blast+
  obtain bs' l where A: "alloc_inv base bs' a' m'" "slivers_ok base bs'" "low_free base c bs'" "unat n \<le> l"
    "used_regions base bs' = insert (unat p, l) (used_regions base bs)"
    "\<And>r. r \<in> used_regions base bs \<Longrightarrow> fst r \<noteq> unat p \<and> region_same r (a, m) (a', m')"
    by (rule alloc_block [OF inv S(1,2) assms(2-6)]) blast
  have new: "unat q \<noteq> unat p" if "q \<in> P" for q
    using A(6) [of "(unat q, len q)"] S(3) that by fastforce
  have newQ: "unat p \<notin> fst ` Q" using A(6) S(3) by fastforce
  have "\<forall>q \<in> P. aligned q \<and> 4096 \<le> len q \<and> c < unat q \<and> unat q \<notin> fst ` insert (unat p, l) Q" using S(4) new by auto
  then have "heap_shape base c (insert (unat p, l) Q) len P bs'" unfolding heap_shape_def A(5) S(3) using A(2,3) by simp
  then have "page_heap base c (insert (unat p, l) Q) m' (a', m') P" unfolding page_heap_shape using A(1) by (auto simp: region_same_def)
  moreover have "region_same (unat q, len q) (a, m) (a', m')" if "q \<in> P" for q using A(6) S(3) that by blast
  then have "unchanged P m m'" using S(4) by (intro regions_unchanged [of _ len a m a']) auto
  ultimately show thesis using that A(4) newQ by blast
qed

text \<open>Whoever writes, within the heap, only into such a block leaves the heap and the pages alone.\<close>

lemma page_heap_block_write:
  assumes "page_heap base c Q m0 (a, m) P" "r \<in> Q"
    "\<And>x. base \<le> unat x \<Longrightarrow> unat x < unat (a_end a) \<Longrightarrow> unat x < fst r \<or> fst r + snd r \<le> unat x \<Longrightarrow> m' x = m x"
  shows "page_heap base c Q m' (a, m') P" "unchanged P m m'"
proof -
  obtain bs len where inv: "alloc_inv base bs a m" and sh: "heap_shape base c Q len P bs"
    using assms(1) unfolding page_heap_shape by blast
  have S: "used_regions base bs = Q \<union> (\<lambda>p. (unat p, len p)) ` P"
    "\<And>p. p \<in> P \<Longrightarrow> aligned p \<and> 4096 \<le> len p \<and> c < unat p \<and> unat p \<notin> fst ` Q"
    using sh unfolding heap_shape_def by blast+
  note I = alloc_invD [OF inv]
  have e: "unat (a_end a) = base + total bs" unfolding I(3) by (rule unat_of_nat_u64) (use I(5) in simp)
  have r: "(fst r, snd r) \<in> used_regions base bs" using S(1) assms(2) by simp
  have "alloc_inv base bs a m'" using assms(3) by (intro payload_write_within [OF inv r]) (simp add: e)
  then show "page_heap base c Q m' (a, m') P" unfolding page_heap_shape using sh by (auto simp: region_same_def)
  have "m' x = m x" if q: "q \<in> P" "x \<in> page q" for q x
  proof (rule assms(3))
    have u: "(unat q, len q) \<in> used_regions base bs" using S(1) q(1) by blast
    note rng = used_regions_range [OF I(8) u] and pg = page_nat [of q x] S(2) [OF q(1)] q(2)
    show "base \<le> unat x" "unat x < unat (a_end a)" using rng pg by (auto simp: e)
    have "(fst r, snd r) \<noteq> (unat q, len q)" using S(2) [OF q(1)] assms(2) by force
    then have "fst r + snd r \<le> unat q \<or> unat q + len q \<le> fst r"
      using used_regions_apart [OF I(8) r u] by (auto simp: apart_regions_def)
    then show "unat x < fst r \<or> fst r + snd r \<le> unat x" using pg by auto
  qed
  then show "unchanged P m m'" by (simp add: unchanged_def)
qed

text \<open>The contents the other blocks are compared with may be those they have now.\<close>

lemma page_heap_now: "page_heap base c Q m0 st P \<Longrightarrow> page_heap base c Q (snd st) st P"
  by (cases st) (auto simp: page_heap_shape region_same_def)

interpretation kpool: page_pool "page_heap base c Q m0" for base c Q m0
proof
  fix st P p st' e a m t i d
  show "aligned p \<and> p \<noteq> 0" if "page_heap base c Q m0 st P" "p \<in> P"
    using that unfolding page_heap_def by fastforce
  show "p \<notin> P \<and> page_heap base c Q m0 st' (insert p P) \<and> (\<forall>a \<in> page p. snd st' a = 0) \<and> unchanged P (snd st) (snd st')"
    if "page_heap base c Q m0 st P" "pt_alloc_page_or_die st = Inr (p, st')"
    using page_heap_new [of base c Q m0 "fst st" "snd st" P] that by auto
  show "e = Kernel_panic JRT_EASSERT" if "page_heap base c Q m0 st P" "pt_alloc_page_or_die st = Inl e"
    using page_heap_new [of base c Q m0 "fst st" "snd st" P] that by auto
  show "page_heap base c Q m0 (a, set_pte t i d m) P" if "page_heap base c Q m0 (a, m) P" "t \<in> P" "i < 512"
    using page_heap_write that .
  show "\<exists>st'. free (fst st) p (snd st) = Inr st' \<and> page_heap base c Q m0 st' (P - {p}) \<and> unchanged (P - {p}) (snd st) (snd st')"
    if "page_heap base c Q m0 st P" "p \<in> P"
    using page_heap_free [of base c Q m0 "fst st" "snd st" P p] that by auto
qed

end
