(* ===== verification/Mmu_Room.thy ===== *)
theory Mmu_Room
  imports Mmu_Free
begin

text \<open>
  When a map can be built: how many tables a map needs, and that the builders of \<^verbatim>\<open>rtprog/mmu.c\<close> return one when
  the heap has that many pages. A range needs at most three tables for every two megabytes it touches, since
  the pages that share a last-level table need no table after the first. The interface \<open>page_bank\<close> adds
  a count of the pages still to be had to \<open>page_source\<close>.
\<close>

section \<open>Tables a page needs\<close>

primrec missing :: "nat \<Rightarrow> memory \<Rightarrow> u64 \<Rightarrow> u64 \<Rightarrow> nat" where
  "missing 0 m t va = 0"
| "missing (Suc k) m t va =
     (let d = pte m t (ix (Suc k) va) in if valid d then missing k m (child d) va else Suc k)"

lemma missing_le: "missing k m t va \<le> k"
  by (induction k arbitrary: t) (auto simp: Let_def intro: le_SucI)

locale page_bank = page_source +
  fixes banked :: "nat \<Rightarrow> pst \<Rightarrow> u64 set \<Rightarrow> bool"
  assumes banked_owned: "banked n st P \<Longrightarrow> owned st P"
    and banked_less: "banked n st P \<Longrightarrow> k \<le> n \<Longrightarrow> banked k st P"
    and banked_new: "banked (Suc n) st P \<Longrightarrow>
      \<exists>p st'. pt_alloc_page_or_die st = Inr (p, st') \<and> banked n st' (insert p P)"
    and banked_write: "banked n (a, m) P \<Longrightarrow> t \<in> P \<Longrightarrow> i < 512 \<Longrightarrow> banked n (a, set_pte t i d m) P"
begin

lemma ensure_next_banked:
  assumes T: "tree (Suc k) st P t" and i: "i < 512"
    and b: "banked ((if valid (pte (snd st) t i) then 0 else 1) + n) st P"
  shows "\<exists>c st1 P1. ensure_next t i st = Inr (c, st1) \<and> grown (Suc k) t st P st1 P1 \<and> banked n st1 P1 \<and>
    valid (pte (snd st1) t i) \<and> c = child (pte (snd st1) t i) \<and> (valid (pte (snd st) t i) \<longrightarrow> st1 = st)"
proof (cases "valid (pte (snd st) t i)")
  case True
  then have e: "ensure_next t i st = Inr (pte (snd st) t i AND NOT 0xFFF, st)" by (simp add: ensure_next_def Let_def)
  from ensure_next_ok [OF T i e] True have "pte (snd st) t i AND NOT 0xFFF = child (pte (snd st) t i)" by auto
  then show ?thesis using e True b grown_refl [OF T] by auto
next
  case False
  then obtain p a m where p: "pt_alloc_page_or_die st = Inr (p, a, m)" "banked n (a, m) (insert p P)"
    using banked_new [of n st P] b by auto
  have e: "ensure_next t i st = Inr (p, a, set_pte t i (desc_table p) m)"
    using False p(1) by (simp add: ensure_next_def Let_def)
  have "t \<in> insert p P" using T top_in_tabs [of t "Suc k" "snd st"] unfolding tree_def by blast
  then have "banked n (a, set_pte t i (desc_table p) m) (insert p P)" using banked_write [OF p(2)] i by blast
  then show ?thesis using e ensure_next_ok [OF T i e] False by auto
qed

lemma tmap_banked:
  assumes "tree k st P t" "banked (missing k (snd st) t va + n) st P"
  shows "\<exists>st' P'. tmap k t va d st = Inr st' \<and> grown k t st P st' P' \<and> banked n st' P' \<and>
    (\<forall>va'. (\<forall>j. 1 \<le> j \<and> j \<le> k \<longrightarrow> ix j va' = ix j va) \<longrightarrow> missing k (snd st') t va' = 0)"
  using assms
proof (induction k arbitrary: st P t)
  case 0
  let ?st = "(fst st, set_pte t (ix 0 va) d (snd st))"
  have e: "tmap 0 t va d st = Inr ?st" by simp
  obtain P' where g: "grown 0 t st P ?st P'" using tmap_ok [OF 0(1) e] by blast
  have t: "t \<in> P" using 0(1) by (simp add: tree_def)
  have "P' = P" using grown_pages [OF g 0(1)] t by auto
  moreover have "banked n ?st P" using banked_write [of n "fst st" "snd st" P t "ix 0 va" d] 0(2) t ix_less by simp
  ultimately show ?case using g e by auto
next
  case (Suc k)
  let ?i = "ix (Suc k) va" and ?v = "valid (pte (snd st) t (ix (Suc k) va))"
  define r where "r = (if ?v then missing k (snd st) (child (pte (snd st) t ?i)) va else k) + n"
  have "banked ((if ?v then 0 else 1) + r) st P" using Suc.prems(2) by (auto simp: r_def Let_def split: if_splits)
  from ensure_next_banked [OF Suc.prems(1) ix_less this] obtain c st1 P1 where
    e: "ensure_next t ?i st = Inr (c, st1)" and g1: "grown (Suc k) t st P st1 P1" and b1: "banked r st1 P1"
    and v: "valid (pte (snd st1) t ?i)" and c: "c = child (pte (snd st1) t ?i)" and same: "?v \<longrightarrow> st1 = st"
    by blast
  have T1: "tree (Suc k) st1 P1 t" using g1 by (simp add: grown_def)
  have Tc: "tree k st1 P1 c" unfolding c by (rule tree_child [OF T1 ix_less v])
  have "missing k (snd st1) c va + n \<le> r" using same c missing_le [of k "snd st1" c va] unfolding r_def by auto
  from Suc.IH [OF Tc banked_less [OF b1 this]] obtain st' P2 where
    w: "tmap k c va d st1 = Inr st'" and g2: "grown k c st1 P1 st' P2" and b2: "banked n st' P2"
    and z: "\<And>va'. \<forall>j. 1 \<le> j \<and> j \<le> k \<longrightarrow> ix j va' = ix j va \<Longrightarrow> missing k (snd st') c va' = 0" by blast
  note G = grown_child [OF T1 ix_less v c g2]
  have "missing (Suc k) (snd st') t va' = 0" if "\<forall>j. 1 \<le> j \<and> j \<le> Suc k \<longrightarrow> ix j va' = ix j va" for va'
    using that z [of va'] G(2) v c by (simp add: Let_def)
  moreover have "tmap (Suc k) t va d st = Inr st'" using e w by simp
  ultimately show ?case using grown_trans [OF g1 G(1)] b2 by blast
qed

end

section \<open>Ranges\<close>

lemma same_block:
  assumes "vpn va' div 512 = vpn va div 512" "1 \<le> j" "j \<le> 3"
  shows "ix j va' = ix j va"
proof -
  have "vpn x div 512 = unat (drop_bit 9 (take_bit 36 (drop_bit 12 x)))" for x
    by (simp add: vpn_def drop_bit_eq_div unat_div_distrib)
  then have e: "drop_bit 9 (take_bit 36 (drop_bit 12 va')) = drop_bit 9 (take_bit 36 (drop_bit 12 va))"
    using assms(1) by (simp add: word_unat_eq_iff)
  have hi: "bit va' (21 + n) = bit va (21 + n)" if "n < 27" for n
    using arg_cong [OF e, of "\<lambda>w. bit w n"] that by (simp add: bit_simps)
  have "bit va' (12 + 9 * j + n) = bit va (12 + 9 * j + n)" if "n < 9" for n
  proof -
    have "12 + 9 * j + n = 21 + (9 * (j - 1) + n)" "9 * (j - 1) + n < 27" using that assms(2,3) by (simp_all add: algebra_simps)
    then show ?thesis using hi by metis
  qed
  then show ?thesis by (intro bit_word_eqI) (auto simp: ix_def bit_simps)
qed

text \<open>The tables a range may need.\<close>

definition range_cost :: "u64 \<Rightarrow> u64 \<Rightarrow> nat" where
  "range_cost va sz =
     (let v = unat va div 4096; w = (unat va + unat sz + 4095) div 4096
      in if w \<le> v then 0 else 3 * ((w - 1) div 512 - v div 512 + 1))"

definition gives :: "('a \<Rightarrow> bool) \<Rightarrow> 'a res \<Rightarrow> bool" where
  "gives Q res \<longleftrightarrow> (\<exists>x. res = Inr x \<and> Q x)"

lemma gives_Inr [simp]: "gives Q (Inr x) \<longleftrightarrow> Q x"
  by (simp add: gives_def)

lemma gives_bindE: "gives Q m \<Longrightarrow> (\<And>x. Q x \<Longrightarrow> gives R (f x)) \<Longrightarrow> gives R (bindE m f)"
  by (auto simp: gives_def)

context page_bank
begin

lemma map_pages_banked:
  assumes "tree 3 st P (l0 r)" "v + n \<le> 2 ^ 36"
    and "banked ((if n = 0 then 0 else missing 3 (snd st) (l0 r) (of_nat (4096 * v)) + 3 * ((v + n - 1) div 512 - v div 512)) + k) st P"
  shows "\<exists>st' P'. map_pages r (of_nat (4096 * v)) pa (of_nat (4096 * (v + n))) attrs st = Some (Inr st') \<and>
    grown 3 (l0 r) st P st' P' \<and> banked k st' P'"
  using assms
proof (induction n arbitrary: v pa st P)
  case 0
  then show ?case using grown_refl [OF 0(1)] by (subst map_pages.simps) auto
next
  case (Suc n)
  let ?va = "of_nat (4096 * v) :: u64" and ?vb = "of_nat (4096 * Suc v) :: u64"
  define c where "c = 3 * ((v + n) div 512 - v div 512)"
  have less: "?va < of_nat (4096 * (v + Suc n))"
  proof -
    have "4096 * v < 18446744073709551616" "4096 * (v + Suc n) < 18446744073709551616" using Suc.prems(2) by simp_all
    then show ?thesis unfolding word_less_nat_alt by (simp only: unat_of_nat_u64) simp
  qed
  have "banked (missing 3 (snd st) (l0 r) ?va + (c + k)) st P" using Suc.prems(3) by (simp add: c_def add.assoc)
  from tmap_banked [OF Suc.prems(1) this, of "desc_page pa attrs"] obtain st1 P1 where
    t: "map_page r ?va pa attrs st = Inr st1" and g: "grown 3 (l0 r) st P st1 P1" and b: "banked (c + k) st1 P1"
    and z: "\<And>va'. \<forall>j. 1 \<le> j \<and> j \<le> 3 \<longrightarrow> ix j va' = ix j ?va \<Longrightarrow> missing 3 (snd st1) (l0 r) va' = 0"
    unfolding map_page_tmap by blast
  have step: "map_pages r ?va pa (of_nat (4096 * (v + Suc n))) attrs st =
      map_pages r ?vb (pa + PAGE_SIZE) (of_nat (4096 * (Suc v + n))) attrs st1"
  proof -
    have "?va + PAGE_SIZE = ?vb" by (simp add: PAGE_SIZE_def)
    then show ?thesis using less t by (subst map_pages.simps) (simp only: if_True sum.case add_Suc_shift)
  qed
  have "(if n = 0 then 0 else missing 3 (snd st1) (l0 r) ?vb + 3 * ((Suc v + n - 1) div 512 - Suc v div 512)) \<le> c"
  proof (cases "n = 0")
    case False
    have v: "v < 2 ^ 36" "Suc v < 2 ^ 36" using Suc.prems(2) False by simp_all
    show ?thesis
    proof (cases "Suc v div 512 = v div 512")
      case True
      then have "vpn ?vb div 512 = vpn ?va div 512" unfolding vpn_page [OF v(1)] vpn_page [OF v(2)] .
      then have "missing 3 (snd st1) (l0 r) ?vb = 0" using z same_block by blast
      then show ?thesis using True False by (simp add: c_def)
    next
      case other: False
      then have "Suc v div 512 = Suc (v div 512)" by (simp add: div_Suc split: if_splits)
      moreover have "Suc v div 512 \<le> (v + n) div 512" using False by (intro div_le_mono) simp
      ultimately have "(v + n) div 512 - v div 512 = Suc ((v + n) div 512 - Suc v div 512)" by (simp add: Suc_diff_Suc)
      then show ?thesis using missing_le [of 3 "snd st1" "l0 r" ?vb] False by (simp add: c_def)
    qed
  qed simp
  from banked_less [OF b add_right_mono [OF this]]
  have "banked ((if n = 0 then 0 else missing 3 (snd st1) (l0 r) ?vb + 3 * ((Suc v + n - 1) div 512 - Suc v div 512)) + k) st1 P1" .
  moreover have "tree 3 st1 P1 (l0 r)" using g by (simp add: grown_def)
  ultimately show ?case
    using Suc.IH [of st1 P1 "Suc v" "pa + PAGE_SIZE"] Suc.prems(2) grown_trans [OF g] unfolding step by fastforce
qed

text \<open>A tree on pages beside \<open>P0\<close>, with \<open>k\<close> more pages to be had.\<close>

definition supplied :: "nat \<Rightarrow> u64 set \<Rightarrow> pt_root_t \<Rightarrow> pst \<Rightarrow> bool" where
  "supplied k P0 r st \<longleftrightarrow> tree 3 st (P0 \<union> set (tabs 3 (snd st) (l0 r))) (l0 r) \<and>
     banked k st (P0 \<union> set (tabs 3 (snd st) (l0 r)))"

lemma map_range_supplied:
  assumes "supplied (range_cost va sz + k) P0 r st" "unat va + unat sz \<le> 2 ^ 48"
  shows "gives (supplied k P0 r) (map_range_pages r va pa sz attrs st)"
proof -
  let ?v = "unat va div 4096" and ?w = "(unat va + unat sz + 4095) div 4096" and ?T = "\<lambda>s. set (tabs 3 (snd s) (l0 r))"
  define n where "n = ?w - ?v"
  have w: "?v + n = ?w" "?w \<le> 2 ^ 36" using assms(2) by (auto simp: n_def div_le_mono)
  have S: "tree 3 st (P0 \<union> ?T st) (l0 r)" "banked (range_cost va sz + k) st (P0 \<union> ?T st)"
    using assms(1) by (simp_all add: supplied_def)
  have "(if n = 0 then 0 else missing 3 (snd st) (l0 r) (of_nat (4096 * ?v)) + 3 * ((?v + n - 1) div 512 - ?v div 512)) \<le> range_cost va sz"
    using missing_le [of 3 "snd st" "l0 r" "of_nat (4096 * ?v)"] unfolding range_cost_def Let_def w(1) [symmetric] by simp
  note B = banked_less [OF S(2) add_right_mono [OF this]]
  have "?v + n \<le> 2 ^ 36" using w by simp
  from map_pages_banked [OF S(1) this B] obtain st' P' where
    m: "map_pages r (of_nat (4096 * ?v)) (pa AND PAGE_MASK) (of_nat (4096 * (?v + n))) attrs st = Some (Inr st')"
    and g: "grown 3 (l0 r) st (P0 \<union> ?T st) st' P'" and b: "banked k st' P'" by blast
  have P': "P' = P0 \<union> ?T st'" using g by (auto simp: grown_def)
  then have "supplied k P0 r st'" using g b by (simp add: supplied_def grown_def)
  then show ?thesis unfolding map_range_pages_eq [OF assms(2)] w(1) [symmetric] m by simp
qed

lemma pt_root_new_supplied:
  assumes "banked (Suc k) st P"
  shows "gives (\<lambda>(r, st'). supplied k P r st') (pt_root_new st)"
proof -
  obtain p st' where p: "pt_alloc_page_or_die st = Inr (p, st')" "banked k st' (insert p P)" using banked_new [OF assms] by blast
  have o: "owned st' (insert p P)" "\<And>x. x \<in> page p \<Longrightarrow> snd st' x = 0"
    using owned_new [OF banked_owned [OF assms] p(1)] by auto
  have "tabs 3 (snd st') p = [p]" using zero_page(1) [of p "snd st'"] owned_aligned [OF o(1)] o(2) by blast
  then show ?thesis using p o(1) by (simp add: pt_root_new_def supplied_def tree_def)
qed

end

section \<open>Whole maps\<close>

definition proc_cost :: "u64 \<Rightarrow> u64 \<Rightarrow> u64 \<Rightarrow> nat" where
  "proc_cost kend base len =
     1 + range_cost 0 (min len CODE_0) +
     (if CODE_0 < min base kend then range_cost CODE_0 (min base kend - CODE_0) else 0) +
     range_cost MEM_0 (MEM_END + 1 - MEM_0) + range_cost UART_PA_BASE UART_PA_SIZE"

definition gicr_cost :: "nat list \<Rightarrow> nat" where
  "gicr_cost is = (\<Sum>i \<leftarrow> is. range_cost (GICR_PA_BASE0 + of_nat i * GICR_FRAME_SIZE) GICR_FRAME_SIZE)"

definition kern_cost :: nat where
  "kern_cost = 1 + range_cost CODE_0 (MEM_END + 1 - CODE_0) + range_cost UART_PA_BASE UART_PA_SIZE +
     range_cost GICD_PA_BASE GICD_PA_SIZE + gicr_cost [0..<GICR_NUM_CPUS]"

context page_bank
begin

lemma gicr_supplied:
  assumes "supplied (gicr_cost is + k) P r s" "\<forall>i \<in> set is. i < GICR_NUM_CPUS"
  shows "gives (supplied k P r) (map_gicr r is s)"
  using assms
proof (induction "is" arbitrary: s)
  case Nil
  then show ?case by (simp add: gicr_cost_def)
next
  case (Cons i xs)
  let ?b = "GICR_PA_BASE0 + of_nat i * GICR_FRAME_SIZE"
  have "i \<in> {0, 1, 2, 3}" using Cons.prems(2) by (auto simp: GICR_NUM_CPUS_def)
  then have n: "unat ?b + unat GICR_FRAME_SIZE \<le> 2 ^ 48" by (auto simp: map_constants)
  have "supplied (range_cost ?b GICR_FRAME_SIZE + (gicr_cost xs + k)) P r s"
    using Cons.prems(1) by (simp add: gicr_cost_def add.assoc)
  note first = map_range_supplied [OF this n]
  show ?case
    unfolding map_gicr.simps Let_def by (rule gives_bindE [OF first], rule Cons.IH) (use Cons.prems(2) in simp_all)
qed

lemma kern_map_supplied:
  assumes "banked (kern_cost + k) st P"
  shows "gives (\<lambda>(mp, st'). supplied k P (root mp) st') (kern_map_create as st)"
proof -
  let ?c = "range_cost CODE_0 (MEM_END + 1 - CODE_0)" and ?u = "range_cost UART_PA_BASE UART_PA_SIZE"
  let ?d = "range_cost GICD_PA_BASE GICD_PA_SIZE" and ?g = "gicr_cost [0..<GICR_NUM_CPUS]"
  have code: "gives (supplied j P r) (map_range_pages r CODE_0 CODE_0 (MEM_END + 1 - CODE_0) PTE_KERN_RWX s)"
    if "supplied (?c + j) P r s" for r s j by (rule map_range_supplied [OF that]) (simp add: map_constants)
  have uart: "gives (supplied j P r) (map_uart r s)" if "supplied (?u + j) P r s" for r s j
    unfolding map_uart_def by (rule map_range_supplied [OF that]) (simp add: map_constants)
  have gicd: "gives (supplied j P r) (map_range_pages r GICD_PA_BASE GICD_PA_BASE GICD_PA_SIZE PTE_DEV_RW_G s)"
    if "supplied (?d + j) P r s" for r s j by (rule map_range_supplied [OF that]) (simp add: map_constants)
  have b: "gives (supplied k P r) (build_kernel_map r st1)" if "supplied (?c + (?u + (?d + (?g + k)))) P r st1" for r st1
    unfolding build_kernel_map_def map_gic_def
    by (rule gives_bindE [OF code [OF that]], rule gives_bindE [OF uart], assumption, rule gives_bindE [OF gicd], assumption,
        rule gicr_supplied) simp_all
  have "kern_cost + k = Suc (?c + (?u + (?d + (?g + k))))" unfolding kern_cost_def by linarith
  then have "banked (Suc (?c + (?u + (?d + (?g + k))))) st P" using assms by metis
  note root = pt_root_new_supplied [OF this]
  show ?thesis
    unfolding kern_map_create_def
    by (rule gives_bindE [OF root], unfold split_paired_all prod.case, rule gives_bindE [OF b]) simp_all
qed

lemma proc_map_supplied:
  assumes "banked (proc_cost kend base len + k) st P" "unat kend \<le> 2 ^ 48"
  shows "gives (\<lambda>(mp, st'). supplied k P (root mp) st') (proc_map_create kend base len as st)"
proof -
  let ?low = "min len CODE_0" and ?k = "min base kend"
  let ?m = "range_cost MEM_0 (MEM_END + 1 - MEM_0)" and ?u = "range_cost UART_PA_BASE UART_PA_SIZE"
  let ?c = "if CODE_0 < min base kend then range_cost CODE_0 (min base kend - CODE_0) else 0"
  have eqs: "(if len < CODE_0 then len else CODE_0) = ?low" "(if base < kend then base else kend) = ?k"
    by (auto simp: min_def)
  have "unat ?low \<le> unat CODE_0" by (simp add: word_le_nat_alt [symmetric])
  then have n1: "unat (0 :: u64) + unat ?low \<le> 2 ^ 48" by (simp add: map_constants)
  have "unat ?k \<le> unat kend" by (simp add: word_le_nat_alt [symmetric])
  then have n2: "unat CODE_0 + unat (?k - CODE_0) \<le> 2 ^ 48" if "?k > CODE_0"
    using that assms(2) unat_sub [of CODE_0 ?k] by (simp add: word_less_nat_alt word_le_nat_alt)
  have code: "gives (supplied j P r) (if ?k > CODE_0 then map_range_pages r CODE_0 CODE_0 (?k - CODE_0) PTE_KERN_RWX s else Inr s)"
    if "supplied (?c + j) P r s" for r s j
  proof (cases "?k > CODE_0")
    case True
    then have "supplied (range_cost CODE_0 (?k - CODE_0) + j) P r s" using that by (simp only: if_True)
    from map_range_supplied [OF this n2 [OF True]] show ?thesis using True by (simp only: if_True)
  next
    case False
    then show ?thesis using that by (simp only: if_False add_0 gives_Inr)
  qed
  have mem: "gives (supplied j P r) (map_range_pages r MEM_0 MEM_0 (MEM_END + 1 - MEM_0) PTE_KERN_RWX s)"
    if "supplied (?m + j) P r s" for r s j by (rule map_range_supplied [OF that]) (simp add: map_constants)
  have uart: "gives (supplied j P r) (map_uart r s)" if "supplied (?u + j) P r s" for r s j
    unfolding map_uart_def by (rule map_range_supplied [OF that]) (simp add: map_constants)
  have b: "gives (supplied k P r) (build_process_map kend r base len st1)"
    if "supplied (range_cost 0 ?low + (?c + (?m + (?u + k)))) P r st1" for r st1
    unfolding build_process_map_def Let_def eqs
    by (rule gives_bindE [OF map_range_supplied [OF that n1]], rule gives_bindE [OF code], assumption,
        rule gives_bindE [OF mem], assumption, rule uart)
  have "proc_cost kend base len + k = Suc (range_cost 0 ?low + (?c + (?m + (?u + k))))"
    unfolding proc_cost_def by linarith
  then have "banked (Suc (range_cost 0 ?low + (?c + (?m + (?u + k))))) st P" using assms(1) by metis
  note root = pt_root_new_supplied [OF this]
  show ?thesis
    unfolding proc_map_create_def
    by (rule gives_bindE [OF root], unfold split_paired_all prod.case, rule gives_bindE [OF b]) simp_all
qed

end

section \<open>The stock of the kernel's heap\<close>

text \<open>
  A page takes at most 8204 bytes of a free block: the gap in front of it, the header and the page. A free block of
  that many bytes for each of \<open>n\<close> pages is enough for \<open>n\<close> pages.
\<close>

definition roomy :: "nat \<Rightarrow> blocks \<Rightarrow> bool" where
  "roomy n bs \<longleftrightarrow> n = 0 \<or> (\<exists>k. (k, False) \<in> set bs \<and> 8204 * n \<le> k)"

definition page_stock :: "nat \<Rightarrow> nat \<Rightarrow> pst \<Rightarrow> u64 set \<Rightarrow> bool" where
  "page_stock base n st P \<longleftrightarrow> (\<exists>bs. alloc_inv base bs (fst st) (snd st) \<and> slivers_ok base bs \<and> roomy n bs \<and>
     (\<forall>p \<in> P. aligned p \<and> (\<exists>l \<ge> 4096. (unat p, l) \<in> used_regions base bs)))"

lemma gap_page: "gap 12 c < 4096"
  using misfit_less [of 12 c] by (simp add: gap_def)

lemma roomy_carved:
  assumes "roomy (Suc n) (xs @ (k, False) # ys)"
  shows "roomy n (xs @ carved (gap 12 c) 4108 k @ ys)"
proof -
  obtain j where j: "(j, False) \<in> set (xs @ (k, False) # ys)" "8204 * Suc n \<le> j"
    using assms by (auto simp: roomy_def)
  show ?thesis
  proof (cases "(j, False) \<in> set xs \<union> set ys \<or> n = 0")
    case True
    then show ?thesis using j(2) by (auto simp: roomy_def)
  next
    case False
    then have k: "k = j" using j(1) by auto
    then have "4108 + 40 \<le> k - gap 12 c" "8204 * n \<le> k - gap 12 c - 4108" using j(2) False gap_page [of c] by auto
    moreover from this(1) have "(k - gap 12 c - 4108, False) \<in> set (carved (gap 12 c) 4108 k)" by (simp add: carved_def)
    ultimately show ?thesis unfolding roomy_def by auto
  qed
qed

lemma page_stock_new:
  assumes "page_stock base (Suc n) (a, m) P"
  shows "\<exists>p st'. pt_alloc_page_or_die (a, m) = Inr (p, st') \<and> page_stock base n st' (insert p P)"
proof -
  obtain bs where inv: "alloc_inv base bs a m" and sl: "slivers_ok base bs" and rm: "roomy (Suc n) bs"
    and P: "\<And>p. p \<in> P \<Longrightarrow> aligned p \<and> (\<exists>l \<ge> 4096. (unat p, l) \<in> used_regions base bs)"
    using assms by (auto simp: page_stock_def)
  show ?thesis
  proof (rule page_alloc [OF inv sl])
    assume small: "\<And>xs n ys. bs = xs @ (n, False) # ys \<Longrightarrow> n < gap 12 (base + total xs) + 4108"
    obtain j where "(j, False) \<in> set bs" "8204 * Suc n \<le> j" using rm by (auto simp: roomy_def)
    moreover from this(1) obtain xs ys where "bs = xs @ (j, False) # ys" by (auto simp: in_set_conv_decomp)
    ultimately have False using small [of xs j ys] gap_page [of "base + total xs"] by simp
    then show ?thesis ..
  next
    fix xs k ys p l a' m'
    let ?bs' = "xs @ carved (gap 12 (base + total xs)) 4108 k @ ys"
    assume A: "pt_alloc_page_or_die (a, m) = Inr (p, a', m')" "bs = xs @ (k, False) # ys" "aligned p" "4096 \<le> l"
      "alloc_inv base ?bs' a' m'" "slivers_ok base ?bs'" "used_regions base ?bs' = insert (unat p, l) (used_regions base bs)"
    have "\<forall>q \<in> insert p P. aligned q \<and> (\<exists>l \<ge> 4096. (unat q, l) \<in> used_regions base ?bs')"
      using P A(3,4,7) by blast
    then have "page_stock base n (a', m') (insert p P)"
      unfolding page_stock_def fst_conv snd_conv using A(5,6) roomy_carved rm [unfolded A(2)] by blast
    then show ?thesis using A(1) by blast
  qed
qed

interpretation kbank: page_bank "page_owned base" "page_stock base" for base
proof
  fix n st P k a m t i d
  show "page_owned base st P" if "page_stock base n st P" using that unfolding page_stock_def page_owned_def by blast
  show "page_stock base k st P" if s: "page_stock base n st P" "k \<le> n"
  proof -
    have "roomy n bs \<Longrightarrow> roomy k bs" for bs using s(2) unfolding roomy_def by fastforce
    then show ?thesis using s(1) unfolding page_stock_def by blast
  qed
  show "\<exists>p st'. pt_alloc_page_or_die st = Inr (p, st') \<and> page_stock base n st' (insert p P)" if "page_stock base (Suc n) st P"
    using page_stock_new [of base n "fst st" "snd st" P] that by simp
  show "page_stock base n (a, set_pte t i d m) P" if "page_stock base n (a, m) P" "t \<in> P" "i < 512"
    using that pte_write_inv unfolding page_stock_def fst_conv snd_conv by blast
qed

end
