(* ===== verification/Mmu_Props.thy ===== *)
theory Mmu_Props
  imports Mmu_Free Mmu_Room
begin

text \<open>
  Properties of the page tables: what the maps of a process and of the kernel translate, that a heap with enough
  pages gets one, and that destroying a map undoes making it.
\<close>

section \<open>Address spaces\<close>

text \<open>
  C15: a process gets the address space it should have and nothing else. From a heap whose pages \<open>P\<close> are in
  use, \<open>proc_map_create\<close> either stops at the assertion that finds no page, or returns a map with the given
  identifier that translates every 48-bit address as follows and faults on every other: the console's page,
  the memory window and the kernel's code to themselves, the low addresses to the process image. The
  pages in use before, other maps among them, are as they were, and the heap is in order. With three pages to
  be had for every two megabytes a range touches, and one for the root, it does return a map.
\<close>

theorem proc_map_correct:
  assumes "page_owned hb st P" "aligned base" "unat base + unat len + 4096 \<le> 2 ^ 48" "unat kend + 4096 \<le> 2 ^ 48"
  shows "outcome (\<lambda>(mp, st'). asid mp = as \<and> l0_pa (root mp) = l0 (root mp) \<and> unchanged P (snd st) (snd st') \<and>
      page_owned hb st' (P \<union> set (tabs 3 (snd st') (l0 (root mp)))) \<and> set (tabs 3 (snd st') (l0 (root mp))) \<inter> P = {} \<and>
      (\<forall>va < 2 ^ 48. translate mp st' va = proc_space kend base len va))
    (proc_map_create kend base len as st) \<and>
   (page_stock hb (proc_cost kend base len) st P \<longrightarrow> (\<exists>x. proc_map_create kend base len as st = Inr x))"
proof
  have k: "unat kend \<le> 2 ^ 48" using assms(4) by simp
  from kpages.proc_map_ok [OF assms(1) k, of base len as]
  show "outcome (\<lambda>(mp, st'). asid mp = as \<and> l0_pa (root mp) = l0 (root mp) \<and> unchanged P (snd st) (snd st') \<and>
      page_owned hb st' (P \<union> set (tabs 3 (snd st') (l0 (root mp)))) \<and> set (tabs 3 (snd st') (l0 (root mp))) \<inter> P = {} \<and>
      (\<forall>va < 2 ^ 48. translate mp st' va = proc_space kend base len va))
    (proc_map_create kend base len as st)"
    unfolding outcome_def kpages.built_def kpages.tree_def translate_def
    using proc_desc_space [OF assms(2-4)] by (auto split: sum.splits)
  show "page_stock hb (proc_cost kend base len) st P \<longrightarrow> (\<exists>x. proc_map_create kend base len as st = Inr x)"
    using kbank.proc_map_supplied [of hb kend base len 0 st P as] k by (auto simp: gives_def)
qed

text \<open>The kernel's heap after start-up has pages for more than two thousand tables.\<close>

lemma kernel_heap_stock: "page_stock 0x51021040 2028 (kernel_heap m) {}"
proof -
  have "slivers_ok 0x51021040 [(0xFDEFBF, False)]" "roomy 2028 [(0xFDEFBF, False)]"
    by (simp_all add: slivers_ok_def gap_def misfit_def roomy_def)
  then show ?thesis using kernel_heap_inv [of m] unfolding page_stock_def by blast
qed

lemma kern_cost_eq: "kern_cost = 67"
  by (simp add: kern_cost_def gicr_cost_def range_cost_def map_constants upt_rec)

lemma demo_proc_cost: "proc_cost 0x50100000 0x50200000 0x8000 = 34"
  by (simp add: proc_cost_def range_cost_def map_constants UART_PA_BASE_def UART_PA_SIZE_def min_def)

lemma demo_map: "\<exists>mp st'. proc_map_create 0x50100000 0x50200000 0x8000 1 (kernel_heap (\<lambda>_. 0)) = Inr (mp, st')"
proof -
  have "page_stock 0x51021040 (34 + 0) (kernel_heap (\<lambda>_. 0)) {}"
    by (rule kbank.banked_less [OF kernel_heap_stock]) simp
  from kbank.proc_map_supplied [OF this [folded demo_proc_cost], of 1] show ?thesis by (auto simp: gives_def)
qed

theorem proc_map_correct_witness:
  "(\<exists>mp st'. proc_map_create 0x50100000 0x50200000 0x8000 1 (kernel_heap (\<lambda>_. 0)) = Inr (mp, st') \<and> asid mp = 1 \<and>
     list_all (\<lambda>va. translate mp st' va = proc_space 0x50100000 0x50200000 0x8000 va)
      [0, 0x7FFF, 0x8000, 0x50000000, 0x51000000, 0x09000000]) \<and>
   map (proc_space 0x50100000 0x50200000 0x8000) [0, 0x7FFF, 0x8000, 0x50000000] =
     [Some (0x50200000, PTE_PROC_RWX), Some (0x50207FFF, PTE_PROC_RWX), None, Some (0x50000000, PTE_KERN_RWX)]"
proof
  have al: "aligned 0x50200000" by (simp add: aligned_nat)
  have "page_stock 0x51021040 (proc_cost 0x50100000 0x50200000 0x8000) (kernel_heap (\<lambda>_. 0)) {}"
    unfolding demo_proc_cost by (rule kbank.banked_less [OF kernel_heap_stock]) simp
  with proc_map_correct [OF kernel_heap_owned al, of "0x8000" "0x50100000" 1 "\<lambda>_. 0"]
  show "\<exists>mp st'. proc_map_create 0x50100000 0x50200000 0x8000 1 (kernel_heap (\<lambda>_. 0)) = Inr (mp, st') \<and> asid mp = 1 \<and>
     list_all (\<lambda>va. translate mp st' va = proc_space 0x50100000 0x50200000 0x8000 va)
      [0, 0x7FFF, 0x8000, 0x50000000, 0x51000000, 0x09000000]"
    unfolding outcome_def by (auto split: sum.splits)
  show "map (proc_space 0x50100000 0x50200000 0x8000) [0, 0x7FFF, 0x8000, 0x50000000] =
     [Some (0x50200000, PTE_PROC_RWX), Some (0x50207FFF, PTE_PROC_RWX), None, Some (0x50000000, PTE_KERN_RWX)]"
    by (simp add: proc_space_def map_constants page_ceil_def min_def)
qed

text \<open>
  The kernel's map: code and memory windows, console and interrupt controller at their own addresses,
  nothing else.
\<close>

theorem kern_map_correct:
  assumes "page_owned hb st P"
  shows "outcome (\<lambda>(mp, st'). asid mp = as \<and> l0_pa (root mp) = l0 (root mp) \<and> unchanged P (snd st) (snd st') \<and>
      page_owned hb st' (P \<union> set (tabs 3 (snd st') (l0 (root mp)))) \<and> set (tabs 3 (snd st') (l0 (root mp))) \<inter> P = {} \<and>
      (\<forall>va < 2 ^ 48. translate mp st' va = kern_space va))
    (kern_map_create as st)"
  using kpages.kern_map_ok [OF assms, of as]
  unfolding outcome_def kpages.built_def kpages.tree_def translate_def
  using kern_desc_space by (auto split: sum.splits)

section \<open>Destroying a map\<close>

lemma kernel_page_heap: "page_heap 0x51021040 0x51021040 {} m0 (kernel_heap m) {}"
proof -
  have "slivers_ok 0x51021040 [(0xFDEFBF, False)]" "gap 12 0x51021040 \<noteq> 0"
    by (simp_all add: slivers_ok_def gap_def misfit_def)
  then have "heap_shape 0x51021040 0x51021040 {} len {} [(0xFDEFBF, False)]" for len
    by (auto simp: heap_shape_def low_free_def Cons_eq_append_conv)
  then show ?thesis using kernel_heap_inv [of m] unfolding page_heap_def heap_shape_def by auto
qed

text \<open>
  Destroying a map gives back its tables and nothing else. On a heap with the pages \<open>P\<close> in use, the tables
  of the map among them and all different, \<open>mmu_map_destroy\<close> returns a cleared map; afterwards exactly the
  other pages of \<open>P\<close> and the blocks \<open>Q\<close> are in use, with the contents they had.
\<close>

theorem mmu_map_destroy_correct:
  assumes "page_heap base c Q m0 st P" "distinct (tabs 3 (snd st) (l0 (root mp)))" "set (tabs 3 (snd st) (l0 (root mp))) \<subseteq> P"
  shows "\<exists>st'. mmu_map_destroy mp st = Inr (\<lparr>root = \<lparr>l0 = 0, l0_pa = 0\<rparr>, asid = 0\<rparr>, st') \<and>
    page_heap base c Q m0 st' (P - set (tabs 3 (snd st) (l0 (root mp)))) \<and>
    unchanged (P - set (tabs 3 (snd st) (l0 (root mp)))) (snd st) (snd st')"
  using kpool.destroy_ok [of base c Q m0 st P mp] assms by (simp add: kpool.tree_def)

theorem mmu_map_destroy_correct_witness:
  "\<exists>mp st1 st2. proc_map_create 0x50100000 0x50200000 0x8000 1 (kernel_heap (\<lambda>_. 0)) = Inr (mp, st1) \<and>
    page_heap 0x51021040 0x51021040 {} (\<lambda>_. 0) st1 (set (tabs 3 (snd st1) (l0 (root mp)))) \<and>
    mmu_map_destroy mp st1 = Inr (\<lparr>root = \<lparr>l0 = 0, l0_pa = 0\<rparr>, asid = 0\<rparr>, st2) \<and>
    page_heap 0x51021040 0x51021040 {} (\<lambda>_. 0) st2 {}"
proof -
  obtain mp st1 where c: "proc_map_create 0x50100000 0x50200000 0x8000 1 (kernel_heap (\<lambda>_. 0)) = Inr (mp, st1)"
    using demo_map by blast
  have h: "page_heap 0x51021040 0x51021040 {} (\<lambda>_. 0) st1 (set (tabs 3 (snd st1) (l0 (root mp))))"
    "distinct (tabs 3 (snd st1) (l0 (root mp)))"
    using kpool.proc_map_ok [OF kernel_page_heap, of "0x50100000" "\<lambda>_. 0" "\<lambda>_. 0" "0x50200000" "0x8000" 1] c
    by (auto simp: outcome_def kpool.built_def kpool.tree_def)
  show ?thesis using mmu_map_destroy_correct [OF h subset_refl] c h(1) by auto
qed

text \<open>
  C16: making a map and destroying it is a round trip on the heap: after \<open>proc_map_create\<close> returns,
  destroying its map returns and leaves the heap with the blocks in use that it had
  before, and their contents.
\<close>

theorem proc_map_roundtrip:
  assumes "page_heap base c Q m0 st P" "unat kend \<le> 2 ^ 48"
  shows "outcome (\<lambda>(mp, st1). \<exists>st2. mmu_map_destroy mp st1 = Inr (\<lparr>root = \<lparr>l0 = 0, l0_pa = 0\<rparr>, asid = 0\<rparr>, st2) \<and>
      page_heap base c Q m0 st2 P \<and> unchanged P (snd st) (snd st2))
    (proc_map_create kend pbase len as st)"
proof -
  have "\<exists>st2. mmu_map_destroy mp st1 = Inr (\<lparr>root = \<lparr>l0 = 0, l0_pa = 0\<rparr>, asid = 0\<rparr>, st2) \<and>
      page_heap base c Q m0 st2 P \<and> unchanged P (snd st) (snd st2)"
    if b: "kpool.built base c Q m0 (root mp) P st f st1" for mp st1 f
  proof -
    let ?T = "set (tabs 3 (snd st1) (l0 (root mp)))"
    have T: "kpool.tree base c Q m0 3 st1 (P \<union> ?T) (l0 (root mp))" "?T \<inter> P = {}" "unchanged P (snd st) (snd st1)"
      using b unfolding kpool.built_def by blast+
    have "(P \<union> ?T) - ?T = P" using T(2) by blast
    with kpool.destroy_ok [OF T(1)] show ?thesis using unchanged_trans [OF T(3)] by auto
  qed
  with kpool.proc_map_ok [OF assms, of pbase len as] show ?thesis
    unfolding outcome_def by (auto split: sum.splits)
qed

theorem proc_map_roundtrip_witness:
  "\<exists>mp st1 st2. proc_map_create 0x50100000 0x50200000 0x8000 1 (kernel_heap (\<lambda>_. 0)) = Inr (mp, st1) \<and>
    mmu_map_destroy mp st1 = Inr (\<lparr>root = \<lparr>l0 = 0, l0_pa = 0\<rparr>, asid = 0\<rparr>, st2) \<and>
    page_heap 0x51021040 0x51021040 {} (\<lambda>_. 0) st2 {}"
  using proc_map_roundtrip [OF kernel_page_heap, of "0x50100000" "\<lambda>_. 0" "\<lambda>_. 0" "0x50200000" "0x8000" 1] demo_map
  by (auto simp: outcome_def)

end
