(* ===== verification/Timer.thy ===== *)
theory Timer
  imports Janus_Prelude
begin

text \<open>
  The clock and the EL1 physical timer of \<^verbatim>\<open>rtprog/timer.c\<close>. The counter \<open>CNTPCT_EL0\<close> is
  hardware: its successive readings are a function of the number of reads, fixed in the
  state, about which nothing is assumed unless a lemma says so. The compare value and the
  control word of the timer are state.
\<close>

section \<open>State\<close>

record timer =
  t_cntpct :: "nat \<Rightarrow> u64"  \<comment> \<open>what the n-th read of the counter returns\<close>
  t_reads :: nat
  t_cntfrq_el0 :: u64       \<comment> \<open>the hardware's frequency register\<close>
  t_cntfrq :: u64           \<comment> \<open>\<open>g_cntfrq\<close>\<close>
  t_cval :: u64             \<comment> \<open>\<open>CNTP_CVAL_EL0\<close>\<close>
  t_ctl :: u32              \<comment> \<open>\<open>CNTP_CTL_EL0\<close>\<close>
  t_next_cval :: u64        \<comment> \<open>\<open>g_next_cval\<close>\<close>
  t_period :: u64           \<comment> \<open>\<open>g_period_ticks\<close>\<close>

section \<open>Operations\<close>

definition timebase_init :: "timer \<Rightarrow> timer" where
  "timebase_init t = t\<lparr>t_cntfrq := t_cntfrq_el0 t\<rparr>"

definition time_now_ticks :: "timer \<Rightarrow> u64 \<times> timer" where
  "time_now_ticks t = (t_cntpct t (t_reads t), t\<lparr>t_reads := t_reads t + 1\<rparr>)"

definition ticks_from_ns :: "timer \<Rightarrow> u64 \<Rightarrow> u64" where
  "ticks_from_ns t ns =
     (let sec = ns div 1000000000;
          rem = ns mod 1000000000;
          r = sec * t_cntfrq t;
          num = rem * t_cntfrq t + 500000000
      in r + num div 1000000000)"

definition ticks_from_us :: "timer \<Rightarrow> u64 \<Rightarrow> u64" where
  "ticks_from_us t us =
     (let sec = us div 1000000;
          rem = us mod 1000000;
          r = sec * t_cntfrq t;
          num = rem * t_cntfrq t + 500000
      in r + num div 1000000)"

definition ns_from_ticks :: "timer \<Rightarrow> u64 \<Rightarrow> u64" where
  "ns_from_ticks t v =
     (let sec = v div t_cntfrq t;
          rem = v mod t_cntfrq t;
          ns = sec * 1000000000;
          num = rem * 1000000000
      in ns + num div t_cntfrq t)"

definition us_from_ticks :: "timer \<Rightarrow> u64 \<Rightarrow> u64" where
  "us_from_ticks t v =
     (let sec = v div t_cntfrq t;
          rem = v mod t_cntfrq t;
          us = sec * 1000000;
          num = rem * 1000000
      in us + num div t_cntfrq t)"

definition time_now_ns :: "timer \<Rightarrow> u64 \<times> timer" where
  "time_now_ns t = (case time_now_ticks t of (v, t') \<Rightarrow> (ns_from_ticks t v, t'))"

definition time_now_us :: "timer \<Rightarrow> u64 \<times> timer" where
  "time_now_us t = (case time_now_ticks t of (v, t') \<Rightarrow> (us_from_ticks t v, t'))"

text \<open>The comparison with the present is signed: \<open>(s64)(deadline_ticks - now) <= 0\<close>.\<close>

definition timer_schedule_at_ticks :: "u64 \<Rightarrow> timer \<Rightarrow> u64 \<times> timer" where
  "timer_schedule_at_ticks deadline t =
     (let (now, t) = time_now_ticks t;
          deadline = (if sint (deadline - now) \<le> 0 then now + 1 else deadline);
          t = t\<lparr>t_cval := deadline\<rparr>;
          t = t\<lparr>t_ctl := push_bit 0 1 OR push_bit 1 0\<rparr>
      in (deadline, t))"

definition timer_cancel :: "timer \<Rightarrow> timer" where
  "timer_cancel t = t\<lparr>t_ctl := 0\<rparr>"

text \<open>
  The periodic task. \<open>gic_enable_ppi\<close> programs the interrupt controller and does not
  touch this state; the registered \<open>g_timer_func\<close> is an argument.
\<close>

definition start_periodic_task :: "u64 \<Rightarrow> timer \<Rightarrow> timer" where
  "start_periodic_task ticks t =
     (let t = t\<lparr>t_period := ticks\<rparr>;
          (now, t) = time_now_ticks t;
          t = t\<lparr>t_next_cval := now + ticks\<rparr>;
          t = t\<lparr>t_cval := t_next_cval t\<rparr>
      in t\<lparr>t_ctl := 1\<rparr>)"

definition start_periodic_task_freq :: "u64 \<Rightarrow> timer \<Rightarrow> timer" where
  "start_periodic_task_freq hz t =
     (let frq = t_cntfrq_el0 t;
          hz = (if hz = 0 then 1 else hz)
      in start_periodic_task (frq div hz) t)"

definition stop_periodic_task :: "timer \<Rightarrow> timer" where
  "stop_periodic_task t = t\<lparr>t_ctl := 0\<rparr>"

partial_function (option) skip_forward :: "u64 \<Rightarrow> u64 \<Rightarrow> u64 \<Rightarrow> u64 option" where
  "skip_forward now period nxt =
     (if nxt \<le> now then skip_forward now period (nxt + period) else Some nxt)"

declare skip_forward.simps [code]

definition timer_irq_handler :: "(timer \<Rightarrow> timer) \<Rightarrow> timer \<Rightarrow> timer res" where
  "timer_irq_handler g_timer_func t =
     (let nxt = t_next_cval t;
          t = g_timer_func t;
          period = t_period t;
          (now, t) = time_now_ticks t
      in case skip_forward now period nxt of
           None \<Rightarrow> Inl No_return
         | Some nxt' \<Rightarrow> Inr (t\<lparr>t_next_cval := nxt', t_cval := nxt'\<rparr>))"

section \<open>Conversions\<close>

lemma unat_mult_u64: "unat a * unat b < 2 ^ 64 \<Longrightarrow> unat (a * b :: u64) = unat a * unat b"
  by (simp add: unat_word_ariths)

lemma unat_add_u64: "unat a + unat b < 2 ^ 64 \<Longrightarrow> unat (a + b :: u64) = unat a + unat b"
  by (simp add: unat_word_ariths)

text \<open>
  The arithmetic both directions share: scaling by \<open>f / d\<close> in whole units plus a remainder
  is scaling the whole number.
\<close>

lemma scale_split:
  fixes v f d r :: nat
  assumes "0 < d"
  shows "v div d * f + (v mod d * f + r) div d = (v * f + r) div d"
proof -
  have "v * f + r = d * (v div d * f) + (v mod d * f + r)"
    by (metis add.assoc add_mult_distrib mult.assoc mult_div_mod_eq)
  then show ?thesis
    using assms by (metis div_mult_self4 less_not_refl)
qed


lemma u64_scale:
  fixes v f d r :: u64
  assumes d: "0 < unat d"
    and rem: "unat v mod unat d * unat f + unat r < 2 ^ 64"
    and res: "(unat v * unat f + unat r) div unat d < 2 ^ 64"
  shows "unat (v div d * f + (v mod d * f + r) div d) = (unat v * unat f + unat r) div unat d"
proof -
  let ?q = "unat v div unat d * unat f" and ?m = "unat v mod unat d * unat f"
  have split: "?q + (?m + unat r) div unat d = (unat v * unat f + unat r) div unat d"
    using scale_split [OF d] .
  have q: "unat (v div d * f) = ?q"
    using split res by (subst unat_mult_u64) (simp_all add: unat_div)
  have m: "unat (v mod d * f) = ?m"
    using rem by (subst unat_mult_u64) (simp_all add: unat_mod)
  have "unat (v mod d * f + r) = ?m + unat r"
    using rem m by (subst unat_add_u64) simp_all
  then have "unat ((v mod d * f + r) div d) = (?m + unat r) div unat d"
    by (simp add: unat_div)
  then show ?thesis
    using q split res by (subst unat_add_u64) simp_all
qed

lemma mod_mult_bound:
  fixes v d f r :: nat
  assumes "0 < d" "d * f + r < b"
  shows "v mod d * f + r < b"
proof -
  have "v mod d * f \<le> d * f"
    using assms(1) by (simp add: less_imp_le)
  then show ?thesis using assms(2) by linarith
qed

text \<open>
  C37: With a counter frequency below \<open>2^32\<close> Hz (the register has 32 bits) the conversions from
  nanoseconds and microseconds to ticks are the exact quotients rounded to nearest, as
  long as the result fits 64 bits: no intermediate product wraps.
\<close>

theorem ticks_from_time_exact:
  assumes "unat (t_cntfrq t) < 2 ^ 32"
    and "(unat ns * unat (t_cntfrq t) + 500000000) div 1000000000 < 2 ^ 64"
    and "(unat us * unat (t_cntfrq t) + 500000) div 1000000 < 2 ^ 64"
  shows "unat (ticks_from_ns t ns) = (unat ns * unat (t_cntfrq t) + 500000000) div 1000000000 \<and>
    unat (ticks_from_us t us) = (unat us * unat (t_cntfrq t) + 500000) div 1000000"
proof -
  have "unat ns mod 1000000000 * unat (t_cntfrq t) + 500000000 < 2 ^ 64"
    using assms(1) by (intro mod_mult_bound) simp_all
  then have "unat (ticks_from_ns t ns) =
      (unat ns * unat (t_cntfrq t) + 500000000) div 1000000000"
    using u64_scale [of "1000000000" ns "t_cntfrq t" "500000000"] assms(2)
    by (simp add: ticks_from_ns_def Let_def)
  moreover have "unat us mod 1000000 * unat (t_cntfrq t) + 500000 < 2 ^ 64"
    using assms(1) by (intro mod_mult_bound) simp_all
  then have "unat (ticks_from_us t us) = (unat us * unat (t_cntfrq t) + 500000) div 1000000"
    using u64_scale [of "1000000" us "t_cntfrq t" "500000"] assms(3)
    by (simp add: ticks_from_us_def Let_def)
  ultimately show ?thesis ..
qed

text \<open>A board's clock: 62.5 MHz, the counter advancing by 100 ticks between reads.\<close>

definition demo_timer :: timer where
  "demo_timer = \<lparr>t_cntpct = (\<lambda>n. of_nat (100 * n)), t_reads = 5, t_cntfrq_el0 = 62500000,
     t_cntfrq = 62500000, t_cval = 0, t_ctl = 0, t_next_cval = 120, t_period = 30\<rparr>"

theorem ticks_from_time_exact_witness:
  "unat (ticks_from_ns demo_timer 1000000008) = 62500001 \<and>
   unat (ticks_from_us demo_timer 3000000) = 187500000"
  using ticks_from_time_exact [of demo_timer 1000000008 3000000]
  by (simp add: demo_timer_def)

lemma from_ticks_scale:
  fixes v f u :: u64
  assumes "0 < f" "unat f * unat u < 2 ^ 64" "unat v * unat u div unat f < 2 ^ 64"
  shows "unat (v div f * u + (v mod f * u) div f) = unat v * unat u div unat f"
proof -
  have f: "0 < unat f" using assms(1) by (simp add: word_less_nat_alt)
  have "unat v mod unat f * unat u + unat (0 :: u64) < 2 ^ 64"
    using mod_mult_bound [OF f, of "unat u" 0 "2 ^ 64"] assms(2) by simp
  with u64_scale [OF f, of v u 0] assms(3) show ?thesis by simp
qed

text \<open>
  The conversions back are the exact quotients rounded down, and a duration in
  microseconds taken to ticks and back loses at most one microsecond and never gains
  one, with a counter of at least 1 MHz and below \<open>2^32\<close> Hz.
\<close>

theorem us_ticks_roundtrip:
  assumes f: "1000000 \<le> unat (t_cntfrq t)" "unat (t_cntfrq t) < 2 ^ 32"
    and us: "(unat us * unat (t_cntfrq t) + 500000) div 1000000 < 2 ^ 64"
  shows "unat (us_from_ticks t (ticks_from_us t us)) \<le> unat us \<and>
    unat us \<le> unat (us_from_ticks t (ticks_from_us t us)) + 1"
proof -
  let ?f = "unat (t_cntfrq t)" and ?u = "unat us"
  let ?k = "unat (ticks_from_us t us)"
  have "?u mod 1000000 * ?f + 500000 < 2 ^ 64"
    using f by (intro mod_mult_bound) simp_all
  then have k: "?k = (?u * ?f + 500000) div 1000000"
    using u64_scale [of "1000000" us "t_cntfrq t" "500000"] us
    by (simp add: ticks_from_us_def Let_def)
  then have k1: "?k * 1000000 \<le> ?u * ?f + 500000" and k2: "?u * ?f + 500000 < ?k * 1000000 + 1000000"
    using div_times_less_eq_dividend [of "?u * ?f + 500000" 1000000]
      dividend_less_div_times [of 1000000 "?u * ?f + 500000"] by simp_all
  have up: "?k * 1000000 div ?f \<le> ?u"
  proof -
    have "?k * 1000000 < (?u + 1) * ?f" using k1 f by (simp add: algebra_simps)
    then have "?k * 1000000 div ?f < ?u + 1" using f by (subst div_less_iff_less_mult) simp_all
    then show ?thesis by simp
  qed
  have low: "?u \<le> ?k * 1000000 div ?f + 1"
  proof -
    have "?u * ?f \<le> ?k * 1000000 + ?f" using k2 f by linarith
    then have "?u \<le> (?k * 1000000 + ?f) div ?f"
      using f by (simp add: less_eq_div_iff_mult_less_eq)
    moreover have "(?k * 1000000 + ?f) div ?f = ?k * 1000000 div ?f + 1"
      using f by (subst div_add_self2) simp_all
    ultimately show ?thesis by simp
  qed
  have "0 < t_cntfrq t" using f by (simp add: word_less_nat_alt)
  moreover have "?k * 1000000 div ?f < 2 ^ 64"
    using up unsigned_less [where 'a = nat, of us] by simp
  ultimately have "unat (us_from_ticks t (ticks_from_us t us)) = ?k * 1000000 div ?f"
    using from_ticks_scale [of "t_cntfrq t" 1000000 "ticks_from_us t us"] f
    by (simp add: us_from_ticks_def Let_def)
  with up low show ?thesis by simp
qed

theorem us_ticks_roundtrip_witness:
  "unat (us_from_ticks demo_timer (ticks_from_us demo_timer 12345)) \<le> 12345 \<and>
   12345 \<le> unat (us_from_ticks demo_timer (ticks_from_us demo_timer 12345)) + 1"
  using us_ticks_roundtrip [of demo_timer 12345] by (simp add: demo_timer_def)

section \<open>The compare register\<close>

lemma sint_pos_iff_u64: "0 < sint (w :: u64) \<longleftrightarrow> 0 < unat w \<and> unat w < 2 ^ 63"
proof -
  define n where "n = unat w"
  have u: "uint w = int n" by (simp add: n_def)
  have "int n < 2 ^ 64" unfolding u [symmetric] using uint_lt2p [of w] by simp
  then show ?thesis unfolding sint_cases_u64 u n_def [symmetric] by auto
qed

lemma timer_schedule_eval:
  "timer_schedule_at_ticks d t =
     (let now = t_cntpct t (t_reads t);
          d' = (if 0 < sint (d - now) then d else now + 1)
      in (d', t\<lparr>t_reads := t_reads t + 1, t_cval := d', t_ctl := 1\<rparr>))"
  by (simp add: timer_schedule_at_ticks_def time_now_ticks_def Let_def)

text \<open>
  Arming the timer always leaves the compare value strictly ahead of the counter
  reading it was computed from, with the timer enabled and unmasked, and returns the
  value it programmed. A deadline less than \<open>2^63\<close> ticks ahead is kept as it is; any other
  deadline, one in the past as one more than \<open>2^63\<close> ticks ahead, becomes the next tick.
\<close>

theorem timer_schedule_correct:
  "case timer_schedule_at_ticks d t of (d', t') \<Rightarrow>
     let now = t_cntpct t (t_reads t) in
     t_cval t' = d' \<and> t_ctl t' = 1 \<and> t_reads t' = t_reads t + 1 \<and>
     0 < sint (d' - now) \<and>
     d' = (if 0 < unat (d - now) \<and> unat (d - now) < 2 ^ 63 then d else now + 1)"
  unfolding timer_schedule_eval Let_def sint_pos_iff_u64 [symmetric] by simp

section \<open>The periodic handler\<close>

text \<open>
  The skipping loop adds the period until the deadline is ahead of the counter. It
  returns when the period is positive and a period past the counter does not wrap.
\<close>

lemma skip_forward_result:
  assumes "0 < unat p" "unat now + unat p < 2 ^ 64"
  shows "\<exists>r k. skip_forward now p nxt = Some r \<and> unat now < unat r \<and>
    unat r = unat nxt + k * unat p \<and> (unat nxt \<le> unat now \<longrightarrow> unat r \<le> unat now + unat p) \<and>
    (unat now < unat nxt \<longrightarrow> r = nxt)"
proof (induction "unat now + 1 - unat nxt" arbitrary: nxt rule: less_induct)
  case less
  show ?case
  proof (cases "unat nxt \<le> unat now")
    case True
    have add: "unat (nxt + p) = unat nxt + unat p"
      using True assms(2) by (intro unat_add_u64) simp
    have "unat now + 1 - unat (nxt + p) < unat now + 1 - unat nxt"
      using True assms(1) add by simp
    from less [OF this] obtain r k where r: "skip_forward now p (nxt + p) = Some r"
        "unat now < unat r" "unat r = unat (nxt + p) + k * unat p"
        "unat (nxt + p) \<le> unat now \<longrightarrow> unat r \<le> unat now + unat p"
        "unat now < unat (nxt + p) \<longrightarrow> r = nxt + p"
      by blast
    have "skip_forward now p nxt = Some r"
      using True r(1) by (subst skip_forward.simps) (simp add: word_le_nat_alt)
    moreover have "unat r = unat nxt + (k + 1) * unat p" using r(3) add by simp
    moreover have "unat r \<le> unat now + unat p"
      using r(4,5) add True by (cases "unat (nxt + p) \<le> unat now") auto
    ultimately show ?thesis using r(2) True by (metis not_le)
  next
    case False
    then have "skip_forward now p nxt = Some nxt"
      by (subst skip_forward.simps) (simp add: word_le_nat_alt)
    then show ?thesis using False by (intro exI [of _ nxt] exI [of _ 0]) simp
  qed
qed

lemma skip_forward_zero_period:
  assumes "skip_forward now p nxt = Some r" "p = 0"
  shows "\<not> nxt \<le> now"
proof -
  have "p = 0 \<longrightarrow> \<not> nxt \<le> now"
    using assms(1)
    by (rule skip_forward.raw_induct [where P = "\<lambda>now p nxt r. p = 0 \<longrightarrow> \<not> nxt \<le> now", rotated])
      (auto split: if_splits)
  with assms(2) show ?thesis by blast
qed

text \<open>The number of periods the handler adds: none before the deadline, else just enough to pass the counter.\<close>

definition periods_past :: "u64 \<Rightarrow> u64 \<Rightarrow> u64 \<Rightarrow> nat" where
  "periods_past now period next = (if now < next then 0 else (unat now - unat next) div unat period + 1)"

lemma periods_past_unique:
  assumes "0 < p" "n \<le> a" "a < n + k * p" "n + k * p \<le> a + (p :: nat)"
  shows "k = (a - n) div p + 1"
proof -
  obtain j where k: "k = Suc j" using assms(2,3) by (cases k) simp_all
  have "j * p \<le> a - n" "a - n < j * p + p" using assms(2-4) by (simp_all add: k)
  then have "(a - n) div p = j" using assms(1) by (intro div_nat_eqI) (simp_all add: mult.commute)
  then show ?thesis by (simp add: k)
qed

text \<open>
  C36: The periodic interrupt handler returns when the period is positive and a period past
  the counter does not wrap. The compare value is then the first point of the grid
  \<open>next, next + period, ...\<close> (over the naturals, with no wrap-around) strictly after the counter:
  \<open>next\<close> itself when it is still ahead, and otherwise \<open>(now - next) div period + 1\<close> periods later. The
  deadlines do not drift by the time the handler took, and no grid point after the counter is skipped.
\<close>

theorem timer_irq_handler_correct:
  assumes "t' = g_timer_func t" "now = t_cntpct t' (t_reads t')"
    and "0 < unat (t_period t')" "unat now + unat (t_period t') < 2 ^ 64"
  shows "\<exists>r. timer_irq_handler g_timer_func t = Inr (t'\<lparr>t_reads := t_reads t' + 1, t_next_cval := r, t_cval := r\<rparr>) \<and>
    unat r = unat (t_next_cval t) + periods_past now (t_period t') (t_next_cval t) * unat (t_period t') \<and>
    unat now < unat r \<and> (t_next_cval t \<le> now \<longrightarrow> unat r \<le> unat now + unat (t_period t'))"
proof -
  let ?p = "t_period t'" and ?n = "t_next_cval t"
  from skip_forward_result [OF assms(3,4), of ?n] obtain r k where
    r: "skip_forward now ?p ?n = Some r" "unat now < unat r" "unat r = unat ?n + k * unat ?p"
      "unat ?n \<le> unat now \<longrightarrow> unat r \<le> unat now + unat ?p" "unat now < unat ?n \<longrightarrow> r = ?n"
    by blast
  have "k * unat ?p = periods_past now ?p ?n * unat ?p"
  proof (cases "now < ?n")
    case True
    then show ?thesis using r(3,5) by (simp add: periods_past_def word_less_nat_alt)
  next
    case False
    then have "unat ?n \<le> unat now" by (simp add: word_less_nat_alt)
    then have "k = (unat now - unat ?n) div unat ?p + 1"
      using periods_past_unique [OF assms(3), of "unat ?n" "unat now" k] r(2-4) by simp
    then show ?thesis using False by (simp add: periods_past_def)
  qed
  moreover have "timer_irq_handler g_timer_func t = Inr (t'\<lparr>t_reads := t_reads t' + 1,
      t_next_cval := r, t_cval := r\<rparr>)"
    using assms(1,2) r(1) by (simp add: timer_irq_handler_def time_now_ticks_def Let_def)
  ultimately show ?thesis using r(2-4) by (auto simp: word_le_nat_alt)
qed

text \<open>The deadline 120 with period 30 at counter 500: thirteen periods later, at 510.\<close>

theorem timer_irq_handler_correct_witness:
  "timer_irq_handler (\<lambda>t. t) demo_timer = Inr (demo_timer\<lparr>t_reads := 6, t_next_cval := 510, t_cval := 510\<rparr>)"
proof -
  obtain r where r: "timer_irq_handler (\<lambda>t. t) demo_timer = Inr (demo_timer\<lparr>t_reads := 6, t_next_cval := r, t_cval := r\<rparr>)"
    "unat r = 510"
    using timer_irq_handler_correct [of demo_timer "\<lambda>t. t" demo_timer 500]
    by (auto simp: demo_timer_def periods_past_def)
  have "r = 510" using r(2) by (simp add: word_unat_eq_iff)
  then show ?thesis using r(1) by simp
qed

text \<open>
  With a period of zero, which \<open>start_periodic_task_freq\<close> computes for a rate above the
  counter frequency, the handler never leaves its loop once the deadline has passed.
\<close>

theorem timer_irq_handler_zero_period:
  assumes "t' = g_timer_func t" "t_period t' = 0" "t_next_cval t \<le> t_cntpct t' (t_reads t')"
  shows "timer_irq_handler g_timer_func t = Inl No_return"
proof -
  have "skip_forward (t_cntpct t' (t_reads t')) 0 (t_next_cval t) = None"
    using skip_forward_zero_period assms(3) by (metis not_Some_eq)
  then show ?thesis
    using assms by (simp add: timer_irq_handler_def time_now_ticks_def Let_def)
qed

theorem timer_irq_handler_zero_period_witness:
  "timer_irq_handler (\<lambda>t. t) (start_periodic_task_freq 100000000 demo_timer) = Inl No_return"
  using timer_irq_handler_zero_period [of _ "\<lambda>t. t" "start_periodic_task_freq 100000000 demo_timer"]
  by (simp add: demo_timer_def start_periodic_task_freq_def start_periodic_task_def
      time_now_ticks_def Let_def)

end
