(* ===== verification/Mailbox.thy ===== *)
theory Mailbox
  imports Janus_Prelude
begin

text \<open>
  The mailbox between the Linux module and the real-time core: the ring of
  \<^verbatim>\<open>shared/mailbox.h\<close>, the producer \<open>mpsc_push\<close> of \<^verbatim>\<open>kernelmod/rtmain.c\<close> and the consumer
  \<open>mpsc_pop\<close> of \<^verbatim>\<open>rtprog/rtprog.c\<close>. First the two operations run alone, as a bounded queue;
  then their interleaving, one access of the shared ring per step, with the producers
  serialised by \<open>sched_lock\<close>.
\<close>

section \<open>Data\<close>

definition TOJRT_ORDER :: nat where "TOJRT_ORDER = 12"
definition TOJRT_SIZE :: u32 where "TOJRT_SIZE = push_bit TOJRT_ORDER 1"
definition TOJRT_MASK :: u32 where "TOJRT_MASK = TOJRT_SIZE - 1"

record jrt_sched_req_t =
  rq_pc :: u64
  rq_prog_size :: u64
  rq_mem_req :: u64

record mpsc_ring =
  r_head :: u32
  r_tail :: u32
  r_flags :: "nat \<Rightarrow> u8"
  r_data :: "nat \<Rightarrow> jrt_sched_req_t"

definition slot :: "u32 \<Rightarrow> nat" where
  "slot t = unat (t AND TOJRT_MASK)"

section \<open>Operations\<close>

definition ipc_init :: "mpsc_ring \<Rightarrow> mpsc_ring" where
  "ipc_init r =
     (let r = r\<lparr>r_head := 0\<rparr>;
          r = r\<lparr>r_tail := 0\<rparr>
      in r\<lparr>r_flags := (\<lambda>i. if i < unat TOJRT_SIZE then 0 else r_flags r i)\<rparr>)"

definition mpsc_fetch_add_head_relaxed :: "mpsc_ring \<Rightarrow> u32 \<times> mpsc_ring" where
  "mpsc_fetch_add_head_relaxed r = (r_head r, r\<lparr>r_head := r_head r + 1\<rparr>)"

text \<open>
  \<open>mpsc_push\<close> run with nobody else at the ring: a full slot then stays full, so the
  spinning variant does not return. \<open>-11\<close> is \<open>-EAGAIN\<close>.
\<close>

definition mpsc_push :: "jrt_sched_req_t \<Rightarrow> bool \<Rightarrow> mpsc_ring \<Rightarrow> (int \<times> mpsc_ring) res" where
  "mpsc_push rec try_only r =
     (let (t, r) = mpsc_fetch_add_head_relaxed r;
          i = slot t
      in if r_flags r i \<noteq> 0 then (if try_only then Inr (-11, r) else Inl No_return)
         else
           (let r = r\<lparr>r_data := (r_data r)(i := rec)\<rparr>;
                r = r\<lparr>r_flags := (r_flags r)(i := 1)\<rparr>
            in Inr (0, r)))"

text \<open>The result of \<open>mpsc_pop\<close> with the record it copied out, if any.\<close>

definition mpsc_pop :: "mpsc_ring \<Rightarrow> (int \<times> jrt_sched_req_t option) \<times> mpsc_ring" where
  "mpsc_pop r =
     (let tl = r_tail r;
          i = slot tl
      in if r_flags r i = 0 then ((-11, None), r)
         else
           (let out = r_data r i;
                r = r\<lparr>r_flags := (r_flags r)(i := 0)\<rparr>
            in ((0, Some out), r\<lparr>r_tail := tl + 1\<rparr>)))"

section \<open>Slots\<close>

lemma slot_mod: "slot t = unat t mod 4096"
proof -
  have "TOJRT_MASK = mask 12"
    by (simp add: TOJRT_MASK_def TOJRT_SIZE_def TOJRT_ORDER_def mask_eq_exp_minus_1)
  then have "t AND TOJRT_MASK = take_bit 12 t" by (simp add: take_bit_eq_mask)
  then show ?thesis by (simp add: slot_def take_bit_eq_mod unat_mod)
qed

lemma unat_TOJRT_SIZE: "unat TOJRT_SIZE = 4096"
  by (simp add: TOJRT_SIZE_def TOJRT_ORDER_def)

lemma slot_less: "slot t < 4096"
  by (simp add: slot_mod)

text \<open>The ring size divides \<open>2^32\<close>, so slots go on in order where the tickets wrap.\<close>

lemma slot_add: "slot (t + of_nat i) = (slot t + i) mod 4096"
proof -
  have "unat (t + of_nat i) = (unat t + i mod 2 ^ 32) mod 2 ^ 32"
    by (simp add: unat_word_ariths unat_of_nat)
  then have "unat (t + of_nat i) mod 4096 = (unat t + i mod 2 ^ 32) mod 4096"
    by (simp add: mod_mod_cancel)
  also have "\<dots> = (unat t + i mod 2 ^ 32 mod 4096) mod 4096" by (simp add: mod_add_right_eq)
  also have "i mod 2 ^ 32 mod 4096 = i mod 4096" by (rule mod_mod_cancel) simp
  finally show ?thesis by (simp add: slot_mod mod_add_right_eq mod_add_left_eq)
qed

lemma mod_add_inj_le:
  fixes i j s m :: nat
  assumes "i \<le> j" "j < m" "(s + i) mod m = (s + j) mod m"
  shows "i = j"
proof -
  have "m dvd (s + j) - (s + i)"
    using assms(1,3) by (metis add_le_cancel_left mod_eq_dvd_iff_nat)
  then have "m dvd j - i" by simp
  moreover have "j - i < m" using assms(2) by simp
  ultimately show ?thesis using assms(1) by (metis diff_is_0_eq le_antisym nat_dvd_not_less neq0_conv)
qed

lemma slot_add_inj:
  assumes "i < 4096" "j < 4096" "slot (t + of_nat i) = slot (t + of_nat j)"
  shows "i = j"
  using assms mod_add_inj_le [of i j 4096 "slot t"] mod_add_inj_le [of j i 4096 "slot t"]
  by (cases "i \<le> j") (simp_all add: slot_add)

section \<open>The ring as a bounded queue\<close>

text \<open>
  \<open>ring_holds r q\<close>: the records from the tail on are \<open>q\<close>, their flags are set and the other
  flags are clear. The head is not part of it: a failed \<open>try_only\<close> push moves it.
\<close>

definition ring_holds :: "mpsc_ring \<Rightarrow> jrt_sched_req_t list \<Rightarrow> bool" where
  "ring_holds r q \<longleftrightarrow> length q \<le> 4096 \<and>
     (\<forall>i < 4096. r_flags r (slot (r_tail r + of_nat i)) = (if i < length q then 1 else 0)) \<and>
     (\<forall>i < length q. r_data r (slot (r_tail r + of_nat i)) = q ! i)"

definition ring_rep :: "mpsc_ring \<Rightarrow> jrt_sched_req_t list \<Rightarrow> bool" where
  "ring_rep r q \<longleftrightarrow> ring_holds r q \<and> r_head r = r_tail r + of_nat (length q)"

lemma ring_holdsD:
  assumes "ring_holds r q"
  shows "length q \<le> 4096"
    and "i < 4096 \<Longrightarrow> r_flags r (slot (r_tail r + of_nat i)) = (if i < length q then 1 else 0)"
    and "i < length q \<Longrightarrow> r_data r (slot (r_tail r + of_nat i)) = q ! i"
  using assms by (simp_all add: ring_holds_def)

lemma ring_holds_publish:
  assumes h: "ring_holds r q" and n: "length q < 4096"
  shows "ring_holds (r\<lparr>r_data := (r_data r)(slot (r_tail r + of_nat (length q)) := x),
    r_flags := (r_flags r)(slot (r_tail r + of_nat (length q)) := 1)\<rparr>) (q @ [x])"
  unfolding ring_holds_def
proof (intro conjI allI impI, goal_cases)
  case (2 i)
  then show ?case
    using ring_holdsD(2) [OF h, of i] slot_add_inj [of i "length q" "r_tail r"] n
    by (auto simp: less_Suc_eq)
next
  case (3 i)
  then show ?case
    using ring_holdsD(3) [OF h, of i] slot_add_inj [of i "length q" "r_tail r"] n
    by (auto simp: nth_append less_Suc_eq)
qed (use n in simp)

lemma ring_holds_consume:
  assumes h: "ring_holds r (x # q)"
  shows "ring_holds (r\<lparr>r_flags := (r_flags r)(slot (r_tail r) := 0), r_tail := r_tail r + 1\<rparr>) q"
  unfolding ring_holds_def
proof (intro conjI allI impI, goal_cases)
  case 1
  then show ?case using ring_holdsD(1) [OF h] by simp
next
  case (2 i)
  have s: "slot (r_tail r + 1 + of_nat i) = slot (r_tail r + of_nat (Suc i))"
    by (simp add: ac_simps)
  show ?case
  proof (cases "Suc i < 4096")
    case True
    then show ?thesis
      using ring_holdsD(2) [OF h, of "Suc i"] slot_add_inj [of "Suc i" 0 "r_tail r"] s by auto
  next
    case False
    then have "Suc i = 4096" using 2 by simp
    then have "slot (r_tail r + of_nat (Suc i)) = slot (r_tail r)"
      using slot_add [of "r_tail r" 4096] slot_less [of "r_tail r"] by simp
    then show ?thesis using s False ring_holdsD(1) [OF h] by simp
  qed
next
  case (3 i)
  have s: "slot (r_tail r + 1 + of_nat i) = slot (r_tail r + of_nat (Suc i))"
    by (simp add: ac_simps)
  show ?case using ring_holdsD(3) [OF h, of "Suc i"] 3 s by simp
qed

lemma ring_rep_init: "ring_rep (ipc_init r) []"
proof -
  have "r_flags (ipc_init r) (slot t) = 0" for t
    using slot_less [of t] by (simp add: ipc_init_def Let_def unat_TOJRT_SIZE)
  then show ?thesis by (simp add: ring_rep_def ring_holds_def ipc_init_def Let_def)
qed

lemma mpsc_push_room:
  assumes "ring_rep r q" "length q < 4096"
  obtains r' where "mpsc_push x try_only r = Inr (0, r')" "ring_rep r' (q @ [x])"
proof -
  let ?s = "slot (r_tail r + of_nat (length q))"
  let ?r = "r\<lparr>r_head := r_head r + 1, r_data := (r_data r)(?s := x), r_flags := (r_flags r)(?s := 1)\<rparr>"
  have h: "ring_holds r q" and hd: "r_head r = r_tail r + of_nat (length q)"
    using assms(1) by (simp_all add: ring_rep_def)
  have "r_flags r ?s = 0" using ring_holdsD(2) [OF h assms(2)] by simp
  then have "mpsc_push x try_only r = Inr (0, ?r)"
    by (simp add: mpsc_push_def mpsc_fetch_add_head_relaxed_def Let_def hd)
  moreover have "ring_rep ?r (q @ [x])"
    using ring_holds_publish [OF h assms(2), of x] hd
    by (simp add: ring_rep_def ring_holds_def)
  ultimately show thesis by (rule that)
qed

lemma mpsc_push_full:
  assumes "ring_rep r q" "length q = 4096"
  shows "mpsc_push x try_only r =
    (if try_only then Inr (-11, r\<lparr>r_head := r_head r + 1\<rparr>) else Inl No_return)"
proof -
  have h: "ring_holds r q" and hd: "r_head r = r_tail r + of_nat (length q)"
    using assms(1) by (simp_all add: ring_rep_def)
  have "slot (r_head r) = slot (r_tail r)"
    using slot_add [of "r_tail r" 4096] slot_less [of "r_tail r"] hd assms(2) by simp
  moreover have "r_flags r (slot (r_tail r)) = 1"
    using ring_holdsD(2) [OF h, of 0] assms(2) by simp
  ultimately show ?thesis
    by (simp add: mpsc_push_def mpsc_fetch_add_head_relaxed_def Let_def)
qed

lemma mpsc_pop_Nil:
  assumes "ring_holds r []"
  shows "mpsc_pop r = ((-11, None), r)"
  using ring_holdsD(2) [OF assms, of 0] by (simp add: mpsc_pop_def Let_def)

lemma mpsc_pop_Cons:
  assumes "ring_rep r (x # q)"
  obtains r' where "mpsc_pop r = ((0, Some x), r')" "ring_rep r' q"
proof -
  let ?r = "r\<lparr>r_flags := (r_flags r)(slot (r_tail r) := 0), r_tail := r_tail r + 1\<rparr>"
  have h: "ring_holds r (x # q)" using assms by (simp add: ring_rep_def)
  have "mpsc_pop r = ((0, Some x), ?r)"
    using ring_holdsD(2) [OF h, of 0] ring_holdsD(3) [OF h, of 0] by (simp add: mpsc_pop_def Let_def)
  moreover have "ring_rep ?r q"
    using ring_holds_consume [OF h] assms by (simp add: ring_rep_def)
  ultimately show thesis by (rule that)
qed

text \<open>The interface both sides program against: a bounded first-in first-out queue.\<close>

datatype 'a qop = Put 'a | Get

locale bounded_queue =
  fixes rep :: "'r \<Rightarrow> 'a list \<Rightarrow> bool"
    and bound :: nat
    and put :: "'a \<Rightarrow> 'r \<Rightarrow> 'r option"
    and get :: "'r \<Rightarrow> ('a \<times> 'r) option"
  assumes put_room: "rep r q \<Longrightarrow> length q < bound \<Longrightarrow> \<exists>r'. put x r = Some r' \<and> rep r' (q @ [x])"
    and put_full: "rep r q \<Longrightarrow> length q = bound \<Longrightarrow> put x r = None"
    and rep_bound: "rep r q \<Longrightarrow> length q \<le> bound"
    and get_Nil: "rep r [] \<Longrightarrow> get r = None"
    and get_Cons: "rep r (x # q) \<Longrightarrow> \<exists>r'. get r = Some (x, r') \<and> rep r' q"
begin

text \<open>A run of operations on the implementation, and on the list it represents.\<close>

fun run :: "'r \<Rightarrow> 'a qop list \<Rightarrow> 'a option list \<times> 'r" where
  "run r [] = ([], r)"
| "run r (Put x # ops) =
     (case put x r of None \<Rightarrow> run r ops | Some r' \<Rightarrow> run r' ops)"
| "run r (Get # ops) =
     (case get r of None \<Rightarrow> (case run r ops of (ys, r'') \<Rightarrow> (None # ys, r''))
      | Some (x, r') \<Rightarrow> (case run r' ops of (ys, r'') \<Rightarrow> (Some x # ys, r'')))"

fun spec_run :: "'a list \<Rightarrow> 'a qop list \<Rightarrow> 'a option list \<times> 'a list" where
  "spec_run q [] = ([], q)"
| "spec_run q (Put x # ops) = spec_run (if length q < bound then q @ [x] else q) ops"
| "spec_run [] (Get # ops) = (case spec_run [] ops of (ys, q') \<Rightarrow> (None # ys, q'))"
| "spec_run (x # q) (Get # ops) = (case spec_run q ops of (ys, q') \<Rightarrow> (Some x # ys, q'))"

lemma run_refines:
  "rep r q \<Longrightarrow> fst (run r ops) = fst (spec_run q ops) \<and> rep (snd (run r ops)) (snd (spec_run q ops))"
proof (induction q ops arbitrary: r rule: spec_run.induct)
  case (2 q x ops)
  show ?case
  proof (cases "length q < bound")
    case True
    then obtain r' where "put x r = Some r'" "rep r' (q @ [x])" using put_room 2 by blast
    then show ?thesis using 2(1) True by simp
  next
    case False
    then have "put x r = None" using put_full rep_bound 2(2) by (metis le_neq_implies_less)
    then show ?thesis using 2 False by simp
  qed
next
  case (3 ops)
  then show ?case using get_Nil [of r] by (auto split: prod.splits) (metis fst_conv snd_conv)+
next
  case (4 x q ops)
  obtain r' where "get r = Some (x, r')" "rep r' q" using get_Cons 4 by blast
  then show ?case using 4(1) by (auto split: prod.splits) (metis fst_conv snd_conv)+
qed simp

end

definition ring_put :: "jrt_sched_req_t \<Rightarrow> mpsc_ring \<Rightarrow> mpsc_ring option" where
  "ring_put x r = (case mpsc_push x False r of Inr (_, r') \<Rightarrow> Some r' | Inl _ \<Rightarrow> None)"

definition ring_get :: "mpsc_ring \<Rightarrow> (jrt_sched_req_t \<times> mpsc_ring) option" where
  "ring_get r = (case mpsc_pop r of ((_, Some x), r') \<Rightarrow> Some (x, r') | _ \<Rightarrow> None)"

interpretation mailbox: bounded_queue ring_rep 4096 ring_put ring_get
proof (unfold_locales, goal_cases)
  case (1 r q x)
  then show ?case by (metis mpsc_push_room ring_put_def sum.case(2) case_prod_conv)
next
  case (2 r q x)
  then show ?case by (simp add: ring_put_def mpsc_push_full)
next
  case (3 r q)
  then show ?case by (simp add: ring_rep_def ring_holds_def)
next
  case (4 r)
  then show ?case by (simp add: ring_get_def mpsc_pop_Nil ring_rep_def)
next
  case (5 r x q)
  then obtain r' where "mpsc_pop r = ((0, Some x), r')" "ring_rep r' q" by (rule mpsc_pop_Cons)
  then show ?case by (simp add: ring_get_def)
qed

section \<open>Producer and consumer interleaved\<close>

text \<open>
  The two cores run at the same time. A step is one access to the shared ring: the
  producer, which holds \<open>sched_lock\<close> from claiming its ticket until it has published,
  and the consumer. \<open>PClaimed\<close> is the spin loop of \<open>mpsc_push\<close>; the acquire loads and
  release stores of the source order the accesses as the steps do. \<open>sy_sent\<close> and
  \<open>sy_recv\<close> record what was published and what was taken.
\<close>

datatype producer =
    PIdle
  | PClaimed u32 jrt_sched_req_t
  | PWritable u32 jrt_sched_req_t
  | PWritten u32 jrt_sched_req_t

datatype consumer = CIdle | CSeen | CCopied jrt_sched_req_t | CCleared jrt_sched_req_t

record mbox =
  sy_ring :: mpsc_ring
  sy_prod :: producer
  sy_cons :: consumer
  sy_sent :: "jrt_sched_req_t list"
  sy_recv :: "jrt_sched_req_t list"

definition flag_at :: "mpsc_ring \<Rightarrow> u32 \<Rightarrow> u8" where
  "flag_at r t = r_flags r (slot t)"

definition set_flag :: "u32 \<Rightarrow> u8 \<Rightarrow> mpsc_ring \<Rightarrow> mpsc_ring" where
  "set_flag t v r = r\<lparr>r_flags := (r_flags r)(slot t := v)\<rparr>"

definition set_data :: "u32 \<Rightarrow> jrt_sched_req_t \<Rightarrow> mpsc_ring \<Rightarrow> mpsc_ring" where
  "set_data t x r = r\<lparr>r_data := (r_data r)(slot t := x)\<rparr>"

inductive push_step :: "mbox \<Rightarrow> mbox \<Rightarrow> bool" where
  claim: "sy_prod s = PIdle \<Longrightarrow> mpsc_fetch_add_head_relaxed (sy_ring s) = (t, r) \<Longrightarrow>
    push_step s (s\<lparr>sy_ring := r, sy_prod := PClaimed t x\<rparr>)"
| spin: "sy_prod s = PClaimed t x \<Longrightarrow> flag_at (sy_ring s) t \<noteq> 0 \<Longrightarrow> push_step s s"
| see_empty: "sy_prod s = PClaimed t x \<Longrightarrow> flag_at (sy_ring s) t = 0 \<Longrightarrow>
    push_step s (s\<lparr>sy_prod := PWritable t x\<rparr>)"
| store: "sy_prod s = PWritable t x \<Longrightarrow>
    push_step s (s\<lparr>sy_ring := set_data t x (sy_ring s), sy_prod := PWritten t x\<rparr>)"
| publish: "sy_prod s = PWritten t x \<Longrightarrow>
    push_step s (s\<lparr>sy_ring := set_flag t 1 (sy_ring s), sy_prod := PIdle,
                   sy_sent := sy_sent s @ [x]\<rparr>)"

inductive pop_step :: "mbox \<Rightarrow> mbox \<Rightarrow> bool" where
  miss: "sy_cons s = CIdle \<Longrightarrow> flag_at (sy_ring s) (r_tail (sy_ring s)) = 0 \<Longrightarrow> pop_step s s"
| see_full: "sy_cons s = CIdle \<Longrightarrow> flag_at (sy_ring s) (r_tail (sy_ring s)) \<noteq> 0 \<Longrightarrow>
    pop_step s (s\<lparr>sy_cons := CSeen\<rparr>)"
| copy: "sy_cons s = CSeen \<Longrightarrow>
    pop_step s (s\<lparr>sy_cons := CCopied (r_data (sy_ring s) (slot (r_tail (sy_ring s))))\<rparr>)"
| clear: "sy_cons s = CCopied x \<Longrightarrow>
    pop_step s (s\<lparr>sy_ring := set_flag (r_tail (sy_ring s)) 0 (sy_ring s), sy_cons := CCleared x\<rparr>)"
| advance: "sy_cons s = CCleared x \<Longrightarrow>
    pop_step s (s\<lparr>sy_ring := (sy_ring s)\<lparr>r_tail := r_tail (sy_ring s) + 1\<rparr>, sy_cons := CIdle,
                  sy_recv := sy_recv s @ [x]\<rparr>)"

inductive mbox_reach :: "mbox \<Rightarrow> bool" where
  start: "mbox_reach \<lparr>sy_ring = ipc_init r, sy_prod = PIdle, sy_cons = CIdle, sy_sent = [], sy_recv = []\<rparr>"
| push: "mbox_reach s \<Longrightarrow> push_step s s' \<Longrightarrow> mbox_reach s'"
| pop: "mbox_reach s \<Longrightarrow> pop_step s s' \<Longrightarrow> mbox_reach s'"

text \<open>
  The tail as the flags see it: between the release store of the flag and the store of the
  tail the consumer is done with its slot but \<open>tail\<close> still names it.
\<close>

definition etail :: "mbox \<Rightarrow> u32" where
  "etail s = (case sy_cons s of CCleared x \<Rightarrow> r_tail (sy_ring s) + 1 | _ \<Rightarrow> r_tail (sy_ring s))"

definition prod_ok :: "mbox \<Rightarrow> nat \<Rightarrow> bool" where
  "prod_ok s n \<longleftrightarrow>
     (case sy_prod s of
        PIdle \<Rightarrow> r_head (sy_ring s) = etail s + of_nat n
      | PClaimed t x \<Rightarrow> r_head (sy_ring s) = t + 1 \<and> t = etail s + of_nat n
      | PWritable t x \<Rightarrow> r_head (sy_ring s) = t + 1 \<and> t = etail s + of_nat n \<and> n < 4096
      | PWritten t x \<Rightarrow> r_head (sy_ring s) = t + 1 \<and> t = etail s + of_nat n \<and> n < 4096 \<and>
          r_data (sy_ring s) (slot t) = x)"

definition cons_ok :: "mbox \<Rightarrow> jrt_sched_req_t list \<Rightarrow> bool" where
  "cons_ok s q \<longleftrightarrow>
     (case sy_cons s of
        CIdle \<Rightarrow> sy_sent s = sy_recv s @ q
      | CSeen \<Rightarrow> sy_sent s = sy_recv s @ q \<and> q \<noteq> []
      | CCopied x \<Rightarrow> sy_sent s = sy_recv s @ q \<and> (\<exists>q'. q = x # q')
      | CCleared x \<Rightarrow> sy_sent s = sy_recv s @ x # q)"

definition mbox_inv :: "jrt_sched_req_t list \<Rightarrow> mbox \<Rightarrow> bool" where
  "mbox_inv q s \<longleftrightarrow> ring_holds ((sy_ring s)\<lparr>r_tail := etail s\<rparr>) q \<and> prod_ok s (length q) \<and> cons_ok s q"

lemmas mbox_defs = mbox_inv_def prod_ok_def cons_ok_def etail_def

lemma mbox_inv_start:
  "mbox_inv [] \<lparr>sy_ring = ipc_init r, sy_prod = PIdle, sy_cons = CIdle, sy_sent = [], sy_recv = []\<rparr>"
  using ring_rep_init [of r] by (simp add: mbox_defs ring_rep_def)

lemma ring_holds_frame:
  "ring_holds (r\<lparr>r_head := h, r_tail := t\<rparr>) q \<longleftrightarrow> ring_holds (r\<lparr>r_tail := t\<rparr>) q"
  by (simp add: ring_holds_def)

lemma ring_holds_set_data:
  assumes "ring_holds r q" "length q < 4096"
  shows "ring_holds (r\<lparr>r_data := (r_data r)(slot (r_tail r + of_nat (length q)) := x)\<rparr>) q"
  unfolding ring_holds_def
proof (intro conjI allI impI, goal_cases)
  case (3 i)
  then show ?case
    using ring_holdsD(3) [OF assms(1), of i] slot_add_inj [of i "length q" "r_tail r"] assms(2) by auto
qed (use assms in \<open>simp_all add: ring_holds_def\<close>)

lemma ring_holds_set_flag:
  assumes h: "ring_holds r q" and n: "length q < 4096"
    and d: "r_data r (slot (r_tail r + of_nat (length q))) = x"
  shows "ring_holds (r\<lparr>r_flags := (r_flags r)(slot (r_tail r + of_nat (length q)) := 1)\<rparr>) (q @ [x])"
proof -
  have "(r_data r)(slot (r_tail r + of_nat (length q)) := x) = r_data r" using d by auto
  then show ?thesis using ring_holds_publish [OF h n, of x] by simp
qed

lemma push_step_inv:
  assumes "push_step s s'" "mbox_inv q s"
  shows "\<exists>q'. mbox_inv q' s'"
  using assms
proof (induction rule: push_step.induct)
  case (claim s t r x)
  then have "mbox_inv q (s\<lparr>sy_ring := r, sy_prod := PClaimed t x\<rparr>)"
    by (auto simp: mbox_defs mpsc_fetch_add_head_relaxed_def ring_holds_frame
        ring_holds_def split: consumer.splits)
  then show ?case ..
next
  case (see_empty s t x)
  let ?r = "(sy_ring s)\<lparr>r_tail := etail s\<rparr>"
  have h: "ring_holds ?r q" and t: "t = etail s + of_nat (length q)"
    using see_empty by (simp_all add: mbox_inv_def prod_ok_def)
  have "length q \<noteq> 4096"
  proof
    assume l: "length q = 4096"
    then have "slot t = slot (etail s)"
      using slot_add [of "etail s" 4096] slot_less [of "etail s"] t by simp
    then show False
      using ring_holdsD(2) [OF h, of 0] see_empty(2) l by (simp add: flag_at_def)
  qed
  then have "length q < 4096" using ring_holdsD(1) [OF h] by simp
  then have "mbox_inv q (s\<lparr>sy_prod := PWritable t x\<rparr>)"
    using see_empty by (auto simp: mbox_defs split: consumer.splits)
  then show ?case ..
next
  case (store s t x)
  let ?r = "(sy_ring s)\<lparr>r_tail := etail s\<rparr>"
  have h: "ring_holds ?r q" and t: "t = etail s + of_nat (length q)" "length q < 4096"
    using store by (simp_all add: mbox_inv_def prod_ok_def)
  have "ring_holds ((set_data t x (sy_ring s))\<lparr>r_tail := etail s\<rparr>) q"
    using ring_holds_set_data [OF h t(2), of x] t(1) by (simp add: set_data_def ring_holds_def)
  then have "mbox_inv q (s\<lparr>sy_ring := set_data t x (sy_ring s), sy_prod := PWritten t x\<rparr>)"
    using store by (auto simp: mbox_defs set_data_def split: consumer.splits)
  then show ?case ..
next
  case (publish s t x)
  let ?r = "(sy_ring s)\<lparr>r_tail := etail s\<rparr>"
  have h: "ring_holds ?r q" and t: "t = etail s + of_nat (length q)" "length q < 4096"
    and d: "r_data (sy_ring s) (slot t) = x"
  proof -
    have "prod_ok s (length q)" "ring_holds ?r q" using publish(2) by (simp_all add: mbox_inv_def)
    then show "ring_holds ?r q" "t = etail s + of_nat (length q)" "length q < 4096"
      "r_data (sy_ring s) (slot t) = x"
      unfolding prod_ok_def publish(1) producer.case by blast+
  qed
  have "r_data ?r (slot (r_tail ?r + of_nat (length q))) = x" using d t(1) by simp
  note flag = ring_holds_set_flag [OF h t(2) this]
  have "(set_flag t 1 (sy_ring s))\<lparr>r_tail := etail s\<rparr> =
      ?r\<lparr>r_flags := (r_flags ?r)(slot (r_tail ?r + of_nat (length q)) := 1)\<rparr>"
    unfolding t(1) by (simp add: set_flag_def)
  then have "ring_holds ((set_flag t 1 (sy_ring s))\<lparr>r_tail := etail s\<rparr>) (q @ [x])"
    using flag by (simp only:)
  then have "mbox_inv (q @ [x]) (s\<lparr>sy_ring := set_flag t 1 (sy_ring s), sy_prod := PIdle,
      sy_sent := sy_sent s @ [x]\<rparr>)"
    using publish by (auto simp: mbox_defs set_flag_def split: consumer.splits)
  then show ?case ..
qed blast

lemma pop_step_inv:
  assumes "pop_step s s'" "mbox_inv q s"
  shows "\<exists>q'. mbox_inv q' s'"
  using assms
proof (induction rule: pop_step.induct)
  case (see_full s)
  have h: "ring_holds (sy_ring s) q"
    using see_full by (simp add: mbox_defs)
  have "q \<noteq> []" using ring_holdsD(2) [OF h, of 0] see_full(2) by (auto simp: flag_at_def)
  then have "mbox_inv q (s\<lparr>sy_cons := CSeen\<rparr>)"
    using see_full by (auto simp: mbox_defs split: producer.splits)
  then show ?case ..
next
  case (copy s)
  have h: "ring_holds (sy_ring s) q" and "q \<noteq> []"
    using copy by (simp_all add: mbox_defs)
  then obtain x q' where q: "q = x # q'" by (cases q) auto
  have "r_data (sy_ring s) (slot (r_tail (sy_ring s))) = x"
    using ring_holdsD(3) [OF h, of 0] q by simp
  then have "mbox_inv q (s\<lparr>sy_cons := CCopied (r_data (sy_ring s) (slot (r_tail (sy_ring s))))\<rparr>)"
    using copy q by (auto simp: mbox_defs split: producer.splits)
  then show ?case ..
next
  case (clear s x)
  then obtain q' where q: "q = x # q'" and h: "ring_holds (sy_ring s) (x # q')"
    by (auto simp: mbox_defs)
  have "mbox_inv q' (s\<lparr>sy_ring := set_flag (r_tail (sy_ring s)) 0 (sy_ring s), sy_cons := CCleared x\<rparr>)"
    using ring_holds_consume [OF h] clear q
    by (auto simp: mbox_defs set_flag_def split: producer.splits)
  then show ?case ..
next
  case (advance s x)
  then have "mbox_inv q (s\<lparr>sy_ring := (sy_ring s)\<lparr>r_tail := r_tail (sy_ring s) + 1\<rparr>, sy_cons := CIdle,
      sy_recv := sy_recv s @ [x]\<rparr>)"
    by (auto simp: mbox_defs split: producer.splits)
  then show ?case ..
qed blast

lemma mbox_reach_inv: "mbox_reach s \<Longrightarrow> \<exists>q. mbox_inv q s"
proof (induction rule: mbox_reach.induct)
  case (start r)
  then show ?case using mbox_inv_start by blast
qed (use push_step_inv pop_step_inv in blast)+

text \<open>
  Run alone, the ring is a bounded first-in first-out queue of 4096 requests: any
  sequence of pushes and pops gives the results the list gives, a push into a full ring
  does not come back, and the ring still represents the list at the end.
\<close>

theorem mailbox_refines_queue:
  assumes "ring_rep r q"
  shows "fst (mailbox.run r ops) = fst (mailbox.spec_run q ops) \<and>
    ring_rep (snd (mailbox.run r ops)) (snd (mailbox.spec_run q ops))"
  using assms by (rule mailbox.run_refines)

definition demo_req :: "u64 \<Rightarrow> jrt_sched_req_t" where
  "demo_req n = \<lparr>rq_pc = 0x40000000, rq_prog_size = 0x1000, rq_mem_req = n\<rparr>"

definition demo_ring :: mpsc_ring where
  "demo_ring = ipc_init \<lparr>r_head = 7, r_tail = 9, r_flags = (\<lambda>_. 3), r_data = (\<lambda>_. demo_req 0)\<rparr>"

theorem mailbox_refines_queue_witness:
  "fst (mailbox.run demo_ring [Put (demo_req 1), Put (demo_req 2), Get, Get, Get]) =
     [Some (demo_req 1), Some (demo_req 2), None]"
  using mailbox_refines_queue [of demo_ring "[]" "[Put (demo_req 1), Put (demo_req 2), Get, Get, Get]"]
    ring_rep_init [of "\<lparr>r_head = 7, r_tail = 9, r_flags = (\<lambda>_. 3), r_data = (\<lambda>_. demo_req 0)\<rparr>"]
  by (simp add: demo_ring_def)

text \<open>A whole push, from the lock to its release, with the consumer at rest.\<close>

lemma mbox_push_run:
  assumes "mbox_reach s" "sy_prod s = PIdle" "sy_cons s = CIdle" "sy_sent s = sy_recv s @ q"
    "length q < 4096"
  obtains s' where "mbox_reach s'" "sy_prod s' = PIdle" "sy_cons s' = CIdle"
    "sy_sent s' = sy_sent s @ [x]" "sy_recv s' = sy_recv s"
proof -
  obtain q' where inv: "mbox_inv q' s" using mbox_reach_inv [OF assms(1)] by blast
  then have q': "q' = q" using assms(3,4) by (simp add: mbox_inv_def cons_ok_def)
  let ?t = "r_head (sy_ring s)"
  let ?s1 = "s\<lparr>sy_ring := (sy_ring s)\<lparr>r_head := ?t + 1\<rparr>, sy_prod := PClaimed ?t x\<rparr>"
  let ?s2 = "?s1\<lparr>sy_prod := PWritable ?t x\<rparr>"
  let ?s3 = "?s2\<lparr>sy_ring := set_data ?t x (sy_ring ?s2), sy_prod := PWritten ?t x\<rparr>"
  let ?s4 = "?s3\<lparr>sy_ring := set_flag ?t 1 (sy_ring ?s3), sy_prod := PIdle, sy_sent := sy_sent ?s3 @ [x]\<rparr>"
  have "push_step s ?s1"
    using assms(2) by (intro push_step.claim) (simp_all add: mpsc_fetch_add_head_relaxed_def)
  moreover have "push_step ?s1 ?s2"
  proof (rule push_step.see_empty)
    have "?t = r_tail (sy_ring s) + of_nat (length q)" "ring_holds (sy_ring s) q"
      using inv q' assms(2,3) by (simp_all add: mbox_defs)
    then show "flag_at (sy_ring ?s1) ?t = 0"
      using ring_holdsD(2) [of "sy_ring s" q "length q"] assms(5) by (simp add: flag_at_def)
  qed simp
  moreover have "push_step ?s2 ?s3" by (rule push_step.store) simp
  moreover have "push_step ?s3 ?s4" by (rule push_step.publish) simp
  ultimately have "mbox_reach ?s4" using assms(1) mbox_reach.push by meson
  then show thesis using that assms(3) by simp
qed

lemma mbox_fill:
  assumes "n \<le> 4096"
  shows "\<exists>s. mbox_reach s \<and> sy_prod s = PIdle \<and> sy_cons s = CIdle \<and> sy_recv s = [] \<and>
    sy_sent s = replicate n x"
  using assms
proof (induction n)
  case 0
  show ?case using mbox_reach.start [of demo_ring] by force
next
  case (Suc n)
  then obtain s where s: "mbox_reach s" "sy_prod s = PIdle" "sy_cons s = CIdle" "sy_recv s = []"
    "sy_sent s = replicate n x" by auto
  then obtain s' where "mbox_reach s'" "sy_prod s' = PIdle" "sy_cons s' = CIdle"
    "sy_sent s' = sy_sent s @ [x]" "sy_recv s' = sy_recv s"
    using mbox_push_run [of s "replicate n x" x] Suc.prems by auto
  then show ?case using s by (metis replicate_Suc replicate_append_same)
qed

text \<open>
  C19: With producer and consumer interleaved access by access, the requests taken are at
  every moment a prefix of the requests published, so none is lost, duplicated, torn
  or reordered, and at most 4097 are under way.
\<close>

theorem mailbox_fifo:
  assumes "mbox_reach s"
  shows "\<exists>q. sy_sent s = sy_recv s @ q \<and> length q \<le> 4097"
proof -
  obtain q where q: "mbox_inv q s" using mbox_reach_inv [OF assms] by blast
  then have "length q \<le> 4096" by (auto simp: mbox_inv_def dest: ring_holdsD(1))
  moreover have "sy_sent s = sy_recv s @ q \<or> (\<exists>x. sy_sent s = sy_recv s @ x # q)"
    using q by (auto simp: mbox_inv_def cons_ok_def split: consumer.splits)
  ultimately show ?thesis by (metis Suc_le_mono length_Cons le_SucI numeral_eq_Suc pred_numeral_simps(2) eval_nat_numeral(3))
qed

theorem mailbox_fifo_witness:
  "\<exists>s q. mbox_reach s \<and> sy_sent s = replicate 3 (demo_req 1) \<and> sy_sent s = sy_recv s @ q \<and>
     length q \<le> 4097"
  using mbox_fill [of 3 "demo_req 1"] mailbox_fifo by fastforce

text \<open>
  C20: The handshake does not deadlock: while the producer spins on a full slot, the
  consumer can always move on, and does not find the ring empty.
\<close>

theorem mailbox_spin_not_stuck:
  assumes "mbox_reach s" "sy_prod s = PClaimed t x" "flag_at (sy_ring s) t \<noteq> 0"
  shows "\<exists>s'. pop_step s s' \<and> sy_cons s' \<noteq> sy_cons s"
proof -
  obtain q where q: "mbox_inv q s" using mbox_reach_inv [OF assms(1)] by blast
  let ?r = "(sy_ring s)\<lparr>r_tail := etail s\<rparr>"
  have h: "ring_holds ?r q" and t: "t = etail s + of_nat (length q)"
    using q assms(2) by (simp_all add: mbox_inv_def prod_ok_def)
  have "q \<noteq> []"
    using ring_holdsD(2) [OF h, of "length q"] t assms(3) by (auto simp: flag_at_def)
  then have full: "sy_cons s = CIdle \<Longrightarrow> flag_at (sy_ring s) (r_tail (sy_ring s)) \<noteq> 0"
    using ring_holdsD(2) [OF h, of 0] by (simp add: flag_at_def etail_def)
  show ?thesis
  proof (cases "sy_cons s")
    case CIdle
    then show ?thesis using pop_step.see_full [OF CIdle full] by fastforce
  next
    case CSeen
    then show ?thesis using pop_step.copy [OF CSeen] by fastforce
  next
    case (CCopied y)
    then show ?thesis using pop_step.clear [OF CCopied] by fastforce
  next
    case (CCleared y)
    then show ?thesis using pop_step.advance [OF CCleared] by fastforce
  qed
qed

theorem mailbox_spin_not_stuck_witness:
  "\<exists>s t x. mbox_reach s \<and> sy_prod s = PClaimed t x \<and> flag_at (sy_ring s) t \<noteq> 0 \<and>
     (\<exists>s'. pop_step s s' \<and> sy_cons s' \<noteq> sy_cons s)"
proof -
  obtain s where s: "mbox_reach s" "sy_prod s = PIdle" "sy_cons s = CIdle" "sy_recv s = []"
    "sy_sent s = replicate 4096 (demo_req 1)" using mbox_fill [of 4096 "demo_req 1"] by auto
  obtain q where inv: "mbox_inv q s" using mbox_reach_inv [OF s(1)] by blast
  then have "sy_sent s = sy_recv s @ q" using s(3) by (simp add: mbox_inv_def cons_ok_def)
  then have "q = replicate 4096 (demo_req 1)" using s(4,5) by simp
  then have q: "length q = 4096" by simp
  have h: "ring_holds (sy_ring s) q" and hd: "r_head (sy_ring s) = r_tail (sy_ring s) + of_nat 4096"
    using inv s(2,3) q by (simp_all add: mbox_defs)
  let ?t = "r_head (sy_ring s)"
  let ?s = "s\<lparr>sy_ring := (sy_ring s)\<lparr>r_head := ?t + 1\<rparr>, sy_prod := PClaimed ?t (demo_req 2)\<rparr>"
  have "push_step s ?s"
    using s(2) by (intro push_step.claim) (simp_all add: mpsc_fetch_add_head_relaxed_def)
  then have r: "mbox_reach ?s" using s(1) mbox_reach.push by blast
  have "slot ?t = slot (r_tail (sy_ring s))"
    using slot_add [of "r_tail (sy_ring s)" 4096] slot_less [of "r_tail (sy_ring s)"] hd by simp
  then have f: "flag_at (sy_ring ?s) ?t \<noteq> 0"
    using ring_holdsD(2) [OF h, of 0] q by (simp add: flag_at_def)
  have "sy_prod ?s = PClaimed ?t (demo_req 2)" by simp
  from mailbox_spin_not_stuck [OF r this f] r f this show ?thesis by blast
qed

end
