(* ===== verification/Sched.thy ===== *)
theory Sched
  imports Minheap Mmu Timer Mailbox
begin

text \<open>
  The scheduler of \<^verbatim>\<open>rtprog/sched.c\<close> and \<^verbatim>\<open>rtprog/sched.h\<close>: the process table, the stack of
  free table slots, the ready queue ordered by effective deadline and the waiting queue
  ordered by wake-up time. A \<open>proc_t *\<close> is \<open>P0\<close>, the kernel's own process, or \<open>PB i\<close>, a slot
  of the table. The theory proves that no operation loses or duplicates a slot, and that
  dispatching is earliest-deadline-first.

  The calls that only print (\<open>uart_puts\<close>, \<open>uart_putu32\<close>, \<open>dump_mem\<close> and the like) are left out:
  they write no state of the model.
\<close>

section \<open>Data\<close>

definition READY_MAX :: nat where "READY_MAX = 0xFF"
definition MAX_PROC :: nat where "MAX_PROC = 0x1000"

datatype state_t = PROC_READY | PROC_RUNNING | PROC_WAITING | PROC_UNUSED

record ctx_t =
  cx_x :: "nat \<Rightarrow> u64"
  cx_sp :: u64
  cx_pc :: u64
  cx_pstate :: u64
  cx_vregs :: "nat \<Rightarrow> 128 word"
  cx_fpsr :: u32
  cx_fpcr :: u32
  cx_mmap :: mmu_map_t

record proc_t =
  p_ctx :: ctx_t
  p_pid :: u32
  p_state :: state_t
  p_first :: int
  p_pa_pc :: u64
  p_wait_until :: u64
  p_abs_deadline :: u64
  p_eff_deadline :: u64
  p_wait_start_ns :: u64
  p_wait_seq :: u64
  p_prog_size :: u64
  p_mem :: u64
  p_mem_size :: u64

datatype proc_ptr = P0 | PB nat

text \<open>
  The node arrays \<open>rn\<close> and \<open>wn\<close> are the arrays inside the two heaps, which alone use them.
\<close>

record sched_t =
  s_p0 :: proc_t
  s_curr :: "proc_ptr option"
  s_pid :: u32
  s_pb :: "nat \<Rightarrow> proc_t"
  s_free_proc :: "nat \<Rightarrow> proc_ptr"
  s_nfree :: nat
  s_ready :: "proc_ptr minheap"
  s_waiting :: "proc_ptr minheap"

text \<open>
  The globals the handlers work on: the scheduler, the allocator and its memory, the
  function-local \<open>static u16 asid\<close> of \<open>sched_new_proc\<close>, the clock, the mailbox ring, and two
  addresses the linker fixes (\<open>__kernel_end\<close> and \<open>jrt_exit\<close>).
\<close>

record kernel =
  k_sched :: sched_t
  k_alloc :: alloc_t
  k_mem :: memory
  k_asid :: u16
  k_timer :: timer
  k_ring :: mpsc_ring
  k_kend :: u64
  k_exit :: u64

text \<open>Reading and writing through a process pointer.\<close>

definition deref :: "sched_t \<Rightarrow> proc_ptr \<Rightarrow> proc_t" where
  "deref sc p = (case p of P0 \<Rightarrow> s_p0 sc | PB i \<Rightarrow> s_pb sc i)"

definition upd :: "proc_ptr \<Rightarrow> (proc_t \<Rightarrow> proc_t) \<Rightarrow> sched_t \<Rightarrow> sched_t" where
  "upd p f sc =
     (case p of P0 \<Rightarrow> sc\<lparr>s_p0 := f (s_p0 sc)\<rparr>
      | PB i \<Rightarrow> sc\<lparr>s_pb := (s_pb sc)(i := f (s_pb sc i))\<rparr>)"

section \<open>Operations\<close>

definition PSR_F :: u64 where "PSR_F = push_bit 6 1"
definition FIQ_MASK :: u64 where "FIQ_MASK = PSR_F"
definition PSR_M_EL1h :: u64 where "PSR_M_EL1h = 0x5"
definition PSR_M_EL1t :: u64 where "PSR_M_EL1t = 0x4"

definition pstate_el1h :: "u64 \<Rightarrow> u64" where
  "pstate_el1h ex_mask = PSR_M_EL1h OR ex_mask"

definition pstate_el1t :: "u64 \<Rightarrow> u64" where
  "pstate_el1t ex_mask = PSR_M_EL1t OR ex_mask"

definition idx_to_pid :: "int \<Rightarrow> int" where "idx_to_pid i = i + 1"
definition pid_to_idx :: "int \<Rightarrow> int" where "pid_to_idx p = p - 1"

definition sched_has_waiting :: "sched_t \<Rightarrow> bool" where
  "sched_has_waiting sc \<longleftrightarrow> hlen (s_waiting sc) > 0"

text \<open>The loop of \<open>sched_init\<close>, one table slot per round.\<close>

definition init_slot :: "nat \<Rightarrow> sched_t \<Rightarrow> sched_t" where
  "init_slot i s =
     (let s = upd (PB i) (\<lambda>p. p\<lparr>p_pid := word_of_int (idx_to_pid (int i))\<rparr>) s;
          s = upd (PB i) (\<lambda>p. p\<lparr>p_state := PROC_UNUSED\<rparr>) s
      in s\<lparr>s_free_proc := (s_free_proc s)(i := PB i)\<rparr>)"

definition sched_init :: "kernel \<Rightarrow> kernel res" where
  "sched_init k =
     (let s = fold init_slot [0..<MAX_PROC] (k_sched k);
          s = s\<lparr>s_nfree := MAX_PROC\<rparr>;
          s = s\<lparr>s_ready := heap_init (ha (s_ready s)) READY_MAX\<rparr>;
          s = s\<lparr>s_waiting := heap_init (ha (s_waiting s)) READY_MAX\<rparr>;
          s = s\<lparr>s_pid := 0\<rparr>;
          s = upd P0 (\<lambda>p. p\<lparr>p_pid := 0, p_first := 0\<rparr>) s
      in bindE (kern_map_create 0 (k_alloc k, k_mem k)) (\<lambda>(mp, a, m).
           let s = upd P0 (\<lambda>p. p\<lparr>p_ctx := (p_ctx p)\<lparr>cx_mmap := mp\<rparr>\<rparr>) s
           in Inr (k\<lparr>k_sched := s\<lparr>s_curr := Some P0\<rparr>, k_alloc := a, k_mem := m\<rparr>)))"

definition sched_alloc_proc :: "sched_t \<Rightarrow> proc_ptr option \<times> sched_t" where
  "sched_alloc_proc sc =
     (if s_nfree sc = 0 then (None, sc)
      else (let sc = sc\<lparr>s_nfree := s_nfree sc - 1\<rparr>
            in (Some (s_free_proc sc (s_nfree sc)), sc)))"

definition sched_get_proc :: "sched_t \<Rightarrow> u32 \<Rightarrow> proc_ptr res" where
  "sched_get_proc sc pid =
     (let i = pid_to_idx (uint pid) in
      if i < 0 \<or> i \<ge> int MAX_PROC then Inl (Kernel_panic JRT_EINVAL) else Inr (PB (nat i)))"

definition sched_free_proc :: "u32 \<Rightarrow> kernel \<Rightarrow> kernel res" where
  "sched_free_proc pid k =
     bindE (sched_get_proc (k_sched k) pid) (\<lambda>p.
       (let sc = k_sched k in
        if s_nfree sc \<ge> MAX_PROC then Inl (Kernel_panic JRT_ENOMEM)
        else
          (let sc = upd p (\<lambda>q. q\<lparr>p_state := PROC_UNUSED\<rparr>) sc;
               sc = sc\<lparr>s_free_proc := (s_free_proc sc)(s_nfree sc := p), s_nfree := s_nfree sc + 1\<rparr>
           in bindE (free (k_alloc k) (p_mem (deref sc p)) (k_mem k)) (\<lambda>st.
              bindE (mmu_map_destroy (cx_mmap (p_ctx (deref sc p))) st) (\<lambda>(mp, a, m).
                Inr (k\<lparr>k_sched := upd p (\<lambda>q. q\<lparr>p_ctx := (p_ctx q)\<lparr>cx_mmap := mp\<rparr>\<rparr>) sc,
                       k_alloc := a, k_mem := m\<rparr>))))))"

definition new_ctx :: "u64 \<Rightarrow> u64 \<Rightarrow> u64 \<Rightarrow> ctx_t \<Rightarrow> ctx_t" where
  "new_ctx mem mem_size exit c =
     (let c = c\<lparr>cx_x := (\<lambda>_. 0)\<rparr>;
          c = c\<lparr>cx_sp := mem + mem_size\<rparr>;
          c = c\<lparr>cx_sp := cx_sp c AND NOT 15\<rparr>;
          c = c\<lparr>cx_pc := 0\<rparr>;
          c = c\<lparr>cx_pstate := pstate_el1h FIQ_MASK\<rparr>;
          c = c\<lparr>cx_x := (cx_x c)(0 := mem)\<rparr>;
          c = c\<lparr>cx_x := (cx_x c)(1 := mem_size)\<rparr>
      in c\<lparr>cx_x := (cx_x c)(30 := exit)\<rparr>)"

definition sched_new_proc ::
  "u64 \<Rightarrow> u64 \<Rightarrow> u64 \<Rightarrow> u64 \<Rightarrow> u64 \<Rightarrow> u64 \<Rightarrow> kernel \<Rightarrow> (u32 \<times> kernel) res" where
  "sched_new_proc pc code_size mem mem_size deadline exit k =
     (case sched_alloc_proc (k_sched k) of
        (None, sc) \<Rightarrow> Inl (Kernel_panic JRT_ENOMEM)
      | (Some p, sc) \<Rightarrow>
          (let sc = upd p (\<lambda>q. q\<lparr>p_ctx := new_ctx mem mem_size exit (p_ctx q)\<rparr>) sc;
               as = k_asid k;
               k = k\<lparr>k_asid := as + 1\<rparr>
           in bindE (proc_map_create (k_kend k) pc code_size as (k_alloc k, k_mem k)) (\<lambda>(mp, a, m).
                let sc = upd p (\<lambda>q. q\<lparr>p_ctx := (p_ctx q)\<lparr>cx_mmap := mp\<rparr>, p_pa_pc := pc, p_first := 1,
                             p_mem := mem, p_mem_size := mem_size, p_prog_size := code_size,
                             p_eff_deadline := deadline, p_abs_deadline := deadline,
                             p_state := PROC_READY\<rparr>) sc
                in Inr (p_pid (deref sc p), k\<lparr>k_sched := sc, k_alloc := a, k_mem := m\<rparr>))))"

definition sched_ready_proc :: "u32 \<Rightarrow> sched_t \<Rightarrow> sched_t res" where
  "sched_ready_proc pid sc =
     bindE (sched_get_proc sc pid) (\<lambda>p.
       case heap_push (s_ready sc) (p_eff_deadline (deref sc p)) (Some p) of (r, h) \<Rightarrow>
         if r \<noteq> 0 then Inl (Kernel_panic JRT_ENOMEM) else Inr (sc\<lparr>s_ready := h\<rparr>))"

definition sched_wait_proc :: "u32 \<Rightarrow> sched_t \<Rightarrow> sched_t res" where
  "sched_wait_proc pid sc =
     bindE (sched_get_proc sc pid) (\<lambda>p.
       case heap_push (s_waiting sc) (p_wait_until (deref sc p)) (Some p) of (r, h) \<Rightarrow>
         if r \<noteq> 0 then Inl (Kernel_panic JRT_ENOMEM) else Inr (sc\<lparr>s_waiting := h\<rparr>))"

definition sched_next_wait_deadline :: "sched_t \<Rightarrow> u64" where
  "sched_next_wait_deadline sc =
     (if sched_has_waiting sc then fst (heap_peek (s_waiting sc) 0) else 0)"

definition sched_switch_irq :: "proc_ptr \<Rightarrow> proc_ptr \<Rightarrow> sched_t \<Rightarrow> sched_t" where
  "sched_switch_irq c n sc =
     (let sc = sc\<lparr>s_pid := p_pid (deref sc n)\<rparr> in sc\<lparr>s_curr := Some n\<rparr>)"

text \<open>The process of the current pid: \<open>&sc->p0\<close> for 0, a table slot otherwise.\<close>

definition proc_of_pid :: "sched_t \<Rightarrow> u32 \<Rightarrow> u32 \<Rightarrow> proc_ptr res" where
  "proc_of_pid sc tested pid = (if tested = 0 then Inr P0 else sched_get_proc sc pid)"

definition sched_yield :: "sched_t \<Rightarrow> (proc_ptr \<times> sched_t) res" where
  "sched_yield sc =
     (case heap_pop (s_ready sc) 0 of ((_, v), h) \<Rightarrow>
        (let sc = sc\<lparr>s_ready := h\<rparr>;
             p = (case v of None \<Rightarrow> P0 | Some p \<Rightarrow> p);
             sc = upd p (\<lambda>q. q\<lparr>p_state := PROC_RUNNING\<rparr>) sc
         in bindE (proc_of_pid sc (s_pid sc) (s_pid sc)) (\<lambda>c.
              Inr (c, sched_switch_irq c p sc))))"

text \<open>
  \<open>sched\<close>: with an empty ready queue \<open>deadline\<close> stays uninitialised, its value is the
  argument \<open>dl0\<close>; the inner \<open>if\<close> has taken the \<open>return\<close> as its body, so the function only
  returns early when \<open>curr\<close> is \<open>NULL\<close>.
\<close>

definition sched ::
  "u64 \<Rightarrow> (proc_ptr \<Rightarrow> proc_ptr \<Rightarrow> sched_t \<Rightarrow> sched_t) \<Rightarrow> sched_t \<Rightarrow> sched_t res" where
  "sched dl0 swp sc =
     (case heap_peek (s_ready sc) dl0 of (deadline, p) \<Rightarrow>
        if p = None \<and> s_curr sc = None then Inr sc
        else case s_curr sc of None \<Rightarrow> Inl Null_deref
        | Some cp \<Rightarrow>
            bindE (proc_of_pid sc (p_pid (deref sc cp)) (s_pid sc)) (\<lambda>c.
              if p_pid (deref sc cp) = 0 \<or> p_eff_deadline (deref sc c) > deadline then
                (case heap_pop (s_ready sc) deadline of ((_, v), h) \<Rightarrow>
                   case v of None \<Rightarrow> Inl Null_deref
                   | Some p \<Rightarrow>
                       (let sc = sc\<lparr>s_ready := h\<rparr>;
                            sc = upd p (\<lambda>q. q\<lparr>p_state := PROC_RUNNING\<rparr>) sc;
                            sc = upd c (\<lambda>q. q\<lparr>p_state := PROC_READY\<rparr>) sc
                        in bindE (if p_pid (deref sc cp) \<noteq> 0
                                  then sched_ready_proc (p_pid (deref sc c)) sc else Inr sc)
                             (\<lambda>sc. Inr (swp c p sc))))
              else Inr sc))"

section \<open>Pointers, records and pids\<close>

lemma deref_simps [simp]:
  "deref sc P0 = s_p0 sc"
  "deref sc (PB i) = s_pb sc i"
  by (simp_all add: deref_def)

lemma deref_frame [simp]:
  "deref (sc\<lparr>s_ready := h\<rparr>) p = deref sc p"
  "deref (sc\<lparr>s_waiting := h\<rparr>) p = deref sc p"
  "deref (sc\<lparr>s_nfree := n\<rparr>) p = deref sc p"
  "deref (sc\<lparr>s_free_proc := fp\<rparr>) p = deref sc p"
  "deref (sc\<lparr>s_curr := c\<rparr>) p = deref sc p"
  "deref (sc\<lparr>s_pid := i\<rparr>) p = deref sc p"
  by (cases p; simp)+

lemma upd_simps [simp]:
  "s_curr (upd p f sc) = s_curr sc"
  "s_pid (upd p f sc) = s_pid sc"
  "s_free_proc (upd p f sc) = s_free_proc sc"
  "s_nfree (upd p f sc) = s_nfree sc"
  "s_ready (upd p f sc) = s_ready sc"
  "s_waiting (upd p f sc) = s_waiting sc"
  by (simp_all add: upd_def split: proc_ptr.splits)

lemma upd_PB [simp]:
  "s_pb (upd (PB i) f sc) = (s_pb sc)(i := f (s_pb sc i))"
  "s_p0 (upd (PB i) f sc) = s_p0 sc"
  by (simp_all add: upd_def)

lemma upd_P0 [simp]:
  "s_pb (upd P0 f sc) = s_pb sc"
  "s_p0 (upd P0 f sc) = f (s_p0 sc)"
  by (simp_all add: upd_def)

text \<open>The table numbers its slots from 1; slot 0 of the pid space is the kernel.\<close>

definition pids_ok :: "sched_t \<Rightarrow> bool" where
  "pids_ok sc \<longleftrightarrow> p_pid (s_p0 sc) = 0 \<and> (\<forall>i < MAX_PROC. p_pid (s_pb sc i) = of_nat (i + 1))"

lemma unat_slot_pid: "i < MAX_PROC \<Longrightarrow> unat (of_nat (i + 1) :: u32) = i + 1"
  by (simp add: MAX_PROC_def del: of_nat_add of_nat_Suc)

lemma slot_pid_nonzero: "i < MAX_PROC \<Longrightarrow> (of_nat (i + 1) :: u32) \<noteq> 0"
  using unat_slot_pid [of i] by (metis Suc_eq_plus1 nat.distinct(1) unsigned_0)

lemma sched_get_proc_slot:
  assumes "i < MAX_PROC"
  shows "sched_get_proc sc (of_nat (i + 1)) = Inr (PB i)"
proof -
  have "uint (of_nat (i + 1) :: u32) = int (i + 1)"
    using unat_slot_pid [OF assms] by (metis uint_nat)
  then show ?thesis
    using assms unfolding sched_get_proc_def pid_to_idx_def by simp
qed

lemma sched_get_proc_pid:
  "pids_ok sc \<Longrightarrow> i < MAX_PROC \<Longrightarrow> sched_get_proc sc' (p_pid (s_pb sc i)) = Inr (PB i)"
  using sched_get_proc_slot [of i sc'] by (simp add: pids_ok_def)

lemma slot_pid_not_kernel: "pids_ok sc \<Longrightarrow> i < MAX_PROC \<Longrightarrow> p_pid (s_pb sc i) \<noteq> 0"
  using slot_pid_nonzero [of i] by (simp add: pids_ok_def)

lemma sched_get_proc_kernel: "sched_get_proc sc 0 = Inl (Kernel_panic JRT_EINVAL)"
  by (simp add: sched_get_proc_def pid_to_idx_def)

section \<open>The invariant\<close>

text \<open>
  Who holds a table slot: the free stack, the ready queue, the waiting queue, or the
  processor. \<open>sched_ok L\<close> says that these four and the bag \<open>L\<close> of slots a handler holds in
  its hands make up the table, each slot exactly once.
\<close>

definition free_bag :: "sched_t \<Rightarrow> proc_ptr option multiset" where
  "free_bag sc = mset (map (\<lambda>i. Some (s_free_proc sc i)) [0..<s_nfree sc])"

definition ready_bag :: "sched_t \<Rightarrow> proc_ptr option multiset" where
  "ready_bag sc = image_mset snd (heap_bag (s_ready sc))"

definition waiting_bag :: "sched_t \<Rightarrow> proc_ptr option multiset" where
  "waiting_bag sc = image_mset snd (heap_bag (s_waiting sc))"

definition curr_bag :: "sched_t \<Rightarrow> proc_ptr option multiset" where
  "curr_bag sc = (if s_curr sc = Some P0 then {#} else {#s_curr sc#})"

definition all_slots :: "proc_ptr option multiset" where
  "all_slots = mset (map (\<lambda>i. Some (PB i)) [0..<MAX_PROC])"

text \<open>The entries of a queue: each key is the field of its process the queue is ordered by.\<close>

definition keyed ::
  "(proc_t \<Rightarrow> u64) \<Rightarrow> state_t set \<Rightarrow> (nat \<Rightarrow> proc_t) \<Rightarrow> (u64 \<times> proc_ptr option) multiset \<Rightarrow> bool" where
  "keyed f S pb B \<longleftrightarrow>
     (\<forall>x \<in># B. \<exists>i < MAX_PROC. snd x = Some (PB i) \<and> fst x = f (pb i) \<and> p_state (pb i) \<in> S)"

definition free_ok :: "sched_t \<Rightarrow> bool" where
  "free_ok sc \<longleftrightarrow> s_nfree sc \<le> MAX_PROC \<and>
     (\<forall>i. Some (PB i) \<in># free_bag sc \<longrightarrow> p_state (s_pb sc i) = PROC_UNUSED)"

definition queues_ok :: "sched_t \<Rightarrow> bool" where
  "queues_ok sc \<longleftrightarrow>
     heap_inv (s_ready sc) \<and> hcap (s_ready sc) = READY_MAX \<and>
     heap_inv (s_waiting sc) \<and> hcap (s_waiting sc) = READY_MAX \<and>
     keyed p_eff_deadline {PROC_READY, PROC_WAITING} (s_pb sc) (heap_bag (s_ready sc)) \<and>
     keyed p_wait_until {PROC_WAITING} (s_pb sc) (heap_bag (s_waiting sc))"

definition curr_ok :: "sched_t \<Rightarrow> bool" where
  "curr_ok sc \<longleftrightarrow> (\<exists>c. s_curr sc = Some c \<and> s_pid sc = p_pid (deref sc c))"

definition sched_ok :: "proc_ptr option multiset \<Rightarrow> sched_t \<Rightarrow> bool" where
  "sched_ok L sc \<longleftrightarrow> pids_ok sc \<and> free_ok sc \<and> queues_ok sc \<and> curr_ok sc \<and>
     free_bag sc + ready_bag sc + waiting_bag sc + curr_bag sc + L = all_slots"

text \<open>
  Earliest deadline first: the kernel idles only when nothing is ready, and no ready
  process has an earlier deadline than the running one.
\<close>

definition edf :: "sched_t \<Rightarrow> bool" where
  "edf sc \<longleftrightarrow>
     (s_curr sc = Some P0 \<longrightarrow> heap_bag (s_ready sc) = {#}) \<and>
     (\<forall>i. s_curr sc = Some (PB i) \<longrightarrow> p_state (s_pb sc i) = PROC_RUNNING \<and>
        (\<forall>x \<in># heap_bag (s_ready sc). p_eff_deadline (s_pb sc i) \<le> fst x))"

definition sched_inv :: "sched_t \<Rightarrow> bool" where
  "sched_inv sc \<longleftrightarrow> sched_ok {#} sc \<and> edf sc"

lemmas bag_defs = free_bag_def ready_bag_def waiting_bag_def curr_bag_def

lemma upd_bags [simp]:
  "free_bag (upd p f sc) = free_bag sc"
  "ready_bag (upd p f sc) = ready_bag sc"
  "waiting_bag (upd p f sc) = waiting_bag sc"
  "curr_bag (upd p f sc) = curr_bag sc"
  by (simp_all add: bag_defs)

lemma curr_bag_frame [simp]:
  "curr_bag (sc\<lparr>s_ready := h\<rparr>) = curr_bag sc"
  "curr_bag (sc\<lparr>s_waiting := h\<rparr>) = curr_bag sc"
  by (simp_all add: curr_bag_def)

lemma all_slots_iff: "x \<in># all_slots \<longleftrightarrow> (\<exists>i < MAX_PROC. x = Some (PB i))"
  by (auto simp: all_slots_def)

lemma all_slots_count: "count all_slots x \<le> 1"
proof -
  have "distinct (map (\<lambda>i. Some (PB i)) [0..<MAX_PROC])"
    by (simp add: distinct_map inj_on_def)
  then show ?thesis
    unfolding all_slots_def using distinct_count_atmost_1 [of "map (\<lambda>i. Some (PB i)) [0..<MAX_PROC]"]
    by (simp del: mset_map)
qed

text \<open>A slot in one part of the table is in no other.\<close>

lemma slots_disjoint:
  assumes "A + B + C = all_slots" "x \<in># A"
  shows "x \<notin># B" and "x \<notin># C"
proof -
  have "count A x + count B x + count C x \<le> 1"
    using all_slots_count [of x] assms(1) by (metis count_union)
  moreover have "1 \<le> count A x" using assms(2) by simp
  ultimately have "count B x = 0" "count C x = 0" by linarith+
  then show "x \<notin># B" "x \<notin># C" by (simp_all add: not_in_iff)
qed

lemma sched_okD:
  assumes "sched_ok L sc"
  shows "pids_ok sc" "free_ok sc" "queues_ok sc" "curr_ok sc"
    and "free_bag sc + ready_bag sc + waiting_bag sc + curr_bag sc + L = all_slots"
  using assms by (simp_all add: sched_ok_def)

lemma queues_okD:
  assumes "queues_ok sc"
  shows "heap_inv (s_ready sc)" "hcap (s_ready sc) = READY_MAX"
    "heap_inv (s_waiting sc)" "hcap (s_waiting sc) = READY_MAX"
    and "keyed p_eff_deadline {PROC_READY, PROC_WAITING} (s_pb sc) (heap_bag (s_ready sc))"
    and "keyed p_wait_until {PROC_WAITING} (s_pb sc) (heap_bag (s_waiting sc))"
  using assms by (simp_all add: queues_ok_def)

lemma held_slot:
  assumes "sched_ok L sc" "x \<in># L"
  obtains i where "x = Some (PB i)" "i < MAX_PROC" "x \<notin># free_bag sc" "x \<notin># ready_bag sc"
    "x \<notin># waiting_bag sc" "x \<notin># curr_bag sc"
proof -
  have eq: "free_bag sc + ready_bag sc + waiting_bag sc + curr_bag sc + L = all_slots"
    using assms(1) by (rule sched_okD)
  then have "x \<in># all_slots" using assms(2) by (metis union_iff)
  moreover have "L + (free_bag sc + ready_bag sc) + (waiting_bag sc + curr_bag sc) = all_slots"
    using eq by (simp add: ac_simps)
  from slots_disjoint [OF this assms(2)]
  have "x \<notin># free_bag sc + ready_bag sc" "x \<notin># waiting_bag sc + curr_bag sc" .
  ultimately show thesis using that by (auto simp: all_slots_iff)
qed

lemma curr_slot:
  assumes "sched_ok L sc" "s_curr sc = Some (PB i)"
  shows "i < MAX_PROC" "Some (PB i) \<notin># free_bag sc" "Some (PB i) \<notin># ready_bag sc"
    "Some (PB i) \<notin># waiting_bag sc" "Some (PB i) \<notin># L"
proof -
  have eq: "free_bag sc + ready_bag sc + waiting_bag sc + curr_bag sc + L = all_slots"
    using assms(1) by (rule sched_okD)
  have c: "curr_bag sc = {#Some (PB i)#}" using assms(2) by (simp add: curr_bag_def)
  have "Some (PB i) \<in># all_slots" using eq c by (metis multi_member_last union_iff)
  then show "i < MAX_PROC" by (auto simp: all_slots_iff)
  have "curr_bag sc + (free_bag sc + ready_bag sc) + (waiting_bag sc + L) = all_slots"
    using eq by (simp add: ac_simps)
  from slots_disjoint [OF this] show "Some (PB i) \<notin># free_bag sc" "Some (PB i) \<notin># ready_bag sc"
    "Some (PB i) \<notin># waiting_bag sc" "Some (PB i) \<notin># L"
    using c by auto
qed

lemma keyed_upd:
  assumes "keyed f S pb B" "Some (PB i) \<notin># image_mset snd B"
  shows "keyed f S (pb(i := p)) B"
  unfolding keyed_def
proof
  fix x assume x: "x \<in># B"
  then obtain j where j: "j < MAX_PROC" "snd x = Some (PB j)" "fst x = f (pb j)" "p_state (pb j) \<in> S"
    using assms(1) by (auto simp: keyed_def)
  have "snd x \<in># image_mset snd B" using x by simp
  then have "j \<noteq> i" using assms(2) j(2) by metis
  then show "\<exists>k < MAX_PROC. snd x = Some (PB k) \<and> fst x = f ((pb(i := p)) k) \<and>
      p_state ((pb(i := p)) k) \<in> S"
    using j by auto
qed

lemma keyed_add:
  "keyed f S pb (add_mset x B) \<longleftrightarrow>
     (\<exists>i < MAX_PROC. snd x = Some (PB i) \<and> fst x = f (pb i) \<and> p_state (pb i) \<in> S) \<and> keyed f S pb B"
  by (simp add: keyed_def)

text \<open>Writing to a process that is in no queue, without changing its pid.\<close>

lemma sched_ok_upd:
  assumes ok: "sched_ok L sc" and i: "i < MAX_PROC"
    and out: "Some (PB i) \<notin># free_bag sc" "Some (PB i) \<notin># ready_bag sc"
      "Some (PB i) \<notin># waiting_bag sc"
    and pid: "p_pid (f (s_pb sc i)) = p_pid (s_pb sc i)"
  shows "sched_ok L (upd (PB i) f sc)"
proof -
  note inv = sched_okD [OF ok]
  have "pids_ok (upd (PB i) f sc)" using inv(1) pid by (simp add: pids_ok_def)
  moreover have "free_ok (upd (PB i) f sc)" using inv(2) out(1) by (auto simp: free_ok_def)
  moreover have "queues_ok (upd (PB i) f sc)"
    using queues_okD [OF inv(3)] out(2,3) keyed_upd
    by (simp add: queues_ok_def ready_bag_def waiting_bag_def)
  moreover have "curr_ok (upd (PB i) f sc)"
    using inv(4) pid by (auto simp: curr_ok_def deref_def split: proc_ptr.splits)
  ultimately show ?thesis using inv(5) by (simp add: sched_ok_def)
qed

lemma sched_ok_upd_P0:
  assumes "sched_ok L sc" "p_pid (f (s_p0 sc)) = p_pid (s_p0 sc)"
  shows "sched_ok L (upd P0 f sc)"
  using assms by (auto simp: sched_ok_def pids_ok_def free_ok_def queues_ok_def curr_ok_def
      deref_def split: proc_ptr.splits)

lemma sched_ok_upd_held:
  assumes "sched_ok L sc" "Some (PB i) \<in># L" "p_pid (f (s_pb sc i)) = p_pid (s_pb sc i)"
  shows "sched_ok L (upd (PB i) f sc)"
  using assms(1,2) by (rule held_slot) (use assms in \<open>auto intro: sched_ok_upd\<close>)

lemma sched_ok_upd_curr:
  assumes "sched_ok L sc" "s_curr sc = Some (PB i)" "p_pid (f (s_pb sc i)) = p_pid (s_pb sc i)"
  shows "sched_ok L (upd (PB i) f sc)"
  using curr_slot [OF assms(1,2)] assms by (intro sched_ok_upd) auto

section \<open>What each operation does to the table\<close>

lemma sched_alloc_proc_none:
  "s_nfree sc = 0 \<Longrightarrow> sched_alloc_proc sc = (None, sc)"
  by (simp add: sched_alloc_proc_def)

lemma sched_alloc_proc_ok:
  assumes ok: "sched_ok L sc" and n: "0 < s_nfree sc"
  obtains i where "i < MAX_PROC" "sched_alloc_proc sc = (Some (PB i), sc\<lparr>s_nfree := s_nfree sc - 1\<rparr>)"
    "sched_ok (add_mset (Some (PB i)) L) (sc\<lparr>s_nfree := s_nfree sc - 1\<rparr>)"
proof -
  let ?n = "s_nfree sc - 1" and ?sc = "sc\<lparr>s_nfree := s_nfree sc - 1\<rparr>"
  note inv = sched_okD [OF ok]
  have "[0..<s_nfree sc] = [0..<?n] @ [?n]"
    using n by (metis Suc_pred' upt_Suc_append zero_le)
  then have fb: "free_bag sc = add_mset (Some (s_free_proc sc ?n)) (free_bag ?sc)"
    by (simp add: free_bag_def)
  have eq: "free_bag ?sc + ready_bag ?sc + waiting_bag ?sc + curr_bag ?sc
      + add_mset (Some (s_free_proc sc ?n)) L = all_slots"
  proof -
    have "ready_bag ?sc = ready_bag sc" "waiting_bag ?sc = waiting_bag sc" "curr_bag ?sc = curr_bag sc"
      by (simp_all add: bag_defs)
    then show ?thesis using inv(5) fb by simp
  qed
  then have "Some (s_free_proc sc ?n) \<in># all_slots"
    by (metis add_mset_add_single multi_member_last union_iff)
  then obtain i where i: "i < MAX_PROC" "s_free_proc sc ?n = PB i" by (auto simp: all_slots_iff)
  have "sched_ok (add_mset (Some (PB i)) L) ?sc"
    unfolding sched_ok_def
    using inv(1-4) eq i fb by (auto simp: pids_ok_def free_ok_def queues_ok_def curr_ok_def deref_def
        split: proc_ptr.splits)
  then show thesis
    using that [OF i(1)] i(2) n by (simp add: sched_alloc_proc_def Let_def)
qed

text \<open>
  Putting a held slot back: onto the free stack, into the ready queue, into the waiting
  queue. A queue takes \<open>READY_MAX\<close> entries; one more is a panic.
\<close>

lemma free_slot_ok:
  assumes ok: "sched_ok (add_mset (Some (PB i)) L) sc" and n: "s_nfree sc < MAX_PROC"
    and st: "p_state (s_pb sc i) = PROC_UNUSED"
  shows "sched_ok L (sc\<lparr>s_free_proc := (s_free_proc sc)(s_nfree sc := PB i), s_nfree := s_nfree sc + 1\<rparr>)"
    (is "sched_ok L ?sc")
proof -
  note inv = sched_okD [OF ok]
  have fb: "free_bag ?sc = add_mset (Some (PB i)) (free_bag sc)"
    by (auto simp: free_bag_def intro: image_mset_cong)
  have "ready_bag ?sc = ready_bag sc" "waiting_bag ?sc = waiting_bag sc" "curr_bag ?sc = curr_bag sc"
    by (simp_all add: bag_defs)
  then have "free_bag ?sc + ready_bag ?sc + waiting_bag ?sc + curr_bag ?sc + L = all_slots"
    using inv(5) fb by simp
  moreover have "pids_ok ?sc" "queues_ok ?sc" "curr_ok ?sc"
    using inv(1,3,4) by (simp_all add: pids_ok_def queues_ok_def curr_ok_def)
  moreover have "free_ok ?sc" using inv(2) n st fb by (auto simp: free_ok_def)
  ultimately show ?thesis by (simp add: sched_ok_def)
qed

lemma push_ready_ok:
  assumes ok: "sched_ok (add_mset (Some (PB i)) L) sc" and nf: "\<not> heap_full (s_ready sc)"
    and st: "p_state (s_pb sc i) \<in> {PROC_READY, PROC_WAITING}"
    and push: "heap_push (s_ready sc) (p_eff_deadline (s_pb sc i)) (Some (PB i)) = (r, h)"
  shows "sched_ok L (sc\<lparr>s_ready := h\<rparr>)" (is "sched_ok L ?sc")
proof -
  note inv = sched_okD [OF ok] and q = queues_okD [OF sched_okD(3) [OF ok]]
  note h = heap_push_ok [OF q(1) nf push]
  have i: "i < MAX_PROC" using ok by (rule held_slot [of _ _ "Some (PB i)"]) auto
  have "free_bag ?sc = free_bag sc" "waiting_bag ?sc = waiting_bag sc" "curr_bag ?sc = curr_bag sc"
    "ready_bag ?sc = add_mset (Some (PB i)) (ready_bag sc)"
    using h(3) by (simp_all add: bag_defs)
  then have "free_bag ?sc + ready_bag ?sc + waiting_bag ?sc + curr_bag ?sc + L = all_slots"
    using inv(5) by simp
  moreover have "pids_ok ?sc" "free_ok ?sc" "curr_ok ?sc"
    using inv(1,2,4) by (simp_all add: pids_ok_def free_ok_def free_bag_def curr_ok_def)
  moreover have "queues_ok ?sc"
    using q h(2,3,5) i st by (auto simp: queues_ok_def keyed_add)
  ultimately show ?thesis by (simp add: sched_ok_def)
qed

lemma push_waiting_ok:
  assumes ok: "sched_ok (add_mset (Some (PB i)) L) sc" and nf: "\<not> heap_full (s_waiting sc)"
    and st: "p_state (s_pb sc i) = PROC_WAITING"
    and push: "heap_push (s_waiting sc) (p_wait_until (s_pb sc i)) (Some (PB i)) = (r, h)"
  shows "sched_ok L (sc\<lparr>s_waiting := h\<rparr>)" (is "sched_ok L ?sc")
proof -
  note inv = sched_okD [OF ok] and q = queues_okD [OF sched_okD(3) [OF ok]]
  note h = heap_push_ok [OF q(3) nf push]
  have i: "i < MAX_PROC" using ok by (rule held_slot [of _ _ "Some (PB i)"]) auto
  have "free_bag ?sc = free_bag sc" "ready_bag ?sc = ready_bag sc" "curr_bag ?sc = curr_bag sc"
    "waiting_bag ?sc = add_mset (Some (PB i)) (waiting_bag sc)"
    using h(3) by (simp_all add: bag_defs)
  then have "free_bag ?sc + ready_bag ?sc + waiting_bag ?sc + curr_bag ?sc + L = all_slots"
    using inv(5) by simp
  moreover have "pids_ok ?sc" "free_ok ?sc" "curr_ok ?sc"
    using inv(1,2,4) by (simp_all add: pids_ok_def free_ok_def free_bag_def curr_ok_def)
  moreover have "queues_ok ?sc"
    using q h(2,3,5) i st by (auto simp: queues_ok_def keyed_add)
  ultimately show ?thesis by (simp add: sched_ok_def)
qed

lemma sched_ready_proc_full:
  assumes "sched_ok L sc" "i < MAX_PROC" "heap_full (s_ready sc)"
  shows "sched_ready_proc (p_pid (s_pb sc i)) sc = Inl (Kernel_panic JRT_ENOMEM)"
  using sched_get_proc_pid [OF sched_okD(1) [OF assms(1)] assms(2), of sc] assms(3)
  by (simp add: sched_ready_proc_def heap_push_full)

lemma sched_ready_proc_ok:
  assumes ok: "sched_ok (add_mset (Some (PB i)) L) sc" and nf: "\<not> heap_full (s_ready sc)"
    and st: "p_state (s_pb sc i) \<in> {PROC_READY, PROC_WAITING}"
  obtains h where "sched_ready_proc (p_pid (s_pb sc i)) sc = Inr (sc\<lparr>s_ready := h\<rparr>)"
    "sched_ok L (sc\<lparr>s_ready := h\<rparr>)"
    "heap_bag h = add_mset (p_eff_deadline (s_pb sc i), Some (PB i)) (heap_bag (s_ready sc))"
    "hlen h = Suc (hlen (s_ready sc))"
proof -
  obtain r h where push: "heap_push (s_ready sc) (p_eff_deadline (s_pb sc i)) (Some (PB i)) = (r, h)"
    by (metis surj_pair)
  have q: "heap_inv (s_ready sc)" using queues_okD(1) [OF sched_okD(3) [OF ok]] .
  note h = heap_push_ok [OF q nf push]
  have i: "i < MAX_PROC" using ok by (rule held_slot [of _ _ "Some (PB i)"]) auto
  have "sched_ready_proc (p_pid (s_pb sc i)) sc = Inr (sc\<lparr>s_ready := h\<rparr>)"
    using sched_get_proc_pid [OF sched_okD(1) [OF ok] i, of sc] push h(1)
    by (simp add: sched_ready_proc_def)
  then show thesis using that push_ready_ok [OF ok nf st push] h(3,4) by blast
qed

lemma sched_wait_proc_full:
  assumes "sched_ok L sc" "i < MAX_PROC" "heap_full (s_waiting sc)"
  shows "sched_wait_proc (p_pid (s_pb sc i)) sc = Inl (Kernel_panic JRT_ENOMEM)"
  using sched_get_proc_pid [OF sched_okD(1) [OF assms(1)] assms(2), of sc] assms(3)
  by (simp add: sched_wait_proc_def heap_push_full)

lemma sched_wait_proc_ok:
  assumes ok: "sched_ok (add_mset (Some (PB i)) L) sc" and nf: "\<not> heap_full (s_waiting sc)"
    and st: "p_state (s_pb sc i) = PROC_WAITING"
  obtains h where "sched_wait_proc (p_pid (s_pb sc i)) sc = Inr (sc\<lparr>s_waiting := h\<rparr>)"
    "sched_ok L (sc\<lparr>s_waiting := h\<rparr>)"
    "heap_bag h = add_mset (p_wait_until (s_pb sc i), Some (PB i)) (heap_bag (s_waiting sc))"
proof -
  obtain r h where push: "heap_push (s_waiting sc) (p_wait_until (s_pb sc i)) (Some (PB i)) = (r, h)"
    by (metis surj_pair)
  have q: "heap_inv (s_waiting sc)" using queues_okD(3) [OF sched_okD(3) [OF ok]] .
  note h = heap_push_ok [OF q nf push]
  have i: "i < MAX_PROC" using ok by (rule held_slot [of _ _ "Some (PB i)"]) auto
  have "sched_wait_proc (p_pid (s_pb sc i)) sc = Inr (sc\<lparr>s_waiting := h\<rparr>)"
    using sched_get_proc_pid [OF sched_okD(1) [OF ok] i, of sc] push h(1)
    by (simp add: sched_wait_proc_def)
  then show thesis using that push_waiting_ok [OF ok nf st push] h(3) by blast
qed

text \<open>Taking the head of a queue: its slot goes into the handler's hands.\<close>

lemma pop_ready_ok:
  assumes ok: "sched_ok L sc" and ne: "heap_bag (s_ready sc) \<noteq> {#}"
  obtains k i h where "heap_pop (s_ready sc) k0 = ((k, Some (PB i)), h)" "i < MAX_PROC"
    "k = p_eff_deadline (s_pb sc i)" "p_state (s_pb sc i) \<in> {PROC_READY, PROC_WAITING}"
    "sched_ok (add_mset (Some (PB i)) L) (sc\<lparr>s_ready := h\<rparr>)"
    "heap_bag (s_ready sc) = add_mset (k, Some (PB i)) (heap_bag h)"
    "\<And>x. x \<in># heap_bag h \<Longrightarrow> k \<le> fst x" "\<not> heap_full h"
proof -
  note inv = sched_okD [OF ok] and q = queues_okD [OF sched_okD(3) [OF ok]]
  obtain k v h where pop: "heap_pop (s_ready sc) k0 = ((k, v), h)" by (metis surj_pair)
  have e: "\<not> heap_empty (s_ready sc)" using ne q(1) by (simp add: heap_empty_iff_bag)
  note p = heap_pop_ok [OF q(1) e pop]
  have bag: "heap_bag (s_ready sc) = add_mset (k, v) (heap_bag h)" using p(4) by simp
  then obtain i where i: "i < MAX_PROC" "v = Some (PB i)" "k = p_eff_deadline (s_pb sc i)"
      "p_state (s_pb sc i) \<in> {PROC_READY, PROC_WAITING}"
    and kh: "keyed p_eff_deadline {PROC_READY, PROC_WAITING} (s_pb sc) (heap_bag h)"
    using q(5) by (auto simp: keyed_add)
  let ?sc = "sc\<lparr>s_ready := h\<rparr>"
  have "free_bag ?sc = free_bag sc" "waiting_bag ?sc = waiting_bag sc" "curr_bag ?sc = curr_bag sc"
    "ready_bag sc = add_mset (Some (PB i)) (ready_bag ?sc)"
    using bag i(2) by (simp_all add: bag_defs)
  then have "free_bag ?sc + ready_bag ?sc + waiting_bag ?sc + curr_bag ?sc
      + add_mset (Some (PB i)) L = all_slots"
    using inv(5) by simp
  moreover have "pids_ok ?sc" "free_ok ?sc" "curr_ok ?sc"
    using inv(1,2,4) by (simp_all add: pids_ok_def free_ok_def free_bag_def curr_ok_def)
  moreover have "queues_ok ?sc" using q p(3,6) kh by (simp add: queues_ok_def)
  ultimately have "sched_ok (add_mset (Some (PB i)) L) ?sc" by (simp add: sched_ok_def)
  moreover have "k \<le> fst x" if "x \<in># heap_bag h" for x
    using heap_pop_least [OF q(1) e pop, of "fst x" "snd x"] that bag by simp
  moreover have "\<not> heap_full h"
    using p(5,6) q(1) by (auto simp: heap_full_def heap_inv_def heap_wf_def)
  ultimately show thesis using that [of k i h] pop i bag by blast
qed

lemma pop_waiting_ok:
  assumes ok: "sched_ok L sc" and ne: "heap_bag (s_waiting sc) \<noteq> {#}"
  obtains k i h where "heap_pop (s_waiting sc) k0 = ((k, Some (PB i)), h)" "i < MAX_PROC"
    "k = p_wait_until (s_pb sc i)" "p_state (s_pb sc i) = PROC_WAITING"
    "sched_ok (add_mset (Some (PB i)) L) (sc\<lparr>s_waiting := h\<rparr>)"
    "heap_bag (s_waiting sc) = add_mset (k, Some (PB i)) (heap_bag h)"
    "\<And>x. x \<in># heap_bag h \<Longrightarrow> k \<le> fst x" "\<not> heap_full h" "hlen (s_waiting sc) = Suc (hlen h)"
proof -
  note inv = sched_okD [OF ok] and q = queues_okD [OF sched_okD(3) [OF ok]]
  obtain k v h where pop: "heap_pop (s_waiting sc) k0 = ((k, v), h)" by (metis surj_pair)
  have e: "\<not> heap_empty (s_waiting sc)" using ne q(3) by (simp add: heap_empty_iff_bag)
  note p = heap_pop_ok [OF q(3) e pop]
  have bag: "heap_bag (s_waiting sc) = add_mset (k, v) (heap_bag h)" using p(4) by simp
  then obtain i where i: "i < MAX_PROC" "v = Some (PB i)" "k = p_wait_until (s_pb sc i)"
      "p_state (s_pb sc i) = PROC_WAITING"
    and kh: "keyed p_wait_until {PROC_WAITING} (s_pb sc) (heap_bag h)"
    using q(6) by (auto simp: keyed_add)
  let ?sc = "sc\<lparr>s_waiting := h\<rparr>"
  have "free_bag ?sc = free_bag sc" "ready_bag ?sc = ready_bag sc" "curr_bag ?sc = curr_bag sc"
    "waiting_bag sc = add_mset (Some (PB i)) (waiting_bag ?sc)"
    using bag i(2) by (simp_all add: bag_defs)
  then have "free_bag ?sc + ready_bag ?sc + waiting_bag ?sc + curr_bag ?sc
      + add_mset (Some (PB i)) L = all_slots"
    using inv(5) by simp
  moreover have "pids_ok ?sc" "free_ok ?sc" "curr_ok ?sc"
    using inv(1,2,4) by (simp_all add: pids_ok_def free_ok_def free_bag_def curr_ok_def)
  moreover have "queues_ok ?sc" using q p(3,6) kh by (simp add: queues_ok_def)
  ultimately have "sched_ok (add_mset (Some (PB i)) L) ?sc" by (simp add: sched_ok_def)
  moreover have "k \<le> fst x" if "x \<in># heap_bag h" for x
    using heap_pop_least [OF q(3) e pop, of "fst x" "snd x"] that bag by simp
  moreover have "\<not> heap_full h"
    using p(5,6) q(3) by (auto simp: heap_full_def heap_inv_def heap_wf_def)
  ultimately show thesis using that [of k i h] pop i bag p(5) by blast
qed

section \<open>Dispatching\<close>

lemma sched_switch_simps [simp]:
  "s_p0 (sched_switch_irq c n sc) = s_p0 sc"
  "s_pb (sched_switch_irq c n sc) = s_pb sc"
  "s_curr (sched_switch_irq c n sc) = Some n"
  "s_pid (sched_switch_irq c n sc) = p_pid (deref sc n)"
  "s_free_proc (sched_switch_irq c n sc) = s_free_proc sc"
  "s_nfree (sched_switch_irq c n sc) = s_nfree sc"
  "s_ready (sched_switch_irq c n sc) = s_ready sc"
  "s_waiting (sched_switch_irq c n sc) = s_waiting sc"
  "deref (sched_switch_irq c n sc) p = deref sc p"
  by (simp_all add: sched_switch_irq_def Let_def)

text \<open>A switch puts the process that ran into the handler's hands.\<close>

lemma switch_ok:
  assumes ok: "sched_ok (add_mset (Some (PB i)) L) sc"
  shows "sched_ok (curr_bag sc + L) (sched_switch_irq c (PB i) sc)" (is "sched_ok _ ?sc")
proof -
  note inv = sched_okD [OF ok]
  have "free_bag ?sc = free_bag sc" "ready_bag ?sc = ready_bag sc" "waiting_bag ?sc = waiting_bag sc"
    "curr_bag ?sc = {#Some (PB i)#}"
    by (simp_all add: bag_defs)
  then have "free_bag ?sc + ready_bag ?sc + waiting_bag ?sc + curr_bag ?sc + (curr_bag sc + L) = all_slots"
    using inv(5) by (simp add: ac_simps)
  moreover have "pids_ok ?sc" "free_ok ?sc" "queues_ok ?sc"
    using inv(1-3) by (simp_all add: pids_ok_def free_ok_def free_bag_def queues_ok_def)
  moreover have "curr_ok ?sc" by (simp add: curr_ok_def)
  ultimately show ?thesis by (simp add: sched_ok_def)
qed

lemma switch_idle_ok:
  assumes ok: "sched_ok L sc"
  shows "sched_ok (curr_bag sc + L) (sched_switch_irq c P0 sc)" (is "sched_ok _ ?sc")
proof -
  note inv = sched_okD [OF ok]
  have "free_bag ?sc = free_bag sc" "ready_bag ?sc = ready_bag sc" "waiting_bag ?sc = waiting_bag sc"
    "curr_bag ?sc = {#}"
    by (simp_all add: bag_defs)
  then have "free_bag ?sc + ready_bag ?sc + waiting_bag ?sc + curr_bag ?sc + (curr_bag sc + L) = all_slots"
    using inv(5) by (simp add: ac_simps)
  moreover have "pids_ok ?sc" "free_ok ?sc" "queues_ok ?sc"
    using inv(1-3) by (simp_all add: pids_ok_def free_ok_def free_bag_def queues_ok_def)
  moreover have "curr_ok ?sc" by (simp add: curr_ok_def)
  ultimately show ?thesis by (simp add: sched_ok_def)
qed

lemma curr_cases:
  assumes "sched_ok L sc"
  obtains (kernel) "s_curr sc = Some P0" "s_pid sc = 0" "p_pid (s_p0 sc) = 0"
  | (slot) i where "s_curr sc = Some (PB i)" "i < MAX_PROC" "s_pid sc = p_pid (s_pb sc i)"
      "p_pid (s_pb sc i) \<noteq> 0"
proof -
  from sched_okD(4) [OF assms] obtain c where c: "s_curr sc = Some c" "s_pid sc = p_pid (deref sc c)"
    by (auto simp: curr_ok_def)
  show thesis
  proof (cases c)
    case P0
    then show thesis using c kernel sched_okD(1) [OF assms] by (simp add: pids_ok_def)
  next
    case (PB i)
    moreover from this have "i < MAX_PROC" using curr_slot(1) assms c(1) by blast
    ultimately show thesis
      using c slot slot_pid_not_kernel [OF sched_okD(1) [OF assms]] by simp
  qed
qed

lemma proc_of_pid_curr:
  assumes "sched_ok L sc" "s_curr sc = Some c"
  shows "proc_of_pid sc' (s_pid sc) (s_pid sc) = Inr c"
  using assms(1)
  by (cases rule: curr_cases)
    (use assms sched_get_proc_pid [OF sched_okD(1) [OF assms(1)]] in \<open>auto simp: proc_of_pid_def\<close>)

text \<open>
  \<open>sched_yield\<close> gives the processor to the ready process with the earliest deadline, or to
  the kernel when there is none, and hands out the process that ran.
\<close>

lemma sched_yield_ok:
  assumes ok: "sched_ok {#} sc" and c: "s_curr sc = Some c"
  obtains sc' where "sched_yield sc = Inr (c, sc')" "sched_ok (curr_bag sc) sc'" "edf sc'"
    "s_waiting sc' = s_waiting sc" "s_nfree sc' = s_nfree sc"
    "\<And>i. c = PB i \<Longrightarrow> s_pb sc' i = s_pb sc i" "\<And>i. c = PB i \<Longrightarrow> s_curr sc' \<noteq> Some c"
    "s_curr sc' = Some P0 \<longleftrightarrow> heap_bag (s_ready sc) = {#}"
proof (cases "heap_bag (s_ready sc) = {#}")
  case True
  have e: "heap_empty (s_ready sc)"
    using True queues_okD(1) [OF sched_okD(3) [OF ok]] by (simp add: heap_empty_iff_bag)
  let ?s1 = "upd P0 (\<lambda>q. q\<lparr>p_state := PROC_RUNNING\<rparr>) sc"
  let ?s2 = "sched_switch_irq c P0 ?s1"
  have "sched_yield sc = Inr (c, ?s2)"
    using e proc_of_pid_curr [OF ok c, of ?s1]
    by (simp add: sched_yield_def heap_pop_empty Let_def)
  moreover have "sched_ok {#} ?s1" using ok by (intro sched_ok_upd_P0) simp_all
  then have "sched_ok (curr_bag sc) ?s2" using switch_idle_ok [of "{#}" ?s1 c] by simp
  moreover have "edf ?s2" using True by (simp add: edf_def)
  ultimately show thesis using that True by simp
next
  case False
  obtain k i h where p: "heap_pop (s_ready sc) 0 = ((k, Some (PB i)), h)" "i < MAX_PROC"
    "k = p_eff_deadline (s_pb sc i)"
    "sched_ok (add_mset (Some (PB i)) {#}) (sc\<lparr>s_ready := h\<rparr>)"
    "\<And>x. x \<in># heap_bag h \<Longrightarrow> k \<le> fst x"
    by (rule pop_ready_ok [OF ok False, where ?k0.0 = 0]) blast
  let ?s0 = "sc\<lparr>s_ready := h\<rparr>"
  let ?s1 = "upd (PB i) (\<lambda>q. q\<lparr>p_state := PROC_RUNNING\<rparr>) ?s0"
  let ?s2 = "sched_switch_irq c (PB i) ?s1"
  have "sched_yield sc = Inr (c, ?s2)"
    using p(1) proc_of_pid_curr [OF ok c, of ?s1] by (simp add: sched_yield_def Let_def)
  moreover have "sched_ok (add_mset (Some (PB i)) {#}) ?s1"
    using p(4) by (intro sched_ok_upd_held) simp_all
  then have "sched_ok (curr_bag sc) ?s2"
    using switch_ok [of i "{#}" ?s1 c] by simp
  moreover have "edf ?s2" using p(3,5) by (simp add: edf_def)
  moreover have "Some (PB i) \<notin># curr_bag sc"
    by (rule held_slot [OF p(4), of "Some (PB i)"]) simp_all
  then have "c \<noteq> PB i" using c by (auto simp: curr_bag_def)
  ultimately show thesis using False by (intro that [of ?s2]) auto
qed

definition curr_running :: "sched_t \<Rightarrow> bool" where
  "curr_running sc \<longleftrightarrow> (\<forall>i. s_curr sc = Some (PB i) \<longrightarrow> p_state (s_pb sc i) = PROC_RUNNING)"

lemma edf_curr_running: "edf sc \<Longrightarrow> curr_running sc"
  by (simp add: edf_def curr_running_def)

text \<open>
  \<open>sched\<close> with a non-empty ready queue: it returns, keeps every slot and establishes
  earliest-deadline-first.
\<close>

lemma sched_idle_ok:
  assumes ok: "sched_ok L sc" and ne: "heap_bag (s_ready sc) \<noteq> {#}" and c: "s_curr sc = Some P0"
  obtains sc' where "sched dl0 sched_switch_irq sc = Inr sc'" "sched_ok L sc'" "edf sc'"
    "s_waiting sc' = s_waiting sc" "hlen (s_ready sc') \<le> hlen (s_ready sc)"
proof -
  have pid: "p_pid (s_p0 sc) = 0" using sched_okD(1) [OF ok] by (simp add: pids_ok_def)
  obtain dl v where pk: "heap_peek (s_ready sc) dl0 = (dl, v)" by (metis surj_pair)
  obtain k i h where p: "heap_pop (s_ready sc) dl = ((k, Some (PB i)), h)" "i < MAX_PROC"
    "k = p_eff_deadline (s_pb sc i)" "p_state (s_pb sc i) \<in> {PROC_READY, PROC_WAITING}"
    "sched_ok (add_mset (Some (PB i)) L) (sc\<lparr>s_ready := h\<rparr>)"
    "heap_bag (s_ready sc) = add_mset (k, Some (PB i)) (heap_bag h)"
    "\<And>x. x \<in># heap_bag h \<Longrightarrow> k \<le> fst x"
    by (rule pop_ready_ok [OF ok ne, where ?k0.0 = dl]) blast
  let ?s1 = "upd (PB i) (\<lambda>q. q\<lparr>p_state := PROC_RUNNING\<rparr>) (sc\<lparr>s_ready := h\<rparr>)"
  let ?s2 = "upd P0 (\<lambda>q. q\<lparr>p_state := PROC_READY\<rparr>) ?s1"
  let ?s3 = "sched_switch_irq P0 (PB i) ?s2"
  have "sched dl0 sched_switch_irq sc = Inr ?s3"
    using pk p(1) c pid by (simp add: sched_def proc_of_pid_def Let_def)
  moreover have "sched_ok (add_mset (Some (PB i)) L) ?s2"
    using p(5) by (intro sched_ok_upd_P0 sched_ok_upd_held) simp_all
  then have "sched_ok L ?s3"
    using switch_ok [of i L ?s2 P0] c by (simp add: curr_bag_def)
  moreover have "edf ?s3" using p(3,7) by (simp add: edf_def)
  moreover have "hlen h \<le> hlen (s_ready sc)"
  proof -
    have "heap_inv h" "heap_inv (s_ready sc)"
      using queues_okD(1) [OF sched_okD(3) [OF p(5)]] queues_okD(1) [OF sched_okD(3) [OF ok]] by simp_all
    then show ?thesis using p(6) heap_bag_size by (metis size_add_mset le_SucI order_refl)
  qed
  ultimately show thesis using that by simp
qed

lemma sched_running_ok:
  assumes ok: "sched_ok L sc" and ne: "heap_bag (s_ready sc) \<noteq> {#}" and c: "s_curr sc = Some (PB j)"
    and run: "p_state (s_pb sc j) = PROC_RUNNING"
  obtains sc' where "sched dl0 sched_switch_irq sc = Inr sc'" "sched_ok L sc'" "edf sc'"
    "s_waiting sc' = s_waiting sc" "hlen (s_ready sc') \<le> hlen (s_ready sc)"
    "s_curr sc' \<noteq> s_curr sc \<longleftrightarrow> (\<exists>x \<in># heap_bag (s_ready sc). fst x < p_eff_deadline (s_pb sc j))"
proof -
  let ?r = "s_ready sc"
  have pid: "p_pid (s_pb sc j) \<noteq> 0" "s_pid sc = p_pid (s_pb sc j)"
    using ok by (cases rule: curr_cases; use c in simp)+
  have cp: "proc_of_pid sc (p_pid (s_pb sc j)) (s_pid sc) = Inr (PB j)"
    using proc_of_pid_curr [OF ok c, of sc] pid(2) by simp
  obtain dl v where pk: "heap_peek ?r dl0 = (dl, v)" by (metis surj_pair)
  obtain k i h where p: "heap_pop ?r dl = ((k, Some (PB i)), h)" "i < MAX_PROC"
    "k = p_eff_deadline (s_pb sc i)" "p_state (s_pb sc i) \<in> {PROC_READY, PROC_WAITING}"
    "sched_ok (add_mset (Some (PB i)) L) (sc\<lparr>s_ready := h\<rparr>)"
    "heap_bag ?r = add_mset (k, Some (PB i)) (heap_bag h)"
    "\<And>x. x \<in># heap_bag h \<Longrightarrow> k \<le> fst x" "\<not> heap_full h"
    by (rule pop_ready_ok [OF ok ne, where ?k0.0 = dl]) blast
  have hr: "heap_inv ?r" using queues_okD(1) [OF sched_okD(3) [OF ok]] .
  have ji: "j \<noteq> i" using p(4) run by auto
  have e: "\<not> heap_empty ?r" using ne hr by (simp add: heap_empty_iff_bag)
  have dl: "dl = k" "v = Some (PB i)"
    using pk p(1) heap_peek_pop [of ?r dl0] e by (simp_all add: heap_pop_def Let_def)
  show thesis
  proof (cases "p_eff_deadline (s_pb sc j) > k")
    case False
    then have "sched dl0 sched_switch_irq sc = Inr sc"
      using pk cp c pid(1) dl by (simp add: sched_def)
    moreover have "edf sc"
      using False p(6,7) c run by (force simp: edf_def)
    moreover have "\<not> (\<exists>x \<in># heap_bag ?r. fst x < p_eff_deadline (s_pb sc j))"
      using False p(6,7) by (fastforce simp: not_less)
    ultimately show thesis using that ok by simp
  next
    case True
    let ?s1 = "upd (PB i) (\<lambda>q. q\<lparr>p_state := PROC_RUNNING\<rparr>) (sc\<lparr>s_ready := h\<rparr>)"
    let ?s2 = "upd (PB j) (\<lambda>q. q\<lparr>p_state := PROC_READY\<rparr>) ?s1"
    have "sched_ok (add_mset (Some (PB i)) L) ?s2"
      using p(5) c by (intro sched_ok_upd_curr sched_ok_upd_held) simp_all
    then have ok2: "sched_ok (add_mset (Some (PB j)) L) (sched_switch_irq (PB j) (PB i) ?s2)"
      using switch_ok [of i L ?s2 "PB j"] c by (simp add: curr_bag_def)
    obtain r h' where push: "heap_push h (p_eff_deadline (s_pb sc j)) (Some (PB j)) = (r, h')"
      by (metis surj_pair)
    have "heap_inv h" using queues_okD(1) [OF sched_okD(3) [OF p(5)]] by simp
    note h' = heap_push_ok [OF this p(8) push]
    have rdy: "sched_ready_proc (p_pid (s_pb sc j)) ?s2 = Inr (?s2\<lparr>s_ready := h'\<rparr>)"
      using sched_get_proc_pid [OF sched_okD(1) [OF ok] curr_slot(1) [OF ok c], of ?s2] push h'(1) ji
      by (simp add: sched_ready_proc_def)
    have ok3: "sched_ok L (sched_switch_irq (PB j) (PB i) ?s2\<lparr>s_ready := h'\<rparr>)"
      by (rule push_ready_ok [OF ok2, where r = r]) (use push p(8) ji in simp_all)
    let ?s3 = "sched_switch_irq (PB j) (PB i) (?s2\<lparr>s_ready := h'\<rparr>)"
    have sw: "?s3 = sched_switch_irq (PB j) (PB i) ?s2\<lparr>s_ready := h'\<rparr>"
      by (simp add: sched_switch_irq_def Let_def)
    have "sched dl0 sched_switch_irq sc = Inr ?s3"
      using pk cp c pid(1) dl True p(1) rdy ji by (simp add: sched_def Let_def)
    moreover have "sched_ok L ?s3" unfolding sw by (rule ok3)
    moreover have "edf ?s3"
      using p(3,7) h'(3) True ji by (auto simp: edf_def)
    moreover have "hlen h' \<le> hlen ?r"
      using h'(4) heap_pop_ok(5) [OF hr e p(1)] by simp
    moreover have "\<exists>x \<in># heap_bag ?r. fst x < p_eff_deadline (s_pb sc j)" using True p(6) by auto
    ultimately show thesis using that c ji by simp
  qed
qed

lemma sched_ok_edf:
  assumes "sched_ok L sc" "heap_bag (s_ready sc) \<noteq> {#}" "curr_running sc"
  obtains sc' where "sched dl0 sched_switch_irq sc = Inr sc'" "sched_ok L sc'" "edf sc'"
    "s_waiting sc' = s_waiting sc" "hlen (s_ready sc') \<le> hlen (s_ready sc)"
  using assms(1)
proof (cases rule: curr_cases)
  case kernel
  then show thesis using sched_idle_ok [OF assms(1,2), of dl0] that by blast
next
  case (slot i)
  then show thesis
    using sched_running_ok [OF assms(1,2) slot(1), of dl0] assms(3) that by (auto simp: curr_running_def)
qed

end
