(* ===== verification/Kernel.thy ===== *)
theory Kernel
  imports Sched
begin

text \<open>
  The entry points of the kernel: the system calls of \<^verbatim>\<open>rtprog/syscall.c\<close> and the interrupt
  handlers and start-up code of \<^verbatim>\<open>rtprog/rtprog.c\<close>, each as a function from the kernel's
  state to its new state or to the fault that stops the core. The theory proves that every
  handler keeps the scheduler's invariant and the timer's, and lifts this to all sequences
  of handler calls, user code and mailbox traffic.

  A local variable the source leaves uninitialised on some path has the value \<open>dl0\<close>, an
  argument about which nothing is known.
\<close>

section \<open>System calls\<close>

datatype syscall_t = SYSCALL_WAIT_UNTIL | SYSCALL_EXIT | SYSCALL_SPAWN

definition syscall_nr :: "syscall_t \<Rightarrow> u64" where
  "syscall_nr c = (case c of SYSCALL_WAIT_UNTIL \<Rightarrow> 0 | SYSCALL_EXIT \<Rightarrow> 1 | SYSCALL_SPAWN \<Rightarrow> 2)"

definition wait_until :: "u64 \<Rightarrow> u64 \<Rightarrow> kernel \<Rightarrow> kernel res" where
  "wait_until dl0 until k =
     bindE (sched_yield (k_sched k)) (\<lambda>(p, sc).
       (let sc = upd p (\<lambda>q. q\<lparr>p_wait_until := until\<rparr>) sc;
            sc = upd p (\<lambda>q. q\<lparr>p_state := PROC_WAITING\<rparr>) sc;
            (dl, w) = heap_peek (s_waiting sc) dl0
        in bindE (sched_wait_proc (p_pid (deref sc p)) sc) (\<lambda>sc.
             let k = k\<lparr>k_sched := sc\<rparr> in
             if w = None \<or> dl > until then
               (let k = (if w \<noteq> None then k\<lparr>k_timer := timer_cancel (k_timer k)\<rparr> else k)
                in Inr (k\<lparr>k_timer := snd (timer_schedule_at_ticks until (k_timer k))\<rparr>))
             else Inr k)))"

definition exit :: "kernel \<Rightarrow> kernel res" where
  "exit k =
     bindE (sched_yield (k_sched k)) (\<lambda>(p, sc).
       sched_free_proc (p_pid (deref sc p)) (k\<lparr>k_sched := sc\<rparr>))"

text \<open>
  \<open>enter_proc\<close>: the last two calls of \<open>spawn\<close> and of \<open>schedule_req\<close>, which put the new
  process into the ready queue and call the scheduler.
\<close>

definition enter_proc :: "u64 \<Rightarrow> u32 \<Rightarrow> sched_t \<Rightarrow> sched_t res" where
  "enter_proc dl0 pid sc =
     bindE (sched_ready_proc pid sc) (\<lambda>sc. sched dl0 sched_switch_irq sc)"

definition spawn :: "u64 \<Rightarrow> u64 \<Rightarrow> u64 \<Rightarrow> u64 \<Rightarrow> u64 \<Rightarrow> kernel \<Rightarrow> kernel res" where
  "spawn dl0 deadline ep ap mem_req k =
     bindE (alloc (k_alloc k) mem_req (k_mem k)) (\<lambda>(mem, a, m).
       (let k = k\<lparr>k_alloc := a, k_mem := m\<rparr> in
        case s_curr (k_sched k) of None \<Rightarrow> Inl Null_deref
        | Some cp \<Rightarrow>
            bindE (sched_new_proc (p_pa_pc (deref (k_sched k) cp)) (p_prog_size (deref (k_sched k) cp))
                     mem mem_req deadline (k_exit k) k) (\<lambda>(pid, k).
            bindE (sched_get_proc (k_sched k) pid) (\<lambda>p.
              (let sc = upd p (\<lambda>q. q\<lparr>p_ctx := (p_ctx q)\<lparr>cx_pc := ep\<rparr>\<rparr>) (k_sched k);
                   sc = upd p (\<lambda>q. q\<lparr>p_ctx := (p_ctx q)\<lparr>cx_x := (cx_x (p_ctx q))(2 := ap)\<rparr>\<rparr>) sc
               in bindE (enter_proc dl0 pid sc) (\<lambda>sc. Inr (k\<lparr>k_sched := sc\<rparr>)))))))"

definition take_syscall :: "u64 \<Rightarrow> kernel \<Rightarrow> kernel res" where
  "take_syscall dl0 k =
     (case s_curr (k_sched k) of None \<Rightarrow> Inl Null_deref
      | Some cp \<Rightarrow>
          (let x = cx_x (p_ctx (deref (k_sched k) cp)) in
           if x 8 = syscall_nr SYSCALL_WAIT_UNTIL then wait_until dl0 (x 0) k
           else if x 8 = syscall_nr SYSCALL_EXIT then exit k
           else if x 8 = syscall_nr SYSCALL_SPAWN then spawn dl0 (x 0) (x 1) (x 2) (x 3) k
           else Inr k))"

section \<open>Interrupt handlers and start-up\<close>

definition schedule_req :: "u64 \<Rightarrow> u64 \<Rightarrow> u64 \<Rightarrow> u64 \<Rightarrow> kernel \<Rightarrow> kernel res" where
  "schedule_req dl0 pc prog_size mem_req k =
     bindE (alloc (k_alloc k) mem_req (k_mem k)) (\<lambda>(mem, a, m).
       (let k = k\<lparr>k_alloc := a, k_mem := m\<rparr> in
        if mem = 0 then Inl (Kernel_panic JRT_ENOMEM)
        else
          bindE (sched_new_proc pc prog_size mem mem_req 0 (k_exit k) k) (\<lambda>(pid, k).
          bindE (enter_proc dl0 pid (k_sched k)) (\<lambda>sc. Inr (k\<lparr>k_sched := sc\<rparr>)))))"

text \<open>The loop of \<open>ipc_sched\<close>, with what is left of its budget.\<close>

primrec ipc_loop :: "u64 \<Rightarrow> nat \<Rightarrow> kernel \<Rightarrow> kernel res" where
  "ipc_loop dl0 0 k = Inr k"
| "ipc_loop dl0 (Suc budget) k =
     (case mpsc_pop (k_ring k) of ((rc, sr), ring) \<Rightarrow>
        case sr of None \<Rightarrow> Inr k
        | Some sr \<Rightarrow>
            bindE (schedule_req dl0 (rq_pc sr) (rq_prog_size sr) (rq_mem_req sr)
                     (k\<lparr>k_ring := ring\<rparr>))
              (ipc_loop dl0 budget))"

definition ipc_sched :: "u64 \<Rightarrow> kernel \<Rightarrow> kernel res" where
  "ipc_sched dl0 k = ipc_loop dl0 3 k"

partial_function (option) timer_loop :: "u64 \<Rightarrow> kernel \<Rightarrow> kernel res option" where
  "timer_loop dl0 k =
     (case heap_pop (s_waiting (k_sched k)) dl0 of ((dl, v), h) \<Rightarrow>
        (let sc = (k_sched k)\<lparr>s_waiting := h\<rparr> in
         case v of None \<Rightarrow> Some (Inr (k\<lparr>k_sched := sc\<rparr>))
         | Some p \<Rightarrow>
             (case time_now_ticks (k_timer k) of (now, t) \<Rightarrow>
                if dl > now then
                  (case sched_wait_proc (p_pid (deref sc p)) sc of Inl e \<Rightarrow> Some (Inl e)
                   | Inr sc \<Rightarrow> Some (Inr (k\<lparr>k_sched := sc, k_timer := snd (timer_schedule_at_ticks dl t)\<rparr>)))
                else
                  (case enter_proc dl0 (p_pid (deref sc p)) sc of Inl e \<Rightarrow> Some (Inl e)
                   | Inr sc \<Rightarrow>
                       if sched_has_waiting sc then timer_loop dl0 (k\<lparr>k_sched := sc, k_timer := t\<rparr>)
                       else Some (Inr (k\<lparr>k_sched := sc, k_timer := timer_cancel t\<rparr>))))))"

declare timer_loop.simps [code]

definition timer_fn :: "u64 \<Rightarrow> kernel \<Rightarrow> kernel res" where
  "timer_fn dl0 k =
     (if \<not> sched_has_waiting (k_sched k) then Inr (k\<lparr>k_timer := timer_cancel (k_timer k)\<rparr>)
      else case timer_loop dl0 k of None \<Rightarrow> Inl No_return | Some r \<Rightarrow> r)"

text \<open>
  \<open>jrt_main\<close> up to its idle loop: the allocator, the scheduler with the kernel's map, the
  clock. The calls that only program devices (\<open>uart_init\<close>, \<open>irq_init\<close>, the interrupt
  controller, \<open>mmu_enable\<close>) write none of this state.
\<close>

definition jrt_main :: "kernel \<Rightarrow> kernel res" where
  "jrt_main k =
     (let (a, m) = alloc_init (k_mem k) JRT_HEAP_START JRT_HEAP_SIZE in
      bindE (sched_init (k\<lparr>k_alloc := a, k_mem := m\<rparr>)) (\<lambda>k.
        Inr (k\<lparr>k_timer := timebase_init (k_timer k)\<rparr>)))"

section \<open>The invariant\<close>

text \<open>
  The timer is armed for a wake-up time \<open>d\<close>: it is enabled and its compare value is what
  \<open>timer_schedule_at_ticks\<close> computes for \<open>d\<close> from some earlier reading of the counter.
\<close>

definition armed_for :: "u64 \<Rightarrow> timer \<Rightarrow> bool" where
  "armed_for d t \<longleftrightarrow> t_ctl t = 1 \<and>
     (\<exists>r < t_reads t. t_cval t = (if 0 < sint (d - t_cntpct t r) then d else t_cntpct t r + 1))"

definition least_key :: "(u64 \<times> 'v option) multiset \<Rightarrow> u64 \<Rightarrow> bool" where
  "least_key B d \<longleftrightarrow> (\<exists>v. (d, v) \<in># B) \<and> (\<forall>x \<in># B. d \<le> fst x)"

definition timer_ok :: "sched_t \<Rightarrow> timer \<Rightarrow> bool" where
  "timer_ok sc t \<longleftrightarrow> (\<forall>d. least_key (heap_bag (s_waiting sc)) d \<longrightarrow> armed_for d t)"

definition kernel_inv :: "kernel \<Rightarrow> bool" where
  "kernel_inv k \<longleftrightarrow> sched_inv (k_sched k) \<and> timer_ok (k_sched k) (k_timer k)"

lemma armed_for_schedule: "armed_for d (snd (timer_schedule_at_ticks d t))"
  by (auto simp: armed_for_def timer_schedule_eval Let_def intro: exI [of _ "t_reads t"])

lemma least_key_unique: "least_key B d \<Longrightarrow> least_key B d' \<Longrightarrow> d = d'"
  by (fastforce simp: least_key_def)

lemma least_key_add_keep: "least_key B m \<Longrightarrow> m \<le> k \<Longrightarrow> least_key (add_mset (k, v) B) m"
  by (auto simp: least_key_def)

lemma least_key_add_new: "\<forall>x \<in># B. k \<le> fst x \<Longrightarrow> least_key (add_mset (k, v) B) k"
  by (auto simp: least_key_def)

lemma heap_peek_least:
  assumes "heap_inv h" "\<not> heap_empty h"
  shows "least_key (heap_bag h) (fst (heap_peek h k0))"
proof -
  obtain k v h' where pop: "heap_pop h k0 = ((k, v), h')" by (metis surj_pair)
  then have "heap_peek h k0 = (k, v)" by (simp add: heap_peek_pop)
  then show ?thesis
    using heap_pop_least [OF assms pop] heap_peek_in_bag [OF assms, of k0]
    by (auto simp: least_key_def)
qed

lemma timer_okI: "least_key (heap_bag (s_waiting sc)) d \<Longrightarrow> armed_for d t \<Longrightarrow> timer_ok sc t"
  using least_key_unique by (auto simp: timer_ok_def)

lemma timer_ok_empty: "heap_bag (s_waiting sc) = {#} \<Longrightarrow> timer_ok sc t"
  by (simp add: timer_ok_def least_key_def)

lemma timer_ok_cong: "s_waiting sc' = s_waiting sc \<Longrightarrow> timer_ok sc' t \<longleftrightarrow> timer_ok sc t"
  by (simp add: timer_ok_def)

section \<open>The system calls\<close>

text \<open>
  \<open>wait_until\<close> by a running process: it panics exactly when the waiting queue is full, and
  otherwise leaves the caller waiting, the best ready process running and the timer armed.
\<close>

lemma sched_inv_curr:
  assumes "sched_inv sc"
  obtains (kernel) "s_curr sc = Some P0" | (slot) i where "s_curr sc = Some (PB i)" "i < MAX_PROC"
  using assms unfolding sched_inv_def by (metis curr_cases)

lemma edf_upd_other:
  assumes "edf sc" "s_curr sc \<noteq> Some (PB i)"
  shows "edf (upd (PB i) f sc)"
  using assms by (auto simp: edf_def)

lemma wait_until_kernel:
  assumes "kernel_inv k" "s_curr (k_sched k) = Some P0"
  shows "wait_until dl0 u k = Inl (Kernel_panic JRT_EINVAL)"
proof -
  have ok: "sched_ok {#} (k_sched k)" using assms(1) by (simp add: kernel_inv_def sched_inv_def)
  obtain sc where y: "sched_yield (k_sched k) = Inr (P0, sc)" "sched_ok (curr_bag (k_sched k)) sc"
    by (rule sched_yield_ok [OF ok assms(2)]) blast
  have "p_pid (s_p0 sc) = 0" using sched_okD(1) [OF y(2)] by (simp add: pids_ok_def)
  then show ?thesis
    using y(1) by (simp add: wait_until_def Let_def sched_wait_proc_def sched_get_proc_kernel
        split: prod.splits)
qed

lemma wait_until_full:
  assumes inv: "kernel_inv k" and c: "s_curr (k_sched k) = Some (PB i)"
    and full: "heap_full (s_waiting (k_sched k))"
  shows "wait_until dl0 u k = Inl (Kernel_panic JRT_ENOMEM)"
proof -
  have ok: "sched_ok {#} (k_sched k)" using inv by (simp add: kernel_inv_def sched_inv_def)
  obtain sc where y: "sched_yield (k_sched k) = Inr (PB i, sc)" "sched_ok (curr_bag (k_sched k)) sc"
    "s_waiting sc = s_waiting (k_sched k)"
    by (rule sched_yield_ok [OF ok c]) blast
  let ?s = "upd (PB i) (\<lambda>q. q\<lparr>p_state := PROC_WAITING\<rparr>) (upd (PB i) (\<lambda>q. q\<lparr>p_wait_until := u\<rparr>) sc)"
  have "Some (PB i) \<in># curr_bag (k_sched k)" using c by (simp add: curr_bag_def)
  then have "sched_ok (curr_bag (k_sched k)) ?s"
    using y(2) by (intro sched_ok_upd_held) simp_all
  from sched_wait_proc_full [OF this curr_slot(1) [OF ok c]]
  have "sched_wait_proc (p_pid (s_pb ?s i)) ?s = Inl (Kernel_panic JRT_ENOMEM)"
    using full y(3) by simp
  then show ?thesis
    using y(1) by (simp add: wait_until_def Let_def split: prod.splits)
qed

lemma wait_until_ok:
  assumes inv: "kernel_inv k" and c: "s_curr (k_sched k) = Some (PB i)"
    and nf: "\<not> heap_full (s_waiting (k_sched k))"
  obtains k' where "wait_until dl0 u k = Inr k'" "kernel_inv k'"
    "heap_bag (s_waiting (k_sched k')) = add_mset (u, Some (PB i)) (heap_bag (s_waiting (k_sched k)))"
proof -
  let ?L = "curr_bag (k_sched k)" and ?W = "s_waiting (k_sched k)"
  have ok: "sched_ok {#} (k_sched k)" and tok: "timer_ok (k_sched k) (k_timer k)"
    using inv by (simp_all add: kernel_inv_def sched_inv_def)
  have L: "?L = {#Some (PB i)#}" using c by (simp add: curr_bag_def)
  obtain sc where y: "sched_yield (k_sched k) = Inr (PB i, sc)" "sched_ok ?L sc" "edf sc"
    "s_waiting sc = ?W" "s_curr sc \<noteq> Some (PB i)"
    by (rule sched_yield_ok [OF ok c]) blast
  let ?s = "upd (PB i) (\<lambda>q. q\<lparr>p_state := PROC_WAITING\<rparr>) (upd (PB i) (\<lambda>q. q\<lparr>p_wait_until := u\<rparr>) sc)"
  have "sched_ok ?L ?s" using y(2) L by (intro sched_ok_upd_held) simp_all
  then have "sched_ok (add_mset (Some (PB i)) {#}) ?s" by (simp add: L)
  then obtain h where h: "sched_wait_proc (p_pid (s_pb ?s i)) ?s = Inr (?s\<lparr>s_waiting := h\<rparr>)"
    "sched_ok {#} (?s\<lparr>s_waiting := h\<rparr>)" "heap_bag h = add_mset (u, Some (PB i)) (heap_bag ?W)"
    by (rule sched_wait_proc_ok) (use nf y(4) in \<open>auto\<close>)
  let ?s' = "?s\<lparr>s_waiting := h\<rparr>"
  have "edf ?s" using y(3,5) by (simp add: edf_upd_other)
  then have sinv: "sched_inv ?s'" using h(2) by (simp add: sched_inv_def edf_def)
  have hW: "heap_inv ?W" using queues_okD(3) [OF sched_okD(3) [OF ok]] .
  obtain dl w where pk: "heap_peek ?W dl0 = (dl, w)" by (metis surj_pair)
  have least: "least_key (heap_bag ?W) dl" if "w \<noteq> None"
    using that pk heap_peek_least [OF hW, of dl0] by (auto simp: heap_peek_def split: if_splits)
  have empty: "heap_bag ?W = {#}" if "w = None"
  proof (rule ccontr)
    assume "heap_bag ?W \<noteq> {#}"
    then obtain j where "heap_peek ?W dl0 = (fst (heap_peek ?W dl0), Some (PB j))"
      using pop_waiting_ok [OF ok, where ?k0.0 = dl0] by (metis fst_conv heap_peek_pop prod.collapse snd_conv)
    then show False using pk that by simp
  qed
  show thesis
  proof (cases "w = None \<or> dl > u")
    case True
    let ?t = "if w \<noteq> None then timer_cancel (k_timer k) else k_timer k"
    let ?k = "k\<lparr>k_sched := ?s', k_timer := snd (timer_schedule_at_ticks u ?t)\<rparr>"
    have "wait_until dl0 u k = Inr ?k"
      using y(1,4) h(1) pk True by (auto simp: wait_until_def Let_def)
    moreover have "\<forall>x \<in># heap_bag ?W. u \<le> fst x"
      using True empty least by (cases "w = None") (auto simp: least_key_def)
    then have "timer_ok ?s' (k_timer ?k)"
      using h(3) by (intro timer_okI [of _ u]) (simp_all add: least_key_add_new armed_for_schedule)
    ultimately show thesis using that sinv h(3) by (simp add: kernel_inv_def)
  next
    case False
    let ?k = "k\<lparr>k_sched := ?s'\<rparr>"
    have "wait_until dl0 u k = Inr ?k"
      using y(1,4) h(1) pk False by (auto simp: wait_until_def Let_def)
    moreover have "least_key (heap_bag h) dl"
      using False least h(3) by (simp add: least_key_add_keep not_less)
    moreover have "armed_for dl (k_timer k)" using tok least False by (simp add: timer_ok_def)
    ultimately show thesis using that sinv h(3) timer_okI [of ?s' dl "k_timer k"]
      by (simp add: kernel_inv_def)
  qed
qed

lemma held_nfree:
  assumes "sched_ok L sc" "L \<noteq> {#}"
  shows "s_nfree sc < MAX_PROC"
proof -
  have "size (free_bag sc) + size (ready_bag sc) + size (waiting_bag sc) + size (curr_bag sc) + size L
      = size all_slots"
    using sched_okD(5) [OF assms(1)] by (metis size_union)
  moreover have "size (free_bag sc) = s_nfree sc" by (simp add: free_bag_def)
  moreover have "size all_slots = MAX_PROC" by (simp add: all_slots_def)
  moreover have "0 < size L" using assms(2) by (simp add: nonempty_has_size)
  ultimately show ?thesis by linarith
qed

text \<open>
  \<open>exit\<close>: the caller's slot goes back to the free stack and the best ready process runs.
  It returns if the allocator takes the memory and the page tables back.
\<close>

lemma exit_eval:
  assumes inv: "kernel_inv k" and c: "s_curr (k_sched k) = Some (PB i)"
  obtains sc where "sched_inv (sc :: sched_t)" "s_waiting sc = s_waiting (k_sched k)"
    "s_nfree sc = s_nfree (k_sched k) + 1" "Some (PB i) \<in># free_bag sc"
    "exit k =
       bindE (free (k_alloc k) (p_mem (s_pb (k_sched k) i)) (k_mem k)) (\<lambda>st.
       bindE (mmu_map_destroy (cx_mmap (p_ctx (s_pb (k_sched k) i))) st) (\<lambda>(mp, a, m).
         Inr (k\<lparr>k_sched := upd (PB i) (\<lambda>q. q\<lparr>p_ctx := (p_ctx q)\<lparr>cx_mmap := mp\<rparr>\<rparr>) sc,
                k_alloc := a, k_mem := m\<rparr>)))"
    "s_curr sc \<noteq> Some (PB i)"
proof -
  have ok: "sched_ok {#} (k_sched k)" using inv by (simp add: kernel_inv_def sched_inv_def)
  have L: "curr_bag (k_sched k) = add_mset (Some (PB i)) {#}" using c by (simp add: curr_bag_def)
  obtain sc where y: "sched_yield (k_sched k) = Inr (PB i, sc)" "sched_ok (add_mset (Some (PB i)) {#}) sc"
    "edf sc" "s_waiting sc = s_waiting (k_sched k)" "s_nfree sc = s_nfree (k_sched k)"
    "s_pb sc i = s_pb (k_sched k) i" "s_curr sc \<noteq> Some (PB i)"
    using sched_yield_ok [OF ok c] L by metis
  let ?s1 = "upd (PB i) (\<lambda>q. q\<lparr>p_state := PROC_UNUSED\<rparr>) sc"
  let ?s2 = "?s1\<lparr>s_free_proc := (s_free_proc ?s1)(s_nfree ?s1 := PB i), s_nfree := s_nfree ?s1 + 1\<rparr>"
  have n: "s_nfree sc < MAX_PROC" by (rule held_nfree [OF y(2)]) simp
  have "sched_ok (add_mset (Some (PB i)) {#}) ?s1" using y(2) by (intro sched_ok_upd_held) simp_all
  then have "sched_ok {#} ?s2" by (rule free_slot_ok) (use n in simp_all)
  moreover have "edf ?s2" using edf_upd_other [OF y(3,7)] by (simp add: edf_def)
  ultimately have "sched_inv ?s2" by (simp add: sched_inv_def)
  moreover have "Some (PB i) \<in># free_bag ?s2" by (auto simp: free_bag_def)
  moreover have "exit k =
       bindE (free (k_alloc k) (p_mem (s_pb (k_sched k) i)) (k_mem k)) (\<lambda>st.
       bindE (mmu_map_destroy (cx_mmap (p_ctx (s_pb (k_sched k) i))) st) (\<lambda>(mp, a, m).
         Inr (k\<lparr>k_sched := upd (PB i) (\<lambda>q. q\<lparr>p_ctx := (p_ctx q)\<lparr>cx_mmap := mp\<rparr>\<rparr>) ?s2,
                k_alloc := a, k_mem := m\<rparr>)))"
    using y(1,6) n sched_get_proc_pid [OF sched_okD(1) [OF y(2)] curr_slot(1) [OF ok c], of sc]
    by (simp add: exit_def sched_free_proc_def Let_def)
  ultimately show thesis using that [of ?s2] y(4,5,7) by simp
qed

lemma sched_inv_upd_free:
  assumes "sched_inv sc" "Some (PB i) \<in># free_bag sc" "s_curr sc \<noteq> Some (PB i)"
    and "p_pid (f (s_pb sc i)) = p_pid (s_pb sc i)" "p_state (f (s_pb sc i)) = p_state (s_pb sc i)"
  shows "sched_inv (upd (PB i) f sc)"
proof -
  have ok: "sched_ok {#} sc" "edf sc" using assms(1) by (simp_all add: sched_inv_def)
  note inv = sched_okD [OF ok(1)] and q = queues_okD [OF sched_okD(3) [OF ok(1)]]
  have "free_bag sc + (ready_bag sc + waiting_bag sc) + curr_bag sc = all_slots"
    using inv(5) by (simp add: ac_simps)
  from slots_disjoint [OF this assms(2)]
  have "Some (PB i) \<notin># ready_bag sc" "Some (PB i) \<notin># waiting_bag sc" by auto
  then have "queues_ok (upd (PB i) f sc)"
    using q keyed_upd by (simp add: queues_ok_def ready_bag_def waiting_bag_def)
  moreover have "pids_ok (upd (PB i) f sc)" using inv(1) assms(4) by (simp add: pids_ok_def)
  moreover have "free_ok (upd (PB i) f sc)" using inv(2) assms(5) by (auto simp: free_ok_def)
  moreover have "curr_ok (upd (PB i) f sc)"
    using inv(4) assms(4) by (auto simp: curr_ok_def deref_def split: proc_ptr.splits)
  ultimately have "sched_ok {#} (upd (PB i) f sc)" using inv(5) by (simp add: sched_ok_def)
  then show ?thesis using edf_upd_other [OF ok(2) assms(3)] by (simp add: sched_inv_def)
qed

lemma exit_keeps:
  assumes inv: "kernel_inv k" and ex: "exit k = Inr k'"
  shows "kernel_inv k' \<and> s_nfree (k_sched k') = s_nfree (k_sched k) + 1"
proof -
  have sinv: "sched_inv (k_sched k)" using inv by (simp add: kernel_inv_def)
  then show ?thesis
  proof (cases rule: sched_inv_curr)
    case kernel
    have ok: "sched_ok {#} (k_sched k)" using sinv by (simp add: sched_inv_def)
    obtain sc where y: "sched_yield (k_sched k) = Inr (P0, sc)" "sched_ok (curr_bag (k_sched k)) sc"
      by (rule sched_yield_ok [OF ok kernel]) blast
    have "p_pid (s_p0 sc) = 0" using sched_okD(1) [OF y(2)] by (simp add: pids_ok_def)
    then have "exit k = Inl (Kernel_panic JRT_EINVAL)"
      using y(1) by (simp add: exit_def sched_free_proc_def sched_get_proc_kernel)
    then show ?thesis using ex by simp
  next
    case (slot i)
    obtain sc where e: "sched_inv sc" "s_waiting sc = s_waiting (k_sched k)"
      "s_nfree sc = s_nfree (k_sched k) + 1" "Some (PB i) \<in># free_bag sc"
      "exit k =
       bindE (free (k_alloc k) (p_mem (s_pb (k_sched k) i)) (k_mem k)) (\<lambda>st.
       bindE (mmu_map_destroy (cx_mmap (p_ctx (s_pb (k_sched k) i))) st) (\<lambda>(mp, a, m).
         Inr (k\<lparr>k_sched := upd (PB i) (\<lambda>q. q\<lparr>p_ctx := (p_ctx q)\<lparr>cx_mmap := mp\<rparr>\<rparr>) sc,
                k_alloc := a, k_mem := m\<rparr>)))"
      "s_curr sc \<noteq> Some (PB i)"
      by (rule exit_eval [OF inv slot(1)]) blast
    from ex [unfolded e(5)] obtain mp a m where k': "k' = k\<lparr>k_sched := upd (PB i) (\<lambda>q. q\<lparr>p_ctx := (p_ctx q)\<lparr>cx_mmap := mp\<rparr>\<rparr>) sc,
                k_alloc := a, k_mem := m\<rparr>"
      by (auto simp: split_def)
    have "sched_inv (k_sched k')"
      unfolding k' using e(1,4,6) by (simp add: sched_inv_upd_free)
    moreover have "timer_ok (k_sched k') (k_timer k')"
      using inv e(2) unfolding k' by (simp add: kernel_inv_def timer_ok_def)
    ultimately show ?thesis using e(3) by (simp add: kernel_inv_def k')
  qed
qed

text \<open>
  Creating a process and handing it to the scheduler. A new slot comes off the free stack;
  the address-space identifier, the allocator and the memory are the only other state it
  changes.
\<close>

lemma sched_new_proc_ok:
  assumes ok: "sched_ok {#} (k_sched k)"
    and new: "sched_new_proc pc csz mem msz dl ex k = Inr (pid, k')"
  obtains i where "i < MAX_PROC" "sched_ok (add_mset (Some (PB i)) {#}) (k_sched k')"
    "pid = p_pid (s_pb (k_sched k') i)" "p_state (s_pb (k_sched k') i) = PROC_READY"
    "p_eff_deadline (s_pb (k_sched k') i) = dl"
    "s_curr (k_sched k') = s_curr (k_sched k)" "s_ready (k_sched k') = s_ready (k_sched k)"
    "s_waiting (k_sched k') = s_waiting (k_sched k)"
    "\<And>j. s_curr (k_sched k) = Some (PB j) \<Longrightarrow> s_pb (k_sched k') j = s_pb (k_sched k) j"
    "k_timer k' = k_timer k" "k_ring k' = k_ring k" "k_asid k' = k_asid k + 1"
    "s_nfree (k_sched k') = s_nfree (k_sched k) - 1"
proof -
  have n: "0 < s_nfree (k_sched k)"
    using new by (cases "s_nfree (k_sched k)") (auto simp: sched_new_proc_def sched_alloc_proc_def)
  obtain i where i: "i < MAX_PROC"
    "sched_alloc_proc (k_sched k) = (Some (PB i), (k_sched k)\<lparr>s_nfree := s_nfree (k_sched k) - 1\<rparr>)"
    "sched_ok (add_mset (Some (PB i)) {#}) ((k_sched k)\<lparr>s_nfree := s_nfree (k_sched k) - 1\<rparr>)"
    by (rule sched_alloc_proc_ok [OF ok n])
  let ?s = "(k_sched k)\<lparr>s_nfree := s_nfree (k_sched k) - 1\<rparr>"
  let ?s1 = "upd (PB i) (\<lambda>q. q\<lparr>p_ctx := new_ctx mem msz ex (p_ctx q)\<rparr>) ?s"
  let ?f = "\<lambda>mp q. q\<lparr>p_ctx := (p_ctx q)\<lparr>cx_mmap := mp\<rparr>, p_pa_pc := pc, p_first := 1,
     p_mem := mem, p_mem_size := msz, p_prog_size := csz, p_eff_deadline := dl,
     p_abs_deadline := dl, p_state := PROC_READY\<rparr>"
  from new [unfolded sched_new_proc_def i(2)] obtain mp a m where
    k': "k' = k\<lparr>k_asid := k_asid k + 1, k_sched := upd (PB i) (?f mp) ?s1, k_alloc := a, k_mem := m\<rparr>"
    and pid: "pid = p_pid (s_pb (k_sched k') i)"
    by (auto simp: Let_def split_def)
  have "Some (PB i) \<notin># curr_bag ?s" by (rule held_slot [OF i(3), of "Some (PB i)"]) simp_all
  then have j: "j \<noteq> i" if "s_curr (k_sched k) = Some (PB j)" for j
    using that by (auto simp: curr_bag_def)
  have "sched_ok (add_mset (Some (PB i)) {#}) (upd (PB i) (?f mp) ?s1)"
    by (intro sched_ok_upd_held) (use i(3) in simp_all)
  then show thesis
    using that [OF i(1)] pid j by (simp add: k')
qed

lemma enter_proc_full:
  assumes "sched_ok (add_mset (Some (PB i)) {#}) sc" "heap_full (s_ready sc)"
  shows "enter_proc dl0 (p_pid (s_pb sc i)) sc = Inl (Kernel_panic JRT_ENOMEM)"
proof -
  have "i < MAX_PROC" using assms(1) by (rule held_slot [of _ _ "Some (PB i)"]) auto
  then show ?thesis using sched_ready_proc_full [OF assms(1) _ assms(2)] by (simp add: enter_proc_def)
qed

lemma enter_proc_ok:
  assumes ok: "sched_ok (add_mset (Some (PB i)) {#}) sc" and nf: "\<not> heap_full (s_ready sc)"
    and st: "p_state (s_pb sc i) \<in> {PROC_READY, PROC_WAITING}" and run: "curr_running sc"
  obtains sc' where "enter_proc dl0 (p_pid (s_pb sc i)) sc = Inr sc'" "sched_inv sc'"
    "s_waiting sc' = s_waiting sc"
proof -
  obtain h where h: "sched_ready_proc (p_pid (s_pb sc i)) sc = Inr (sc\<lparr>s_ready := h\<rparr>)"
    "sched_ok {#} (sc\<lparr>s_ready := h\<rparr>)"
    "heap_bag h = add_mset (p_eff_deadline (s_pb sc i), Some (PB i)) (heap_bag (s_ready sc))"
    by (rule sched_ready_proc_ok [OF ok nf st]) blast
  have "heap_bag (s_ready (sc\<lparr>s_ready := h\<rparr>)) \<noteq> {#}" using h(3) by simp
  moreover have "curr_running (sc\<lparr>s_ready := h\<rparr>)" using run by (simp add: curr_running_def)
  ultimately obtain sc' where "sched dl0 sched_switch_irq (sc\<lparr>s_ready := h\<rparr>) = Inr sc'"
    "sched_ok {#} sc'" "edf sc'" "s_waiting sc' = s_waiting (sc\<lparr>s_ready := h\<rparr>)"
    by (rule sched_ok_edf [OF h(2)]) blast
  then show thesis using that h(1) by (simp add: enter_proc_def sched_inv_def)
qed

lemma enter_proc_keeps:
  assumes "sched_ok (add_mset (Some (PB i)) {#}) sc" "p_state (s_pb sc i) \<in> {PROC_READY, PROC_WAITING}"
    "curr_running sc" "enter_proc dl0 (p_pid (s_pb sc i)) sc = Inr sc'"
  shows "sched_inv sc'" "s_waiting sc' = s_waiting sc"
proof -
  have "\<not> heap_full (s_ready sc)" using enter_proc_full [OF assms(1)] assms(4) by auto
  from enter_proc_ok [OF assms(1) this assms(2,3), where ?dl0.0 = dl0] assms(4)
  show "sched_inv sc'" "s_waiting sc' = s_waiting sc" by auto
qed

lemma schedule_req_keeps:
  assumes inv: "kernel_inv k" and r: "schedule_req dl0 pc psz mreq k = Inr k'"
  shows "kernel_inv k' \<and> k_ring k' = k_ring k \<and> s_waiting (k_sched k') = s_waiting (k_sched k)"
proof -
  obtain mem a m pid k1 sc where
    new: "sched_new_proc pc psz mem mreq 0 (k_exit k) (k\<lparr>k_alloc := a, k_mem := m\<rparr>) = Inr (pid, k1)"
    and ent: "enter_proc dl0 pid (k_sched k1) = Inr sc" and k': "k' = k1\<lparr>k_sched := sc\<rparr>"
    using r by (auto simp: schedule_req_def Let_def split: if_splits)
  have sok: "sched_ok {#} (k_sched (k\<lparr>k_alloc := a, k_mem := m\<rparr>))" and "edf (k_sched k)"
    using inv by (simp_all add: kernel_inv_def sched_inv_def)
  obtain i where i: "sched_ok (add_mset (Some (PB i)) {#}) (k_sched k1)"
    "pid = p_pid (s_pb (k_sched k1) i)" "p_state (s_pb (k_sched k1) i) = PROC_READY"
    "s_curr (k_sched k1) = s_curr (k_sched k)" "s_waiting (k_sched k1) = s_waiting (k_sched k)"
    "\<And>j. s_curr (k_sched k) = Some (PB j) \<Longrightarrow> s_pb (k_sched k1) j = s_pb (k_sched k) j"
    "k_timer k1 = k_timer k" "k_ring k1 = k_ring k"
    using sched_new_proc_ok [OF sok new] by (metis kernel.select_convs(1,5,6) kernel.surjective kernel.update_convs(2,3))
  have "curr_running (k_sched k1)"
    using edf_curr_running [OF \<open>edf (k_sched k)\<close>] i(4,6) by (simp add: curr_running_def)
  from enter_proc_keeps [OF i(1) _ this ent [unfolded i(2)]] i(3)
  have "sched_inv sc" "s_waiting sc = s_waiting (k_sched k1)" by simp_all
  then show ?thesis using inv i(5,7,8) by (simp add: kernel_inv_def k' timer_ok_def)
qed

lemma curr_running_upd_other:
  assumes "curr_running sc" "s_curr sc \<noteq> Some (PB i)"
  shows "curr_running (upd (PB i) f sc)"
  using assms by (auto simp: curr_running_def)

lemma spawn_keeps:
  assumes inv: "kernel_inv k" and r: "spawn dl0 dl ep ap mreq k = Inr k'"
  shows "kernel_inv k' \<and> k_ring k' = k_ring k"
proof -
  obtain mem a m pid k1 p sc cp where
    new: "sched_new_proc (p_pa_pc (deref (k_sched k) cp)) (p_prog_size (deref (k_sched k) cp))
       mem mreq dl (k_exit k) (k\<lparr>k_alloc := a, k_mem := m\<rparr>) = Inr (pid, k1)"
    and get: "sched_get_proc (k_sched k1) pid = Inr p"
    and ent: "enter_proc dl0 pid
       (upd p (\<lambda>q. q\<lparr>p_ctx := (p_ctx q)\<lparr>cx_x := (cx_x (p_ctx q))(2 := ap)\<rparr>\<rparr>)
         (upd p (\<lambda>q. q\<lparr>p_ctx := (p_ctx q)\<lparr>cx_pc := ep\<rparr>\<rparr>) (k_sched k1))) = Inr sc"
    and k': "k' = k1\<lparr>k_sched := sc\<rparr>"
    using r by (auto simp: spawn_def Let_def split: option.splits)
  have sok: "sched_ok {#} (k_sched (k\<lparr>k_alloc := a, k_mem := m\<rparr>))" and "edf (k_sched k)"
    using inv by (simp_all add: kernel_inv_def sched_inv_def)
  obtain i where i: "i < MAX_PROC" "sched_ok (add_mset (Some (PB i)) {#}) (k_sched k1)"
    "pid = p_pid (s_pb (k_sched k1) i)" "p_state (s_pb (k_sched k1) i) = PROC_READY"
    "s_curr (k_sched k1) = s_curr (k_sched k)" "s_waiting (k_sched k1) = s_waiting (k_sched k)"
    "\<And>j. s_curr (k_sched k) = Some (PB j) \<Longrightarrow> s_pb (k_sched k1) j = s_pb (k_sched k) j"
    "k_timer k1 = k_timer k" "k_ring k1 = k_ring k"
    using sched_new_proc_ok [OF sok new] by (metis kernel.select_convs(1,5,6) kernel.surjective kernel.update_convs(2,3))
  have p: "p = PB i"
    using get sched_get_proc_pid [OF sched_okD(1) [OF i(2)] i(1), of "k_sched k1"] i(3) by simp
  let ?s = "upd (PB i) (\<lambda>q. q\<lparr>p_ctx := (p_ctx q)\<lparr>cx_x := (cx_x (p_ctx q))(2 := ap)\<rparr>\<rparr>)
         (upd (PB i) (\<lambda>q. q\<lparr>p_ctx := (p_ctx q)\<lparr>cx_pc := ep\<rparr>\<rparr>) (k_sched k1))"
  have ok: "sched_ok (add_mset (Some (PB i)) {#}) ?s"
    by (intro sched_ok_upd_held) (use i(2) in simp_all)
  have "Some (PB i) \<notin># curr_bag (k_sched k1)"
    by (rule held_slot [OF i(2), of "Some (PB i)"]) simp_all
  then have "s_curr (k_sched k1) \<noteq> Some (PB i)" by (auto simp: curr_bag_def)
  moreover have "curr_running (k_sched k1)"
    using edf_curr_running [OF \<open>edf (k_sched k)\<close>] i(5,7) by (simp add: curr_running_def)
  ultimately have run: "curr_running ?s" by (intro curr_running_upd_other) simp_all
  have "enter_proc dl0 (p_pid (s_pb ?s i)) ?s = Inr sc" using ent p i(3) by simp
  from enter_proc_keeps [OF ok _ run this] i(4)
  have "sched_inv sc" "s_waiting sc = s_waiting (k_sched k1)" by simp_all
  then show ?thesis using inv i(6,8,9) by (simp add: kernel_inv_def k' timer_ok_def)
qed

lemma wait_until_keeps:
  assumes "kernel_inv k" "wait_until dl0 u k = Inr k'"
  shows "kernel_inv k'"
proof -
  have "sched_inv (k_sched k)" using assms(1) by (simp add: kernel_inv_def)
  then show ?thesis
  proof (cases rule: sched_inv_curr)
    case kernel
    then show ?thesis using wait_until_kernel [OF assms(1)] assms(2) by simp
  next
    case (slot i)
    have "\<not> heap_full (s_waiting (k_sched k))"
      using wait_until_full [OF assms(1) slot(1), of dl0 u] assms(2) by auto
    from wait_until_ok [OF assms(1) slot(1) this, of dl0 u] assms(2) show ?thesis by auto
  qed
qed

lemma take_syscall_keeps: "kernel_inv k \<Longrightarrow> keepsE kernel_inv (take_syscall dl0 k)"
  by (auto simp: keepsE_def take_syscall_def Let_def split: option.splits if_splits
      dest: wait_until_keeps exit_keeps spawn_keeps)

section \<open>The interrupt handlers\<close>

lemma kernel_inv_ring: "kernel_inv (k\<lparr>k_ring := r\<rparr>) \<longleftrightarrow> kernel_inv k"
  by (simp add: kernel_inv_def)

lemma ipc_loop_keeps: "kernel_inv k \<Longrightarrow> keepsE kernel_inv (ipc_loop dl0 n k)"
proof (induction n arbitrary: k)
  case (Suc n)
  obtain rc sr ring where pop: "mpsc_pop (k_ring k) = ((rc, sr), ring)" by (metis surj_pair)
  show ?case
  proof (cases sr)
    case None
    then show ?thesis using pop Suc.prems by simp
  next
    case (Some x)
    have "kernel_inv (k\<lparr>k_ring := ring\<rparr>)" using Suc.prems by (simp add: kernel_inv_ring)
    then have "keepsE kernel_inv (schedule_req dl0 (rq_pc x) (rq_prog_size x) (rq_mem_req x) (k\<lparr>k_ring := ring\<rparr>))"
      using schedule_req_keeps by (auto simp: keepsE_def)
    then show ?thesis using pop Some Suc.IH by (auto intro: keepsE_bindE)
  qed
qed simp

text \<open>Nobody whose time had come at some reading from \<open>t0\<close> on is left in the waiting queue.\<close>

definition woken_up :: "timer \<Rightarrow> kernel \<Rightarrow> bool" where
  "woken_up t0 k \<longleftrightarrow> (\<exists>r \<ge> t_reads t0. r < t_reads (k_timer k) \<and>
     (\<forall>x \<in># heap_bag (s_waiting (k_sched k)). t_cntpct t0 r < fst x))"

lemma t_reads_schedule [simp]:
  "t_reads (snd (timer_schedule_at_ticks d t)) = t_reads t + 1"
  "t_reads (timer_cancel t) = t_reads t"
  by (simp_all add: timer_schedule_eval Let_def timer_cancel_def)

lemma woken_up_mono:
  "woken_up t1 k \<Longrightarrow> t_reads t0 \<le> t_reads t1 \<Longrightarrow> t_cntpct t0 = t_cntpct t1 \<Longrightarrow> woken_up t0 k"
  by (auto simp: woken_up_def intro: order_trans)

text \<open>
  What the timer interrupt may wake: an entry of the waiting queue is due if its time had come at one
  of the next \<open>n\<close> readings of the counter. The active processes are those ready and the running one.
\<close>

definition due :: "timer \<Rightarrow> nat \<Rightarrow> u64 \<times> proc_ptr option \<Rightarrow> bool" where
  "due t n x \<longleftrightarrow> (\<exists>r \<ge> t_reads t. r < t_reads t + n \<and> fst x \<le> t_cntpct t r)"

definition active :: "sched_t \<Rightarrow> proc_ptr option multiset" where
  "active sc = ready_bag sc + curr_bag sc"

definition timer_outcome :: "kernel \<Rightarrow> kernel res \<Rightarrow> bool" where
  "timer_outcome k r \<longleftrightarrow>
     (case r of
        Inl e \<Rightarrow> e = Kernel_panic JRT_ENOMEM \<and>
          (\<exists>D. D \<subseteq># heap_bag (s_waiting (k_sched k)) \<and>
             (\<forall>x \<in># D. due (k_timer k) (hlen (s_waiting (k_sched k))) x) \<and>
             READY_MAX + 1 < size (active (k_sched k)) + size D)
      | Inr k' \<Rightarrow> kernel_inv k' \<and> woken_up (k_timer k) k' \<and>
          (\<exists>D. heap_bag (s_waiting (k_sched k)) = D + heap_bag (s_waiting (k_sched k')) \<and>
             (\<forall>x \<in># D. due (k_timer k) (hlen (s_waiting (k_sched k))) x) \<and>
             active (k_sched k') = active (k_sched k) + image_mset snd D) \<and>
          (heap_bag (s_waiting (k_sched k')) = {#} \<longrightarrow> t_ctl (k_timer k') = 0))"

lemma due_later: "due t n x \<Longrightarrow> t_reads t = t_reads t0 + 1 \<Longrightarrow> t_cntpct t = t_cntpct t0 \<Longrightarrow> due t0 (Suc n) x"
  by (auto simp: due_def intro: Suc_leD)

lemma due_now: "fst x \<le> t_cntpct t (t_reads t) \<Longrightarrow> due t (Suc n) x"
  by (auto simp: due_def)

lemma enter_proc_free:
  "enter_proc dl0 pid sc = Inr sc' \<Longrightarrow> free_bag sc' = free_bag sc"
  by (auto simp: enter_proc_def sched_ready_proc_def sched_def Let_def free_bag_def split: if_splits option.splits prod.splits)

text \<open>The scheduler takes the slot from the handler's hands: it is then ready or running.\<close>

lemma enter_proc_active:
  assumes "sched_ok (add_mset x {#}) sc" "enter_proc dl0 pid sc = Inr sc'" "sched_ok {#} sc'"
    "s_waiting sc' = s_waiting sc"
  shows "active sc' = add_mset x (active sc)"
proof -
  have "free_bag sc + (active sc' + waiting_bag sc) = free_bag sc + (add_mset x (active sc) + waiting_bag sc)"
    using sched_okD(5) [OF assms(1)] sched_okD(5) [OF assms(3)] assms(4) enter_proc_free [OF assms(2)]
    by (simp add: active_def waiting_bag_def ac_simps)
  then show ?thesis by simp
qed

lemma active_full:
  assumes "sched_inv sc" "heap_full (s_ready sc)"
  shows "size (active sc) = READY_MAX + 1"
proof -
  note q = queues_okD [OF sched_okD(3), of "{#}" sc]
  have ok: "sched_ok {#} sc" "edf sc" using assms(1) by (simp_all add: sched_inv_def)
  have n: "size (heap_bag (s_ready sc)) = READY_MAX" using q(1,2) [OF ok(1)] assms(2) by (simp add: heap_full_def)
  then have "heap_bag (s_ready sc) \<noteq> {#}" by (auto simp: READY_MAX_def)
  then have "s_curr sc \<noteq> Some P0" using ok(2) by (auto simp: edf_def)
  then show ?thesis using n by (simp add: active_def ready_bag_def curr_bag_def)
qed

text \<open>
  The timer interrupt. The loop takes the waiting processes in the order of their wake-up
  times; each round removes one of them, so it ends. It panics only if the ready queue is
  full when a process wakes up.
\<close>

lemma timer_loop_later:
  assumes "timer_outcome (k\<lparr>k_sched := sc, k_timer := t\<rparr>) r"
    and "heap_bag (s_waiting (k_sched k)) = add_mset x (heap_bag (s_waiting sc))"
    and "hlen (s_waiting (k_sched k)) = Suc (hlen (s_waiting sc))"
    and "fst x \<le> t_cntpct (k_timer k) (t_reads (k_timer k))"
    and t: "t_reads t = t_reads (k_timer k) + 1" "t_cntpct t = t_cntpct (k_timer k)"
    and "active sc = add_mset (snd x) (active (k_sched k))"
  shows "timer_outcome k r"
proof (cases r)
  case (Inl e)
  then obtain D where D: "e = Kernel_panic JRT_ENOMEM" "D \<subseteq># heap_bag (s_waiting sc)"
    "\<forall>y \<in># D. due t (hlen (s_waiting sc)) y" "READY_MAX + 1 < size (active sc) + size D"
    using assms(1) by (auto simp: timer_outcome_def)
  have "\<forall>y \<in># add_mset x D. due (k_timer k) (hlen (s_waiting (k_sched k))) y"
    using D(3) due_later [OF _ t] due_now [OF assms(4)] assms(3) by auto
  moreover have "add_mset x D \<subseteq># heap_bag (s_waiting (k_sched k))" using D(2) assms(2) by simp
  moreover have "READY_MAX + 1 < size (active (k_sched k)) + size (add_mset x D)" using D(4) assms(7) by simp
  ultimately show ?thesis unfolding Inl timer_outcome_def sum.case using D(1) by blast
next
  case (Inr k')
  then obtain D where D: "kernel_inv k'" "woken_up t k'" "heap_bag (s_waiting sc) = D + heap_bag (s_waiting (k_sched k'))"
    "\<forall>y \<in># D. due t (hlen (s_waiting sc)) y" "active (k_sched k') = active sc + image_mset snd D"
    "heap_bag (s_waiting (k_sched k')) = {#} \<longrightarrow> t_ctl (k_timer k') = 0"
    using assms(1) by (auto simp: timer_outcome_def)
  have "\<forall>y \<in># add_mset x D. due (k_timer k) (hlen (s_waiting (k_sched k))) y"
    using D(4) due_later [OF _ t] due_now [OF assms(4)] assms(3) by auto
  moreover have "heap_bag (s_waiting (k_sched k)) = add_mset x D + heap_bag (s_waiting (k_sched k'))"
    using D(3) assms(2) by simp
  moreover have "active (k_sched k') = active (k_sched k) + image_mset snd (add_mset x D)" using D(5) assms(7) by simp
  moreover have "woken_up (k_timer k) k'" by (rule woken_up_mono [OF D(2)]) (simp_all add: t)
  ultimately show ?thesis unfolding Inr timer_outcome_def sum.case using D(1,6) by blast
qed

lemma timer_loop_result:
  assumes "sched_inv (k_sched k)" "heap_bag (s_waiting (k_sched k)) \<noteq> {#}"
  shows "\<exists>r. timer_loop dl0 k = Some r \<and> timer_outcome k r"
  using assms
proof (induction "hlen (s_waiting (k_sched k))" arbitrary: k rule: less_induct)
  case less
  let ?W = "s_waiting (k_sched k)"
  have ok: "sched_ok {#} (k_sched k)" and edf: "edf (k_sched k)"
    using less.prems(1) by (simp_all add: sched_inv_def)
  obtain d i h where p: "heap_pop ?W dl0 = ((d, Some (PB i)), h)" "i < MAX_PROC"
    "d = p_wait_until (s_pb (k_sched k) i)" "p_state (s_pb (k_sched k) i) = PROC_WAITING"
    "sched_ok (add_mset (Some (PB i)) {#}) ((k_sched k)\<lparr>s_waiting := h\<rparr>)"
    "heap_bag ?W = add_mset (d, Some (PB i)) (heap_bag h)"
    "\<And>x. x \<in># heap_bag h \<Longrightarrow> d \<le> fst x" "\<not> heap_full h" "hlen ?W = Suc (hlen h)"
    by (rule pop_waiting_ok [OF ok less.prems(2), where ?k0.0 = dl0]) blast
  let ?sc = "(k_sched k)\<lparr>s_waiting := h\<rparr>"
  obtain now t where now: "time_now_ticks (k_timer k) = (now, t)" by (metis surj_pair)
  then have t: "now = t_cntpct (k_timer k) (t_reads (k_timer k))" "t_reads t = t_reads (k_timer k) + 1"
    "t_cntpct t = t_cntpct (k_timer k)"
    by (auto simp: time_now_ticks_def)
  have act: "active ?sc = active (k_sched k)" by (simp add: active_def ready_bag_def)
  show ?case
  proof (cases "d > now")
    case True
    obtain h' where h': "sched_wait_proc (p_pid (s_pb ?sc i)) ?sc = Inr (?sc\<lparr>s_waiting := h'\<rparr>)"
      "sched_ok {#} (?sc\<lparr>s_waiting := h'\<rparr>)" "heap_bag h' = add_mset (d, Some (PB i)) (heap_bag h)"
      by (rule sched_wait_proc_ok [OF p(5)]) (use p(3,4,8) in auto)
    let ?k = "k\<lparr>k_sched := ?sc\<lparr>s_waiting := h'\<rparr>, k_timer := snd (timer_schedule_at_ticks d t)\<rparr>"
    have "timer_loop dl0 k = Some (Inr ?k)"
      using p(1) now True h'(1) by (subst timer_loop.simps) (simp add: Let_def)
    moreover have "edf (?sc\<lparr>s_waiting := h'\<rparr>)" using edf by (simp add: edf_def)
    moreover have "least_key (heap_bag h') d" using h'(3) p(7) by (simp add: least_key_add_new)
    then have "timer_ok (k_sched ?k) (k_timer ?k)"
      by (intro timer_okI [of _ d]) (simp_all add: armed_for_schedule)
    moreover have "woken_up (k_timer k) ?k"
      unfolding woken_up_def using t h'(3) p(7) True
      by (intro exI [of _ "t_reads (k_timer k)"]) (auto intro: less_le_trans)
    ultimately show ?thesis using h'(2,3) p(6)
      by (auto simp: timer_outcome_def kernel_inv_def sched_inv_def active_def ready_bag_def)
  next
    case False
    then have le: "fst (d, Some (PB i)) \<le> t_cntpct (k_timer k) (t_reads (k_timer k))" using t(1) by simp
    have run: "curr_running ?sc" using edf_curr_running [OF edf] by (simp add: curr_running_def)
    show ?thesis
    proof (cases "heap_full (s_ready (k_sched k))")
      case True
      then have "enter_proc dl0 (p_pid (s_pb (k_sched k) i)) ?sc = Inl (Kernel_panic JRT_ENOMEM)"
        using enter_proc_full [OF p(5), of dl0] by simp
      then have "timer_loop dl0 k = Some (Inl (Kernel_panic JRT_ENOMEM))"
        using p(1) now False by (subst timer_loop.simps) (simp add: Let_def)
      moreover have "due (k_timer k) (hlen ?W) (d, Some (PB i))" using due_now [OF le] p(9) by simp
      ultimately show ?thesis using active_full [OF less.prems(1) True] p(6)
        by (auto simp: timer_outcome_def intro!: exI [of _ "{#(d, Some (PB i))#}"])
    next
      case nf: False
      obtain sc' where s: "enter_proc dl0 (p_pid (s_pb (k_sched k) i)) ?sc = Inr sc'" "sched_inv sc'"
        "s_waiting sc' = h"
        using enter_proc_ok [OF p(5) _ _ run, where ?dl0.0 = dl0] nf p(4) by auto
      have wi: "heap_inv h" using queues_okD(3) [OF sched_okD(3) [OF p(5)]] by simp
      have ac: "active sc' = add_mset (Some (PB i)) (active (k_sched k))"
        using enter_proc_active [OF p(5) s(1)] s(2,3) act by (simp add: sched_inv_def)
      show ?thesis
      proof (cases "sched_has_waiting sc'")
        case True
        let ?k = "k\<lparr>k_sched := sc', k_timer := t\<rparr>"
        have step: "timer_loop dl0 k = timer_loop dl0 ?k"
          using p(1) now False s(1) True by (subst timer_loop.simps) (simp add: Let_def)
        have ne: "heap_bag h \<noteq> {#}"
          using True s(3) heap_bag_size [OF wi] by (auto simp: sched_has_waiting_def)
        have "hlen (s_waiting (k_sched ?k)) < hlen ?W" using s(3) p(9) by simp
        from less.hyps [OF this] obtain r where "timer_loop dl0 ?k = Some r" "timer_outcome ?k r"
          using s(2,3) ne by auto
        then show ?thesis
          using step timer_loop_later [where k = k and sc = sc' and t = t and r = r, OF _ _ _ le t(2,3)] p(6,9) s(3) ac by auto
      next
        case e: False
        then have hb: "heap_bag h = {#}"
          using s(3) heap_bag_size [OF wi] by (auto simp: sched_has_waiting_def)
        let ?k = "k\<lparr>k_sched := sc', k_timer := timer_cancel t\<rparr>"
        have "kernel_inv ?k" using s(2,3) hb by (simp add: kernel_inv_def timer_ok_empty)
        moreover have "timer_loop dl0 k = Some (Inr ?k)"
          using p(1) now False s(1) e by (subst timer_loop.simps) (simp add: Let_def)
        moreover have "woken_up (k_timer k) ?k"
          unfolding woken_up_def using t s(3) hb by (intro exI [of _ "t_reads (k_timer k)"]) simp
        moreover have "due (k_timer k) (hlen ?W) (d, Some (PB i))" using due_now [OF le] p(9) by simp
        ultimately show ?thesis using p(6) hb s(3) ac
          by (auto simp: timer_outcome_def timer_cancel_def intro!: exI [of _ "{#(d, Some (PB i))#}"])
      qed
    qed
  qed
qed

lemma sched_has_waiting_iff:
  assumes "sched_inv sc"
  shows "sched_has_waiting sc \<longleftrightarrow> heap_bag (s_waiting sc) \<noteq> {#}"
proof -
  have "heap_inv (s_waiting sc)"
    using assms queues_okD(3) sched_okD(3) by (metis sched_inv_def)
  from heap_empty_iff_bag [OF this] show ?thesis
    by (auto simp: sched_has_waiting_def heap_empty_def)
qed

lemma timer_fn_result:
  assumes "kernel_inv k"
  shows "if sched_has_waiting (k_sched k) then timer_outcome k (timer_fn dl0 k)
    else timer_fn dl0 k = Inr (k\<lparr>k_timer := timer_cancel (k_timer k)\<rparr>)"
proof (cases "sched_has_waiting (k_sched k)")
  case True
  have si: "sched_inv (k_sched k)" using assms by (simp add: kernel_inv_def)
  then obtain r where "timer_loop dl0 k = Some r" "timer_outcome k r"
    using timer_loop_result [OF si] sched_has_waiting_iff [OF si] True by blast
  then show ?thesis using True by (simp add: timer_fn_def)
qed (simp add: timer_fn_def)

lemma timer_fn_keeps: "kernel_inv k \<Longrightarrow> timer_fn dl0 k = Inr k' \<Longrightarrow> kernel_inv k'"
  using timer_fn_result [of k dl0] sched_has_waiting_iff [of "k_sched k"]
  by (auto simp: timer_outcome_def kernel_inv_def timer_ok_empty split: if_splits)

section \<open>Start-up\<close>

lemma init_slots:
  "s_p0 (fold init_slot [0..<n] sc) = s_p0 sc \<and>
   s_ready (fold init_slot [0..<n] sc) = s_ready sc \<and>
   s_waiting (fold init_slot [0..<n] sc) = s_waiting sc \<and>
   (\<forall>i < n. p_pid (s_pb (fold init_slot [0..<n] sc) i) = of_nat (i + 1) \<and>
      p_state (s_pb (fold init_slot [0..<n] sc) i) = PROC_UNUSED \<and>
      s_free_proc (fold init_slot [0..<n] sc) i = PB i)"
proof (induction n)
  case (Suc n)
  have "word_of_int (int n + 1) = (of_nat (n + 1) :: u32)" by simp
  then show ?case
    using Suc by (auto simp: init_slot_def Let_def idx_to_pid_def less_Suc_eq)
qed simp

lemma sched_init_inv:
  assumes r: "sched_init k = Inr k'"
    and len: "READY_MAX \<le> length (ha (s_ready (k_sched k)))" "READY_MAX \<le> length (ha (s_waiting (k_sched k)))"
  shows "sched_inv (k_sched k')" "heap_bag (s_waiting (k_sched k')) = {#}" "s_nfree (k_sched k') = MAX_PROC"
proof -
  let ?f = "fold init_slot [0..<MAX_PROC] (k_sched k)"
  note f = init_slots [of MAX_PROC "k_sched k"]
  obtain mp a m where k': "k' = k\<lparr>k_sched := (upd P0 (\<lambda>p. p\<lparr>p_ctx := (p_ctx p)\<lparr>cx_mmap := mp\<rparr>\<rparr>)
      (upd P0 (\<lambda>p. p\<lparr>p_pid := 0, p_first := 0\<rparr>) (?f\<lparr>s_nfree := MAX_PROC,
        s_ready := heap_init (ha (s_ready ?f)) READY_MAX,
        s_waiting := heap_init (ha (s_waiting ?f)) READY_MAX, s_pid := 0\<rparr>)))\<lparr>s_curr := Some P0\<rparr>,
      k_alloc := a, k_mem := m\<rparr>"
    using r by (auto simp: sched_init_def Let_def)
  let ?s = "k_sched k'"
  have fb: "free_bag ?s = all_slots"
    using f by (auto simp: free_bag_def all_slots_def k' intro: image_mset_cong)
  have "pids_ok ?s" using f by (simp add: pids_ok_def k')
  moreover have "free_ok ?s" using f fb by (auto simp: free_ok_def k' all_slots_iff)
  moreover have "queues_ok ?s"
    using f len by (simp add: queues_ok_def k' heap_inv_init keyed_def hcap_heap_init)
  moreover have "curr_ok ?s" by (simp add: curr_ok_def k')
  moreover have "ready_bag ?s = {#}" "waiting_bag ?s = {#}" "curr_bag ?s = {#}"
    by (simp_all add: bag_defs k')
  ultimately show "sched_inv ?s"
    using fb by (simp add: sched_inv_def sched_ok_def edf_def k')
  show "heap_bag (s_waiting ?s) = {#}" "s_nfree ?s = MAX_PROC" by (simp_all add: k')
qed

end
