(* ===== verification/Kernel_Run.thy ===== *)
theory Kernel_Run
  imports Kernel
begin

text \<open>
  The running kernel: every sequence of system calls, timer and mailbox interrupts, with
  user code and the Linux side acting in between. The theory holds the properties of the
  scheduler and of the kernel's entry points, and a concrete state of the kernel on which
  they are applied.
\<close>

section \<open>The step relation\<close>

text \<open>
  A step is one complete handler, which runs with interrupts masked, or what happens
  between two handlers: the process that runs changes its registers (saved in its context
  on the next entry) and any memory, and the Linux side changes the ring.
  A handler that faults has no successor, the core halts.
\<close>

inductive kstep :: "kernel \<Rightarrow> kernel \<Rightarrow> bool" where
  syscall: "take_syscall dl0 k = Inr k' \<Longrightarrow> kstep k k'"
| timer: "timer_fn dl0 k = Inr k' \<Longrightarrow> kstep k k'"
| ipc: "ipc_sched dl0 k = Inr k' \<Longrightarrow> kstep k k'"
| user: "s_curr (k_sched k) = Some p \<Longrightarrow>
    kstep k (k\<lparr>k_sched := upd p (\<lambda>q. q\<lparr>p_ctx := c\<rparr>) (k_sched k), k_mem := m\<rparr>)"
| linux: "kstep k (k\<lparr>k_ring := r\<rparr>)"

inductive kreach :: "kernel \<Rightarrow> kernel \<Rightarrow> bool" where
  refl: "kreach k k"
| step: "kreach k0 k \<Longrightarrow> kstep k k' \<Longrightarrow> kreach k0 k'"

lemma user_step_inv:
  assumes inv: "kernel_inv k" and c: "s_curr (k_sched k) = Some p"
  shows "kernel_inv (k\<lparr>k_sched := upd p (\<lambda>q. q\<lparr>p_ctx := c\<rparr>) (k_sched k), k_mem := m\<rparr>)"
proof -
  let ?s = "upd p (\<lambda>q. q\<lparr>p_ctx := c\<rparr>) (k_sched k)"
  have ok: "sched_ok {#} (k_sched k)" and e: "edf (k_sched k)"
    using inv by (simp_all add: kernel_inv_def sched_inv_def)
  have "sched_ok {#} ?s"
    using ok c by (cases p) (auto intro: sched_ok_upd_P0 sched_ok_upd_curr)
  moreover have "edf ?s" using e by (cases p) (auto simp: edf_def)
  ultimately show ?thesis using inv by (simp add: kernel_inv_def sched_inv_def timer_ok_def)
qed

lemma kstep_inv: "kstep k k' \<Longrightarrow> kernel_inv k \<Longrightarrow> kernel_inv k'"
proof (induction rule: kstep.induct)
  case (syscall dl0 k k')
  then show ?case using take_syscall_keeps [of k dl0] by simp
next
  case (timer dl0 k k')
  then show ?case using timer_fn_keeps by blast
next
  case (ipc dl0 k k')
  then show ?case using ipc_loop_keeps [of k dl0 3] by (simp add: ipc_sched_def)
next
  case (user k p c m)
  then show ?case by (intro user_step_inv)
qed (simp add: kernel_inv_ring)

lemma kreach_inv: "kreach k0 k \<Longrightarrow> kernel_inv k0 \<Longrightarrow> kernel_inv k"
  by (induction rule: kreach.induct) (use kstep_inv in blast)+

section \<open>A state of the kernel\<close>

text \<open>
  Slot 0 runs with deadline 500, slot 1 is ready with deadline 900 and slot 2 waits until
  tick 2000; the timer is armed for it and the other slots are free.
\<close>

definition demo_ctx :: ctx_t where
  "demo_ctx = \<lparr>cx_x = (\<lambda>_. 0)(0 := 1500), cx_sp = 0x50000000, cx_pc = 0x100, cx_pstate = 0x45,
     cx_vregs = (\<lambda>_. 0), cx_fpsr = 0, cx_fpcr = 0,
     cx_mmap = \<lparr>root = \<lparr>l0 = 0, l0_pa = 0\<rparr>, asid = 1\<rparr>\<rparr>"

definition demo_proc :: "u32 \<Rightarrow> state_t \<Rightarrow> u64 \<Rightarrow> u64 \<Rightarrow> proc_t" where
  "demo_proc pid st dl wu = \<lparr>p_ctx = demo_ctx, p_pid = pid, p_state = st, p_first = 1,
     p_pa_pc = 0x48000000, p_wait_until = wu, p_abs_deadline = dl, p_eff_deadline = dl,
     p_wait_start_ns = 0, p_wait_seq = 0, p_prog_size = 0x1000, p_mem = 0x4A00004C,
     p_mem_size = 0x1000\<rparr>"

definition demo_queue :: "u64 \<Rightarrow> proc_ptr \<Rightarrow> proc_ptr minheap" where
  "demo_queue k p = \<lparr>ha = \<lparr>key = k, val = Some p, idx = 0\<rparr> #
     replicate 254 \<lparr>key = 0, val = None, idx = 0\<rparr>, hlen = 1, hcap = 255\<rparr>"

definition demo_sched :: sched_t where
  "demo_sched = \<lparr>s_p0 = demo_proc 0 PROC_READY 0 0, s_curr = Some (PB 0), s_pid = 1,
     s_pb = (\<lambda>i. if i = 0 then demo_proc 1 PROC_RUNNING 500 0
                 else if i = 1 then demo_proc 2 PROC_READY 900 0
                 else if i = 2 then demo_proc 3 PROC_WAITING 100 2000
                 else demo_proc (of_nat (i + 1)) PROC_UNUSED 0 0),
     s_free_proc = (\<lambda>i. PB (i + 3)), s_nfree = MAX_PROC - 3,
     s_ready = demo_queue 900 (PB 1), s_waiting = demo_queue 2000 (PB 2)\<rparr>"

text \<open>A heap of 512 bytes: a free block of 64 bytes, then the block of the running process.\<close>

definition demo_mem :: memory where
  "demo_mem = (\<lambda>_. 0)(0x4A000004 := 0x40, 0x4A00000D := 2, 0x4A000040 := 0x40,
     0x4A000044 := 0xC0, 0x4A000045 := 1, 0x4A000048 := 1)"

definition demo_alloc :: alloc_t where
  "demo_alloc = \<lparr>a_base = 0x4A000000, a_free = 0x4A000000, a_end = 0x4A000200\<rparr>"

definition demo_kernel :: kernel where
  "demo_kernel = \<lparr>k_sched = demo_sched,
     k_alloc = demo_alloc, k_mem = demo_mem, k_asid = 4,
     k_timer = demo_timer\<lparr>t_cval := 2000, t_ctl := 1\<rparr>, k_ring = demo_ring,
     k_kend = 0x48010000, k_exit = 0x48000040\<rparr>"

lemma demo_queue_facts:
  "heap_inv (demo_queue k p)" "heap_bag (demo_queue k p) = {#(k, Some p)#}"
  "hcap (demo_queue k p) = 255" "\<not> heap_full (demo_queue k p)"
  by (simp_all add: demo_queue_def heap_defs heap_bag_def kv_def heap_full_def)

lemma slots_split:
  "mset (map (\<lambda>i. Some (PB (i + 3))) [0..<n]) + {#Some (PB 1)#} + {#Some (PB 2)#} + {#Some (PB 0)#}
    = mset (map (\<lambda>i. Some (PB i)) [0..<n + 3])"
  by (induction n) (simp_all add: numeral_eq_Suc add_mset_commute)

lemma demo_slots:
  "mset (map (\<lambda>i. Some (PB (i + 3))) [0..<MAX_PROC - 3]) + {#Some (PB 1)#} + {#Some (PB 2)#} + {#Some (PB 0)#}
    = all_slots"
proof -
  have "MAX_PROC - 3 + 3 = MAX_PROC" by (simp add: MAX_PROC_def)
  then show ?thesis unfolding slots_split all_slots_def by (simp only:)
qed

lemma demo_kernel_inv: "kernel_inv demo_kernel"
proof -
  have "free_bag demo_sched + ready_bag demo_sched + waiting_bag demo_sched + curr_bag demo_sched
      = all_slots"
    using demo_slots by (simp add: bag_defs demo_sched_def demo_queue_facts del: upt_Suc mset_map)
  moreover have "pids_ok demo_sched"
    by (auto simp: pids_ok_def demo_sched_def demo_proc_def)
  moreover have "free_ok demo_sched"
    by (auto simp: free_ok_def free_bag_def demo_sched_def demo_proc_def MAX_PROC_def)
  moreover have "queues_ok demo_sched"
    by (simp add: queues_ok_def demo_sched_def demo_queue_facts READY_MAX_def keyed_def)
      (simp add: demo_proc_def MAX_PROC_def)
  moreover have "curr_ok demo_sched" "edf demo_sched"
    by (simp_all add: curr_ok_def edf_def demo_sched_def demo_proc_def demo_queue_facts)
  ultimately have "sched_inv demo_sched" by (simp add: sched_inv_def sched_ok_def)
  moreover have "armed_for 2000 (k_timer demo_kernel)"
    by (auto simp: armed_for_def demo_kernel_def demo_timer_def intro!: exI [of _ 4])
  then have "timer_ok demo_sched (k_timer demo_kernel)"
    by (intro timer_okI [of _ 2000]) (simp_all add: demo_sched_def demo_queue_facts least_key_def)
  ultimately show ?thesis by (simp add: kernel_inv_def demo_kernel_def)
qed

lemma demo_kernel_simps:
  "k_sched demo_kernel = demo_sched" "s_curr demo_sched = Some (PB 0)"
  "s_waiting demo_sched = demo_queue 2000 (PB 2)" "s_ready demo_sched = demo_queue 900 (PB 1)"
  by (simp_all add: demo_kernel_def demo_sched_def)

lemma demo_wait:
  obtains k where "take_syscall 7 demo_kernel = Inr k" "wait_until 7 1500 demo_kernel = Inr k"
    "kreach demo_kernel k"
proof -
  have "\<not> heap_full (s_waiting (k_sched demo_kernel))"
    by (simp add: demo_kernel_simps demo_queue_facts)
  then obtain k where k: "wait_until 7 1500 demo_kernel = Inr k"
    using wait_until_ok [OF demo_kernel_inv, of 0 7 1500] by (auto simp: demo_kernel_simps)
  have "cx_x (p_ctx (deref demo_sched (PB 0))) = (\<lambda>_. 0)(0 := 1500)"
    by (simp add: demo_sched_def demo_proc_def demo_ctx_def)
  then have "take_syscall 7 demo_kernel = Inr k"
    using k by (simp add: take_syscall_def demo_kernel_simps syscall_nr_def Let_def)
  then show thesis using that k kreach.step [OF kreach.refl kstep.syscall] by blast
qed

section \<open>Properties of the running kernel\<close>

text \<open>
  C2: In every state the running kernel can reach, the process table is partitioned: each
  of the 4096 slots is exactly once on the free stack, in the ready queue, in the waiting
  queue or on the processor.
\<close>

theorem kernel_slots_partitioned:
  assumes "kernel_inv k0" "kreach k0 k"
  shows "free_bag (k_sched k) + ready_bag (k_sched k) + waiting_bag (k_sched k) + curr_bag (k_sched k)
    = all_slots"
  using kreach_inv [OF assms(2,1)] by (simp add: kernel_inv_def sched_inv_def sched_ok_def)

theorem kernel_slots_partitioned_witness:
  "\<exists>k. take_syscall 7 demo_kernel = Inr k \<and>
     free_bag (k_sched k) + ready_bag (k_sched k) + waiting_bag (k_sched k) + curr_bag (k_sched k)
       = all_slots"
  using demo_wait kernel_slots_partitioned [OF demo_kernel_inv] by metis

text \<open>
  C1: The kernel schedules earliest deadline first: in every reachable state the kernel's own
  process runs only when the ready queue is empty, and otherwise the running process is
  marked as running and no process in the ready queue has an earlier effective deadline.
\<close>

theorem kernel_edf:
  assumes "kernel_inv k0" "kreach k0 k" "s_curr (k_sched k) = Some c"
  shows "case c of P0 \<Rightarrow> heap_bag (s_ready (k_sched k)) = {#}
    | PB i \<Rightarrow> p_state (s_pb (k_sched k) i) = PROC_RUNNING \<and>
        (\<forall>j. Some (PB j) \<in># ready_bag (k_sched k) \<longrightarrow>
           p_eff_deadline (s_pb (k_sched k) i) \<le> p_eff_deadline (s_pb (k_sched k) j))"
proof -
  let ?s = "k_sched k"
  have inv: "sched_ok {#} ?s" "edf ?s"
    using kreach_inv [OF assms(2,1)] by (simp_all add: kernel_inv_def sched_inv_def)
  note key = queues_okD(5) [OF sched_okD(3) [OF inv(1)]]
  show ?thesis
  proof (cases c)
    case P0
    then show ?thesis using inv(2) assms(3) by (simp add: edf_def)
  next
    case (PB i)
    have "p_eff_deadline (s_pb ?s i) \<le> p_eff_deadline (s_pb ?s j)" if j: "Some (PB j) \<in># ready_bag ?s" for j
    proof -
      obtain x where x: "x \<in># heap_bag (s_ready ?s)" "snd x = Some (PB j)"
        using j by (fastforce simp: ready_bag_def)
      then have "fst x = p_eff_deadline (s_pb ?s j)" using key by (force simp: keyed_def)
      then show ?thesis using x(1) inv(2) assms(3) PB by (force simp: edf_def)
    qed
    then show ?thesis using inv(2) assms(3) PB by (simp add: edf_def)
  qed
qed

theorem kernel_edf_witness:
  "\<exists>k c. take_syscall 7 demo_kernel = Inr k \<and> s_curr (k_sched k) = Some c \<and>
     (case c of P0 \<Rightarrow> heap_bag (s_ready (k_sched k)) = {#}
      | PB i \<Rightarrow> p_state (s_pb (k_sched k) i) = PROC_RUNNING \<and>
          (\<forall>j. Some (PB j) \<in># ready_bag (k_sched k) \<longrightarrow>
             p_eff_deadline (s_pb (k_sched k) i) \<le> p_eff_deadline (s_pb (k_sched k) j)))"
proof -
  obtain k where k: "take_syscall 7 demo_kernel = Inr k" "kreach demo_kernel k"
    using demo_wait by blast
  have "curr_ok (k_sched k)"
    using kreach_inv [OF k(2) demo_kernel_inv] by (simp add: kernel_inv_def sched_inv_def sched_ok_def)
  then obtain c where "s_curr (k_sched k) = Some c" by (auto simp: curr_ok_def)
  with k kernel_edf [OF demo_kernel_inv k(2) this] show ?thesis by blast
qed

text \<open>
  C3: No wake-up is lost: in every reachable state in which some process waits, the timer is
  enabled and its compare value is the one computed for the earliest wake-up time.
\<close>

theorem kernel_timer_armed:
  assumes "kernel_inv k0" "kreach k0 k" "least_key (heap_bag (s_waiting (k_sched k))) d"
  shows "t_ctl (k_timer k) = 1 \<and> (\<exists>r < t_reads (k_timer k).
    t_cval (k_timer k) = (if 0 < sint (d - t_cntpct (k_timer k) r) then d
                          else t_cntpct (k_timer k) r + 1))"
  using kreach_inv [OF assms(2,1)] assms(3)
  by (simp add: kernel_inv_def timer_ok_def armed_for_def)

theorem kernel_timer_armed_witness:
  "\<exists>k. wait_until 7 1500 demo_kernel = Inr k \<and> t_ctl (k_timer k) = 1 \<and>
     (\<exists>r < t_reads (k_timer k). t_cval (k_timer k) =
        (if 0 < sint (1500 - t_cntpct (k_timer k) r) then 1500 else t_cntpct (k_timer k) r + 1))"
proof -
  obtain k where k: "wait_until 7 1500 demo_kernel = Inr k" "kreach demo_kernel k"
    using demo_wait by blast
  have "\<not> heap_full (s_waiting (k_sched demo_kernel))"
    by (simp add: demo_kernel_simps demo_queue_facts)
  then have "heap_bag (s_waiting (k_sched k)) =
      add_mset (1500, Some (PB 0)) {#(2000, Some (PB 2))#}"
    using wait_until_ok [OF demo_kernel_inv, of 0 7 1500] k(1)
    by (auto simp: demo_kernel_simps demo_queue_facts)
  then have "least_key (heap_bag (s_waiting (k_sched k))) 1500" by (simp add: least_key_def)
  from kernel_timer_armed [OF demo_kernel_inv k(2) this] k(1) show ?thesis by blast
qed

section \<open>Properties of the handlers\<close>

text \<open>
  C8: \<open>wait_until\<close> on every branch: called by the kernel's process it panics with \<open>EINVAL\<close>,
  with a full waiting queue it panics with \<open>ENOMEM\<close>, and otherwise it returns with the
  caller added to the waiting queue under its wake-up time and the invariant kept.
\<close>

theorem wait_until_correct:
  assumes "kernel_inv k"
  shows "case s_curr (k_sched k) of
      Some (PB i) \<Rightarrow>
        if heap_full (s_waiting (k_sched k)) then wait_until dl0 u k = Inl (Kernel_panic JRT_ENOMEM)
        else (\<exists>k'. wait_until dl0 u k = Inr k' \<and> kernel_inv k' \<and>
          heap_bag (s_waiting (k_sched k')) =
            add_mset (u, Some (PB i)) (heap_bag (s_waiting (k_sched k))))
    | _ \<Rightarrow> wait_until dl0 u k = Inl (Kernel_panic JRT_EINVAL)"
proof -
  have "sched_inv (k_sched k)" using assms by (simp add: kernel_inv_def)
  then show ?thesis
  proof (cases rule: sched_inv_curr)
    case kernel
    then show ?thesis using wait_until_kernel [OF assms] by simp
  next
    case (slot i)
    then show ?thesis
      using wait_until_full [OF assms slot(1), of dl0 u] wait_until_ok [OF assms slot(1), of dl0 u]
      by (cases "heap_full (s_waiting (k_sched k))") auto
  qed
qed

theorem wait_until_correct_witness:
  "\<exists>k. wait_until 7 1500 demo_kernel = Inr k \<and> kernel_inv k \<and>
     heap_bag (s_waiting (k_sched k)) = {#(1500, Some (PB 0)), (2000, Some (PB 2))#}"
  using wait_until_correct [OF demo_kernel_inv, of 7 1500]
  by (simp add: demo_kernel_simps demo_queue_facts)

text \<open>
  \<open>exit\<close> of a process, when it returns, puts one slot back on the free stack and keeps the
  invariant; it fails only where the allocator refuses the process's memory or its page
  tables.
\<close>

theorem exit_correct:
  assumes "kernel_inv k" "s_curr (k_sched k) = Some (PB i)"
  shows "case exit k of
      Inr k' \<Rightarrow> kernel_inv k' \<and> s_nfree (k_sched k') = s_nfree (k_sched k) + 1
    | Inl e \<Rightarrow>
        (case free (k_alloc k) (p_mem (s_pb (k_sched k) i)) (k_mem k) of
           Inl e' \<Rightarrow> e = e'
         | Inr st \<Rightarrow> mmu_map_destroy (cx_mmap (p_ctx (s_pb (k_sched k) i))) st = Inl e)"
proof (cases "exit k")
  case (Inr k')
  then show ?thesis using exit_keeps [OF assms(1)] by simp
next
  case (Inl e)
  let ?fr = "free (k_alloc k) (p_mem (s_pb (k_sched k) i)) (k_mem k)"
  let ?ds = "mmu_map_destroy (cx_mmap (p_ctx (s_pb (k_sched k) i)))"
  have "(case ?fr of Inl e' \<Rightarrow> e = e' | Inr st \<Rightarrow> ?ds st = Inl e)"
    by (rule exit_eval [OF assms]) (use Inl in \<open>auto split: sum.splits simp: bindE_def\<close>)
  then show ?thesis using Inl by simp
qed

theorem exit_correct_witness:
  "\<exists>k'. exit demo_kernel = Inr k' \<and> kernel_inv k' \<and>
     s_nfree (k_sched k') = s_nfree (k_sched demo_kernel) + 1"
proof -
  have d: "p_mem (s_pb demo_sched 0) = 0x4A00004C" "cx_mmap (p_ctx (s_pb demo_sched 0)) = cx_mmap demo_ctx"
    "k_alloc demo_kernel = demo_alloc" "k_mem demo_kernel = demo_mem"
    by (simp_all add: demo_sched_def demo_proc_def demo_kernel_def)
  have "\<not> isl (free demo_alloc 0x4A00004C demo_mem)" by code_simp
  then obtain st where "free demo_alloc 0x4A00004C demo_mem = Inr st"
    by (cases "free demo_alloc 0x4A00004C demo_mem") auto
  moreover have "mmu_map_destroy (cx_mmap demo_ctx) st \<noteq> Inl e" for e
    by (simp add: mmu_map_destroy_def pt_root_free_def demo_ctx_def)
  ultimately show ?thesis
    using exit_correct [OF demo_kernel_inv, of 0] d
    by (auto simp: demo_kernel_simps split: sum.splits)
qed

lemma timer_fn_spec:
  assumes "kernel_inv k"
  defines "W \<equiv> heap_bag (s_waiting (k_sched k))" and "A \<equiv> active (k_sched k)"
  shows "(size A + size W \<le> READY_MAX + 1 \<longrightarrow> (\<exists>k'. timer_fn dl0 k = Inr k')) \<and>
    (case timer_fn dl0 k of
       Inl e \<Rightarrow> e = Kernel_panic JRT_ENOMEM \<and>
         (\<exists>D. D \<subseteq># W \<and> (\<forall>x \<in># D. due (k_timer k) (size W) x) \<and> READY_MAX + 1 < size A + size D)
     | Inr k' \<Rightarrow> kernel_inv k' \<and>
         (\<exists>D. W = D + heap_bag (s_waiting (k_sched k')) \<and> (\<forall>x \<in># D. due (k_timer k) (size W) x) \<and>
            active (k_sched k') = A + image_mset snd D) \<and>
         (W \<noteq> {#} \<longrightarrow> woken_up (k_timer k) k') \<and>
         (heap_bag (s_waiting (k_sched k')) = {#} \<longrightarrow> t_ctl (k_timer k') = 0))"
proof -
  have si: "sched_inv (k_sched k)" using assms(1) by (simp add: kernel_inv_def)
  have "heap_inv (s_waiting (k_sched k))" using si queues_okD(3) sched_okD(3) by (metis sched_inv_def)
  then have n: "hlen (s_waiting (k_sched k)) = size W" by (simp add: W_def)
  show ?thesis
  proof (cases "sched_has_waiting (k_sched k)")
    case True
    then have o: "timer_outcome k (timer_fn dl0 k)" using timer_fn_result [OF assms(1), of dl0] by simp
    show ?thesis
    proof (cases "timer_fn dl0 k")
      case (Inl e)
      then obtain D where D: "e = Kernel_panic JRT_ENOMEM" "D \<subseteq># W" "\<forall>x \<in># D. due (k_timer k) (size W) x"
        "READY_MAX + 1 < size A + size D"
        using o unfolding timer_outcome_def n by (auto simp: W_def A_def)
      have "size D \<le> size W" using D(2) by (rule size_mset_mono)
      then have "\<not> size A + size W \<le> READY_MAX + 1" using D(4) by linarith
      then show ?thesis unfolding Inl sum.case using D by blast
    next
      case (Inr k')
      then have "timer_outcome k (Inr k')" using o by simp
      then show ?thesis unfolding Inr timer_outcome_def n sum.case W_def [symmetric] A_def [symmetric] by blast
    qed
  next
    case False
    then have w: "W = {#}" using sched_has_waiting_iff [OF si] by (simp add: W_def)
    have r: "timer_fn dl0 k = Inr (k\<lparr>k_timer := timer_cancel (k_timer k)\<rparr>)"
      using timer_fn_result [OF assms(1), of dl0] False by simp
    then have "kernel_inv (k\<lparr>k_timer := timer_cancel (k_timer k)\<rparr>)" using timer_fn_keeps [OF assms(1)] by blast
    then show ?thesis using w by (simp add: r W_def A_def timer_cancel_def)
  qed
qed

text \<open>
  C7: The timer interrupt. It returns whenever the ready queue has room for the processes that are active and
  waiting; if it panics, with \<open>ENOMEM\<close>, then the processes due at its counter readings are too many for the ready queue.
  When it returns, the invariant is kept (so the timer is armed for the earliest process still waiting);
  exactly the processes \<open>D\<close> taken off the waiting queue are new among the ready and running ones; each of them was due at a
  reading of the counter, so none is woken early; at some reading nobody left waiting was due; and
  with nobody left waiting the timer is off.
\<close>

theorem timer_fn_correct:
  assumes "kernel_inv k"
  shows "let W = heap_bag (s_waiting (k_sched k)); A = active (k_sched k) in
    (size A + size W \<le> READY_MAX + 1 \<longrightarrow> (\<exists>k'. timer_fn dl0 k = Inr k')) \<and>
    (case timer_fn dl0 k of
       Inl e \<Rightarrow> e = Kernel_panic JRT_ENOMEM \<and>
         (\<exists>D. D \<subseteq># W \<and> (\<forall>x \<in># D. due (k_timer k) (size W) x) \<and> READY_MAX + 1 < size A + size D)
     | Inr k' \<Rightarrow> kernel_inv k' \<and>
         (\<exists>D. W = D + heap_bag (s_waiting (k_sched k')) \<and> (\<forall>x \<in># D. due (k_timer k) (size W) x) \<and>
            active (k_sched k') = A + image_mset snd D) \<and>
         (W \<noteq> {#} \<longrightarrow> woken_up (k_timer k) k') \<and>
         (heap_bag (s_waiting (k_sched k')) = {#} \<longrightarrow> t_ctl (k_timer k') = 0))"
  unfolding Let_def using assms by (rule timer_fn_spec)

text \<open>The demo kernel has room, so its handler returns.\<close>

theorem timer_fn_correct_witness:
  "\<exists>k' D. timer_fn 7 demo_kernel = Inr k' \<and> kernel_inv k' \<and> woken_up (k_timer demo_kernel) k' \<and>
     heap_bag (s_waiting (k_sched demo_kernel)) = D + heap_bag (s_waiting (k_sched k')) \<and>
     active (k_sched k') = active (k_sched demo_kernel) + image_mset snd D"
proof -
  have "size (active demo_sched) + size (heap_bag (s_waiting demo_sched)) \<le> READY_MAX + 1" "heap_bag (s_waiting demo_sched) \<noteq> {#}"
    by (simp_all add: active_def ready_bag_def curr_bag_def demo_kernel_simps demo_queue_facts READY_MAX_def)
  then show ?thesis
    using timer_fn_correct [OF demo_kernel_inv, of 7] by (auto simp: demo_kernel_simps Let_def split: sum.splits)
qed

text \<open>
  C9: \<open>sched\<close> with a non-empty ready queue returns, keeps the partition of the slots and leaves
  the processor with the earliest deadline; it preempts the running process exactly when
  a ready one has a strictly earlier deadline.
\<close>

theorem sched_correct:
  assumes "sched_ok {#} sc" "heap_bag (s_ready sc) \<noteq> {#}" "s_curr sc = Some (PB j)"
    "p_state (s_pb sc j) = PROC_RUNNING"
  shows "\<exists>sc'. sched dl0 sched_switch_irq sc = Inr sc' \<and> sched_inv sc' \<and>
    (s_curr sc' \<noteq> s_curr sc \<longleftrightarrow>
       (\<exists>x \<in># heap_bag (s_ready sc). fst x < p_eff_deadline (s_pb sc j)))"
proof -
  obtain sc' where s: "sched dl0 sched_switch_irq sc = Inr sc'" "sched_ok {#} sc'" "edf sc'"
    "s_curr sc' \<noteq> s_curr sc \<longleftrightarrow> (\<exists>x \<in># heap_bag (s_ready sc). fst x < p_eff_deadline (s_pb sc j))"
    by (rule sched_running_ok [OF assms, where ?dl0.0 = dl0]) blast
  then show ?thesis by (auto simp: sched_inv_def)
qed

theorem sched_correct_witness:
  "\<exists>sc'. sched 7 sched_switch_irq demo_sched = Inr sc' \<and> sched_inv sc' \<and>
     s_curr sc' = s_curr demo_sched"
proof -
  have "sched_ok {#} demo_sched"
    using demo_kernel_inv by (simp add: kernel_inv_def sched_inv_def demo_kernel_simps)
  moreover have "p_state (s_pb demo_sched 0) = PROC_RUNNING" "p_eff_deadline (s_pb demo_sched 0) = 500"
    by (simp_all add: demo_sched_def demo_proc_def)
  ultimately show ?thesis
    using sched_correct [of demo_sched 0 7] by (auto simp: demo_kernel_simps demo_queue_facts)
qed

text \<open>
  \<open>sched_yield\<close> returns, hands out the process that ran, and gives the processor to the
  ready process with the earliest deadline, or to the kernel when there is none.
\<close>

theorem sched_yield_correct:
  assumes "sched_ok {#} sc" "s_curr sc = Some c"
  shows "\<exists>sc'. sched_yield sc = Inr (c, sc') \<and> sched_ok (curr_bag sc) sc' \<and> edf sc' \<and>
    (s_curr sc' = Some P0 \<longleftrightarrow> heap_bag (s_ready sc) = {#})"
proof -
  obtain sc' where "sched_yield sc = Inr (c, sc')" "sched_ok (curr_bag sc) sc'" "edf sc'"
    "s_curr sc' = Some P0 \<longleftrightarrow> heap_bag (s_ready sc) = {#}"
    by (rule sched_yield_ok [OF assms]) blast
  then show ?thesis by blast
qed

theorem sched_yield_correct_witness:
  "\<exists>sc'. sched_yield demo_sched = Inr (PB 0, sc') \<and> s_curr sc' \<noteq> Some P0"
proof -
  have "sched_ok {#} demo_sched"
    using demo_kernel_inv by (simp add: kernel_inv_def sched_inv_def demo_kernel_simps)
  then show ?thesis
    using sched_yield_correct [of demo_sched "PB 0"] by (auto simp: demo_kernel_simps demo_queue_facts)
qed

text \<open>The scheduler just after start-up: nothing but free slots.\<close>

definition demo_idle :: sched_t where
  "demo_idle = demo_sched\<lparr>s_curr := Some P0, s_pid := 0,
     s_pb := (\<lambda>i. demo_proc (of_nat (i + 1)) PROC_UNUSED 0 0),
     s_free_proc := PB, s_nfree := MAX_PROC,
     s_ready := heap_init (replicate 255 \<lparr>key = 0, val = None, idx = 0\<rparr>) 255,
     s_waiting := heap_init (replicate 255 \<lparr>key = 0, val = None, idx = 0\<rparr>) 255\<rparr>"

lemma demo_idle_inv: "sched_inv demo_idle"
proof -
  have "free_bag demo_idle = all_slots" by (simp add: free_bag_def all_slots_def demo_idle_def)
  moreover have "ready_bag demo_idle = {#}" "waiting_bag demo_idle = {#}" "curr_bag demo_idle = {#}"
    by (simp_all add: bag_defs demo_idle_def)
  moreover have "pids_ok demo_idle" "free_ok demo_idle"
    by (simp_all add: pids_ok_def free_ok_def demo_idle_def demo_sched_def demo_proc_def)
  moreover have "queues_ok demo_idle"
    by (simp add: queues_ok_def demo_idle_def heap_inv_init hcap_heap_init READY_MAX_def keyed_def)
  moreover have "curr_ok demo_idle" "edf demo_idle"
    by (simp_all add: curr_ok_def edf_def demo_idle_def demo_sched_def demo_proc_def)
  ultimately show ?thesis by (simp add: sched_inv_def sched_ok_def)
qed

text \<open>
  \<open>sched\<close> with an empty ready queue does not return early: while the kernel's process runs
  it dereferences a null pointer, and while another process runs it does so whenever the
  uninitialised \<open>deadline\<close> happens to be below the process's deadline.
\<close>

theorem sched_empty_queue_faults:
  assumes "sched_ok {#} sc" "heap_bag (s_ready sc) = {#}"
  shows "case s_curr sc of
      Some (PB i) \<Rightarrow> sched dl0 swp sc =
        (if dl0 < p_eff_deadline (s_pb sc i) then Inl Null_deref else Inr sc)
    | _ \<Rightarrow> sched dl0 swp sc = Inl Null_deref"
proof -
  have e: "heap_empty (s_ready sc)"
    using assms queues_okD(1) [OF sched_okD(3) [OF assms(1)]] by (simp add: heap_empty_iff_bag)
  from assms(1) show ?thesis
  proof (cases rule: curr_cases)
    case kernel
    then show ?thesis using e by (simp add: sched_def heap_peek_def proc_of_pid_def heap_pop_empty)
  next
    case (slot i)
    then have "proc_of_pid sc (p_pid (s_pb sc i)) (s_pid sc) = Inr (PB i)"
      using proc_of_pid_curr [OF assms(1) slot(1), of sc] by simp
    then show ?thesis using slot e by (simp add: sched_def heap_peek_def heap_pop_empty)
  qed
qed

theorem sched_empty_queue_faults_witness:
  "sched 0 sched_switch_irq demo_idle = Inl Null_deref"
proof -
  have "sched_ok {#} demo_idle" using demo_idle_inv by (simp add: sched_inv_def)
  moreover have "heap_bag (s_ready demo_idle) = {#}" "s_curr demo_idle = Some P0"
    by (simp_all add: demo_idle_def)
  ultimately show ?thesis using sched_empty_queue_faults [of demo_idle 0 sched_switch_irq] by simp
qed

text \<open>
  C10: \<open>sched_new_proc\<close> panics with \<open>ENOMEM\<close> when no slot is free and otherwise fails only as the
  page tables do. When it returns, the new process owns a slot that was free, starts at
  address 0 in EL1h with FIQs masked, has its 16-byte aligned stack at the end of its
  memory, the memory and its size as arguments, \<open>jrt_exit\<close> as return address, the deadline
  asked for and the current address-space identifier, and the counter of identifiers goes
  on by one, modulo \<open>2^16\<close>.
\<close>

theorem sched_new_proc_correct:
  assumes "sched_ok {#} (k_sched k)"
  shows "case sched_new_proc pc csz mem msz dl ex k of
      Inl e \<Rightarrow> s_nfree (k_sched k) = 0 \<and> e = Kernel_panic JRT_ENOMEM \<or>
        proc_map_create (k_kend k) pc csz (k_asid k) (k_alloc k, k_mem k) = Inl e
    | Inr (pid, k') \<Rightarrow> \<exists>i < MAX_PROC. pid = of_nat (i + 1) \<and>
        sched_ok {#Some (PB i)#} (k_sched k') \<and>
        (let p = s_pb (k_sched k') i; c = p_ctx p in
         cx_pc c = 0 \<and> cx_pstate c = 0x45 \<and> cx_sp c = (mem + msz) AND NOT 15 \<and>
         cx_x c 0 = mem \<and> cx_x c 1 = msz \<and> cx_x c 30 = ex \<and>
         asid (cx_mmap c) = k_asid k \<and> p_state p = PROC_READY \<and>
         p_eff_deadline p = dl \<and> p_abs_deadline p = dl \<and> p_pa_pc p = pc) \<and>
        k_asid k' = k_asid k + 1"
proof (cases "s_nfree (k_sched k) = 0")
  case True
  then show ?thesis by (simp add: sched_new_proc_def sched_alloc_proc_none)
next
  case False
  obtain i where i: "i < MAX_PROC"
    "sched_alloc_proc (k_sched k) = (Some (PB i), (k_sched k)\<lparr>s_nfree := s_nfree (k_sched k) - 1\<rparr>)"
    "sched_ok (add_mset (Some (PB i)) {#}) ((k_sched k)\<lparr>s_nfree := s_nfree (k_sched k) - 1\<rparr>)"
    using sched_alloc_proc_ok [OF assms] False by blast
  show ?thesis
  proof (cases "proc_map_create (k_kend k) pc csz (k_asid k) (k_alloc k, k_mem k)")
    case (Inl e)
    then show ?thesis using i(2) by (simp add: sched_new_proc_def Let_def)
  next
    case (Inr r)
    obtain mp a m where r: "r = (mp, a, m)" by (cases r)
    have mp: "asid mp = k_asid k"
      using Inr r by (auto simp: proc_map_create_def)
    obtain pid k' where new: "sched_new_proc pc csz mem msz dl ex k = Inr (pid, k')"
      using i(2) Inr r by (simp add: sched_new_proc_def Let_def)
    have pid: "p_pid (s_pb (k_sched k) i) = of_nat (i + 1)"
      using sched_okD(1) [OF assms] i(1) by (simp add: pids_ok_def)
    have k': "k_asid k' = k_asid k + 1" "sched_ok (add_mset (Some (PB i)) {#}) (k_sched k')"
      "pid = p_pid (s_pb (k_sched k) i)"
      "s_pb (k_sched k') i = (s_pb (k_sched k) i)\<lparr>p_ctx := (new_ctx mem msz ex
         (p_ctx (s_pb (k_sched k) i)))\<lparr>cx_mmap := mp\<rparr>, p_pa_pc := pc, p_first := 1,
         p_mem := mem, p_mem_size := msz, p_prog_size := csz, p_eff_deadline := dl,
         p_abs_deadline := dl, p_state := PROC_READY\<rparr>"
      using new i Inr r
      by (auto simp: sched_new_proc_def Let_def intro!: sched_ok_upd_held)
    then show ?thesis
      using new i(1) pid mp
      by (auto simp: new_ctx_def Let_def pstate_el1h_def PSR_M_EL1h_def FIQ_MASK_def PSR_F_def
          intro!: exI [of _ i])
  qed
qed

theorem sched_new_proc_correct_witness:
  "case sched_new_proc 0x48000000 0x1000 0x4A000100 0x100 700 0x48000040 demo_kernel of
     Inl e \<Rightarrow> proc_map_create 0x48010000 0x48000000 0x1000 4 (demo_alloc, demo_mem) = Inl e
   | Inr (pid, k') \<Rightarrow> \<exists>i < MAX_PROC. pid = of_nat (i + 1) \<and> k_asid k' = 5 \<and>
       sched_ok {#Some (PB i)#} (k_sched k') \<and> cx_sp (p_ctx (s_pb (k_sched k') i)) = 0x4A000200"
proof -
  have "sched_ok {#} (k_sched demo_kernel)"
    using demo_kernel_inv by (simp add: kernel_inv_def sched_inv_def)
  moreover have "k_kend demo_kernel = 0x48010000" "k_asid demo_kernel = 4"
    "k_alloc demo_kernel = demo_alloc" "k_mem demo_kernel = demo_mem" "s_nfree (k_sched demo_kernel) \<noteq> 0"
    by (simp_all add: demo_kernel_def demo_sched_def MAX_PROC_def)
  ultimately show ?thesis
    using sched_new_proc_correct [where k = demo_kernel and pc = "0x48000000" and csz = "0x1000"
        and mem = "0x4A000100" and msz = "0x100" and dl = 700 and ex = "0x48000040"]
    by (auto simp: Let_def split: sum.splits prod.splits)
qed

lemma jrt_main_inv:
  assumes "READY_MAX \<le> length (ha (s_ready (k_sched k)))" "READY_MAX \<le> length (ha (s_waiting (k_sched k)))"
    "jrt_main k = Inr k'"
  shows "kernel_inv k' \<and> s_nfree (k_sched k') = MAX_PROC \<and> t_cntfrq (k_timer k') = t_cntfrq_el0 (k_timer k)"
proof -
  obtain a m where am: "alloc_init (k_mem k) JRT_HEAP_START JRT_HEAP_SIZE = (a, m)" by (metis surj_pair)
  obtain k1 where k1: "sched_init (k\<lparr>k_alloc := a, k_mem := m\<rparr>) = Inr k1" "k' = k1\<lparr>k_timer := timebase_init (k_timer k1)\<rparr>"
    using assms(3) am by (auto simp: jrt_main_def)
  have "k_timer k1 = k_timer k" using k1(1) by (auto simp: sched_init_def Let_def)
  then show ?thesis
    using sched_init_inv [OF k1(1)] assms(1,2) by (simp add: k1(2) kernel_inv_def timer_ok_empty timebase_init_def)
qed

text \<open>
  Start-up establishes the invariant: when \<open>jrt_main\<close> reaches its idle loop, with node
  arrays of \<open>READY_MAX\<close> entries in both queues, every slot is free, nothing waits and the
  kernel's process runs; every later state is then covered by the properties above.
\<close>

theorem jrt_main_establishes:
  assumes "READY_MAX \<le> length (ha (s_ready (k_sched k)))"
    and "READY_MAX \<le> length (ha (s_waiting (k_sched k)))"
  shows "case jrt_main k of
      Inr k' \<Rightarrow> kernel_inv k' \<and> s_nfree (k_sched k') = MAX_PROC \<and> t_cntfrq (k_timer k') = t_cntfrq_el0 (k_timer k)
    | Inl e \<Rightarrow> (case alloc_init (k_mem k) JRT_HEAP_START JRT_HEAP_SIZE of st \<Rightarrow> kern_map_create 0 st = Inl e)"
proof (cases "jrt_main k")
  case (Inl e)
  then show ?thesis by (auto simp: jrt_main_def sched_init_def Let_def bindE_def split: sum.splits prod.splits)
next
  case (Inr k')
  then show ?thesis using jrt_main_inv [OF assms] by simp
qed

theorem jrt_main_establishes_witness:
  "case jrt_main (demo_kernel\<lparr>k_sched := demo_idle\<rparr>) of
     Inr k' \<Rightarrow> kernel_inv k' \<and> s_nfree (k_sched k') = MAX_PROC
   | Inl e \<Rightarrow> kern_map_create 0 (alloc_init demo_mem JRT_HEAP_START JRT_HEAP_SIZE) = Inl e"
proof -
  have "READY_MAX \<le> length (ha (s_ready demo_idle))" "READY_MAX \<le> length (ha (s_waiting demo_idle))"
    by (simp_all add: demo_idle_def heap_init_def READY_MAX_def)
  moreover have "k_mem demo_kernel = demo_mem" by (simp add: demo_kernel_def)
  ultimately show ?thesis
    using jrt_main_establishes [of "demo_kernel\<lparr>k_sched := demo_idle\<rparr>"] by (auto split: sum.splits)
qed

end
