(* ===== verification/Kernel_Heap.thy ===== *)
theory Kernel_Heap
  imports Kernel_Run Mmu_Props
begin

text \<open>
  The kernel and its heap: who holds what. A process holds the memory it was given and the tables of its map, the
  kernel holds the tables of its own map, and nothing else of the heap is in use. Start-up establishes
  this, and every system call, interrupt and step of user code keeps it: creating a process adds one holder, \<open>exit\<close>
  takes one away, and no memory is lost or held twice. The kernel's stack is not part of the memory of the model; where it meets
  the heap is said in \<open>Autogen\<close>.
\<close>

section \<open>Accounts\<close>

text \<open>
  What a process holds: the address of its memory, the size it asked for, its map, and the image its map is for. A map is
  its tables, and the descriptors they give.
\<close>

record holding =
  h_mem :: u64
  h_size :: u64
  h_map :: mmu_map_t
  h_pc :: u64
  h_len :: u64

definition tables :: "memory \<Rightarrow> mmu_map_t \<Rightarrow> u64 list" where
  "tables m mp = tabs 3 m (l0 (root mp))"

definition descs :: "memory \<Rightarrow> mmu_map_t \<Rightarrow> u64 \<Rightarrow> u64" where
  "descs m mp = desc_at 3 m (l0 (root mp))"

definition hold_tables :: "memory \<Rightarrow> holding \<Rightarrow> u64 set" where
  "hold_tables m h = set (tables m (h_map h))"

text \<open>
  A holder on a heap with the lowest free block at \<open>c\<close> and the kernel's tables \<open>K\<close>: its block, of \<open>len\<close> bytes, holds what it asked
  for, its tables are its own and make the address space of its image. \<open>accounts\<close> describes the heap
  \<open>st\<close> when the kernel has the map \<open>kmap\<close> and each \<open>i \<in> L\<close> holds \<open>hold i\<close>: nothing else is in use.
\<close>

definition holder_ok :: "u64 \<Rightarrow> nat \<Rightarrow> memory \<Rightarrow> u64 set \<Rightarrow> nat \<Rightarrow> holding \<Rightarrow> bool" where
  "holder_ok kend c m K len h \<longleftrightarrow> c < unat (h_mem h) \<and> unat (h_size h) \<le> len \<and> distinct (tables m (h_map h)) \<and>
     K \<inter> hold_tables m h = {} \<and> descs m (h_map h) = proc_desc kend (h_pc h) (h_len h)"

definition accounts :: "u64 \<Rightarrow> nat \<Rightarrow> nat \<Rightarrow> pst \<Rightarrow> mmu_map_t \<Rightarrow> nat set \<Rightarrow> (nat \<Rightarrow> holding) \<Rightarrow> bool" where
  "accounts kend base c st kmap L hold \<longleftrightarrow> descs (snd st) kmap = kern_desc \<and> (\<exists>len.
     page_heap base c ((\<lambda>i. (unat (h_mem (hold i)), len i)) ` L) (snd st) st
       (set (tables (snd st) kmap) \<union> (\<Union>i \<in> L. hold_tables (snd st) (hold i))) \<and>
     (\<forall>i \<in> L. holder_ok kend c (snd st) (set (tables (snd st) kmap)) (len i) (hold i)) \<and>
     pairwise (\<lambda>i j. hold_tables (snd st) (hold i) \<inter> hold_tables (snd st) (hold j) = {}) L \<and>
     inj_on (\<lambda>i. h_mem (hold i)) L)"

lemma accountsE:
  assumes "accounts kend base c (a, m) kmap L hold"
  obtains len where "page_heap base c ((\<lambda>i. (unat (h_mem (hold i)), len i)) ` L) m (a, m)
      (set (tables m kmap) \<union> (\<Union>i \<in> L. hold_tables m (hold i)))"
    "\<And>i. i \<in> L \<Longrightarrow> holder_ok kend c m (set (tables m kmap)) (len i) (hold i)"
    "pairwise (\<lambda>i j. hold_tables m (hold i) \<inter> hold_tables m (hold j) = {}) L" "inj_on (\<lambda>i. h_mem (hold i)) L"
    "descs m kmap = kern_desc"
  using assms unfolding accounts_def snd_conv by blast

text \<open>A map is the same in two memories that agree on its tables.\<close>

definition map_same :: "memory \<Rightarrow> memory \<Rightarrow> mmu_map_t \<Rightarrow> bool" where
  "map_same m m' mp \<longleftrightarrow> tables m' mp = tables m mp \<and> descs m' mp = descs m mp"

lemma map_sameI:
  assumes "page_heap base c Q m0 (a, m) P" "set (tables m mp) \<subseteq> P'" "P' \<subseteq> P" "unchanged P' m m'"
  shows "map_same m m' mp"
proof -
  have "\<forall>p \<in> set (tables m mp). aligned p" using kpool.owned_aligned [OF assms(1)] assms(2,3) by blast
  then show ?thesis
    using tabs_frame [of 3 m "l0 (root mp)" m'] unchanged_mono [OF assms(4,2)]
    by (simp add: map_same_def tables_def descs_def fun_eq_iff)
qed

lemma map_same_holder:
  assumes "map_same m m' (h_map h)"
  shows "hold_tables m' h = hold_tables m h" "holder_ok kend c m' K len h = holder_ok kend c m K len h"
  using assms by (simp_all add: map_same_def holder_ok_def hold_tables_def)

text \<open>The accounts after a change of the heap in which every holder of \<open>L\<close> keeps its map.\<close>

lemma accounts_cong:
  assumes "page_heap base c ((\<lambda>i. (unat (h_mem (hold i)), len i)) ` L) m0 (a', m')
      (set (tables m kmap) \<union> (\<Union>i \<in> L. hold_tables m (hold i)))"
    and "\<And>i. i \<in> L \<Longrightarrow> holder_ok kend c m (set (tables m kmap)) (len i) (hold i)"
    and "pairwise (\<lambda>i j. hold_tables m (hold i) \<inter> hold_tables m (hold j) = {}) L" "inj_on (\<lambda>i. h_mem (hold i)) L"
    and "descs m kmap = kern_desc" "map_same m m' kmap" "\<And>i. i \<in> L \<Longrightarrow> map_same m m' (h_map (hold i))"
  shows "accounts kend base c (a', m') kmap L hold"
proof -
  note t = map_same_holder [OF assms(7)]
  have "pairwise (\<lambda>i j. hold_tables m' (hold i) \<inter> hold_tables m' (hold j) = {}) L"
    using assms(3) t by (simp add: pairwise_def)
  moreover have "tables m' kmap = tables m kmap" "descs m' kmap = kern_desc" using assms(5,6) by (simp_all add: map_same_def)
  ultimately show ?thesis
    unfolding accounts_def using page_heap_now [OF assms(1)] assms(2,4) t by (intro conjI exI [of _ len]) simp_all
qed

lemma accounts_hold:
  assumes "\<And>i. i \<in> L \<Longrightarrow> hold' i = hold i"
  shows "accounts kend base c st kmap L hold' \<longleftrightarrow> accounts kend base c st kmap L hold"
  using assms unfolding accounts_def pairwise_def inj_on_def by simp

lemma accounts_give_back:
  assumes "accounts kend base c (a, m) kmap L hold" "i \<in> L"
  obtains a1 m1 a2 m2 where "free a (h_mem (hold i)) m = Inr (a1, m1)"
    "mmu_map_destroy (h_map (hold i)) (a1, m1) = Inr (\<lparr>root = \<lparr>l0 = 0, l0_pa = 0\<rparr>, asid = 0\<rparr>, a2, m2)"
    "accounts kend base c (a2, m2) kmap (L - {i}) hold"
proof -
  let ?T = "\<lambda>i. hold_tables m (hold i)" and ?mp = "h_map (hold i)" and ?K = "set (tables m kmap)"
  let ?P = "?K \<union> (\<Union>i \<in> L. ?T i)"
  obtain len where A: "page_heap base c ((\<lambda>i. (unat (h_mem (hold i)), len i)) ` L) m (a, m) ?P"
    "\<And>i. i \<in> L \<Longrightarrow> holder_ok kend c m ?K (len i) (hold i)" "pairwise (\<lambda>i j. ?T i \<inter> ?T j = {}) L"
    "inj_on (\<lambda>i. h_mem (hold i)) L" "descs m kmap = kern_desc"
    by (rule accountsE [OF assms(1)]) blast
  let ?f = "\<lambda>i. (unat (h_mem (hold i)), len i)"
  have ok: "c < fst (?f i)" "distinct (tables m ?mp)" "?K \<inter> ?T i = {}" using A(2) [OF assms(2)] by (simp_all add: holder_ok_def)
  have "?f i \<in> ?f ` L" using assms(2) by blast
  from page_heap_free_block [OF A(1) this ok(1)] obtain a1 m1 where
    f: "free a (h_mem (hold i)) m = Inr (a1, m1)" "page_heap base c (?f ` L - {?f i}) m (a1, m1) ?P" "unchanged ?P m m1"
    by (auto simp: ucast_id)
  have "?f j \<noteq> ?f i" if "j \<in> L - {i}" for j using A(4) assms(2) that by (auto simp: inj_on_def word_unat_eq_iff)
  then have Q: "?f ` L - {?f i} = ?f ` (L - {i})" by (auto simp del: prod.inject)
  have Ti: "?T i \<subseteq> ?P" using assms(2) by blast
  have t1: "tables m1 ?mp = tables m ?mp"
    using map_sameI [OF A(1) _ subset_refl f(3), of ?mp] Ti by (simp add: hold_tables_def map_same_def)
  have "kpool.tree base c (?f ` (L - {i})) m 3 (a1, m1) ?P (l0 (root ?mp))"
    using f(2) ok(2) Ti t1 unfolding kpool.tree_def Q by (simp add: tables_def hold_tables_def)
  from kpool.destroy_ok [OF this] obtain a2 m2 where
    d: "mmu_map_destroy ?mp (a1, m1) = Inr (\<lparr>root = \<lparr>l0 = 0, l0_pa = 0\<rparr>, asid = 0\<rparr>, a2, m2)"
    "page_heap base c (?f ` (L - {i})) m (a2, m2) (?P - ?T i)" "unchanged (?P - ?T i) m1 m2"
    using t1 by (auto simp: tables_def hold_tables_def)
  have P': "?P - ?T i = ?K \<union> (\<Union>j \<in> L - {i}. ?T j)" using ok(3) A(3) assms(2) by (auto simp: pairwise_def)
  have u: "unchanged (?P - ?T i) m m2" by (rule unchanged_trans [OF unchanged_mono [OF f(3)] d(3)]) blast
  have same: "map_same m m2 mp" if "set (tables m mp) \<subseteq> ?P - ?T i" for mp
    by (rule map_sameI [OF A(1) that _ u]) blast
  have "accounts kend base c (a2, m2) kmap (L - {i}) hold"
  proof (rule accounts_cong [OF d(2) [unfolded P'] A(2) _ _ A(5)])
    show "pairwise (\<lambda>i j. ?T i \<inter> ?T j = {}) (L - {i})" by (rule pairwise_subset [OF A(3)]) blast
    show "inj_on (\<lambda>i. h_mem (hold i)) (L - {i})" by (rule inj_on_subset [OF A(4)]) blast
    show "map_same m m2 kmap" by (rule same) (simp add: P')
    show "map_same m m2 (h_map (hold j))" if "j \<in> L - {i}" for j
      by (rule same) (unfold P', use that in \<open>auto simp: hold_tables_def\<close>)
  qed simp
  then show thesis using that f(1) d(1) by blast
qed

text \<open>
  A new holder \<open>i\<close>: \<open>alloc\<close> gives it memory and \<open>proc_map_create\<close> a map. Of \<open>alloc\<close> this needs that the request is one it
  serves, that the block lies above the lowest free one, and that the block ends tidily.
\<close>

definition alloc_fits :: "nat \<Rightarrow> u64 \<Rightarrow> pst \<Rightarrow> bool" where
  "alloc_fits c n st \<longleftrightarrow> 8 \<le> unat n \<and> unat n + 12 < 2 ^ 32 \<and>
     (case alloc (fst st) n (snd st) of
        Inl _ \<Rightarrow> False
      | Inr (p, _) \<Rightarrow> c + 12 < unat p \<and> tidy_end (unat p + unat n))"

lemma accounts_new:
  assumes "accounts kend base c (a, m) kmap L hold" "i \<notin> L" "alloc_fits c n (a, m)" "alloc a n m = Inr (p, a1, m1)"
    "proc_map_create kend pc sz as (a1, m1) = Inr (mp, a2, m2)" "unat kend \<le> 2 ^ 48"
  defines "new \<equiv> \<lparr>h_mem = p, h_size = n, h_map = mp, h_pc = pc, h_len = sz\<rparr>"
  shows "accounts kend base c (a2, m2) kmap (insert i L) (hold(i := new))"
proof -
  let ?T = "\<lambda>i. hold_tables m (hold i)" and ?K = "set (tables m kmap)" and ?h = "hold(i := new)"
  let ?P = "?K \<union> (\<Union>i \<in> L. ?T i)"
  obtain len where A: "page_heap base c ((\<lambda>i. (unat (h_mem (hold i)), len i)) ` L) m (a, m) ?P"
    "\<And>i. i \<in> L \<Longrightarrow> holder_ok kend c m ?K (len i) (hold i)" "pairwise (\<lambda>i j. ?T i \<inter> ?T j = {}) L"
    "inj_on (\<lambda>i. h_mem (hold i)) L" "descs m kmap = kern_desc"
    by (rule accountsE [OF assms(1)]) blast
  let ?f = "\<lambda>i. (unat (h_mem (hold i)), len i)"
  have fit: "8 \<le> unat n" "unat n + 12 < 2 ^ 32" "c + 12 < unat p" "tidy_end (unat p + unat n)"
    using assms(3,4) by (simp_all add: alloc_fits_def)
  obtain l where l: "unat n \<le> l" "unat p \<notin> fst ` ?f ` L" "page_heap base c (insert (unat p, l) (?f ` L)) m1 (a1, m1) ?P" "unchanged ?P m m1"
    by (rule page_heap_alloc [OF A(1) fit(1,2) assms(4) fit(3,4)])
  have "kpool.built base c (insert (unat p, l) (?f ` L)) m1 (root mp) ?P (a1, m1) (proc_desc kend pc sz) (a2, m2)"
    using kpool.proc_map_ok [OF l(3) assms(6), of pc sz as] assms(5) by (simp add: outcome_def)
  then have b: "page_heap base c (insert (unat p, l) (?f ` L)) m1 (a2, m2) (?P \<union> set (tables m2 mp))" "distinct (tables m2 mp)"
    "set (tables m2 mp) \<inter> ?P = {}" "unchanged ?P m1 m2" "descs m2 mp = proc_desc kend pc sz"
    unfolding kpool.built_def kpool.tree_def tables_def descs_def desc_of_def by auto
  note u = unchanged_trans [OF l(4) b(4)]
  have same: "map_same m m2 mp'" if "set (tables m mp') \<subseteq> ?P" for mp' by (rule map_sameI [OF A(1) that subset_refl u])
  have K: "tables m2 kmap = tables m kmap" "descs m2 kmap = kern_desc" using same [of kmap] A(5) by (auto simp: map_same_def)
  have old: "map_same m m2 (h_map (hold j))" if "j \<in> L" for j by (rule same) (use that in \<open>auto simp: hold_tables_def\<close>)
  have hL: "?h j = hold j" if "j \<in> L" for j using assms(2) that by auto
  have hi: "hold_tables m2 (?h i) = set (tables m2 mp)" by (simp add: hold_tables_def new_def)
  have hT: "hold_tables m2 (?h j) = ?T j" if "j \<in> L" for j using hL [OF that] map_same_holder(1) [OF old [OF that]] by simp
  have Q: "insert (unat p, l) (?f ` L) = (\<lambda>j. (unat (h_mem (?h j)), (len(i := l)) j)) ` insert i L"
    using assms(2) by (auto simp: image_iff new_def)
  have P: "?P \<union> set (tables m2 mp) = set (tables m2 kmap) \<union> (\<Union>j \<in> insert i L. hold_tables m2 (?h j))"
    using hT hi K by (simp add: Un_ac del: fun_upd_apply)
  show ?thesis
  proof (rule accounts_cong [OF b(1) [unfolded P Q] _ _ _ K(2)])
    have "holder_ok kend c m2 ?K l new" using b(2,3,5) fit(3) l(1) by (auto simp: holder_ok_def hold_tables_def new_def)
    then show "holder_ok kend c m2 (set (tables m2 kmap)) ((len(i := l)) j) (?h j)" if "j \<in> insert i L" for j
      using that A(2) map_same_holder(2) [OF old] K(1) by auto
    show "pairwise (\<lambda>i j. hold_tables m2 (?h i) \<inter> hold_tables m2 (?h j) = {}) (insert i L)"
      unfolding pairwise_insert using A(3) hT hi b(3) by (auto simp: pairwise_def simp del: fun_upd_apply)
    have "p \<noteq> h_mem (hold j)" if "j \<in> L" for j using l(2) that by (force simp: image_image)
    then show "inj_on (\<lambda>j. h_mem (?h j)) (insert i L)" using A(4) assms(2) by (auto simp: inj_on_def new_def)
  qed (simp_all add: map_same_def)
qed

text \<open>A holder writes into its own memory or outside the heap.\<close>

definition writes_own :: "nat \<Rightarrow> pst \<Rightarrow> holding \<Rightarrow> memory \<Rightarrow> bool" where
  "writes_own base st h m' \<longleftrightarrow> (\<forall>x. base \<le> unat x \<and> unat x < unat (a_end (fst st)) \<and>
     (unat x < unat (h_mem h) \<or> unat (h_mem h) + unat (h_size h) \<le> unat x) \<longrightarrow> m' x = snd st x)"

lemma accounts_write:
  assumes "accounts kend base c (a, m) kmap L hold" "i \<in> L" "writes_own base (a, m) (hold i) m'"
  shows "accounts kend base c (a, m') kmap L hold"
proof -
  let ?P = "set (tables m kmap) \<union> (\<Union>i \<in> L. hold_tables m (hold i))"
  obtain len where A: "page_heap base c ((\<lambda>i. (unat (h_mem (hold i)), len i)) ` L) m (a, m) ?P"
    "\<And>i. i \<in> L \<Longrightarrow> holder_ok kend c m (set (tables m kmap)) (len i) (hold i)"
    "pairwise (\<lambda>i j. hold_tables m (hold i) \<inter> hold_tables m (hold j) = {}) L"
    "inj_on (\<lambda>i. h_mem (hold i)) L" "descs m kmap = kern_desc"
    by (rule accountsE [OF assms(1)]) blast
  let ?f = "\<lambda>i. (unat (h_mem (hold i)), len i)"
  have own: "?f i \<in> ?f ` L" using assms(2) by blast
  have sz: "unat (h_size (hold i)) \<le> len i" using A(2) [OF assms(2)] by (simp add: holder_ok_def)
  have only: "m' x = m x" if "base \<le> unat x" "unat x < unat (a_end a)" "unat x < fst (?f i) \<or> fst (?f i) + snd (?f i) \<le> unat x" for x
    using assms(3) that sz unfolding writes_own_def by fastforce
  note w = page_heap_block_write [OF A(1) own only]
  have same: "map_same m m' mp" if "set (tables m mp) \<subseteq> ?P" for mp by (rule map_sameI [OF A(1) that subset_refl w(2)])
  show ?thesis
    by (rule accounts_cong [OF w(1) A(2-5)]) (auto intro!: same simp: hold_tables_def)
qed

section \<open>The holdings of the kernel's processes\<close>

text \<open>
  What the accounts read of the scheduler: the free stack, the kernel's map and what each slot holds. The slots that are not
  on the free stack are live.
\<close>

definition holding_of :: "proc_t \<Rightarrow> holding" where
  "holding_of q = \<lparr>h_mem = p_mem q, h_size = p_mem_size q, h_map = cx_mmap (p_ctx q), h_pc = p_pa_pc q, h_len = p_prog_size q\<rparr>"

definition books :: "sched_t \<Rightarrow> proc_ptr option multiset \<times> mmu_map_t \<times> (nat \<Rightarrow> holding)" where
  "books sc = (free_bag sc, cx_mmap (p_ctx (s_p0 sc)), \<lambda>i. holding_of (s_pb sc i))"

definition live :: "sched_t \<Rightarrow> nat set" where
  "live sc = {i. i < MAX_PROC \<and> Some (PB i) \<notin># free_bag sc}"

definition accounted :: "nat \<Rightarrow> nat \<Rightarrow> kernel \<Rightarrow> bool" where
  "accounted base c k \<longleftrightarrow> unat (k_kend k) \<le> 2 ^ 48 \<and>
     accounts (k_kend k) base c (k_alloc k, k_mem k) (cx_mmap (p_ctx (s_p0 (k_sched k)))) (live (k_sched k))
       (\<lambda>i. holding_of (s_pb (k_sched k) i))"

definition same_accounts :: "kernel \<Rightarrow> kernel \<Rightarrow> bool" where
  "same_accounts k k' \<longleftrightarrow> k_alloc k' = k_alloc k \<and> k_mem k' = k_mem k \<and> k_kend k' = k_kend k \<and>
     books (k_sched k') = books (k_sched k)"

lemma same_accounts_accounted: "same_accounts k k' \<Longrightarrow> accounted base c k \<Longrightarrow> accounted base c k'"
  by (simp add: same_accounts_def accounted_def books_def live_def)

text \<open>The operations that move processes between the queues and the processor leave the books alone.\<close>

lemma books_frame [simp]:
  "books (sc\<lparr>s_ready := h\<rparr>) = books sc" "books (sc\<lparr>s_waiting := h\<rparr>) = books sc"
  "books (sc\<lparr>s_curr := x\<rparr>) = books sc" "books (sc\<lparr>s_pid := i\<rparr>) = books sc"
  by (simp_all add: books_def free_bag_def)

lemma books_upd:
  "(\<And>q. holding_of (f q) = holding_of q) \<Longrightarrow> books (upd p f sc) = books sc"
  by (cases p) (auto simp: books_def holding_of_def)

lemma books_state [simp]:
  "books (upd p (\<lambda>q. q\<lparr>p_state := s\<rparr>) sc) = books sc" "books (upd p (\<lambda>q. q\<lparr>p_wait_until := u\<rparr>) sc) = books sc"
  by (rule books_upd, simp add: holding_of_def)+

lemma books_switch [simp]: "books (sched_switch_irq c n sc) = books sc"
  by (simp add: sched_switch_irq_def Let_def)

lemma ready_proc_books: "sched_ready_proc pid sc = Inr sc' \<Longrightarrow> books sc' = books sc"
  by (auto simp: sched_ready_proc_def split: prod.splits if_splits)

lemma wait_proc_books: "sched_wait_proc pid sc = Inr sc' \<Longrightarrow> books sc' = books sc"
  by (auto simp: sched_wait_proc_def split: prod.splits if_splits)

lemma yield_books: "sched_yield sc = Inr (p, sc') \<Longrightarrow> books sc' = books sc"
  by (auto simp: sched_yield_def Let_def split: prod.splits)

lemma sched_books: "sched dl0 sched_switch_irq sc = Inr sc' \<Longrightarrow> books sc' = books sc"
  by (auto simp: sched_def Let_def dest!: ready_proc_books split: prod.splits if_splits option.splits)

lemma enter_proc_books: "enter_proc dl0 pid sc = Inr sc' \<Longrightarrow> books sc' = books sc"
  by (auto simp: enter_proc_def dest!: ready_proc_books sched_books)

lemma wait_until_accounts: "wait_until dl0 u k = Inr k' \<Longrightarrow> same_accounts k k'"
  by (auto simp: wait_until_def Let_def same_accounts_def dest!: yield_books wait_proc_books split: prod.splits if_splits)

lemma same_accountsI:
  "books sc = books (k_sched k) \<Longrightarrow> same_accounts k (k\<lparr>k_sched := sc\<rparr>)"
  "books sc = books (k_sched k) \<Longrightarrow> same_accounts k (k\<lparr>k_sched := sc, k_timer := t\<rparr>)"
  by (simp_all add: same_accounts_def)

lemma same_accounts_trans: "same_accounts k k1 \<Longrightarrow> same_accounts k1 k2 \<Longrightarrow> same_accounts k k2"
  by (simp add: same_accounts_def)

lemma timer_loop_accounts: "timer_loop dl0 k = Some r \<Longrightarrow> \<forall>k'. r = Inr k' \<longrightarrow> same_accounts k k'"
proof (rule timer_loop.raw_induct [where P = "\<lambda>dl0 k r. \<forall>k'. r = Inr k' \<longrightarrow> same_accounts k k'", rotated], assumption)
  fix loop dl0 k r
  assume 1: "\<And>dl0 k r. loop dl0 k = Some r \<Longrightarrow> \<forall>k'. r = Inr k' \<longrightarrow> same_accounts k k'"
    "(case heap_pop (s_waiting (k_sched k)) dl0 of ((dl, v), h) \<Rightarrow>
        (let sc = (k_sched k)\<lparr>s_waiting := h\<rparr> in
         case v of None \<Rightarrow> Some (Inr (k\<lparr>k_sched := sc\<rparr>))
         | Some p \<Rightarrow>
             (case time_now_ticks (k_timer k) of (now, t) \<Rightarrow>
                if dl > now then
                  (case sched_wait_proc (p_pid (deref sc p)) sc of Inl e \<Rightarrow> Some (Inl e)
                   | Inr sc \<Rightarrow> Some (Inr (k\<lparr>k_sched := sc, k_timer := snd (timer_schedule_at_ticks dl t)\<rparr>)))
                else
                  (case enter_proc dl0 (p_pid (deref sc p)) sc of Inl e \<Rightarrow> Some (Inl e)
                   | Inr sc \<Rightarrow>
                       if sched_has_waiting sc then loop dl0 (k\<lparr>k_sched := sc, k_timer := t\<rparr>)
                       else Some (Inr (k\<lparr>k_sched := sc, k_timer := timer_cancel t\<rparr>)))))) = Some r"
  obtain d v h where pop: "heap_pop (s_waiting (k_sched k)) dl0 = ((d, v), h)" by (metis surj_pair)
  obtain now t where now: "time_now_ticks (k_timer k) = (now, t)" by (metis surj_pair)
  let ?sc = "(k_sched k)\<lparr>s_waiting := h\<rparr>"
  show "\<forall>k'. r = Inr k' \<longrightarrow> same_accounts k k'"
  proof (cases v)
    case None
    then show ?thesis using 1(2) by (auto simp: pop Let_def intro: same_accountsI)
  next
    case (Some p)
    show ?thesis
    proof (cases "d > now")
      case True
      then show ?thesis using 1(2) Some
        by (auto simp: pop now Let_def dest!: wait_proc_books intro: same_accountsI split: sum.splits)
    next
      case False
      then have "(case enter_proc dl0 (p_pid (deref ?sc p)) ?sc of Inl e \<Rightarrow> Some (Inl e)
          | Inr sc \<Rightarrow> if sched_has_waiting sc then loop dl0 (k\<lparr>k_sched := sc, k_timer := t\<rparr>)
              else Some (Inr (k\<lparr>k_sched := sc, k_timer := timer_cancel t\<rparr>))) = Some r"
        using 1(2) Some by (simp add: pop now Let_def)
      then show ?thesis
        by (auto dest!: enter_proc_books 1(1) split: sum.splits if_splits
            intro: same_accountsI same_accounts_trans [OF same_accountsI(2)])
    qed
  qed
qed

lemma timer_fn_accounts: "timer_fn dl0 k = Inr k' \<Longrightarrow> same_accounts k k'"
  by (auto simp: timer_fn_def same_accounts_def [of _ "_\<lparr>k_timer := _\<rparr>"] dest: timer_loop_accounts split: if_splits option.splits)

section \<open>Processes come and go\<close>

lemma exit_kernel:
  assumes "kernel_inv k" "s_curr (k_sched k) = Some P0"
  shows "exit k = Inl (Kernel_panic JRT_EINVAL)"
proof -
  have ok: "sched_ok {#} (k_sched k)" using assms(1) by (simp add: kernel_inv_def sched_inv_def)
  obtain sc where y: "sched_yield (k_sched k) = Inr (P0, sc)" "sched_ok (curr_bag (k_sched k)) sc"
    by (rule sched_yield_ok [OF ok assms(2)]) blast
  then have "p_pid (s_p0 sc) = 0" using sched_okD(1) by (simp add: pids_ok_def)
  then show ?thesis using y(1) by (simp add: exit_def sched_free_proc_def sched_get_proc_kernel)
qed

lemma exit_accounts:
  assumes inv: "kernel_inv k" and c: "s_curr (k_sched k) = Some (PB i)" and acc: "accounted base c k"
  shows "\<exists>k'. exit k = Inr k' \<and> accounted base c k' \<and> live (k_sched k') = live (k_sched k) - {i}"
proof -
  let ?hold = "\<lambda>i. holding_of (s_pb (k_sched k) i)" and ?kmap = "cx_mmap (p_ctx (s_p0 (k_sched k)))"
  have ok: "sched_ok {#} (k_sched k)" using inv by (simp add: kernel_inv_def sched_inv_def)
  note i = curr_slot [OF ok c]
  have "accounts (k_kend k) base c (k_alloc k, k_mem k) ?kmap (live (k_sched k)) ?hold" "i \<in> live (k_sched k)"
    using acc i(1,2) by (simp_all add: accounted_def live_def)
  then obtain a1 m1 a2 m2 where f: "free (k_alloc k) (h_mem (?hold i)) (k_mem k) = Inr (a1, m1)"
    "mmu_map_destroy (h_map (?hold i)) (a1, m1) = Inr (\<lparr>root = \<lparr>l0 = 0, l0_pa = 0\<rparr>, asid = 0\<rparr>, a2, m2)"
    "accounts (k_kend k) base c (a2, m2) ?kmap (live (k_sched k) - {i}) ?hold"
    by (rule accounts_give_back)
  obtain sc where y: "sched_yield (k_sched k) = Inr (PB i, sc)" "sched_ok (curr_bag (k_sched k)) sc"
    "s_pb sc i = s_pb (k_sched k) i"
    by (rule sched_yield_ok [OF ok c]) blast
  have n: "s_nfree sc < MAX_PROC" by (rule held_nfree [OF y(2)]) (simp add: curr_bag_def c)
  let ?s1 = "upd (PB i) (\<lambda>q. q\<lparr>p_state := PROC_UNUSED\<rparr>) sc"
  let ?s2 = "?s1\<lparr>s_free_proc := (s_free_proc ?s1)(s_nfree ?s1 := PB i), s_nfree := s_nfree ?s1 + 1\<rparr>"
  let ?s3 = "upd (PB i) (\<lambda>q. q\<lparr>p_ctx := (p_ctx q)\<lparr>cx_mmap := \<lparr>root = \<lparr>l0 = 0, l0_pa = 0\<rparr>, asid = 0\<rparr>\<rparr>\<rparr>) ?s2"
  have e: "exit k = Inr (k\<lparr>k_sched := ?s3, k_alloc := a2, k_mem := m2\<rparr>)"
    using y(1,3) n f(1,2) sched_get_proc_pid [OF sched_okD(1) [OF y(2)] i(1), of sc]
    by (simp add: exit_def sched_free_proc_def Let_def holding_of_def)
  have b: "books sc = books (k_sched k)" by (rule yield_books [OF y(1)])
  have fb: "free_bag ?s3 = add_mset (Some (PB i)) (free_bag sc)"
    by (auto simp: free_bag_def intro: image_mset_cong)
  then have l: "live ?s3 = live (k_sched k) - {i}" using b by (auto simp: live_def books_def)
  have k: "cx_mmap (p_ctx (s_p0 ?s3)) = ?kmap" using b by (simp add: books_def)
  have h: "holding_of (s_pb ?s3 j) = ?hold j" if "j \<noteq> i" for j
    using that b by (auto simp: books_def dest: fun_cong [of _ _ j])
  have "accounts (k_kend k) base c (a2, m2) ?kmap (live (k_sched k) - {i}) (\<lambda>j. holding_of (s_pb ?s3 j))"
    using f(3) h by (subst accounts_hold) auto
  then have "accounted base c (k\<lparr>k_sched := ?s3, k_alloc := a2, k_mem := m2\<rparr>)"
    using acc l k unfolding accounted_def by simp
  then show ?thesis using e l by auto
qed

text \<open>A new process takes one slot that was free; its holding is what it was given.\<close>

lemma new_proc_result:
  assumes ok: "sched_ok {#} (k_sched k)" and new: "sched_new_proc pc csz mem n dl ex k = Inr (pid, k')"
  obtains i mp where "proc_map_create (k_kend k) pc csz (k_asid k) (k_alloc k, k_mem k) = Inr (mp, k_alloc k', k_mem k')"
    "k_kend k' = k_kend k" "s_p0 (k_sched k') = s_p0 (k_sched k)" "i \<notin> live (k_sched k)"
    "live (k_sched k') = insert i (live (k_sched k))"
    "(\<lambda>j. holding_of (s_pb (k_sched k') j)) = (\<lambda>j. holding_of (s_pb (k_sched k) j))(i := \<lparr>h_mem = mem, h_size = n, h_map = mp, h_pc = pc, h_len = csz\<rparr>)"
proof -
  have "0 < s_nfree (k_sched k)"
    using new by (cases "s_nfree (k_sched k)") (auto simp: sched_new_proc_def sched_alloc_proc_def)
  then obtain i where i: "i < MAX_PROC"
    "sched_alloc_proc (k_sched k) = (Some (PB i), (k_sched k)\<lparr>s_nfree := s_nfree (k_sched k) - 1\<rparr>)"
    "sched_ok (add_mset (Some (PB i)) {#}) ((k_sched k)\<lparr>s_nfree := s_nfree (k_sched k) - 1\<rparr>)"
    by (rule sched_alloc_proc_ok [OF ok])
  let ?s = "(k_sched k)\<lparr>s_nfree := s_nfree (k_sched k) - 1\<rparr>"
  from new i(2) obtain mp where mp: "proc_map_create (k_kend k) pc csz (k_asid k) (k_alloc k, k_mem k) = Inr (mp, k_alloc k', k_mem k')"
    and k': "k_kend k' = k_kend k" "free_bag (k_sched k') = free_bag ?s" "s_p0 (k_sched k') = s_p0 (k_sched k)"
      "(\<lambda>j. holding_of (s_pb (k_sched k') j)) = (\<lambda>j. holding_of (s_pb (k_sched k) j))(i := \<lparr>h_mem = mem, h_size = n, h_map = mp, h_pc = pc, h_len = csz\<rparr>)"
    by (auto simp: sched_new_proc_def Let_def holding_of_def fun_eq_iff)
  have "free_bag (k_sched k) = add_mset (Some (PB i)) (free_bag ?s)"
  proof -
    let ?X = "ready_bag (k_sched k) + waiting_bag (k_sched k) + curr_bag (k_sched k)"
    have "ready_bag ?s = ready_bag (k_sched k)" "waiting_bag ?s = waiting_bag (k_sched k)" "curr_bag ?s = curr_bag (k_sched k)"
      by (simp_all add: bag_defs)
    then have "free_bag (k_sched k) + ?X = add_mset (Some (PB i)) (free_bag ?s) + ?X"
      using sched_okD(5) [OF ok] sched_okD(5) [OF i(3)] by (simp add: add.assoc)
    then show ?thesis by (rule add_right_imp_eq)
  qed
  moreover have "Some (PB i) \<notin># free_bag ?s" by (rule held_slot [OF i(3), of "Some (PB i)"]) simp_all
  ultimately have "live (k_sched k') = insert i (live (k_sched k))" "i \<notin> live (k_sched k)"
    using i(1) k'(2) by (auto simp: live_def)
  then show thesis using that mp k'(1,3,4) by blast
qed

lemma new_proc_accounts:
  assumes ok: "sched_ok {#} (k_sched k)" and acc: "accounted base c k" and fit: "alloc_fits c n (k_alloc k, k_mem k)"
    and al: "alloc (k_alloc k) n (k_mem k) = Inr (mem, a, m)"
    and new: "sched_new_proc pc csz mem n dl ex (k\<lparr>k_alloc := a, k_mem := m\<rparr>) = Inr (pid, k')"
  shows "accounted base c k'"
proof -
  let ?k = "k\<lparr>k_alloc := a, k_mem := m\<rparr>"
  have okk: "sched_ok {#} (k_sched ?k)" using ok by simp
  obtain i mp where r: "proc_map_create (k_kend ?k) pc csz (k_asid ?k) (k_alloc ?k, k_mem ?k) = Inr (mp, k_alloc k', k_mem k')"
    "k_kend k' = k_kend ?k" "s_p0 (k_sched k') = s_p0 (k_sched ?k)" "i \<notin> live (k_sched ?k)"
    "live (k_sched k') = insert i (live (k_sched ?k))"
    "(\<lambda>j. holding_of (s_pb (k_sched k') j)) = (\<lambda>j. holding_of (s_pb (k_sched ?k) j))(i := \<lparr>h_mem = mem, h_size = n, h_map = mp, h_pc = pc, h_len = csz\<rparr>)"
    by (rule new_proc_result [OF okk new])
  have "proc_map_create (k_kend k) pc csz (k_asid k) (a, m) = Inr (mp, k_alloc k', k_mem k')" "i \<notin> live (k_sched k)"
    using r(1,4) by simp_all
  note n = accounts_new [OF _ this(2) fit al this(1)]
  show ?thesis using acc n unfolding accounted_def r(2,3,5,6) by simp
qed

lemma schedule_req_accounts:
  assumes "kernel_inv k" "accounted base c k" "alloc_fits c mreq (k_alloc k, k_mem k)" "schedule_req dl0 pc psz mreq k = Inr k'"
  shows "accounted base c k'"
proof -
  obtain mem a m pid k1 sc where al: "alloc (k_alloc k) mreq (k_mem k) = Inr (mem, a, m)"
    and new: "sched_new_proc pc psz mem mreq 0 (k_exit k) (k\<lparr>k_alloc := a, k_mem := m\<rparr>) = Inr (pid, k1)"
    and ent: "enter_proc dl0 pid (k_sched k1) = Inr sc" and k': "k' = k1\<lparr>k_sched := sc\<rparr>"
    using assms(4) by (auto simp: schedule_req_def Let_def split: if_splits)
  have ok: "sched_ok {#} (k_sched k)" using assms(1) by (simp add: kernel_inv_def sched_inv_def)
  have "accounted base c k1" by (rule new_proc_accounts [OF ok assms(2,3) al new])
  then show ?thesis using same_accountsI(1) [OF enter_proc_books [OF ent]] same_accounts_accounted unfolding k' by blast
qed

lemma spawn_accounts:
  assumes "kernel_inv k" "accounted base c k" "alloc_fits c mreq (k_alloc k, k_mem k)" "spawn dl0 dl ep ap mreq k = Inr k'"
  shows "accounted base c k'"
proof -
  obtain mem a m pid k1 p sc cp where al: "alloc (k_alloc k) mreq (k_mem k) = Inr (mem, a, m)"
    and new: "sched_new_proc (p_pa_pc (deref (k_sched k) cp)) (p_prog_size (deref (k_sched k) cp))
       mem mreq dl (k_exit k) (k\<lparr>k_alloc := a, k_mem := m\<rparr>) = Inr (pid, k1)"
    and ent: "enter_proc dl0 pid
       (upd p (\<lambda>q. q\<lparr>p_ctx := (p_ctx q)\<lparr>cx_x := (cx_x (p_ctx q))(2 := ap)\<rparr>\<rparr>)
         (upd p (\<lambda>q. q\<lparr>p_ctx := (p_ctx q)\<lparr>cx_pc := ep\<rparr>\<rparr>) (k_sched k1))) = Inr sc"
    and k': "k' = k1\<lparr>k_sched := sc\<rparr>"
    using assms(4) by (auto simp: spawn_def Let_def split: option.splits)
  have ok: "sched_ok {#} (k_sched k)" using assms(1) by (simp add: kernel_inv_def sched_inv_def)
  have acc: "accounted base c k1" by (rule new_proc_accounts [OF ok assms(2,3) al new])
  have "books sc = books (k_sched k1)" unfolding enter_proc_books [OF ent] by (simp add: books_upd holding_of_def)
  then show ?thesis using same_accountsI(1) same_accounts_accounted acc unfolding k' by blast
qed

text \<open>Every request the mailbox interrupt serves has to fit.\<close>

primrec ipc_fits :: "nat \<Rightarrow> u64 \<Rightarrow> nat \<Rightarrow> kernel \<Rightarrow> bool" where
  "ipc_fits c dl0 0 k \<longleftrightarrow> True"
| "ipc_fits c dl0 (Suc budget) k \<longleftrightarrow>
     (case mpsc_pop (k_ring k) of ((rc, sr), ring) \<Rightarrow>
        case sr of None \<Rightarrow> True
        | Some sr \<Rightarrow> alloc_fits c (rq_mem_req sr) (k_alloc k, k_mem k) \<and>
            (case schedule_req dl0 (rq_pc sr) (rq_prog_size sr) (rq_mem_req sr) (k\<lparr>k_ring := ring\<rparr>) of
               Inl _ \<Rightarrow> True | Inr k' \<Rightarrow> ipc_fits c dl0 budget k'))"

lemma accounted_ring [simp]: "accounted base c (k\<lparr>k_ring := r\<rparr>) = accounted base c k"
  by (simp add: accounted_def)

lemma ipc_loop_accounts:
  "kernel_inv k \<Longrightarrow> accounted base c k \<Longrightarrow> ipc_fits c dl0 n k \<Longrightarrow> ipc_loop dl0 n k = Inr k' \<Longrightarrow> accounted base c k'"
proof (induction n arbitrary: k)
  case (Suc n)
  obtain rc sr ring where pop: "mpsc_pop (k_ring k) = ((rc, sr), ring)" by (metis surj_pair)
  show ?case
  proof (cases sr)
    case None
    then show ?thesis using Suc.prems pop by simp
  next
    case (Some q)
    let ?k = "k\<lparr>k_ring := ring\<rparr>"
    obtain k1 where k1: "schedule_req dl0 (rq_pc q) (rq_prog_size q) (rq_mem_req q) ?k = Inr k1" "ipc_loop dl0 n k1 = Inr k'"
      using Suc.prems(4) pop Some by auto
    have f: "alloc_fits c (rq_mem_req q) (k_alloc ?k, k_mem ?k)" "ipc_fits c dl0 n k1" using Suc.prems(3) pop Some k1(1) by auto
    have inv: "kernel_inv ?k" "accounted base c ?k" using Suc.prems(1,2) by (simp_all add: kernel_inv_ring)
    show ?thesis
      using Suc.IH [OF _ _ f(2) k1(2)] schedule_req_keeps [OF inv(1) k1(1)] schedule_req_accounts [OF inv f(1) k1(1)] by blast
  qed
qed simp

section \<open>The running kernel and its heap\<close>

text \<open>
  The steps of \<open>kstep\<close> in which requests for memory fit and a process writes only into its own memory, within the
  heap: it may write anywhere outside it, and the kernel's own process, which idles, writes nothing.
\<close>

definition syscall_fits :: "nat \<Rightarrow> kernel \<Rightarrow> bool" where
  "syscall_fits c k \<longleftrightarrow>
     (case s_curr (k_sched k) of None \<Rightarrow> True
      | Some cp \<Rightarrow>
          (let x = cx_x (p_ctx (deref (k_sched k) cp)) in
           x 8 = syscall_nr SYSCALL_SPAWN \<longrightarrow> alloc_fits c (x 3) (k_alloc k, k_mem k)))"

inductive hstep :: "nat \<Rightarrow> nat \<Rightarrow> kernel \<Rightarrow> kernel \<Rightarrow> bool" for base c where
  syscall: "take_syscall dl0 k = Inr k' \<Longrightarrow> syscall_fits c k \<Longrightarrow> hstep base c k k'"
| timer: "timer_fn dl0 k = Inr k' \<Longrightarrow> hstep base c k k'"
| ipc: "ipc_sched dl0 k = Inr k' \<Longrightarrow> ipc_fits c dl0 3 k \<Longrightarrow> hstep base c k k'"
| user: "s_curr (k_sched k) = Some (PB i) \<Longrightarrow> cx_mmap x = cx_mmap (p_ctx (s_pb (k_sched k) i)) \<Longrightarrow>
    writes_own base (k_alloc k, k_mem k) (holding_of (s_pb (k_sched k) i)) m \<Longrightarrow>
    hstep base c k (k\<lparr>k_sched := upd (PB i) (\<lambda>q. q\<lparr>p_ctx := x\<rparr>) (k_sched k), k_mem := m\<rparr>)"
| idle: "s_curr (k_sched k) = Some P0 \<Longrightarrow> cx_mmap x = cx_mmap (p_ctx (s_p0 (k_sched k))) \<Longrightarrow>
    hstep base c k (k\<lparr>k_sched := upd P0 (\<lambda>q. q\<lparr>p_ctx := x\<rparr>) (k_sched k), k_mem := k_mem k\<rparr>)"
| linux: "hstep base c k (k\<lparr>k_ring := r\<rparr>)"

lemma hstep_kstep: "hstep base c k k' \<Longrightarrow> kstep k k'"
  by (induction rule: hstep.induct) (blast intro: kstep.intros)+

lemma syscall_accounts:
  assumes "kernel_inv k" "accounted base c k" "take_syscall dl0 k = Inr k'" "syscall_fits c k"
  shows "accounted base c k'"
proof -
  obtain cp where cp: "s_curr (k_sched k) = Some cp" using assms(3) by (auto simp: take_syscall_def split: option.splits)
  let ?x = "cx_x (p_ctx (deref (k_sched k) cp))"
  have inv: "sched_inv (k_sched k)" using assms(1) by (simp add: kernel_inv_def)
  have "(if ?x 8 = syscall_nr SYSCALL_WAIT_UNTIL then wait_until dl0 (?x 0) k
         else if ?x 8 = syscall_nr SYSCALL_EXIT then exit k
         else if ?x 8 = syscall_nr SYSCALL_SPAWN then spawn dl0 (?x 0) (?x 1) (?x 2) (?x 3) k else Inr k) = Inr k'"
    and fit: "?x 8 = syscall_nr SYSCALL_SPAWN \<Longrightarrow> alloc_fits c (?x 3) (k_alloc k, k_mem k)"
    using assms(3,4) unfolding take_syscall_def syscall_fits_def cp option.case Let_def by blast+
  then consider "wait_until dl0 (?x 0) k = Inr k'" | "exit k = Inr k'"
    | "spawn dl0 (?x 0) (?x 1) (?x 2) (?x 3) k = Inr k'" "?x 8 = syscall_nr SYSCALL_SPAWN" | "k' = k"
    by (metis sum.inject(2))
  then show ?thesis
  proof cases
    case 1
    then show ?thesis using wait_until_accounts same_accounts_accounted assms(2) by blast
  next
    case 2
    from inv show ?thesis
    proof (cases rule: sched_inv_curr)
      case kernel
      then show ?thesis using exit_kernel [OF assms(1)] 2 by simp
    next
      case (slot i)
      then show ?thesis using exit_accounts [OF assms(1) slot(1) assms(2)] 2 by simp
    qed
  next
    case 3
    then show ?thesis using spawn_accounts [OF assms(1,2) fit] by blast
  qed (use assms(2) in simp)
qed

lemma hstep_accounts: "hstep base c k k' \<Longrightarrow> kernel_inv k \<Longrightarrow> accounted base c k \<Longrightarrow> accounted base c k'"
proof (induction rule: hstep.induct)
  case (syscall dl0 k k')
  then show ?case using syscall_accounts by blast
next
  case (timer dl0 k k')
  then show ?case using timer_fn_accounts same_accounts_accounted by blast
next
  case (ipc dl0 k k')
  then show ?case using ipc_loop_accounts unfolding ipc_sched_def by blast
next
  case (user k i x m)
  let ?sc = "upd (PB i) (\<lambda>q. q\<lparr>p_ctx := x\<rparr>) (k_sched k)"
  have ok: "sched_ok {#} (k_sched k)" using user.prems(1) by (simp add: kernel_inv_def sched_inv_def)
  have "i \<in> live (k_sched k)" using curr_slot [OF ok user.hyps(1)] by (simp add: live_def)
  then have "accounted base c (k\<lparr>k_mem := m\<rparr>)"
    using accounts_write [of "k_kend k" base c "k_alloc k" "k_mem k" _ _ "\<lambda>i. holding_of (s_pb (k_sched k) i)" i m] user.hyps(3) user.prems(2)
    by (simp add: accounted_def)
  moreover have "books ?sc = books (k_sched k)" using user.hyps(2) by (auto simp: books_def holding_of_def)
  then have "same_accounts (k\<lparr>k_mem := m\<rparr>) (k\<lparr>k_sched := ?sc, k_mem := m\<rparr>)" by (simp add: same_accounts_def)
  ultimately show ?case using same_accounts_accounted by blast
next
  case (idle k x)
  let ?sc = "upd P0 (\<lambda>q. q\<lparr>p_ctx := x\<rparr>) (k_sched k)"
  have "books ?sc = books (k_sched k)" using idle.hyps(2) by (auto simp: books_def holding_of_def)
  then have "same_accounts k (k\<lparr>k_sched := ?sc, k_mem := k_mem k\<rparr>)" by (simp add: same_accounts_def)
  then show ?case using same_accounts_accounted idle.prems(2) by blast
qed simp

lemma hreach_accounts:
  "(hstep base c)\<^sup>*\<^sup>* k0 k \<Longrightarrow> kernel_inv k0 \<Longrightarrow> accounted base c k0 \<Longrightarrow> kernel_inv k \<and> accounted base c k"
  by (induction rule: rtranclp_induct) (use hstep_accounts hstep_kstep kstep_inv in blast)+

text \<open>What the accounts say of the maps, and of any two blocks.\<close>

lemma accounted_descs:
  assumes "accounted base c k"
  shows "descs (k_mem k) (cx_mmap (p_ctx (s_p0 (k_sched k)))) = kern_desc"
    "i \<in> live (k_sched k) \<Longrightarrow>
       descs (k_mem k) (cx_mmap (p_ctx (s_pb (k_sched k) i))) =
         proc_desc (k_kend k) (p_pa_pc (s_pb (k_sched k) i)) (p_prog_size (s_pb (k_sched k) i))"
  using assms by (auto simp: accounted_def accounts_def holder_ok_def holding_of_def)


lemma accounted_apart:
  assumes "accounted base c k" "i \<in> live (k_sched k)"
  defines "m \<equiv> k_mem k" and "q \<equiv> s_pb (k_sched k)"
  shows "j \<in> live (k_sched k) \<Longrightarrow> i \<noteq> j \<Longrightarrow>
      apart_regions (unat (p_mem (q i)), unat (p_mem_size (q i))) (unat (p_mem (q j)), unat (p_mem_size (q j)))"
    and "p \<in> set (tables m (cx_mmap (p_ctx (s_p0 (k_sched k))))) \<union> (\<Union>j \<in> live (k_sched k). set (tables m (cx_mmap (p_ctx (q j))))) \<Longrightarrow>
      apart_regions (unat (p_mem (q i)), unat (p_mem_size (q i))) (unat p, 4096)"
proof -
  let ?h = "\<lambda>i. holding_of (q i)" and ?L = "live (k_sched k)" and ?K = "set (tables m (cx_mmap (p_ctx (s_p0 (k_sched k)))))"
  let ?P = "?K \<union> (\<Union>j \<in> ?L. hold_tables m (?h j))"
  obtain len where A: "page_heap base c ((\<lambda>i. (unat (h_mem (?h i)), len i)) ` ?L) m (k_alloc k, m) ?P"
    "\<And>i. i \<in> ?L \<Longrightarrow> unat (h_size (?h i)) \<le> len i" "inj_on (\<lambda>i. h_mem (?h i)) ?L"
    using assms(1) unfolding accounted_def accounts_def holder_ok_def snd_conv m_def q_def by blast
  obtain bs plen where inv: "alloc_inv base bs (k_alloc k) m"
    and sh: "heap_shape base c ((\<lambda>i. (unat (h_mem (?h i)), len i)) ` ?L) plen ?P bs"
    using A(1) unfolding page_heap_shape by blast
  let ?f = "\<lambda>i. (unat (h_mem (?h i)), len i)"
  have U: "used_regions base bs = ?f ` ?L \<union> (\<lambda>p. (unat p, plen p)) ` ?P"
    and pp: "\<And>p. p \<in> ?P \<Longrightarrow> 4096 \<le> plen p \<and> unat p \<notin> fst ` ?f ` ?L"
    using sh unfolding heap_shape_def by blast+
  note ap = used_regions_apart [OF alloc_invD(8) [OF inv]]
  have i: "?f i \<in> used_regions base bs" using U assms(2) by blast
  have shrink: "apart_regions (a, b) (x, y)" if "apart_regions (a, b') (x, y')" "b \<le> b'" "y \<le> y'" for a b b' x y y'
    using that by (auto simp: apart_regions_def)
  show "apart_regions (unat (p_mem (q i)), unat (p_mem_size (q i))) (unat (p_mem (q j)), unat (p_mem_size (q j)))"
    if "j \<in> ?L" "i \<noteq> j"
  proof -
    have "?f j \<in> used_regions base bs" "?f i \<noteq> ?f j" using U that A(3) assms(2) by (auto simp: inj_on_def word_unat_eq_iff)
    from ap [OF i this] have "apart_regions (unat (p_mem (q i)), len i) (unat (p_mem (q j)), len j)" by (simp add: holding_of_def)
    then show ?thesis by (rule shrink)
      (use A(2) [OF assms(2)] A(2) [OF that(1)] in \<open>simp_all add: holding_of_def\<close>)
  qed
  show "apart_regions (unat (p_mem (q i)), unat (p_mem_size (q i))) (unat p, 4096)"
    if "p \<in> ?K \<union> (\<Union>j \<in> ?L. set (tables m (cx_mmap (p_ctx (q j)))))"
  proof -
    have p: "p \<in> ?P" using that by (simp add: hold_tables_def holding_of_def)
    have "(unat p, plen p) \<in> used_regions base bs" unfolding U using p by blast
    moreover have "?f i \<noteq> (unat p, plen p)" 
    proof
      assume "?f i = (unat p, plen p)"
      then have "unat p = fst (?f i)" by simp
      then show False using pp [OF p] assms(2) by blast
    qed
    ultimately have "apart_regions (?f i) (unat p, plen p)" by (rule ap [OF i])
    then have "apart_regions (unat (p_mem (q i)), len i) (unat p, plen p)" by (simp add: holding_of_def)
    then show ?thesis by (rule shrink) (use A(2) [OF assms(2)] pp [OF p] in \<open>simp_all add: holding_of_def\<close>)
  qed
qed

end
