(* ===== verification/Kernel_Admit.thy ===== *)
theory Kernel_Admit
  imports Kernel_Heap
begin

text \<open>
  Start-up and the admission of processes, as far as memory goes. As long as no process has exited, the free memory of the
  kernel's heap is one block at its top, and pieces in front of pages that are too small for anything a process
  needs. On such a heap it can be said which requests are served: start-up returns, and so does a request for a
  process as long as the top block has the bytes for its memory and its tables.
\<close>

section \<open>A heap with its free memory at the top\<close>

text \<open>
  The last block is free and has at least \<open>b\<close> bytes, every other free block is too small for a page, and the pages \<open>P\<close> are
  in use. Once a page has been taken (\<open>al\<close>), the last block starts at a page boundary.
\<close>

definition topped :: "nat \<Rightarrow> nat \<Rightarrow> bool \<Rightarrow> pst \<Rightarrow> u64 set \<Rightarrow> bool" where
  "topped base b al st P \<longleftrightarrow> (\<exists>xs N. alloc_inv base (xs @ [(N, False)]) (fst st) (snd st) \<and>
     slivers_ok base (xs @ [(N, False)]) \<and> (\<forall>j. (j, False) \<in> set xs \<longrightarrow> j < 4108) \<and> b \<le> N \<and>
     (al \<longrightarrow> xs \<noteq> [] \<and> (base + total xs) mod 4096 = 0) \<and>
     (\<forall>p \<in> P. aligned p \<and> (\<exists>l \<ge> 4096. (unat p, l) \<in> used_regions base (xs @ [(N, False)]))))"

lemma toppedI:
  assumes "alloc_inv base (xs @ [(N, False)]) a m" "slivers_ok base (xs @ [(N, False)])" "\<forall>j. (j, False) \<in> set xs \<longrightarrow> j < 4108"
    "b \<le> N" "al \<longrightarrow> xs \<noteq> [] \<and> (base + total xs) mod 4096 = 0"
    "\<forall>p \<in> P. aligned p \<and> (\<exists>l \<ge> 4096. (unat p, l) \<in> used_regions base (xs @ [(N, False)]))"
  shows "topped base b al (a, m) P"
  unfolding topped_def fst_conv snd_conv by (intro exI [of _ xs] exI [of _ N] conjI assms)

lemma top_block:
  fixes xs :: blocks and b :: nat
  assumes "xs @ [(N, False)] = us @ (n, False) # vs" "\<forall>j. (j, False) \<in> set xs \<longrightarrow> j < b" "b \<le> n"
  shows "us = xs" "n = N" "vs = []"
proof -
  have "vs = []"
  proof (rule ccontr)
    assume "vs \<noteq> []"
    then have "xs = us @ (n, False) # butlast vs" using arg_cong [OF assms(1), of butlast] by (simp add: butlast_append)
    then have "n < b" using assms(2) by simp
    then show False using assms(3) by simp
  qed
  then show "us = xs" "n = N" "vs = []" using assms(1) by simp_all
qed

lemma topped_new:
  assumes "topped base (8204 * (Suc n + 1)) al (a, m) P"
  shows "\<exists>p st'. pt_alloc_page_or_die (a, m) = Inr (p, st') \<and> topped base (8204 * (n + 1)) True st' (insert p P)"
proof -
  obtain xs N where inv: "alloc_inv base (xs @ [(N, False)]) a m" and sl: "slivers_ok base (xs @ [(N, False)])"
    and sm: "\<forall>j. (j, False) \<in> set xs \<longrightarrow> j < 4108" and N: "8204 * (Suc n + 1) \<le> N"
    and P: "\<And>p. p \<in> P \<Longrightarrow> aligned p \<and> (\<exists>l \<ge> 4096. (unat p, l) \<in> used_regions base (xs @ [(N, False)]))"
    using assms unfolding topped_def fst_conv snd_conv by blast
  let ?A = "base + total xs" and ?g = "gap 12 (base + total xs)"
  have g: "?g < 4096" by (rule gap_page)
  show ?thesis
  proof (rule page_alloc [OF inv sl])
    assume "\<And>us n vs. xs @ [(N, False)] = us @ (n, False) # vs \<Longrightarrow> n < gap 12 (base + total us) + 4108"
    from this [OF HOL.refl] have False using N g by simp
    then show ?thesis ..
  next
    fix us k vs p l a' m'
    let ?bs' = "us @ carved (gap 12 (base + total us)) 4108 k @ vs"
    assume A: "pt_alloc_page_or_die (a, m) = Inr (p, a', m')" "xs @ [(N, False)] = us @ (k, False) # vs"
      "gap 12 (base + total us) + 4108 \<le> k" "aligned p" "4096 \<le> l" "alloc_inv base ?bs' a' m'" "slivers_ok base ?bs'"
      "used_regions base ?bs' = insert (unat p, l) (used_regions base (xs @ [(N, False)]))"
    have "4108 \<le> k" using A(3) by simp
    note t = top_block [OF A(2) sm this]
    let ?xs = "xs @ (if ?g = 0 then [] else [(?g, False)]) @ [(4108, True)]" and ?N = "N - ?g - 4108"
    have bs': "?bs' = ?xs @ [(?N, False)]" using N g unfolding t carved_def by simp
    have "(?A + ?g + 12) mod 4096 = 0" using gap_aligned [of ?A 12] by simp
    then have "(?A + ?g + 12 + 4096) mod 4096 = 0" by (simp only: mod_add_self2)
    moreover have "base + total ?xs = ?A + ?g + 12 + 4096" by simp
    ultimately have al: "?xs \<noteq> []" "(base + total ?xs) mod 4096 = 0" by (simp, metis)
    have sm': "\<forall>j. (j, False) \<in> set ?xs \<longrightarrow> j < 4108" using sm g by auto
    have pages: "\<forall>q \<in> insert p P. aligned q \<and> (\<exists>l \<ge> 4096. (unat q, l) \<in> used_regions base (?xs @ [(?N, False)]))"
      using P A(4,5,8) unfolding bs' by blast
    have room: "8204 * (n + 1) \<le> ?N" using N g by simp
    have "topped base (8204 * (n + 1)) True (a', m') (insert p P)"
      by (rule toppedI [OF A(6,7) [unfolded bs'] sm' room _ pages]) (use al in blast)
    then show ?thesis using A(1) by blast
  qed
qed

lemma topped_write:
  assumes "topped base b al (a, m) P" "t \<in> P" "i < 512"
  shows "topped base b al (a, set_pte t i d m) P"
  using assms(1) unfolding topped_def fst_conv snd_conv
  by (elim exE conjE, intro exI conjI) (rule pte_write_inv, assumption, use assms(2,3) in auto)

lemma topped_weaken: "topped base b al st P \<Longrightarrow> b' \<le> b \<Longrightarrow> (al' \<Longrightarrow> al) \<Longrightarrow> P' \<subseteq> P \<Longrightarrow> topped base b' al' st P'"
  unfolding topped_def by (elim exE, intro exI) auto

interpretation ktop: page_bank "page_owned base" "\<lambda>n st P. topped base (8204 * (n + 1)) (P \<noteq> {}) st P" for base
proof
  fix n st P k a m t i d
  show "page_owned base st P" if "topped base (8204 * (n + 1)) (P \<noteq> {}) st P" using that unfolding topped_def page_owned_def by blast
  show "topped base (8204 * (k + 1)) (P \<noteq> {}) st P" if s: "topped base (8204 * (n + 1)) (P \<noteq> {}) st P" "k \<le> n"
    by (rule topped_weaken [OF s(1)]) (use s(2) in auto)
  show "\<exists>p st'. pt_alloc_page_or_die st = Inr (p, st') \<and> topped base (8204 * (n + 1)) (insert p P \<noteq> {}) st' (insert p P)"
    if "topped base (8204 * (Suc n + 1)) (P \<noteq> {}) st P"
    using topped_new [of base n "P \<noteq> {}" "fst st" "snd st" P] that by simp
  show "topped base (8204 * (n + 1)) (P \<noteq> {}) (a, set_pte t i d m) P"
    if "topped base (8204 * (n + 1)) (P \<noteq> {}) (a, m) P" "t \<in> P" "i < 512"
    using that by (rule topped_write)
qed

section \<open>Memory for a process\<close>

lemma tidy_end_shift: "A mod 4096 = 0 \<Longrightarrow> tidy_end (A + e) = tidy_end e"
proof -
  assume "A mod 4096 = 0"
  then obtain q where A: "A = 4096 * q" by (auto simp: mod_eq_0_iff_dvd)
  have "(A + e + 12) mod 4096 = (e + 12) mod 4096" unfolding A by (simp add: add.assoc)
  then show ?thesis by (simp add: tidy_end_def gap_def misfit_def)
qed

lemma topped_alloc:
  assumes "topped base (b + unat n + 12) True (a, m) {}" "4096 \<le> unat n" "unat n + 12 < 2 ^ 32" "tidy_end (unat n + 12)" "40 \<le> b"
  obtains p a' m' where "alloc a n m = Inr (p, a', m')" "alloc_fits base n (a, m)" "topped base b False (a', m') {}"
proof -
  obtain xs N where inv: "alloc_inv base (xs @ [(N, False)]) a m" and sl: "slivers_ok base (xs @ [(N, False)])"
    and sm: "\<forall>j. (j, False) \<in> set xs \<longrightarrow> j < 4108" and N: "b + unat n + 12 \<le> N" and al: "xs \<noteq> []" "(base + total xs) mod 4096 = 0"
    using assms(1) unfolding topped_def by auto
  note I = alloc_invD [OF inv]
  let ?A = "base + total xs" and ?p = "of_nat (base + total xs + 12) :: u64" and ?N = "N - (unat n + 12)"
  let ?xs = "xs @ [(unat n + 12, True)]"
  have n: "8 \<le> unat n" using assms(2) by simp
  have "\<exists>a' m'. alloc a n m = Inr (?p, a', m') \<and> alloc_inv base (?xs @ [(?N, False)]) a' m'"
  proof (cases rule: disjE [OF alloc_best [OF inv n assms(3)]])
    case 1
    then obtain us k vs a' m' where r: "xs @ [(N, False)] = us @ (k, False) # vs" "unat n + 12 \<le> k"
      "alloc a n m = Inr (of_nat (base + total us + 12), a', m')"
      "alloc_inv base (if unat n + 52 \<le> k then us @ (unat n + 12, True) # (k - (unat n + 12), False) # vs
        else us @ (k, True) # vs) a' m'"
      by auto
    have "4108 \<le> k" using r(2) assms(2) by simp
    note t = top_block [OF r(1) sm this]
    have "unat n + 52 \<le> N" using N assms(5) by simp
    then show ?thesis using r(3,4) unfolding t by simp
  next
    case 2
    then have "N < unat n + 12" by auto
    then show ?thesis using N by simp
  qed
  then obtain a' m' where r: "alloc a n m = Inr (?p, a', m')" "alloc_inv base (?xs @ [(?N, False)]) a' m'" by blast
  have p: "unat ?p = ?A + 12" by (rule unat_of_nat_u64) (use I(5) N in simp)
  have "0 < total xs" using al(1) I(8) by (cases xs) auto
  moreover have td: "tidy_end (?A + (unat n + 12))" using tidy_end_shift [OF al(2)] assms(4) by simp
  ultimately have fit: "alloc_fits base n (a, m)" using r(1) p n assms(3) by (simp add: alloc_fits_def add_ac)
  have "slivers_ok base (?xs @ [(?N, False)])"
    using sl td unfolding slivers_ok_def tidy_end_def by (auto simp: add_ac)
  moreover have "\<forall>j. (j, False) \<in> set ?xs \<longrightarrow> j < 4108" using sm by auto
  ultimately have "topped base b False (a', m') {}" by (intro toppedI [OF r(2)]) (use N in simp_all)
  then show thesis using that r(1) fit by blast
qed

lemma tabs_not_Nil: "tabs k m t \<noteq> []"
  using top_in_tabs [of t k m] by (metis empty_iff empty_set)

lemma topped_proc_map:
  assumes "topped base (8204 * (proc_cost kend pc sz + r + 1)) False st {}" "unat kend \<le> 2 ^ 48"
  obtains mp st' where "proc_map_create kend pc sz as st = Inr (mp, st')" "topped base (8204 * (r + 1)) True st' {}"
proof -
  have "topped base (8204 * (proc_cost kend pc sz + r + 1)) ({} \<noteq> ({} :: u64 set)) st {}" using assms(1) by simp
  from ktop.proc_map_supplied [OF this assms(2), of as] obtain mp st' where
    s: "proc_map_create kend pc sz as st = Inr (mp, st')" "ktop.supplied base r {} (root mp) st'"
    unfolding gives_def by auto
  then have "topped base (8204 * (r + 1)) (set (tabs 3 (snd st') (l0 (root mp))) \<noteq> {}) st' (set (tabs 3 (snd st') (l0 (root mp))))"
    unfolding ktop.supplied_def by simp
  then have "topped base (8204 * (r + 1)) True st' {}"
    by (rule topped_weaken) (simp_all add: tabs_not_Nil)
  then show thesis using that s(1) by blast
qed

section \<open>Start-up\<close>

lemma kernel_heap_topped: "topped 0x51021040 (8204 * (2027 + 1)) False (kernel_heap m) {}"
proof -
  have "alloc_inv 0x51021040 ([] @ [(0xFDEFBF, False)]) (fst (kernel_heap m)) (snd (kernel_heap m))" using kernel_heap_inv by simp
  moreover have "slivers_ok 0x51021040 ([] @ [(0xFDEFBF, False)])" by (simp add: slivers_ok_def gap_def misfit_def)
  ultimately show ?thesis unfolding topped_def by (intro exI [of _ "[]"] exI [of _ "0xFDEFBF"]) simp
qed

lemma kern_map_topped:
  obtains mp st' where "kern_map_create as (kernel_heap m) = Inr (mp, st')" "topped 0x51021040 (8204 * 1961) True st' {}"
    "page_heap 0x51021040 0x51021040 {} (snd st') st' (set (tables (snd st') mp))" "descs (snd st') mp = kern_desc"
proof -
  have "topped 0x51021040 (8204 * (kern_cost + 1960 + 1)) ({} \<noteq> ({} :: u64 set)) (kernel_heap m) {}"
    using kernel_heap_topped by (simp add: kern_cost_eq)
  from ktop.kern_map_supplied [OF this, of as] obtain mp st' where
    s: "kern_map_create as (kernel_heap m) = Inr (mp, st')" "ktop.supplied 0x51021040 1960 {} (root mp) st'"
    unfolding gives_def by auto
  then have "topped 0x51021040 (8204 * 1961) (set (tabs 3 (snd st') (l0 (root mp))) \<noteq> {}) st' (set (tabs 3 (snd st') (l0 (root mp))))"
    unfolding ktop.supplied_def by simp
  then have t: "topped 0x51021040 (8204 * 1961) True st' {}"
    by (rule topped_weaken) (simp_all add: tabs_not_Nil)
  have "kpool.built 0x51021040 0x51021040 {} (snd st') (root mp) {} (kernel_heap m) kern_desc st'"
    using kpool.kern_map_ok [OF kernel_page_heap, of "snd st'" m as] s(1) by (simp add: outcome_def)
  then show thesis using that s(1) t unfolding kpool.built_def kpool.tree_def tables_def descs_def desc_of_def by simp
qed

lemma all_free_live:
  assumes "sched_inv sc" "s_nfree sc = MAX_PROC"
  shows "live sc = {}"
proof -
  have "free_bag sc + (ready_bag sc + waiting_bag sc + curr_bag sc) = all_slots"
    using assms(1) sched_okD(5) [of "{#}" sc] by (simp add: sched_inv_def add.assoc)
  moreover have "size (free_bag sc) = size all_slots" using assms(2) by (simp add: free_bag_def all_slots_def)
  ultimately have "free_bag sc = all_slots" by (metis add_cancel_left_right size_eq_0_iff_empty size_union)
  then show ?thesis by (auto simp: live_def all_slots_iff)
qed

lemma jrt_main_ready:
  assumes "READY_MAX \<le> length (ha (s_ready (k_sched k)))" "READY_MAX \<le> length (ha (s_waiting (k_sched k)))"
    "unat (k_kend k) \<le> 2 ^ 48"
  obtains k' where "jrt_main k = Inr k'" "kernel_inv k'" "s_nfree (k_sched k') = MAX_PROC" "live (k_sched k') = {}"
    "s_curr (k_sched k') = Some P0" "heap_bag (s_ready (k_sched k')) = {#}" "heap_bag (s_waiting (k_sched k')) = {#}"
    "k_kend k' = k_kend k" "accounted 0x51021040 0x51021040 k'" "topped 0x51021040 (8204 * 1961) True (k_alloc k', k_mem k') {}"
proof -
  obtain mp a m where c: "kern_map_create 0 (kernel_heap (k_mem k)) = Inr (mp, a, m)"
    "topped 0x51021040 (8204 * 1961) True (a, m) {}" "page_heap 0x51021040 0x51021040 {} m (a, m) (set (tables m mp))"
    "descs m mp = kern_desc"
    by (rule kern_map_topped [of 0 "k_mem k"]) (metis snd_conv surj_pair)
  have "\<exists>k'. jrt_main k = Inr k' \<and> k_alloc k' = a \<and> k_mem k' = m \<and> cx_mmap (p_ctx (s_p0 (k_sched k'))) = mp \<and>
      s_curr (k_sched k') = Some P0 \<and> k_kend k' = k_kend k \<and> heap_bag (s_ready (k_sched k')) = {#} \<and>
      heap_bag (s_waiting (k_sched k')) = {#}"
    using c(1) by (auto simp: jrt_main_def sched_init_def Let_def kernel_heap_def split: prod.splits)
  then obtain k' where k': "jrt_main k = Inr k'" "k_alloc k' = a" "k_mem k' = m" "cx_mmap (p_ctx (s_p0 (k_sched k'))) = mp"
    "s_curr (k_sched k') = Some P0" "k_kend k' = k_kend k" "heap_bag (s_ready (k_sched k')) = {#}"
    "heap_bag (s_waiting (k_sched k')) = {#}" by blast
  have inv: "kernel_inv k'" "s_nfree (k_sched k') = MAX_PROC" using jrt_main_inv [OF assms(1,2) k'(1)] by simp_all
  have "live (k_sched k') = {}" using all_free_live inv by (auto simp: kernel_inv_def)
  moreover from this have "accounted 0x51021040 0x51021040 k'" using c(3,4) k' assms(3) by (simp add: accounted_def accounts_def)
  ultimately show thesis using that k' inv c(2) by simp
qed

section \<open>A request is admitted\<close>

lemma new_proc_topped:
  assumes ok: "sched_ok {#} (k_sched k)" and free: "0 < s_nfree (k_sched k)" and kend: "unat (k_kend k) \<le> 2 ^ 48"
    and top: "topped base (8204 * (proc_cost (k_kend k) pc csz + r + 1)) False (k_alloc k, k_mem k) {}"
  shows "\<exists>pid k'. sched_new_proc pc csz mem n dl ex k = Inr (pid, k') \<and> topped base (8204 * (r + 1)) True (k_alloc k', k_mem k') {}"
proof -
  obtain i where i: "sched_alloc_proc (k_sched k) = (Some (PB i), (k_sched k)\<lparr>s_nfree := s_nfree (k_sched k) - 1\<rparr>)"
    by (rule sched_alloc_proc_ok [OF ok free])
  obtain mp a m where mp: "proc_map_create (k_kend k) pc csz (k_asid k) (k_alloc k, k_mem k) = Inr (mp, a, m)"
      "topped base (8204 * (r + 1)) True (a, m) {}"
    by (rule topped_proc_map [OF top kend, where as = "k_asid k"]) (metis surj_pair)
  then show ?thesis using i by (simp add: sched_new_proc_def Let_def)
qed

lemma enter_new_proc:
  assumes ok: "sched_ok {#} (k_sched k)" and edf: "edf (k_sched k)" and nf: "\<not> heap_full (s_ready (k_sched k))"
    and new: "sched_new_proc pc csz mem n dl ex k = Inr (pid, k1)"
  shows "\<exists>sc. enter_proc dl0 pid (k_sched k1) = Inr sc"
proof -
  obtain i where i: "sched_ok (add_mset (Some (PB i)) {#}) (k_sched k1)" "pid = p_pid (s_pb (k_sched k1) i)"
    "p_state (s_pb (k_sched k1) i) = PROC_READY" "s_curr (k_sched k1) = s_curr (k_sched k)" "s_ready (k_sched k1) = s_ready (k_sched k)"
    "\<And>j. s_curr (k_sched k) = Some (PB j) \<Longrightarrow> s_pb (k_sched k1) j = s_pb (k_sched k) j"
    by (rule sched_new_proc_ok [OF ok new]) blast
  have "curr_running (k_sched k1)" using edf_curr_running [OF edf] i(4,6) by (simp add: curr_running_def)
  then obtain sc where "enter_proc dl0 (p_pid (s_pb (k_sched k1) i)) (k_sched k1) = Inr sc"
    using enter_proc_ok [OF i(1), of dl0] nf i(3,5) by auto
  then show ?thesis using i(2) by blast
qed

lemma schedule_req_admitted:
  assumes inv: "kernel_inv k" and nf: "\<not> heap_full (s_ready (k_sched k))" and free: "0 < s_nfree (k_sched k)"
    and kend: "unat (k_kend k) \<le> 2 ^ 48"
    and size: "4096 \<le> unat n" "unat n + 12 < 2 ^ 32" "tidy_end (unat n + 12)"
    and top: "topped base (8204 * (proc_cost (k_kend k) pc sz + r + 1) + unat n + 12) True (k_alloc k, k_mem k) {}"
  obtains k' i where "schedule_req dl0 pc sz n k = Inr k'" "alloc_fits base n (k_alloc k, k_mem k)"
    "topped base (8204 * (r + 1)) True (k_alloc k', k_mem k') {}" "i \<notin> live (k_sched k)" "live (k_sched k') = insert i (live (k_sched k))"
    "k_kend k' = k_kend k" "p_mem_size (s_pb (k_sched k') i) = n" "p_pa_pc (s_pb (k_sched k') i) = pc" "p_prog_size (s_pb (k_sched k') i) = sz"
proof -
  have ok: "sched_ok {#} (k_sched k)" "edf (k_sched k)" using inv by (simp_all add: kernel_inv_def sched_inv_def)
  have "40 \<le> 8204 * (proc_cost (k_kend k) pc sz + r + 1)" by simp
  from topped_alloc [OF top size this] obtain p a m where
    al: "alloc (k_alloc k) n (k_mem k) = Inr (p, a, m)" "alloc_fits base n (k_alloc k, k_mem k)"
      "topped base (8204 * (proc_cost (k_kend k) pc sz + r + 1)) False (a, m) {}" by blast
  let ?k = "k\<lparr>k_alloc := a, k_mem := m\<rparr>"
  have okk: "sched_ok {#} (k_sched ?k)" using ok by simp
  obtain pid k1 where new: "sched_new_proc pc sz p n 0 (k_exit k) ?k = Inr (pid, k1)"
      "topped base (8204 * (r + 1)) True (k_alloc k1, k_mem k1) {}"
    using new_proc_topped [OF okk, of base pc sz r p n 0 "k_exit k"] free kend al(3) by auto
  obtain sc where sc: "enter_proc dl0 pid (k_sched k1) = Inr sc"
    using enter_new_proc [OF okk _ _ new(1)] ok(2) nf by auto
  have "p \<noteq> 0" using al(1,2) by (auto simp: alloc_fits_def)
  then have r: "schedule_req dl0 pc sz n k = Inr (k1\<lparr>k_sched := sc\<rparr>)" using al(1) new(1) sc by (simp add: schedule_req_def Let_def)
  obtain i mp where i: "i \<notin> live (k_sched ?k)" "live (k_sched k1) = insert i (live (k_sched ?k))" "k_kend k1 = k_kend ?k"
    "(\<lambda>j. holding_of (s_pb (k_sched k1) j)) =
       (\<lambda>j. holding_of (s_pb (k_sched ?k) j))(i := \<lparr>h_mem = p, h_size = n, h_map = mp, h_pc = pc, h_len = sz\<rparr>)"
    by (rule new_proc_result [OF okk new(1)])
  have b: "books sc = books (k_sched k1)" by (rule enter_proc_books [OF sc])
  then have l: "live sc = insert i (live (k_sched k))" using i(2) by (simp add: books_def live_def)
  have "holding_of (s_pb sc i) = \<lparr>h_mem = p, h_size = n, h_map = mp, h_pc = pc, h_len = sz\<rparr>"
    using b fun_cong [OF i(4), of i] by (simp add: books_def fun_eq_iff)
  then have "p_mem_size (s_pb sc i) = n" "p_pa_pc (s_pb sc i) = pc" "p_prog_size (s_pb sc i) = sz" by (simp_all add: holding_of_def)
  then show thesis using that [OF r al(2), of i] new(2) l i(1,3) by simp
qed

section \<open>Properties\<close>

text \<open>
  Start-up always comes back. With node arrays of \<open>READY_MAX\<close> entries in both queues, \<open>jrt_main\<close> reaches its
  idle loop: the kernel's invariant holds, no process is live, the only blocks in use are the tables of the kernel's map,
  and the block at the top of the heap has the room for 1961 pages.
\<close>

theorem jrt_main_returns:
  assumes "READY_MAX \<le> length (ha (s_ready (k_sched k)))" "READY_MAX \<le> length (ha (s_waiting (k_sched k)))"
    "unat (k_kend k) \<le> 2 ^ 48"
  shows "\<exists>k'. jrt_main k = Inr k' \<and> kernel_inv k' \<and> s_curr (k_sched k') = Some P0 \<and> live (k_sched k') = {} \<and>
    accounted 0x51021040 0x51021040 k' \<and> topped 0x51021040 (8204 * 1961) True (k_alloc k', k_mem k') {}"
  by (rule jrt_main_ready [OF assms]) blast

text \<open>The kernel of the examples before start-up.\<close>

definition demo_boot :: kernel where
  "demo_boot = demo_kernel\<lparr>k_sched := demo_idle\<rparr>"

lemma demo_boot_facts:
  "READY_MAX \<le> length (ha (s_ready (k_sched demo_boot)))" "READY_MAX \<le> length (ha (s_waiting (k_sched demo_boot)))"
  "unat (k_kend demo_boot) \<le> 2 ^ 48" "k_kend demo_boot = 0x48010000"
  by (simp_all add: demo_boot_def demo_kernel_def demo_idle_def heap_init_def READY_MAX_def)

theorem jrt_main_returns_witness:
  "\<exists>k'. jrt_main demo_boot = Inr k' \<and> kernel_inv k' \<and> s_curr (k_sched k') = Some P0 \<and> live (k_sched k') = {} \<and>
    accounted 0x51021040 0x51021040 k' \<and> topped 0x51021040 (8204 * 1961) True (k_alloc k', k_mem k') {}"
  using jrt_main_returns [OF demo_boot_facts(1-3)] .

text \<open>
  C11: a request is admitted when there is room. With a slot free, the ready queue not full, and in the block at the
  top of the heap the bytes for the process's memory, for every table its map can need and for \<open>r\<close> more pages, a request for a page of
  memory or more, of a size that ends tidily, returns: one more process is live and holds its memory and its
  tables, and the block at the top has the room for \<open>r\<close> pages left.
\<close>

theorem schedule_req_served:
  assumes "kernel_inv k" "accounted base base k" "\<not> heap_full (s_ready (k_sched k))" "0 < s_nfree (k_sched k)"
    "4096 \<le> unat n" "unat n + 12 < 2 ^ 32" "tidy_end (unat n + 12)"
    "topped base (8204 * (proc_cost (k_kend k) pc sz + r + 1) + unat n + 12) True (k_alloc k, k_mem k) {}"
  shows "\<exists>k' i. schedule_req dl0 pc sz n k = Inr k' \<and> kernel_inv k' \<and> accounted base base k' \<and>
    i \<notin> live (k_sched k) \<and> live (k_sched k') = insert i (live (k_sched k)) \<and>
    topped base (8204 * (r + 1)) True (k_alloc k', k_mem k') {}"
proof -
  have kend: "unat (k_kend k) \<le> 2 ^ 48" using assms(2) by (simp add: accounted_def)
  obtain k' i where r: "schedule_req dl0 pc sz n k = Inr k'" "alloc_fits base n (k_alloc k, k_mem k)"
    "topped base (8204 * (r + 1)) True (k_alloc k', k_mem k') {}" "i \<notin> live (k_sched k)" "live (k_sched k') = insert i (live (k_sched k))"
    by (rule schedule_req_admitted [OF assms(1,3,4) kend assms(5-8)])
  then show ?thesis using schedule_req_keeps [OF assms(1) r(1)] schedule_req_accounts [OF assms(1,2) r(2,1)] by blast
qed

lemma demo_boot_cost: "proc_cost 0x48010000 0x50200000 0x8000 = 31"
  by (simp add: proc_cost_def range_cost_def map_constants UART_PA_BASE_def UART_PA_SIZE_def min_def)

lemma demo_served:
  assumes "jrt_main demo_boot = Inr k"
  shows "\<not> heap_full (s_ready (k_sched k))" "0 < s_nfree (k_sched k)" "heap_bag (s_waiting (k_sched k)) = {#}"
    "kernel_inv k" "live (k_sched k) = {}" "accounted 0x51021040 0x51021040 k" "tidy_end (unat (0x10000 :: u64) + 12)"
    "topped 0x51021040 (8204 * (proc_cost (k_kend k) 0x50200000 0x8000 + 1900 + 1) + unat (0x10000 :: u64) + 12) True (k_alloc k, k_mem k) {}"
    "k_kend k = 0x48010000"
proof -
  obtain k' where "jrt_main demo_boot = Inr k'" and b: "kernel_inv k'" "s_nfree (k_sched k') = MAX_PROC" "live (k_sched k') = {}"
    "s_curr (k_sched k') = Some P0" "heap_bag (s_ready (k_sched k')) = {#}" "heap_bag (s_waiting (k_sched k')) = {#}" "k_kend k' = k_kend demo_boot"
    "accounted 0x51021040 0x51021040 k'" "topped 0x51021040 (8204 * 1961) True (k_alloc k', k_mem k') {}"
    by (rule jrt_main_ready [OF demo_boot_facts(1-3)])
  then have k: "k' = k" using assms by simp
  note b = b [unfolded k]
  show "heap_bag (s_waiting (k_sched k)) = {#}" "kernel_inv k" "live (k_sched k) = {}" "accounted 0x51021040 0x51021040 k" by (fact b)+
  show "k_kend k = 0x48010000" using b(7) demo_boot_facts(4) by simp
  show "0 < s_nfree (k_sched k)" using b(2) by (simp add: MAX_PROC_def)
  have "queues_ok (k_sched k)" using b(1) sched_okD(3) by (auto simp: kernel_inv_def sched_inv_def)
  then show "\<not> heap_full (s_ready (k_sched k))"
    using b(5) queues_okD heap_bag_size by (fastforce simp: heap_full_def READY_MAX_def)
  show "tidy_end (unat (0x10000 :: u64) + 12)" by (simp add: tidy_end_def gap_def misfit_def)
  show "topped 0x51021040 (8204 * (proc_cost (k_kend k) 0x50200000 0x8000 + 1900 + 1) + unat (0x10000 :: u64) + 12) True (k_alloc k, k_mem k) {}"
    by (rule topped_weaken [OF b(9)]) (simp_all add: b(7) demo_boot_facts(4) demo_boot_cost)
qed

theorem schedule_req_served_witness:
  "\<exists>k k' i. jrt_main demo_boot = Inr k \<and> schedule_req 7 0x50200000 0x8000 0x10000 k = Inr k' \<and> kernel_inv k' \<and>
    accounted 0x51021040 0x51021040 k' \<and> live (k_sched k') = {i} \<and> topped 0x51021040 (8204 * 1901) True (k_alloc k', k_mem k') {}"
proof -
  obtain k where k: "jrt_main demo_boot = Inr k" by (rule jrt_main_ready [OF demo_boot_facts(1-3)])
  note d = demo_served [OF k]
  have "4096 \<le> unat (0x10000 :: u64)" "unat (0x10000 :: u64) + 12 < 2 ^ 32" by simp_all
  from schedule_req_served [OF d(4,6,1,2) this d(7,8), of 7] show ?thesis using k d(5) by auto
qed

lemma sole_live_runs:
  assumes "kernel_inv k" "live (k_sched k) = {i}" "heap_bag (s_waiting (k_sched k)) = {#}"
  shows "s_curr (k_sched k) = Some (PB i)"
proof -
  have inv: "sched_inv (k_sched k)" using assms(1) by (simp add: kernel_inv_def)
  then have ok: "sched_ok {#} (k_sched k)" "edf (k_sched k)" by (simp_all add: sched_inv_def)
  from inv show ?thesis
  proof (cases rule: sched_inv_curr)
    case kernel
    then have "heap_bag (s_ready (k_sched k)) = {#}" using ok(2) by (simp add: edf_def)
    then have "free_bag (k_sched k) = all_slots"
      using sched_okD(5) [OF ok(1)] kernel assms(3) by (simp add: ready_bag_def waiting_bag_def curr_bag_def)
    then have "live (k_sched k) = {}" by (auto simp: live_def all_slots_iff)
    then show ?thesis using assms(2) by simp
  next
    case (slot j)
    then have "j \<in> live (k_sched k)" using curr_slot [OF ok(1) slot(1)] by (simp add: live_def)
    then show ?thesis using assms(2) slot(1) by simp
  qed
qed

lemma demo_admitted:
  obtains k k' i where "jrt_main demo_boot = Inr k" "schedule_req 7 0x50200000 0x8000 0x10000 k = Inr k'" "kernel_inv k'"
    "accounted 0x51021040 0x51021040 k'" "live (k_sched k') = {i}" "s_curr (k_sched k') = Some (PB i)" "k_kend k' = 0x48010000"
    "p_mem_size (s_pb (k_sched k') i) = 0x10000" "p_pa_pc (s_pb (k_sched k') i) = 0x50200000" "p_prog_size (s_pb (k_sched k') i) = 0x8000"
proof -
  obtain k where k: "jrt_main demo_boot = Inr k" by (rule jrt_main_ready [OF demo_boot_facts(1-3)])
  note d = demo_served [OF k]
  have s: "4096 \<le> unat (0x10000 :: u64)" "unat (0x10000 :: u64) + 12 < 2 ^ 32" by simp_all
  have kend: "unat (k_kend k) \<le> 2 ^ 48" using d(6) by (simp add: accounted_def)
  obtain k' i where r: "schedule_req 7 0x50200000 0x8000 0x10000 k = Inr k'" "alloc_fits 0x51021040 0x10000 (k_alloc k, k_mem k)"
    "live (k_sched k') = insert i (live (k_sched k))" "k_kend k' = k_kend k" "p_mem_size (s_pb (k_sched k') i) = 0x10000"
    "p_pa_pc (s_pb (k_sched k') i) = 0x50200000" "p_prog_size (s_pb (k_sched k') i) = 0x8000"
    by (rule schedule_req_admitted [OF d(4,1,2) kend s d(7,8)])
  have q: "kernel_inv k'" "heap_bag (s_waiting (k_sched k')) = {#}" using schedule_req_keeps [OF d(4) r(1)] d(3) by auto
  have l: "live (k_sched k') = {i}" "k_kend k' = 0x48010000" using r(3,4) d(5,9) by simp_all
  show thesis
    by (rule that [OF k r(1) q(1) schedule_req_accounts [OF d(4,6) r(2,1)] l(1) sole_live_runs [OF q(1) l(1) q(2)] l(2) r(5-7)])
qed

text \<open>
  C12: a process that exits gives everything back. In a kernel whose heap is accounted for, \<open>exit\<close> of the running
  process returns: the kernel's invariant holds, one more slot is free, exactly the caller is no longer
  live, and the heap is accounted for by the processes that are left, so that its memory and its tables are free again.
\<close>

theorem exit_gives_back:
  assumes "kernel_inv k" "s_curr (k_sched k) = Some (PB i)" "accounted base c k"
  shows "\<exists>k'. exit k = Inr k' \<and> kernel_inv k' \<and> s_nfree (k_sched k') = s_nfree (k_sched k) + 1 \<and>
    live (k_sched k') = live (k_sched k) - {i} \<and> accounted base c k'"
  using exit_accounts [OF assms] exit_keeps [OF assms(1)] by blast

theorem exit_gives_back_witness:
  "\<exists>k k1 i k2. jrt_main demo_boot = Inr k \<and> schedule_req 7 0x50200000 0x8000 0x10000 k = Inr k1 \<and>
    live (k_sched k1) = {i} \<and> exit k1 = Inr k2 \<and> kernel_inv k2 \<and> live (k_sched k2) = {} \<and> accounted 0x51021040 0x51021040 k2"
proof -
  obtain k k1 i where r: "jrt_main demo_boot = Inr k" "schedule_req 7 0x50200000 0x8000 0x10000 k = Inr k1" "kernel_inv k1"
    "accounted 0x51021040 0x51021040 k1" "live (k_sched k1) = {i}" "s_curr (k_sched k1) = Some (PB i)"
    by (rule demo_admitted)
  from exit_gives_back [OF r(3,6,4)] show ?thesis using r(1,2,5) by auto
qed

text \<open>
  C4: nothing of the heap is lost and nothing is held twice. From a state in which the heap is accounted for, in every state
  the kernel can reach with requests that fit and processes that write only to their own memory, the heap is
  accounted for: it is in order and the blocks in use are exactly the memory of the live processes and the tables of their
  maps and the kernel's. No process's memory overlaps another's, or any table of any map.
\<close>

theorem kernel_heap_accounted:
  assumes "kernel_inv k0" "accounted base c k0" "(hstep base c)\<^sup>*\<^sup>* k0 k"
  shows "accounted base c k \<and>
    (\<forall>i j. i \<in> live (k_sched k) \<and> j \<in> live (k_sched k) \<and> i \<noteq> j \<longrightarrow>
       apart_regions (unat (p_mem (s_pb (k_sched k) i)), unat (p_mem_size (s_pb (k_sched k) i)))
         (unat (p_mem (s_pb (k_sched k) j)), unat (p_mem_size (s_pb (k_sched k) j)))) \<and>
    (\<forall>i p. i \<in> live (k_sched k) \<and>
       p \<in> set (tables (k_mem k) (cx_mmap (p_ctx (s_p0 (k_sched k))))) \<union>
         (\<Union>j \<in> live (k_sched k). set (tables (k_mem k) (cx_mmap (p_ctx (s_pb (k_sched k) j))))) \<longrightarrow>
       apart_regions (unat (p_mem (s_pb (k_sched k) i)), unat (p_mem_size (s_pb (k_sched k) i))) (unat p, 4096))"
proof -
  have acc: "accounted base c k" using hreach_accounts [OF assms(3,1,2)] by blast
  show ?thesis using acc accounted_apart [OF acc] by blast
qed

text \<open>
  C5: every address space stays what it was made. In every such state the kernel's map translates each 48-bit address as it
  should, and so does the map of each live process whose image is page aligned and ends below \<open>2 ^ 48\<close>: to its own image and the windows it
  shares with the kernel, and to nothing else, whatever was created, destroyed and written in between.
\<close>

theorem kernel_spaces_kept:
  assumes "kernel_inv k0" "accounted base c k0" "(hstep base c)\<^sup>*\<^sup>* k0 k" "va < 2 ^ 48" "unat (k_kend k) + 4096 \<le> 2 ^ 48"
  shows "translate (cx_mmap (p_ctx (s_p0 (k_sched k)))) (k_alloc k, k_mem k) va = kern_space va \<and>
    (\<forall>i \<in> live (k_sched k). let q = s_pb (k_sched k) i in
       aligned (p_pa_pc q) \<and> unat (p_pa_pc q) + unat (p_prog_size q) + 4096 \<le> 2 ^ 48 \<longrightarrow>
       translate (cx_mmap (p_ctx q)) (k_alloc k, k_mem k) va = proc_space (k_kend k) (p_pa_pc q) (p_prog_size q) va)"
proof -
  have acc: "accounted base c k" using hreach_accounts [OF assms(3,1,2)] by blast
  show ?thesis
    using accounted_descs [OF acc] kern_desc_space [OF assms(4)] proc_desc_space [OF _ _ assms(5,4)]
    by (simp add: translate_def desc_of_def descs_def Let_def)
qed

text \<open>The process writes a byte of its memory, puts the number of \<open>exit\<close> into its register, and makes the call.\<close>

lemma demo_exits:
  obtains k k1 k2 k3 i where "jrt_main demo_boot = Inr k" "schedule_req 7 0x50200000 0x8000 0x10000 k = Inr k1" "kernel_inv k1"
    "accounted 0x51021040 0x51021040 k1" "hstep 0x51021040 0x51021040 k1 k2" "hstep 0x51021040 0x51021040 k2 k3"
    "live (k_sched k2) = {i}" "live (k_sched k3) = {}" "k_kend k2 = 0x48010000" "k_mem k2 (p_mem (s_pb (k_sched k2) i)) = 42"
    "p_pa_pc (s_pb (k_sched k2) i) = 0x50200000" "p_prog_size (s_pb (k_sched k2) i) = 0x8000"
proof -
  let ?B = "0x51021040 :: nat"
  obtain k k1 i where r: "jrt_main demo_boot = Inr k" "schedule_req 7 0x50200000 0x8000 0x10000 k = Inr k1" "kernel_inv k1"
    "accounted ?B ?B k1" "live (k_sched k1) = {i}" "s_curr (k_sched k1) = Some (PB i)" "k_kend k1 = 0x48010000"
    "p_mem_size (s_pb (k_sched k1) i) = 0x10000" "p_pa_pc (s_pb (k_sched k1) i) = 0x50200000" "p_prog_size (s_pb (k_sched k1) i) = 0x8000"
    by (rule demo_admitted)
  let ?q = "s_pb (k_sched k1) i"
  let ?x = "(p_ctx ?q)\<lparr>cx_x := (\<lambda>_. 0)(8 := syscall_nr SYSCALL_EXIT)\<rparr>" and ?m = "(k_mem k1)(p_mem ?q := 42)"
  let ?k2 = "k1\<lparr>k_sched := upd (PB i) (\<lambda>q. q\<lparr>p_ctx := ?x\<rparr>) (k_sched k1), k_mem := ?m\<rparr>"
  have "writes_own ?B (k_alloc k1, k_mem k1) (holding_of ?q) ?m" using r(8) by (auto simp: writes_own_def holding_of_def)
  then have u: "hstep ?B ?B k1 ?k2" by (rule hstep.user [OF r(6), rotated]) simp
  have k2: "kernel_inv ?k2" "accounted ?B ?B ?k2"
    using kstep_inv [OF hstep_kstep [OF u] r(3)] hstep_accounts [OF u r(3,4)] by simp_all
  have c: "s_curr (k_sched ?k2) = Some (PB i)" and l: "live (k_sched ?k2) = {i}" using r(5,6) by (simp_all add: live_def)
  obtain k3 where k3: "exit ?k2 = Inr k3" "live (k_sched k3) = live (k_sched ?k2) - {i}"
    using exit_accounts [OF k2(1) c k2(2)] by blast
  have t: "take_syscall 7 ?k2 = Inr k3" using k3(1) r(6) by (simp add: take_syscall_def Let_def syscall_nr_def)
  have "syscall_fits ?B ?k2" using r(6) by (simp add: syscall_fits_def Let_def syscall_nr_def)
  then have h: "hstep ?B ?B ?k2 k3" by (rule hstep.syscall [OF t])
  have e: "live (k_sched k3) = {}" using k3(2) l by simp
  show thesis by (rule that [OF r(1-4) u h l e]) (use r(7,9,10) in simp_all)
qed

theorem kernel_heap_accounted_witness:
  "\<exists>k k1 k3. jrt_main demo_boot = Inr k \<and> schedule_req 7 0x50200000 0x8000 0x10000 k = Inr k1 \<and>
    (hstep 0x51021040 0x51021040)\<^sup>*\<^sup>* k1 k3 \<and> live (k_sched k3) = {} \<and> accounted 0x51021040 0x51021040 k3"
proof -
  obtain k k1 k2 k3 where d: "jrt_main demo_boot = Inr k" "schedule_req 7 0x50200000 0x8000 0x10000 k = Inr k1" "kernel_inv k1"
    "accounted 0x51021040 0x51021040 k1" "hstep 0x51021040 0x51021040 k1 k2" "hstep 0x51021040 0x51021040 k2 k3"
    "live (k_sched k3) = {}"
    by (rule demo_exits)
  have s: "(hstep 0x51021040 0x51021040)\<^sup>*\<^sup>* k1 k3" using d(5,6) by (meson r_into_rtranclp rtranclp_trans)
  from kernel_heap_accounted [OF d(3,4) s] show ?thesis using d(1,2,7) s by blast
qed

theorem kernel_spaces_kept_witness:
  "\<exists>k k1 k2 i. jrt_main demo_boot = Inr k \<and> schedule_req 7 0x50200000 0x8000 0x10000 k = Inr k1 \<and>
    hstep 0x51021040 0x51021040 k1 k2 \<and> k_mem k2 (p_mem (s_pb (k_sched k2) i)) = 42 \<and> live (k_sched k2) = {i} \<and>
    translate (cx_mmap (p_ctx (s_pb (k_sched k2) i))) (k_alloc k2, k_mem k2) 0x7FFF = Some (0x50207FFF, PTE_PROC_RWX)"
proof -
  obtain k k1 k2 k3 i where d: "jrt_main demo_boot = Inr k" "schedule_req 7 0x50200000 0x8000 0x10000 k = Inr k1" "kernel_inv k1"
    "accounted 0x51021040 0x51021040 k1" "hstep 0x51021040 0x51021040 k1 k2" "live (k_sched k2) = {i}" "k_kend k2 = 0x48010000"
    "k_mem k2 (p_mem (s_pb (k_sched k2) i)) = 42"
    "p_pa_pc (s_pb (k_sched k2) i) = 0x50200000" "p_prog_size (s_pb (k_sched k2) i) = 0x8000"
    by (rule demo_exits)
  have s: "(hstep 0x51021040 0x51021040)\<^sup>*\<^sup>* k1 k2" using d(5) by blast
  have "proc_space 0x48010000 0x50200000 0x8000 0x7FFF = Some (0x50207FFF, PTE_PROC_RWX)"
    by (simp add: proc_space_def map_constants page_ceil_def min_def)
  moreover have "aligned 0x50200000" by (simp add: aligned_nat)
  ultimately have "translate (cx_mmap (p_ctx (s_pb (k_sched k2) i))) (k_alloc k2, k_mem k2) 0x7FFF = Some (0x50207FFF, PTE_PROC_RWX)"
    using kernel_spaces_kept [OF d(3,4) s, of "0x7FFF"] d(6,7,9,10) by (simp add: Let_def)
  then show ?thesis using d(1,2,5,6,8) by blast
qed

end
