(* ===== verification/Double.thy ===== *)
theory Double
  imports Janus_Prelude
begin

text \<open>
  The C type \<open>double\<close> as the formatter of \<^verbatim>\<open>rtprog/libc/snprintf.c\<close> uses it: IEEE 754 binary64
  values as their 64 bits, with multiplication and addition rounded to nearest, ties to
  even, the comparisons, and the conversion to \<open>uint64_t\<close>. This is the arithmetic of the
  language, not code of the repository.
\<close>

section \<open>Values\<close>

type_synonym double = u64

definition d_sign :: "double \<Rightarrow> bool" where
  "d_sign x = bit x 63"

definition d_exp :: "double \<Rightarrow> int" where
  "d_exp x = uint (drop_bit 52 x AND 0x7FF)"

definition d_frac :: "double \<Rightarrow> int" where
  "d_frac x = uint (x AND 0xFFFFFFFFFFFFF)"

definition d_nan :: "double \<Rightarrow> bool" where
  "d_nan x \<longleftrightarrow> d_exp x = 2047 \<and> d_frac x \<noteq> 0"

definition d_inf :: "double \<Rightarrow> bool" where
  "d_inf x \<longleftrightarrow> d_exp x = 2047 \<and> d_frac x = 0"

text \<open>A finite value is \<open>d_mant x * 2 powi d_scale x\<close>, up to its sign.\<close>

definition d_mant :: "double \<Rightarrow> int" where
  "d_mant x = (if d_exp x = 0 then d_frac x else d_frac x + 2 ^ 52)"

definition d_scale :: "double \<Rightarrow> int" where
  "d_scale x = (if d_exp x = 0 then - 1074 else d_exp x - 1075)"

definition SIGN_BIT :: u64 where "SIGN_BIT = 0x8000000000000000"
definition INF_BITS :: int where "INF_BITS = 2047 * 2 ^ 52"
definition NAN_BITS :: double where "NAN_BITS = 0x7FF8000000000000"

section \<open>Rounding\<close>

fun bit_length :: "int \<Rightarrow> int" where
  "bit_length m = (if m \<le> 0 then 0 else 1 + bit_length (m div 2))"

declare bit_length.simps [simp del]

text \<open>\<open>m\<close> divided by \<open>2 ^ k\<close>, to the nearest integer, ties to even.\<close>

definition round_shift :: "int \<Rightarrow> nat \<Rightarrow> int" where
  "round_shift m k =
     (if k = 0 then m
      else (let q = m div 2 ^ k; r = m mod 2 ^ k; half = 2 ^ (k - 1)
            in if r > half \<or> r = half \<and> odd q then q + 1 else q))"

text \<open>The magnitude bits of the double nearest to \<open>m * 2 powi e\<close>.\<close>

definition round_bits :: "int \<Rightarrow> int \<Rightarrow> int" where
  "round_bits m e =
     (if m = 0 then 0
      else (let e' = max (e + bit_length m - 53) (- 1074);
                mant = (if e' \<le> e then m * 2 ^ nat (e - e') else round_shift m (nat (e' - e)))
            in min INF_BITS ((e' + 1074) * 2 ^ 52 + mant)))"

definition d_pack :: "bool \<Rightarrow> int \<Rightarrow> int \<Rightarrow> double" where
  "d_pack s m e = (if s then SIGN_BIT else 0) OR of_int (round_bits m e)"

definition d_of_int :: "int \<Rightarrow> double" where
  "d_of_int n = d_pack False n 0"

section \<open>Operations\<close>

definition d_neg :: "double \<Rightarrow> double" where
  "d_neg x = x XOR SIGN_BIT"

definition d_mul :: "double \<Rightarrow> double \<Rightarrow> double" where
  "d_mul x y =
     (let s = (d_sign x \<noteq> d_sign y) in
      if d_nan x \<or> d_nan y then NAN_BITS
      else if d_inf x \<or> d_inf y then
        (if d_inf x \<and> d_inf y \<or> d_mant x \<noteq> 0 \<and> d_mant y \<noteq> 0
         then (if s then SIGN_BIT else 0) OR of_int INF_BITS else NAN_BITS)
      else d_pack s (d_mant x * d_mant y) (d_scale x + d_scale y))"

definition d_signed :: "double \<Rightarrow> int \<Rightarrow> int" where
  "d_signed x e = (if d_sign x then - 1 else 1) * d_mant x * 2 ^ nat (d_scale x - e)"

definition d_add :: "double \<Rightarrow> double \<Rightarrow> double" where
  "d_add x y =
     (if d_nan x \<or> d_nan y then NAN_BITS
      else if d_inf x then (if d_inf y \<and> d_sign x \<noteq> d_sign y then NAN_BITS else x)
      else if d_inf y then y
      else (let e = min (d_scale x) (d_scale y); s = d_signed x e + d_signed y e
            in if s = 0 then (if d_sign x \<and> d_sign y then SIGN_BIT else 0)
               else d_pack (s < 0) \<bar>s\<bar> e))"

text \<open>Comparison: on values that are not NaN the bits are ordered like the numbers.\<close>

definition d_key :: "double \<Rightarrow> int" where
  "d_key x = (if d_sign x then - uint (x AND 0x7FFFFFFFFFFFFFFF) else uint (x AND 0x7FFFFFFFFFFFFFFF))"

definition d_lt :: "double \<Rightarrow> double \<Rightarrow> bool" where
  "d_lt x y \<longleftrightarrow> \<not> d_nan x \<and> \<not> d_nan y \<and> d_key x < d_key y"

definition d_ge :: "double \<Rightarrow> double \<Rightarrow> bool" where
  "d_ge x y \<longleftrightarrow> \<not> d_nan x \<and> \<not> d_nan y \<and> d_key x \<ge> d_key y"

text \<open>Conversion to \<open>uint64_t\<close> drops the fraction; out of range it is undefined.\<close>

definition d_trunc :: "double \<Rightarrow> int" where
  "d_trunc x = (if d_scale x \<ge> 0 then d_mant x * 2 ^ nat (d_scale x)
                else d_mant x div 2 ^ nat (- d_scale x))"

definition d_to_u64 :: "double \<Rightarrow> u64 res" where
  "d_to_u64 x =
     (if d_nan x \<or> d_inf x \<or> d_sign x \<and> d_trunc x \<noteq> 0 \<or> d_trunc x \<ge> 2 ^ 64 then Inl Undefined
      else Inr (of_int (d_trunc x)))"

section \<open>Constants of the source\<close>

definition D_0 :: double where "D_0 = 0"
definition D_HALF :: double where "D_HALF = 0x3FE0000000000000"
definition D_TENTH :: double where "D_TENTH = 0x3FB999999999999A"
definition D_1 :: double where "D_1 = 0x3FF0000000000000"
definition D_10 :: double where "D_10 = 0x4024000000000000"

lemma d_of_int_examples:
  "d_of_int 1 = D_1" "d_of_int 10 = D_10" "d_mul D_10 D_TENTH = D_1" "d_add D_HALF D_HALF = D_1"
  by code_simp+

end
