(* ===== verification/Snprintf.thy ===== *)
theory Snprintf
  imports Double
begin

text \<open>
  The formatter of \<^verbatim>\<open>rtprog/libc/snprintf.c\<close>, function by function. The destination is a map
  from offsets to characters, so that a store past its end is visible; a C string is the
  list of characters before its terminator, and the end of the list reads as the
  terminator. The variable arguments are a list of values; reading one at the wrong type
  is undefined, as in C. \<open>%n\<close> stores through a pointer: the stores are returned as a list.
  What an uninitialised stack buffer holds is the argument \<open>junk\<close>.
\<close>

section \<open>Output\<close>

abbreviation NUL :: char where "NUL \<equiv> CHR 0x00"

definition is_digit :: "char \<Rightarrow> bool" where
  "is_digit c \<longleftrightarrow> of_char c - (48 :: u32) \<le> 9"

record out_t =
  o_buf :: "nat \<Rightarrow> char"
  o_cap :: nat
  o_len :: nat

definition out_init :: "(nat \<Rightarrow> char) \<Rightarrow> nat \<Rightarrow> out_t" where
  "out_init dst n = \<lparr>o_buf = dst, o_cap = (if n \<noteq> 0 then n - 1 else 0), o_len = 0\<rparr>"

definition out_putc :: "out_t \<Rightarrow> char \<Rightarrow> out_t" where
  "out_putc out c =
     (let out = (if o_len out < o_cap out then out\<lparr>o_buf := (o_buf out)(o_len out := c)\<rparr> else out)
      in out\<lparr>o_len := o_len out + 1\<rparr>)"

text \<open>\<open>out_write_n\<close> puts the first \<open>n\<close> characters of \<open>s\<close>, which has at least that many.\<close>

definition out_write_n :: "out_t \<Rightarrow> char list \<Rightarrow> nat \<Rightarrow> out_t" where
  "out_write_n out s n = foldl (\<lambda>out i. out_putc out (s ! i)) out [0..<n]"

definition out_terminate :: "out_t \<Rightarrow> out_t" where
  "out_terminate out =
     (if o_cap out > 0 then
        (let at = (if o_len out < o_cap out then o_len out else o_cap out)
         in out\<lparr>o_buf := (o_buf out)(at := NUL)\<rparr>)
      else out)"

fun cstr_len :: "char list \<Rightarrow> nat" where
  "cstr_len [] = 0"
| "cstr_len (c # s) = (if c = NUL then 0 else Suc (cstr_len s))"

section \<open>Conversion specifications\<close>

datatype len_t = L_none | L_hh | L_h | L_l | L_ll | L_j | L_z | L_t | L_L

record fmt_t =
  f_flags :: u32
  f_width :: int
  f_prec :: int
  f_len :: len_t
  f_type :: char

definition F_LEFT :: u32 where "F_LEFT = push_bit 0 1"
definition F_SIGN :: u32 where "F_SIGN = push_bit 1 1"
definition F_ZERO :: u32 where "F_ZERO = push_bit 2 1"
definition F_ALT :: u32 where "F_ALT = push_bit 3 1"
definition F_SP :: u32 where "F_SP = push_bit 4 1"

definition INT_MAX :: int where "INT_MAX = 2 ^ 31 - 1"

definition has :: "fmt_t \<Rightarrow> u32 \<Rightarrow> bool" where
  "has f b \<longleftrightarrow> f_flags f AND b \<noteq> 0"

section \<open>Integers\<close>

definition digs_l :: string where "digs_l = ''0123456789abcdef''"
definition digs_u :: string where "digs_u = ''0123456789ABCDEF''"

text \<open>
  \<open>utoa_rev\<close> fills \<open>tmp\<close>, an array of \<open>room\<close> characters, with the digits in reverse order;
  a digit that does not fit would be stored out of bounds.
\<close>

fun utoa_loop :: "nat \<Rightarrow> u64 \<Rightarrow> u64 \<Rightarrow> string \<Rightarrow> string res" where
  "utoa_loop 0 v base digs = (if v = 0 then Inr [] else Inl Out_of_bounds)"
| "utoa_loop (Suc room) v base digs =
     (if v = 0 then Inr []
      else (let d = v mod base in
            bindE (utoa_loop room (v div base) base digs) (\<lambda>tmp. Inr (digs ! unat d # tmp))))"

definition utoa_rev :: "nat \<Rightarrow> u64 \<Rightarrow> u64 \<Rightarrow> bool \<Rightarrow> string res" where
  "utoa_rev room v base upper =
     (if v = 0 then Inr ''0''
      else utoa_loop room v base (if upper then digs_u else digs_l))"

definition pad :: "out_t \<Rightarrow> char \<Rightarrow> int \<Rightarrow> out_t" where
  "pad out c cnt = foldl (\<lambda>out i. out_putc out c) out [0..<nat cnt]"

text \<open>The choice of the sign character, which four functions of the source repeat.\<close>

definition sign_char :: "fmt_t \<Rightarrow> bool \<Rightarrow> char" where
  "sign_char f neg =
     (if neg then CHR ''-'' else if has f F_SIGN then CHR ''+''
      else if has f F_SP then CHR '' '' else NUL)"

definition sign_len :: "char \<Rightarrow> int" where
  "sign_len c = (if c \<noteq> NUL then 1 else 0)"

definition put_sign :: "out_t \<Rightarrow> char \<Rightarrow> out_t" where
  "put_sign out c = (if c \<noteq> NUL then out_putc out c else out)"

text \<open>
  The lengths in \<open>emit_int\<close> are of type \<open>int\<close>; only the sum \<open>total_len\<close> can leave its range, for a precision near
  \<open>INT_MAX\<close>, and the overflow is undefined.
\<close>

definition emit_int :: "out_t \<Rightarrow> fmt_t \<Rightarrow> u64 \<Rightarrow> bool \<Rightarrow> u64 \<Rightarrow> bool \<Rightarrow> out_t res" where
  "emit_int out f uval neg base upper =
     bindE (utoa_rev 64 uval base upper) (\<lambda>tmp.
       let ndig = (if f_prec f = 0 \<and> uval = 0 then 0 else length tmp);
           sign_ch = sign_char f neg;
           pre = (if has f F_ALT \<and> uval \<noteq> 0 then
                    (if base = 8 then ''0'' else if base = 16 then [CHR ''0'', if upper then CHR ''X'' else CHR ''x'']
                     else [])
                  else []);
           minw = int ndig + int (length pre) + sign_len sign_ch;
           zeros = (if f_prec f \<ge> 0 then (if int ndig < f_prec f then f_prec f - int ndig else 0)
                    else if has f F_ZERO \<and> \<not> has f F_LEFT \<and> f_width f > 0 then
                      (if minw < f_width f then f_width f - minw else 0)
                    else 0);
           total_len = int ndig + zeros + int (length pre) + sign_len sign_ch;
           pad_len = (if f_width f > total_len then f_width f - total_len else 0);
           out = (if \<not> has f F_LEFT then pad out CHR '' '' pad_len else out);
           out = put_sign out sign_ch;
           out = out_write_n out pre (length pre);
           out = pad out CHR ''0'' zeros;
           out = foldl (\<lambda>out i. out_putc out (tmp ! (ndig - 1 - i))) out [0..<ndig]
       in if total_len > INT_MAX then Inl Undefined
          else Inr (if has f F_LEFT then pad out CHR '' '' pad_len else out))"

section \<open>Floating point\<close>

definition fp_is_nan :: "double \<Rightarrow> bool" where
  "fp_is_nan x \<longleftrightarrow> x AND 0x7ff0000000000000 = 0x7ff0000000000000 \<and> x AND 0x000fffffffffffff \<noteq> 0"

definition fp_is_inf :: "double \<Rightarrow> bool" where
  "fp_is_inf x \<longleftrightarrow> x AND 0x7fffffffffffffff = 0x7ff0000000000000"

definition fp_abs :: "double \<Rightarrow> double" where
  "fp_abs x = (if d_lt x D_0 then d_neg x else x)"

definition fp_p10 :: "double list" where
  "fp_p10 = map (\<lambda>k. d_of_int (10 ^ k)) [0..<16]"

text \<open>\<open>fp_pow10\<close> for the exponents the source passes, which are not negative.\<close>

function pow10_loop :: "double \<Rightarrow> nat \<Rightarrow> double \<times> nat" where
  "pow10_loop r k = (if k \<ge> 15 then pow10_loop (d_mul r (d_of_int (10 ^ 15))) (k - 15) else (r, k))"
  by pat_completeness auto
termination by (relation "measure snd") auto

declare pow10_loop.simps [simp del]

definition fp_pow10 :: "nat \<Rightarrow> double" where
  "fp_pow10 n =
     (if n = 0 then D_1
      else (let (r, k) = pow10_loop D_1 n in if k \<noteq> 0 then d_mul r (fp_p10 ! k) else r))"

definition emit_inf_nan :: "out_t \<Rightarrow> fmt_t \<Rightarrow> bool \<Rightarrow> bool \<Rightarrow> bool \<Rightarrow> out_t" where
  "emit_inf_nan out f neg upper is_nan =
     (let s = (if is_nan then (if upper then ''NAN'' else ''nan'') else (if upper then ''INF'' else ''inf''));
          sign_ch = (if \<not> is_nan then sign_char f neg else sign_char f False);
          n = int (cstr_len s) + sign_len sign_ch;
          pad_len = (if f_width f > n then f_width f - n else 0);
          out = (if \<not> has f F_LEFT then pad out CHR '' '' pad_len else out);
          out = put_sign out sign_ch;
          out = out_write_n out s 3
      in if has f F_LEFT then pad out CHR '' '' pad_len else out)"

definition digit_char :: "nat \<Rightarrow> char" where
  "digit_char d = char_of (48 + d)"

text \<open>\<open>prec\<close> decimal digits of \<open>frac\<close>, the last one first (both fraction loops of the source).\<close>

fun frac_digits :: "nat \<Rightarrow> u64 \<Rightarrow> string" where
  "frac_digits 0 frac = []"
| "frac_digits (Suc prec) frac = frac_digits prec (frac div 10) @ [digit_char (unat (frac mod 10))]"

definition clamp_prec :: "fmt_t \<Rightarrow> nat" where
  "clamp_prec f = (let prec = (if f_prec f \<ge> 0 then f_prec f else 6) in nat (if prec > 18 then 18 else prec))"

definition float_pad :: "fmt_t \<Rightarrow> char" where
  "float_pad f = (if has f F_ZERO then CHR ''0'' else CHR '' '')"

definition emit_float_f :: "out_t \<Rightarrow> fmt_t \<Rightarrow> double \<Rightarrow> bool \<Rightarrow> out_t res" where
  "emit_float_f out f x upper =
     (let neg = d_lt x D_0 in
      if fp_is_nan x then Inr (emit_inf_nan out f False upper True)
      else if fp_is_inf x then Inr (emit_inf_nan out f neg upper False)
      else
        (let x = fp_abs x;
             prec = clamp_prec f;
             r = fp_pow10 prec;
             y = d_mul x r
         in bindE (d_to_u64 (d_add y D_HALF)) (\<lambda>yi.
            bindE (d_to_u64 r) (\<lambda>ri.
            let int_part = yi div ri;
                frac_part = yi - int_part * ri
            in bindE (utoa_rev 32 int_part 10 False) (\<lambda>itmp.
            let ftmp = frac_digits prec frac_part;
                dot = (prec > 0);
                sign_ch = sign_char f neg;
                total = sign_len sign_ch + int (length itmp) + (if dot then 1 else 0) + int prec;
                pad_len = (if f_width f > total then f_width f - total else 0);
                out = (if \<not> has f F_LEFT then pad out (float_pad f) pad_len else out);
                out = put_sign out sign_ch;
                out = foldl (\<lambda>out i. out_putc out (itmp ! (length itmp - 1 - i))) out [0..<length itmp];
                out = (if dot then out_write_n (out_putc out CHR ''.'') ftmp prec else out)
            in Inr (if has f F_LEFT then pad out CHR '' '' pad_len else out))))))"

text \<open>The two normalisation loops; \<open>exp10\<close> counts the steps.\<close>

partial_function (option) norm_down :: "double \<Rightarrow> int \<Rightarrow> (double \<times> int) option" where
  "norm_down x e = (if d_ge x D_10 then norm_down (d_mul x D_TENTH) (e + 1) else Some (x, e))"

declare norm_down.simps [code]

partial_function (option) norm_up :: "double \<Rightarrow> int \<Rightarrow> (double \<times> int) option" where
  "norm_up x e = (if d_lt x D_1 then norm_up (d_mul x D_10) (e - 1) else Some (x, e))"

declare norm_up.simps [code]

definition normalize :: "double \<Rightarrow> (double \<times> int) res" where
  "normalize x =
     (if d_lt D_0 x then
        (case norm_down x 0 of None \<Rightarrow> Inl No_return
         | Some (x, e) \<Rightarrow> (case norm_up x e of None \<Rightarrow> Inl No_return | Some r \<Rightarrow> Inr r))
      else Inr (x, 0))"

definition exp_chars :: "int \<Rightarrow> bool \<Rightarrow> string" where
  "exp_chars exp10 upper =
     (let aexp = nat \<bar>exp10\<bar>;
          d2 = aexp mod 10; d1 = aexp div 10 mod 10; d0 = aexp div 100 mod 10
      in [if upper then CHR ''E'' else CHR ''e'', if exp10 < 0 then CHR ''-'' else CHR ''+''] @
         (if aexp \<ge> 100 then [digit_char d0, digit_char d1, digit_char d2]
          else [digit_char d1, digit_char d2]))"

definition emit_float_e :: "out_t \<Rightarrow> fmt_t \<Rightarrow> double \<Rightarrow> bool \<Rightarrow> out_t res" where
  "emit_float_e out f x upper =
     (let neg = d_lt x D_0 in
      if fp_is_nan x then Inr (emit_inf_nan out f False upper True)
      else if fp_is_inf x then Inr (emit_inf_nan out f neg upper False)
      else
        (let x = fp_abs x; prec = clamp_prec f in
         bindE (normalize x) (\<lambda>(x, exp10).
         let r = fp_pow10 prec; y = d_mul x r in
         bindE (d_to_u64 (d_add y D_HALF)) (\<lambda>yi.
         bindE (d_to_u64 (fp_pow10 (prec + 1))) (\<lambda>lim.
         let (yi, exp10) = (if yi \<ge> lim then (yi div 10, exp10 + 1) else (yi, exp10)) in
         bindE (d_to_u64 r) (\<lambda>ri.
         let ip = yi div ri;
             fp = yi - ip * ri;
             mt = digit_char (unat ip) #
                    (if prec > 0 \<or> has f F_ALT then CHR ''.'' # frac_digits prec fp else []);
             ebuf = exp_chars exp10 upper;
             sign_ch = sign_char f neg;
             total = sign_len sign_ch + int (length mt) + int (length ebuf);
             pad_len = (if f_width f > total then f_width f - total else 0);
             out = (if \<not> has f F_LEFT then pad out (float_pad f) pad_len else out);
             out = put_sign out sign_ch;
             out = out_write_n out mt (length mt);
             out = out_write_n out ebuf (length ebuf)
         in Inr (if has f F_LEFT then pad out CHR '' '' pad_len else out)))))))"

fun find_dot :: "string \<Rightarrow> nat \<Rightarrow> nat option" where
  "find_dot [] k = None"
| "find_dot (c # s) k = (if c = CHR ''.'' then Some k else find_dot s (k + 1))"

fun trim_loop :: "string \<Rightarrow> nat \<Rightarrow> nat \<Rightarrow> nat" where
  "trim_loop buf dot 0 = 0"
| "trim_loop buf dot (Suc j) =
     (if Suc j > dot + 1 \<and> buf ! j = CHR ''0'' then trim_loop buf dot j else Suc j)"

definition trim_trailing_zeros :: "string \<Rightarrow> nat \<Rightarrow> nat" where
  "trim_trailing_zeros buf n =
     (case find_dot (take n buf) 0 of
        None \<Rightarrow> n
      | Some dot \<Rightarrow>
          (let j = trim_loop buf dot n
           in if j > dot + 1 \<and> buf ! (j - 1) = CHR ''.'' then j - 1 else j))"

definition emit_float_g :: "(nat \<Rightarrow> char) \<Rightarrow> out_t \<Rightarrow> fmt_t \<Rightarrow> double \<Rightarrow> bool \<Rightarrow> out_t res" where
  "emit_float_g junk out f x upper =
     (let prec = (if f_prec f \<ge> 0 then f_prec f else 6);
          prec = (if prec = 0 then 1 else prec);
          neg = d_lt x D_0
      in if fp_is_nan x then Inr (emit_inf_nan out f False upper True)
      else if fp_is_inf x then Inr (emit_inf_nan out f neg upper False)
      else
        (let ax = fp_abs x in
         bindE (normalize ax) (\<lambda>(y, exp10).
         let use_e = (exp10 < - 4 \<or> exp10 \<ge> prec);
             tmp = (out_init junk 128)\<lparr>o_cap := 127\<rparr>;
             sx = (if neg then d_neg ax else ax)
         in bindE
              (if use_e then emit_float_e tmp (f\<lparr>f_prec := prec - 1\<rparr>) sx upper
               else (let ahead = (if exp10 \<ge> 0 then exp10 + 1 else 1);
                         frac = prec - ahead;
                         frac = (if frac < 0 then 0 else frac)
                     in emit_float_f tmp (f\<lparr>f_prec := frac\<rparr>) sx upper)) (\<lambda>tmp.
            let buf = map (o_buf (out_terminate tmp)) [0..<128];
                n = cstr_len buf;
                n = (if \<not> has f F_ALT then trim_trailing_zeros buf n else n);
                pad_len = (if int n < f_width f then f_width f - int n else 0);
                out = (if \<not> has f F_LEFT then pad out CHR '' '' pad_len else out);
                out = out_write_n out buf n
            in Inr (if has f F_LEFT then pad out CHR '' '' pad_len else out)))))"

section \<open>Arguments\<close>

text \<open>
  A value passed through the ellipsis: an integer register, a string or \<open>NULL\<close>, an address,
  or a double. \<open>va_arg\<close> of a narrower integer type reads the low bits of the register.
\<close>

datatype arg = AInt u64 | AStr "string option" | APtr u64 | ADouble double

definition va_int :: "arg list \<Rightarrow> (u64 \<times> arg list) res" where
  "va_int ap = (case ap of AInt v # ap \<Rightarrow> Inr (v, ap) | _ \<Rightarrow> Inl Undefined)"

definition va_str :: "arg list \<Rightarrow> (string option \<times> arg list) res" where
  "va_str ap = (case ap of AStr s # ap \<Rightarrow> Inr (s, ap) | _ \<Rightarrow> Inl Undefined)"

definition va_ptr :: "arg list \<Rightarrow> (u64 \<times> arg list) res" where
  "va_ptr ap = (case ap of APtr v # ap \<Rightarrow> Inr (v, ap) | _ \<Rightarrow> Inl Undefined)"

definition va_double :: "arg list \<Rightarrow> (double \<times> arg list) res" where
  "va_double ap = (case ap of ADouble v # ap \<Rightarrow> Inr (v, ap) | _ \<Rightarrow> Inl Undefined)"

section \<open>The parser\<close>

definition cur :: "string \<Rightarrow> char" where
  "cur p = (case p of [] \<Rightarrow> NUL | c # _ \<Rightarrow> c)"

fun parse_flags :: "string \<Rightarrow> u32 \<Rightarrow> string \<times> u32" where
  "parse_flags [] flags = ([], flags)"
| "parse_flags (c # p) flags =
     (if c = CHR ''-'' then parse_flags p (flags OR F_LEFT)
      else if c = CHR ''+'' then parse_flags p (flags OR F_SIGN)
      else if c = CHR ''0'' then parse_flags p (flags OR F_ZERO)
      else if c = CHR ''#'' then parse_flags p (flags OR F_ALT)
      else if c = CHR '' '' then parse_flags p (flags OR F_SP)
      else (c # p, flags))"

text \<open>
  The loop \<open>v = v * 10 + (*p - '0')\<close> on a signed type with largest value \<open>max_v\<close>; overflow is
  undefined. The result says whether a digit was read.
\<close>

fun parse_num :: "int \<Rightarrow> string \<Rightarrow> int \<Rightarrow> bool \<Rightarrow> (string \<times> int \<times> bool) res" where
  "parse_num max_v [] v any = Inr ([], v, any)"
| "parse_num max_v (c # p) v any =
     (if is_digit c then
        (let v = v * 10 + (of_char c - 48)
         in if v > max_v then Inl Undefined else parse_num max_v p v True)
      else Inr (c # p, v, any))"

definition INT64_MAX :: int where "INT64_MAX = 2 ^ 63 - 1"

definition parse_width_prec :: "string \<Rightarrow> arg list \<Rightarrow> (string \<times> int \<times> arg list) res" where
  "parse_width_prec p ap =
     (if cur p = CHR ''*'' then
        bindE (va_int ap) (\<lambda>(w, ap).
          let v = sint (ucast w :: u32) in
          if v < 0 then (if - v > INT_MAX then Inl Undefined else Inr (tl p, - v, ap))
          else Inr (tl p, v, ap))
      else bindE (parse_num INT_MAX p 0 False) (\<lambda>(p, v, any). Inr (p, if any then v else - 1, ap)))"

definition parse_len :: "string \<Rightarrow> len_t \<Rightarrow> string \<times> len_t" where
  "parse_len p len0 =
     (if cur p = CHR ''h'' \<and> cur (tl p) = CHR ''h'' then (tl (tl p), L_hh)
      else if cur p = CHR ''h'' then (tl p, L_h)
      else if cur p = CHR ''l'' \<and> cur (tl p) = CHR ''l'' then (tl (tl p), L_ll)
      else if cur p = CHR ''l'' then (tl p, L_l)
      else if cur p = CHR ''j'' then (tl p, L_j)
      else if cur p = CHR ''z'' then (tl p, L_z)
      else if cur p = CHR ''t'' then (tl p, L_t)
      else if cur p = CHR ''L'' then (tl p, L_L)
      else (p, len0))"

definition get_uint_arg :: "arg list \<Rightarrow> len_t \<Rightarrow> (u64 \<times> arg list) res" where
  "get_uint_arg ap len_code =
     bindE (va_int ap) (\<lambda>(w, ap).
       Inr (case len_code of
              L_hh \<Rightarrow> ucast (ucast w :: u8)
            | L_h \<Rightarrow> ucast (ucast w :: u16)
            | L_l \<Rightarrow> w | L_ll \<Rightarrow> w | L_j \<Rightarrow> w | L_z \<Rightarrow> w | L_t \<Rightarrow> w
            | _ \<Rightarrow> ucast (ucast w :: u32), ap))"

definition get_int_arg :: "arg list \<Rightarrow> len_t \<Rightarrow> (u64 \<times> arg list) res" where
  "get_int_arg ap len_code =
     bindE (va_int ap) (\<lambda>(w, ap).
       Inr (case len_code of
              L_hh \<Rightarrow> scast (ucast w :: u8)
            | L_h \<Rightarrow> scast (ucast w :: u16)
            | L_l \<Rightarrow> w | L_ll \<Rightarrow> w | L_j \<Rightarrow> w | L_z \<Rightarrow> w | L_t \<Rightarrow> w
            | _ \<Rightarrow> scast (ucast w :: u32), ap))"

text \<open>\<open>*(p - 1)\<close>, for \<open>p\<close> a rest of the format.\<close>

definition prev_char :: "string \<Rightarrow> string \<Rightarrow> char" where
  "prev_char fmt p = fmt ! (length fmt - length p - 1)"

definition parse_prec :: "string \<Rightarrow> arg list \<Rightarrow> (string \<times> int \<times> arg list) res" where
  "parse_prec p ap =
     (if cur p = CHR ''.'' then
        (let p = tl p in
         if cur p = CHR ''*'' then
           bindE (va_int ap) (\<lambda>(w, ap).
             let v = sint (ucast w :: u32) in Inr (tl p, if v < 0 then - 1 else v, ap))
         else
           bindE (parse_num INT64_MAX p 0 False) (\<lambda>(p, v, any).
             Inr (p, if any then signed_take_bit 31 v else 0, ap)))
      else Inr (p, - 1, ap))"

definition parse_spec :: "string \<Rightarrow> string \<Rightarrow> arg list \<Rightarrow> (fmt_t \<times> string \<times> arg list) res" where
  "parse_spec fmt p ap =
     (let (p, flags) = parse_flags p 0 in
      bindE (parse_width_prec p ap) (\<lambda>(p, width, ap).
      let (flags, width) =
            (if width < 0 \<and> prev_char fmt p = CHR ''*'' then (flags OR F_LEFT, - width) else (flags, width))
      in bindE (parse_prec p ap) (\<lambda>(p, prec, ap).
      let (p, len_code) = parse_len p L_none in
      Inr (\<lparr>f_flags = flags, f_width = width, f_prec = prec, f_len = len_code, f_type = cur p\<rparr>, tl p, ap))))"

section \<open>The core\<close>

text \<open>What a call has produced so far: the output, the arguments left, and the stores of \<open>%n\<close>.\<close>

record vst =
  v_out :: out_t
  v_ap :: "arg list"
  v_stores :: "(u64 \<times> nat \<times> u64) list"  \<comment> \<open>address, width in bytes, value\<close>

definition store_width :: "len_t \<Rightarrow> nat" where
  "store_width len_code =
     (case len_code of L_hh \<Rightarrow> 1 | L_h \<Rightarrow> 2 | L_l \<Rightarrow> 8 | L_ll \<Rightarrow> 8 | L_j \<Rightarrow> 8 | L_z \<Rightarrow> 8 | L_t \<Rightarrow> 8 | _ \<Rightarrow> 4)"

definition no_zero_prec :: "fmt_t \<Rightarrow> fmt_t" where
  "no_zero_prec f = (if f_prec f \<ge> 0 then f\<lparr>f_flags := f_flags f AND NOT F_ZERO\<rparr> else f)"

definition conv_c :: "fmt_t \<Rightarrow> vst \<Rightarrow> vst res" where
  "conv_c f st =
     bindE (va_int (v_ap st)) (\<lambda>(w, ap).
       let ch = char_of (unat (ucast w :: u8));
           pad_len = (if f_width f > 1 then f_width f - 1 else 0);
           out = v_out st;
           out = (if \<not> has f F_LEFT then pad out CHR '' '' pad_len else out);
           out = out_putc out ch;
           out = (if has f F_LEFT then pad out CHR '' '' pad_len else out)
       in Inr (st\<lparr>v_out := out, v_ap := ap\<rparr>))"

text \<open>The cast of the length to \<open>int\<close> keeps its low 32 bits, as the compiler defines it.\<close>

definition conv_s :: "fmt_t \<Rightarrow> vst \<Rightarrow> vst res" where
  "conv_s f st =
     bindE (va_str (v_ap st)) (\<lambda>(s, ap).
       let s = (case s of None \<Rightarrow> ''(null)'' | Some s \<Rightarrow> s);
           sl = cstr_len s;
           sl = (if f_prec f \<ge> 0 \<and> nat (f_prec f) < sl then nat (f_prec f) else sl);
           isl = signed_take_bit 31 (int sl);
           pad_len = (if f_width f > isl then f_width f - isl else 0);
           out = v_out st;
           out = (if \<not> has f F_LEFT then pad out CHR '' '' pad_len else out);
           out = out_write_n out s sl;
           out = (if has f F_LEFT then pad out CHR '' '' pad_len else out)
       in if pad_len > INT_MAX then Inl Undefined else Inr (st\<lparr>v_out := out, v_ap := ap\<rparr>))"

text \<open>Negating the least 64-bit number overflows, which is undefined.\<close>

definition INT64_MIN :: int where "INT64_MIN = - (2 ^ 63)"

definition conv_d :: "fmt_t \<Rightarrow> vst \<Rightarrow> vst res" where
  "conv_d f st =
     bindE (get_int_arg (v_ap st) (f_len f)) (\<lambda>(v, ap).
       let neg = (sint v < 0); u = (if neg then - v else v) in
       if sint v = INT64_MIN then Inl Undefined else
       bindE (emit_int (v_out st) (no_zero_prec f) u neg 10 False) (\<lambda>out.
         Inr (st\<lparr>v_out := out, v_ap := ap\<rparr>)))"

definition conv_u :: "u64 \<Rightarrow> bool \<Rightarrow> fmt_t \<Rightarrow> vst \<Rightarrow> vst res" where
  "conv_u base upper f st =
     bindE (get_uint_arg (v_ap st) (f_len f)) (\<lambda>(u, ap).
       bindE (emit_int (v_out st) (no_zero_prec f) u False base upper) (\<lambda>out.
         Inr (st\<lparr>v_out := out, v_ap := ap\<rparr>)))"

definition conv_p :: "fmt_t \<Rightarrow> vst \<Rightarrow> vst res" where
  "conv_p f st =
     bindE (va_ptr (v_ap st)) (\<lambda>(pt, ap).
       let g = f\<lparr>f_flags := f_flags f OR F_ALT\<rparr>;
           g = g\<lparr>f_prec := 16\<rparr>;
           g = g\<lparr>f_flags := f_flags g AND NOT (F_SIGN OR F_SP)\<rparr>
       in bindE (emit_int (v_out st) g pt False 16 False) (\<lambda>out.
            Inr (st\<lparr>v_out := out, v_ap := ap\<rparr>)))"

definition conv_n :: "fmt_t \<Rightarrow> vst \<Rightarrow> vst res" where
  "conv_n f st =
     bindE (va_ptr (v_ap st)) (\<lambda>(p, ap).
       Inr (st\<lparr>v_ap := ap,
               v_stores := v_stores st @ [(p, store_width (f_len f), of_nat (o_len (v_out st)))]\<rparr>))"

definition conv_float :: "(out_t \<Rightarrow> fmt_t \<Rightarrow> double \<Rightarrow> bool \<Rightarrow> out_t res) \<Rightarrow> bool \<Rightarrow> fmt_t \<Rightarrow> vst \<Rightarrow> vst res" where
  "conv_float emit upper f st =
     bindE (va_double (v_ap st)) (\<lambda>(x, ap).
       bindE (emit (v_out st) f x upper) (\<lambda>out. Inr (st\<lparr>v_out := out, v_ap := ap\<rparr>)))"

definition convert :: "(nat \<Rightarrow> char) \<Rightarrow> fmt_t \<Rightarrow> vst \<Rightarrow> vst res" where
  "convert junk f st =
     (let t = f_type f in
      if t = CHR ''%'' then Inr (st\<lparr>v_out := out_putc (v_out st) CHR ''%''\<rparr>)
      else if t = CHR ''c'' then conv_c f st
      else if t = CHR ''s'' then conv_s f st
      else if t = CHR ''d'' \<or> t = CHR ''i'' then conv_d f st
      else if t = CHR ''u'' then conv_u 10 False f st
      else if t = CHR ''o'' then conv_u 8 False f st
      else if t = CHR ''x'' \<or> t = CHR ''X'' then conv_u 16 (t = CHR ''X'') f st
      else if t = CHR ''p'' then conv_p f st
      else if t = CHR ''n'' then conv_n f st
      else if t = CHR ''f'' \<or> t = CHR ''F'' then conv_float emit_float_f (t = CHR ''F'') f st
      else if t = CHR ''e'' \<or> t = CHR ''E'' then conv_float emit_float_e (t = CHR ''E'') f st
      else if t = CHR ''g'' \<or> t = CHR ''G'' then conv_float (emit_float_g junk) (t = CHR ''G'') f st
      else Inr (st\<lparr>v_out := out_putc (out_putc (v_out st) CHR ''%'') t\<rparr>))"

section \<open>Termination of the format loop\<close>

lemma parse_flags_length: "parse_flags p flags = (q, fl) \<Longrightarrow> length q \<le> length p"
  by (induction p flags rule: parse_flags.induct) (auto split: if_splits)

lemma parse_num_length: "parse_num mx p v any = Inr (q, w, a) \<Longrightarrow> length q \<le> length p"
  by (induction mx p v any rule: parse_num.induct) (auto simp: Let_def split: if_splits)

lemma parse_width_prec_length: "parse_width_prec p ap = Inr (q, w, ap') \<Longrightarrow> length q \<le> length p"
  by (auto simp: parse_width_prec_def Let_def split: if_splits dest: parse_num_length)

lemma parse_prec_length: "parse_prec p ap = Inr (q, w, ap') \<Longrightarrow> length q \<le> length p"
  by (fastforce simp: parse_prec_def Let_def split: if_splits dest: parse_num_length)

lemma parse_len_length: "parse_len p l = (q, l') \<Longrightarrow> length q \<le> length p"
  by (auto simp: parse_len_def split: if_splits)

lemma parse_spec_length:
  assumes "parse_spec fmt p ap = Inr (f, q, ap')" shows "length q \<le> length p"
proof -
  obtain p1 fl p2 w ap2 p3 pr ap3 p4 l where
    "parse_flags p 0 = (p1, fl)" "parse_width_prec p1 ap = Inr (p2, w, ap2)"
    "parse_prec p2 ap2 = Inr (p3, pr, ap3)" "parse_len p3 L_none = (p4, l)" "q = tl p4"
    using assms by (auto simp: parse_spec_def Let_def split: prod.splits)
  then show ?thesis
    using parse_flags_length [of p 0 p1 fl] parse_width_prec_length [of p1 ap p2] parse_prec_length [of p2 ap2 p3]
      parse_len_length [of p3 L_none p4 l] by simp
qed

lemma cur_nonempty:
  "cur p \<noteq> NUL \<Longrightarrow> 0 < length p" "cur p = CHR ''%'' \<Longrightarrow> 0 < length p"
  by (cases p; simp add: cur_def)+

function vsn_loop :: "(nat \<Rightarrow> char) \<Rightarrow> string \<Rightarrow> string \<Rightarrow> vst \<Rightarrow> vst res" where
  "vsn_loop junk fmt p st =
     (if cur p = NUL then Inr st
      else if cur p \<noteq> CHR ''%'' then
        vsn_loop junk fmt (tl p) (st\<lparr>v_out := out_putc (v_out st) (cur p)\<rparr>)
      else
        (case parse_spec fmt (tl p) (v_ap st) of
           Inl e \<Rightarrow> Inl e
         | Inr (f, q, ap) \<Rightarrow>
             if f_type f = NUL then Inr (st\<lparr>v_ap := ap\<rparr>)
             else (case convert junk f (st\<lparr>v_ap := ap\<rparr>) of
                     Inl e \<Rightarrow> Inl e
                   | Inr st \<Rightarrow> vsn_loop junk fmt q st)))"
  by pat_completeness auto
termination
  by (relation "measure (\<lambda>(junk, fmt, p, st). length p)")
    (auto dest!: parse_spec_length cur_nonempty intro: le_less_trans)

declare vsn_loop.simps [simp del]

definition vsnprintf ::
  "(nat \<Rightarrow> char) \<Rightarrow> (nat \<Rightarrow> char) \<Rightarrow> nat \<Rightarrow> string \<Rightarrow> arg list \<Rightarrow> (int \<times> (nat \<Rightarrow> char) \<times> (u64 \<times> nat \<times> u64) list) res" where
  "vsnprintf junk dst n fmt ap =
     bindE (vsn_loop junk fmt fmt \<lparr>v_out = out_init dst n, v_ap = ap, v_stores = []\<rparr>) (\<lambda>st.
       let out = out_terminate (v_out st)
       in Inr (signed_take_bit 31 (int (o_len out)), o_buf out, v_stores st))"

definition snprintf ::
  "(nat \<Rightarrow> char) \<Rightarrow> (nat \<Rightarrow> char) \<Rightarrow> nat \<Rightarrow> string \<Rightarrow> arg list \<Rightarrow> (int \<times> (nat \<Rightarrow> char) \<times> (u64 \<times> nat \<times> u64) list) res" where
  "snprintf junk dst n fmt ap = vsnprintf junk dst n fmt ap"

end
