(* ===== verification/Snprintf_Text.thy ===== *)
theory Snprintf_Text
  imports Snprintf
begin

text \<open>
  The formatter without its buffer: what text a call prints, with no destination, no capacity and no stack
  contents, written with the formatter's own parser and digits. The lemmas show that every function of the source that
  writes through \<open>out_t\<close> appends exactly this text, and \<open>place\<close> says what of a text
  ends up in a destination of a given size. Whether the text is the right one is the matter of \<open>Snprintf_Spec\<close>.
\<close>

section \<open>Appending to the output\<close>

definition puts :: "out_t \<Rightarrow> string \<Rightarrow> out_t" where
  "puts out s = foldl out_putc out s"

lemma puts_Nil [simp]: "puts out [] = out"
  by (simp add: puts_def)

lemma puts_Cons: "puts out (c # s) = puts (out_putc out c) s"
  by (simp add: puts_def)

lemma puts_puts [simp]: "puts (puts out s) t = puts out (s @ t)"
  by (simp add: puts_def)

lemma out_putc_puts: "out_putc out c = puts out [c]"
  by (simp add: puts_def)

lemma foldl_puts: "foldl (\<lambda>out i. out_putc out (g i)) out is = puts out (map g is)"
  by (induction "is" arbitrary: out) (simp_all add: puts_Cons)

lemma pad_puts: "pad out c k = puts out (replicate (nat k) c)"
  by (simp add: pad_def foldl_puts map_replicate_const)

lemma map_nth_upt: "n \<le> length s \<Longrightarrow> map ((!) s) [0..<n] = take n s"
  by (simp add: list_eq_iff_nth_eq)

lemma out_write_n_puts: "n \<le> length s \<Longrightarrow> out_write_n out s n = puts out (take n s)"
  by (simp add: out_write_n_def foldl_puts map_nth_upt)

lemma rev_upt_nth: "n \<le> length s \<Longrightarrow> map (\<lambda>i. s ! (n - 1 - i)) [0..<n] = rev (take n s)"
  by (auto simp: list_eq_iff_nth_eq rev_nth)

lemma foldl_rev_puts:
  "n \<le> length s \<Longrightarrow> foldl (\<lambda>out i. out_putc out (s ! (n - 1 - i))) out [0..<n] = puts out (rev (take n s))"
  by (simp only: foldl_puts rev_upt_nth)

definition sign_text :: "char \<Rightarrow> string" where
  "sign_text c = (if c \<noteq> NUL then [c] else [])"

lemma put_sign_puts: "put_sign out c = puts out (sign_text c)"
  by (simp add: put_sign_def sign_text_def out_putc_puts)

lemma length_sign_text [simp]: "int (length (sign_text c)) = sign_len c"
  by (simp add: sign_text_def sign_len_def)

text \<open>A field: the body, filled up to the width on the left or on the right.\<close>

definition field_text :: "fmt_t \<Rightarrow> char \<Rightarrow> string \<Rightarrow> string" where
  "field_text f c body =
     (let k = nat (f_width f) - length body
      in if has f F_LEFT then body @ replicate k CHR '' '' else replicate k c @ body)"

lemma pad_width:
  "(if w > int n then w - int n else 0) = int (nat w - n)"
  by auto

lemmas emit_puts = pad_puts out_putc_puts put_sign_puts

section \<open>What a destination receives\<close>

definition place :: "(nat \<Rightarrow> char) \<Rightarrow> nat \<Rightarrow> string \<Rightarrow> nat \<Rightarrow> char" where
  "place dst n s i =
     (if i < min (length s) (n - 1) then s ! i
      else if 2 \<le> n \<and> i = min (length s) (n - 1) then NUL else dst i)"

lemma out_putc_fields:
  "o_len (out_putc out c) = Suc (o_len out)" "o_cap (out_putc out c) = o_cap out"
  "o_buf (out_putc out c) i = (if i = o_len out \<and> i < o_cap out then c else o_buf out i)"
  by (auto simp: out_putc_def Let_def)

lemma puts_fields [simp]:
  "o_len (puts out s) = o_len out + length s" "o_cap (puts out s) = o_cap out"
  by (induction s arbitrary: out) (simp_all add: puts_Cons out_putc_fields)

lemma puts_buf:
  "o_buf (puts out s) i =
     (if o_len out \<le> i \<and> i < o_len out + length s \<and> i < o_cap out then s ! (i - o_len out) else o_buf out i)"
proof (induction s arbitrary: out)
  case (Cons c s)
  show ?case
  proof (cases "o_len out < i")
    case True
    then obtain k where "i = o_len out + Suc k" using less_imp_Suc_add by force
    then show ?thesis using Cons [of "out_putc out c"] by (simp add: puts_Cons out_putc_fields)
  next
    case False
    then show ?thesis using Cons [of "out_putc out c"] by (simp add: puts_Cons out_putc_fields)
  qed
qed auto

lemma out_terminate_place:
  "o_buf (out_terminate (puts (out_init dst n) s)) = place dst n s"
proof (rule ext)
  fix i
  have i: "o_buf (puts (out_init dst n) s) i = (if i < min (length s) (n - 1) then s ! i else dst i)"
    by (auto simp: puts_buf out_init_def)
  have e: "(if o_len (puts (out_init dst n) s) < o_cap (puts (out_init dst n) s)
      then o_len (puts (out_init dst n) s) else o_cap (puts (out_init dst n) s)) = min (length s) (n - 1)"
    "o_cap (puts (out_init dst n) s) = n - 1"
    by (simp_all add: out_init_def min_def)
  show "o_buf (out_terminate (puts (out_init dst n) s)) i = place dst n s i"
    unfolding out_terminate_def Let_def e(1) unfolding e(2) place_def using i by auto
qed

section \<open>The texts\<close>

definition num_body :: "fmt_t \<Rightarrow> string \<Rightarrow> char \<Rightarrow> string \<Rightarrow> string" where
  "num_body f digits sign_ch pre =
     (let minw = length digits + length pre + length (sign_text sign_ch);
          zeros = (if f_prec f \<ge> 0 then nat (f_prec f) - length digits
                   else if has f F_ZERO \<and> \<not> has f F_LEFT then nat (f_width f) - minw else 0)
      in sign_text sign_ch @ pre @ replicate zeros CHR ''0'' @ digits)"

definition num_text :: "fmt_t \<Rightarrow> string \<Rightarrow> char \<Rightarrow> string \<Rightarrow> string res" where
  "num_text f digits sign_ch pre =
     (let body = num_body f digits sign_ch pre
      in if int (length body) > INT_MAX then Inl Undefined else Inr (field_text f CHR '' '' body))"

definition alt_prefix :: "fmt_t \<Rightarrow> u64 \<Rightarrow> u64 \<Rightarrow> bool \<Rightarrow> string" where
  "alt_prefix f uval base upper =
     (if has f F_ALT \<and> uval \<noteq> 0 then
        (if base = 8 then ''0'' else if base = 16 then [CHR ''0'', if upper then CHR ''X'' else CHR ''x''] else [])
      else [])"

definition int_text :: "fmt_t \<Rightarrow> u64 \<Rightarrow> bool \<Rightarrow> u64 \<Rightarrow> bool \<Rightarrow> string res" where
  "int_text f uval neg base upper =
     bindE (utoa_rev 64 uval base upper) (\<lambda>tmp.
       num_text f (if f_prec f = 0 \<and> uval = 0 then [] else rev tmp) (sign_char f neg) (alt_prefix f uval base upper))"

lemma utoa_rev_zero: "utoa_rev k 0 base upper = Inr ''0''"
  by (simp add: utoa_rev_def)

lemma sign_len_nonneg [simp]: "0 \<le> sign_len c"
  by (simp add: sign_len_def)

lemma emit_int_text:
  "emit_int out f uval neg base upper = bindE (int_text f uval neg base upper) (\<lambda>s. Inr (puts out s))"
proof (cases "utoa_rev 64 uval base upper")
  case (Inr tmp)
  define ds where "ds = (if f_prec f = 0 \<and> uval = 0 then [] else rev tmp)"
  define n where "n = (if f_prec f = 0 \<and> uval = 0 then 0 else length tmp)"
  define sc where "sc = sign_char f neg"
  define pre where "pre = alt_prefix f uval base upper"
  define zeros where "zeros = (if f_prec f \<ge> 0 then (if int n < f_prec f then f_prec f - int n else 0)
      else if has f F_ZERO \<and> \<not> has f F_LEFT \<and> f_width f > 0 then
        (if int n + int (length pre) + sign_len sc < f_width f
         then f_width f - (int n + int (length pre) + sign_len sc) else 0) else 0)"
  have n: "n \<le> length tmp" "rev (take n tmp) = ds" "length ds = n" by (simp_all add: n_def ds_def)
  have z: "0 \<le> zeros" "nat zeros = (if f_prec f \<ge> 0 then nat (f_prec f) - length ds
      else if has f F_ZERO \<and> \<not> has f F_LEFT
        then nat (f_width f) - (length ds + length pre + length (sign_text sc)) else 0)"
    using n(3) length_sign_text [of sc] by (auto simp: zeros_def simp del: length_sign_text)
  define body where "body = sign_text sc @ pre @ replicate (nat zeros) CHR ''0'' @ ds"
  have b: "int n + zeros + int (length pre) + sign_len sc = int (length body)"
    using z(1) n(3) by (simp add: body_def)
  have "emit_int out f uval neg base upper =
      (if int (length body) > INT_MAX then Inl Undefined else Inr (puts out (field_text f CHR '' '' body)))"
    unfolding emit_int_def Inr bindE_simps Let_def n_def [symmetric] sc_def [symmetric]
      alt_prefix_def [symmetric] pre_def [symmetric]
    unfolding zeros_def [symmetric] foldl_rev_puts [OF n(1)] n(2)
    unfolding b pad_width emit_puts out_write_n_puts [OF le_refl] take_all [OF le_refl]
    by (simp add: field_text_def Let_def body_def)
  then show ?thesis
    unfolding int_text_def Inr bindE_simps ds_def [symmetric] sc_def [symmetric] pre_def [symmetric]
    unfolding num_text_def num_body_def Let_def z(2) [symmetric] body_def by simp
qed (simp add: emit_int_def int_text_def)

definition inf_nan_text :: "fmt_t \<Rightarrow> bool \<Rightarrow> bool \<Rightarrow> bool \<Rightarrow> string" where
  "inf_nan_text f neg upper is_nan =
     field_text f CHR '' '' (sign_text (sign_char f (neg \<and> \<not> is_nan)) @
       (if is_nan then (if upper then ''NAN'' else ''nan'') else (if upper then ''INF'' else ''inf'')))"

lemma emit_inf_nan_text: "emit_inf_nan out f neg upper is_nan = puts out (inf_nan_text f neg upper is_nan)"
proof -
  define s where "s = (if is_nan then (if upper then ''NAN'' else ''nan'') else (if upper then ''INF'' else ''inf''))"
  define sc where "sc = sign_char f (neg \<and> \<not> is_nan)"
  have s: "length s = 3" "cstr_len s = 3" by (simp_all add: s_def)
  have sc': "(if \<not> is_nan then sign_char f neg else sign_char f False) = sc" by (simp add: sc_def)
  have b: "int (cstr_len s) + sign_len sc = int (length (sign_text sc @ s))" using s by simp
  have "out_write_n o' s 3 = puts o' s" for o' using s by (simp add: out_write_n_puts)
  then show ?thesis
    unfolding emit_inf_nan_def Let_def sc' s_def [symmetric] b pad_width
    unfolding emit_puts inf_nan_text_def s_def [symmetric] sc_def [symmetric] field_text_def Let_def by simp
qed

definition float_text ::
  "(fmt_t \<Rightarrow> double \<Rightarrow> bool \<Rightarrow> string res) \<Rightarrow> fmt_t \<Rightarrow> double \<Rightarrow> bool \<Rightarrow> string res" where
  "float_text finite_text f x upper =
     (let neg = d_lt x D_0 in
      if fp_is_nan x then Inr (inf_nan_text f False upper True)
      else if fp_is_inf x then Inr (inf_nan_text f neg upper False)
      else finite_text f x upper)"

definition f_digits :: "nat \<Rightarrow> double \<Rightarrow> string res" where
  "f_digits prec x =
     bindE (d_to_u64 (d_add (d_mul x (fp_pow10 prec)) D_HALF)) (\<lambda>yi.
     bindE (d_to_u64 (fp_pow10 prec)) (\<lambda>ri.
     bindE (utoa_rev 32 (yi div ri) 10 False) (\<lambda>itmp.
       Inr (rev itmp @ (if prec > 0 then CHR ''.'' # frac_digits prec (yi - yi div ri * ri) else [])))))"

definition finite_f_text :: "fmt_t \<Rightarrow> double \<Rightarrow> bool \<Rightarrow> string res" where
  "finite_f_text f x upper =
     bindE (f_digits (clamp_prec f) (fp_abs x)) (\<lambda>ds.
       Inr (field_text f (float_pad f) (sign_text (sign_char f (d_lt x D_0)) @ ds)))"

lemma length_frac_digits [simp]: "length (frac_digits n v) = n"
  by (induction n arbitrary: v) auto

lemma emit_float_f_text:
  "emit_float_f out f x upper = bindE (float_text finite_f_text f x upper) (\<lambda>s. Inr (puts out s))"
proof -
  define prec where "prec = clamp_prec f"
  define sc where "sc = sign_char f (d_lt x D_0)"
  have body: "(let total = sign_len sc + int (length itmp) + (if prec > 0 then 1 else 0) + int prec;
      pad_len = (if f_width f > total then f_width f - total else 0);
      out = (if \<not> has f F_LEFT then pad out (float_pad f) pad_len else out);
      out = put_sign out sc;
      out = foldl (\<lambda>out i. out_putc out (itmp ! (length itmp - 1 - i))) out [0..<length itmp];
      out = (if prec > 0 then out_write_n (out_putc out CHR ''.'') (frac_digits prec v) prec else out)
    in (if has f F_LEFT then pad out CHR '' '' pad_len else out)) =
    puts out (field_text f (float_pad f)
      (sign_text sc @ rev itmp @ (if prec > 0 then CHR ''.'' # frac_digits prec v else [])))" for itmp v
  proof -
    have b: "sign_len sc + int (length itmp) + (if prec > 0 then 1 else 0) + int prec =
        int (length (sign_text sc @ rev itmp @ (if prec > 0 then CHR ''.'' # frac_digits prec v else [])))"
      by simp
    have "out_write_n o' (frac_digits prec v) prec = puts o' (frac_digits prec v)" for o'
      by (simp add: out_write_n_puts)
    then show ?thesis
      unfolding Let_def b pad_width foldl_rev_puts [OF le_refl] take_all [OF le_refl]
      unfolding emit_puts field_text_def Let_def by simp
  qed
  show ?thesis
    unfolding emit_float_f_def float_text_def finite_f_text_def f_digits_def Let_def
      prec_def [symmetric] sc_def [symmetric] emit_inf_nan_text bindE_assoc
    unfolding body [unfolded Let_def] by (simp add: bindE_assoc)
qed

definition e_digits :: "bool \<Rightarrow> nat \<Rightarrow> double \<Rightarrow> bool \<Rightarrow> string res" where
  "e_digits alt prec x upper =
     bindE (normalize x) (\<lambda>(x, exp10).
     bindE (d_to_u64 (d_add (d_mul x (fp_pow10 prec)) D_HALF)) (\<lambda>yi.
     bindE (d_to_u64 (fp_pow10 (prec + 1))) (\<lambda>lim.
     let (yi, exp10) = (if yi \<ge> lim then (yi div 10, exp10 + 1) else (yi, exp10)) in
     bindE (d_to_u64 (fp_pow10 prec)) (\<lambda>ri.
       Inr (digit_char (unat (yi div ri)) #
            (if prec > 0 \<or> alt then CHR ''.'' # frac_digits prec (yi - yi div ri * ri) else []) @
            exp_chars exp10 upper)))))"

definition finite_e_text :: "fmt_t \<Rightarrow> double \<Rightarrow> bool \<Rightarrow> string res" where
  "finite_e_text f x upper =
     bindE (e_digits (has f F_ALT) (clamp_prec f) (fp_abs x) upper) (\<lambda>ds.
       Inr (field_text f (float_pad f) (sign_text (sign_char f (d_lt x D_0)) @ ds)))"

lemma emit_float_e_text:
  "emit_float_e out f x upper = bindE (float_text finite_e_text f x upper) (\<lambda>s. Inr (puts out s))"
proof -
  define prec where "prec = clamp_prec f"
  define sc where "sc = sign_char f (d_lt x D_0)"
  have body: "(let total = sign_len sc + int (length mt) + int (length ebuf);
      pad_len = (if f_width f > total then f_width f - total else 0);
      out = (if \<not> has f F_LEFT then pad out (float_pad f) pad_len else out);
      out = put_sign out sc;
      out = out_write_n out mt (length mt);
      out = out_write_n out ebuf (length ebuf)
    in (if has f F_LEFT then pad out CHR '' '' pad_len else out)) =
    puts out (field_text f (float_pad f) (sign_text sc @ mt @ ebuf))" for mt ebuf
  proof -
    have b: "sign_len sc + int (length mt) + int (length ebuf) = int (length (sign_text sc @ mt @ ebuf))"
      by simp
    show ?thesis
      unfolding Let_def b pad_width out_write_n_puts [OF le_refl] take_all [OF le_refl]
      unfolding emit_puts field_text_def Let_def by simp
  qed
  show ?thesis
    unfolding emit_float_e_def float_text_def finite_e_text_def e_digits_def Let_def
      prec_def [symmetric] sc_def [symmetric] emit_inf_nan_text bindE_assoc
    unfolding body [unfolded Let_def] by (simp add: bindE_assoc split_def)
qed

text \<open>
  \<open>%g\<close> prints into a buffer of 128 bytes first; only what precedes the terminator is used, so
  what the buffer held before does not matter.
\<close>

definition g_inner :: "fmt_t \<Rightarrow> double \<Rightarrow> bool \<Rightarrow> string res" where
  "g_inner f x upper =
     (let prec = (if f_prec f \<ge> 0 then f_prec f else 6);
          prec = (if prec = 0 then 1 else prec);
          ax = fp_abs x;
          sx = (if d_lt x D_0 then d_neg ax else ax)
      in bindE (normalize ax) (\<lambda>(y, exp10).
           if exp10 < - 4 \<or> exp10 \<ge> prec
           then float_text finite_e_text (f\<lparr>f_prec := prec - 1\<rparr>) sx upper
           else float_text finite_f_text
                  (f\<lparr>f_prec := (let frac = prec - (if exp10 \<ge> 0 then exp10 + 1 else 1) in if frac < 0 then 0 else frac)\<rparr>)
                  sx upper))"

definition g_trim :: "fmt_t \<Rightarrow> string \<Rightarrow> string" where
  "g_trim f s =
     (let b = take 127 s; n = cstr_len b
      in take (if has f F_ALT then n else trim_trailing_zeros b n) b)"

definition finite_g_text :: "fmt_t \<Rightarrow> double \<Rightarrow> bool \<Rightarrow> string res" where
  "finite_g_text f x upper =
     bindE (g_inner f x upper) (\<lambda>s. Inr (field_text f CHR '' '' (g_trim f s)))"

lemma cstr_len_le [simp]: "cstr_len s \<le> length s"
  by (induction s) auto

lemma cstr_len_append: "cstr_len (s @ NUL # t) = cstr_len s"
  by (induction s) auto

lemma trim_loop_le: "trim_loop buf dot n \<le> n"
  by (induction n) auto

lemma trim_loop_cong: "(\<And>i. i < n \<Longrightarrow> b ! i = b' ! i) \<Longrightarrow> trim_loop b dot n = trim_loop b' dot n"
  by (induction n) auto

lemma trim_trailing_zeros_le: "trim_trailing_zeros b n \<le> n"
  using trim_loop_le [of b _ n] by (auto simp: trim_trailing_zeros_def Let_def split: option.splits intro: le_trans [OF diff_le_self])

lemma trim_trailing_zeros_append:
  assumes "n \<le> length s" shows "trim_trailing_zeros (s @ t) n = trim_trailing_zeros s n"
proof -
  have t: "take n (s @ t) = take n s" using assms by simp
  have l: "trim_loop (s @ t) dot n = trim_loop s dot n" for dot
    using assms by (intro trim_loop_cong) (simp add: nth_append)
  have "(s @ t) ! (trim_loop s dot n - 1) = s ! (trim_loop s dot n - 1)" if "trim_loop s dot n > 0" for dot
  proof -
    have "trim_loop s dot n - 1 < length s" using that trim_loop_le [of s dot n] assms by linarith
    then show ?thesis by (simp add: nth_append)
  qed
  then show ?thesis unfolding trim_trailing_zeros_def t l Let_def by (auto split: option.splits)
qed

lemma buf_list:
  "map (o_buf (out_terminate (puts ((out_init junk 128)\<lparr>o_cap := 127\<rparr>) s))) [0..<128] =
   take 127 s @ NUL # map junk [Suc (min (length s) 127)..<128]"
proof -
  have "(out_init junk 128)\<lparr>o_cap := 127\<rparr> = out_init junk 128" by (simp add: out_init_def)
  moreover have "map (place junk 128 s) [0..<128] = take 127 s @ NUL # map junk [Suc (min (length s) 127)..<128]"
    by (rule nth_equalityI) (auto simp: place_def nth_append nth_Cons min_def split: nat.splits intro!: arg_cong [where f = junk])
  ultimately show ?thesis by (simp only: out_terminate_place)
qed

lemma emit_float_g_text:
  "emit_float_g junk out f x upper = bindE (float_text finite_g_text f x upper) (\<lambda>s. Inr (puts out s))"
proof -
  have tail: "(let buf = map (o_buf (out_terminate (puts ((out_init junk 128)\<lparr>o_cap := 127\<rparr>) s))) [0..<128];
        n = cstr_len buf;
        n = (if \<not> has f F_ALT then trim_trailing_zeros buf n else n);
        pad_len = (if int n < f_width f then f_width f - int n else 0);
        out = (if \<not> has f F_LEFT then pad out CHR '' '' pad_len else out);
        out = out_write_n out buf n
      in (if has f F_LEFT then pad out CHR '' '' pad_len else out)) =
      puts out (field_text f CHR '' '' (g_trim f s))" for s
  proof -
    define b where "b = take 127 s"
    define t where "t = NUL # map junk [Suc (min (length s) 127)..<128]"
    define n where "n = (if \<not> has f F_ALT then trim_trailing_zeros b (cstr_len b) else cstr_len b)"
    have buf: "map (o_buf (out_terminate (puts ((out_init junk 128)\<lparr>o_cap := 127\<rparr>) s))) [0..<128] = b @ t"
      unfolding b_def t_def by (rule buf_list)
    have c: "cstr_len (b @ t) = cstr_len b" by (simp add: t_def cstr_len_append)
    have n: "(if \<not> has f F_ALT then trim_trailing_zeros (b @ t) (cstr_len b) else cstr_len b) = n" "n \<le> length b"
      using trim_trailing_zeros_le [of b "cstr_len b"] cstr_len_le [of b]
      by (auto simp: n_def trim_trailing_zeros_append intro: le_trans)
    have g: "g_trim f s = take n b" by (simp add: g_trim_def Let_def b_def n_def)
    have k: "n = length (take n b)" "take n (b @ t) = take n b" using n(2) by simp_all
    have "out_write_n o' (b @ t) n = puts o' (take n b)" for o' using n(2) by (simp add: out_write_n_puts)
    then show ?thesis
      unfolding Let_def buf c n(1) pad_width g emit_puts field_text_def using k(1) by simp
  qed
  show ?thesis
    unfolding emit_float_g_def float_text_def [of finite_g_text] finite_g_text_def g_inner_def
      emit_float_e_text emit_float_f_text emit_inf_nan_text Let_def bindE_assoc split_def
    unfolding if_distrib [where f = "\<lambda>m. bindE m _"] bindE_assoc bindE_simps tail [unfolded Let_def]
    by (simp add: bindE_assoc if_distrib [where f = "\<lambda>m. bindE m _"] cong: if_cong)
qed

section \<open>The text of a call\<close>

type_synonym stores = "(u64 \<times> nat \<times> u64) list"

text \<open>The text of one conversion, the arguments left, and the stores of \<open>%n\<close> after \<open>len\<close> characters.\<close>

definition str_text :: "fmt_t \<Rightarrow> string option \<Rightarrow> string res" where
  "str_text f so =
     (let s = (case so of None \<Rightarrow> ''(null)'' | Some s \<Rightarrow> s);
          s = take (cstr_len s) s;
          s = (if f_prec f \<ge> 0 then take (nat (f_prec f)) s else s);
          k = f_width f - signed_take_bit 31 (int (length s))
      in if k > INT_MAX then Inl Undefined
         else Inr (if has f F_LEFT then s @ replicate (nat k) CHR '' '' else replicate (nat k) CHR '' '' @ s))"

definition with_text :: "(string res \<times> arg list) \<Rightarrow> (string \<times> arg list \<times> stores) res" where
  "with_text r = bindE (fst r) (\<lambda>s. Inr (s, snd r, []))"

definition conv_text :: "fmt_t \<Rightarrow> nat \<Rightarrow> arg list \<Rightarrow> (string \<times> arg list \<times> stores) res" where
  "conv_text f len ap =
     (let t = f_type f;
          num = (\<lambda>base upper. bindE (get_uint_arg ap (f_len f)) (\<lambda>(u, ap).
                   with_text (int_text (no_zero_prec f) u False base upper, ap)));
          flt = (\<lambda>text upper. bindE (va_double ap) (\<lambda>(x, ap). with_text (float_text text f x upper, ap)))
      in
      if t = CHR ''%'' then Inr (''%'', ap, [])
      else if t = CHR ''c'' then
        bindE (va_int ap) (\<lambda>(w, ap). Inr (field_text f CHR '' '' [char_of (unat (ucast w :: u8))], ap, []))
      else if t = CHR ''s'' then bindE (va_str ap) (\<lambda>(so, ap). with_text (str_text f so, ap))
      else if t = CHR ''d'' \<or> t = CHR ''i'' then
        bindE (get_int_arg ap (f_len f)) (\<lambda>(v, ap).
          with_text (if sint v = INT64_MIN then Inl Undefined
                     else int_text (no_zero_prec f) (if sint v < 0 then - v else v) (sint v < 0) 10 False, ap))
      else if t = CHR ''u'' then num 10 False
      else if t = CHR ''o'' then num 8 False
      else if t = CHR ''x'' \<or> t = CHR ''X'' then num 16 (t = CHR ''X'')
      else if t = CHR ''p'' then
        bindE (va_ptr ap) (\<lambda>(pt, ap).
          with_text (int_text (f\<lparr>f_prec := 16, f_flags := (f_flags f OR F_ALT) AND NOT (F_SIGN OR F_SP)\<rparr>)
                       pt False 16 False, ap))
      else if t = CHR ''n'' then
        bindE (va_ptr ap) (\<lambda>(p, ap). Inr ([], ap, [(p, store_width (f_len f), of_nat len)]))
      else if t = CHR ''f'' \<or> t = CHR ''F'' then flt finite_f_text (t = CHR ''F'')
      else if t = CHR ''e'' \<or> t = CHR ''E'' then flt finite_e_text (t = CHR ''E'')
      else if t = CHR ''g'' \<or> t = CHR ''G'' then flt finite_g_text (t = CHR ''G'')
      else Inr ([CHR ''%'', t], ap, []))"

function vsn_text :: "string \<Rightarrow> string \<Rightarrow> nat \<Rightarrow> arg list \<Rightarrow> (string \<times> arg list \<times> stores) res" where
  "vsn_text fmt p len ap =
     (if cur p = NUL then Inr ([], ap, [])
      else if cur p \<noteq> CHR ''%'' then
        bindE (vsn_text fmt (tl p) (len + 1) ap) (\<lambda>(s, ap, ws). Inr (cur p # s, ap, ws))
      else
        (case parse_spec fmt (tl p) ap of
           Inl e \<Rightarrow> Inl e
         | Inr (f, q, ap) \<Rightarrow>
             if f_type f = NUL then Inr ([], ap, [])
             else (case conv_text f len ap of
                     Inl e \<Rightarrow> Inl e
                   | Inr (t, ap, ws) \<Rightarrow>
                       bindE (vsn_text fmt q (len + length t) ap)
                         (\<lambda>(s, ap, ws'). Inr (t @ s, ap, ws @ ws')))))"
  by pat_completeness auto
termination
  by (relation "measure (\<lambda>(fmt, p, len, ap). length p)")
    (auto dest!: parse_spec_length cur_nonempty intro: le_less_trans)

declare vsn_text.simps [simp del]

definition format_text :: "string \<Rightarrow> arg list \<Rightarrow> (string \<times> stores) res" where
  "format_text fmt ap = bindE (vsn_text fmt fmt 0 ap) (\<lambda>(s, ap, ws). Inr (s, ws))"

text \<open>A state with a text appended.\<close>

definition emitted :: "vst \<Rightarrow> string \<times> arg list \<times> stores \<Rightarrow> vst res" where
  "emitted st r = (case r of (s, ap, ws) \<Rightarrow>
     Inr (st\<lparr>v_out := puts (v_out st) s, v_ap := ap, v_stores := v_stores st @ ws\<rparr>))"

lemma emitted_simps [simp]:
  "emitted st (s, ap, ws) = Inr (st\<lparr>v_out := puts (v_out st) s, v_ap := ap, v_stores := v_stores st @ ws\<rparr>)"
  by (simp add: emitted_def)

lemma bindE_with_text: "bindE (with_text (r, ap)) g = bindE r (\<lambda>s. g (s, ap, []))"
  by (cases r) (simp_all add: with_text_def)

lemma conv_s_text:
  "conv_s f st = bindE (va_str (v_ap st)) (\<lambda>(so, ap). bindE (str_text f so) (\<lambda>s. emitted st (s, ap, [])))"
proof -
  have "(let s = (case so of None \<Rightarrow> ''(null)'' | Some s \<Rightarrow> s);
           sl = cstr_len s;
           sl = (if f_prec f \<ge> 0 \<and> nat (f_prec f) < sl then nat (f_prec f) else sl);
           isl = signed_take_bit 31 (int sl);
           pad_len = (if f_width f > isl then f_width f - isl else 0);
           out = v_out st;
           out = (if \<not> has f F_LEFT then pad out CHR '' '' pad_len else out);
           out = out_write_n out s sl;
           out = (if has f F_LEFT then pad out CHR '' '' pad_len else out)
         in if pad_len > INT_MAX then Inl Undefined else Inr (st\<lparr>v_out := out, v_ap := ap\<rparr>)) =
       bindE (str_text f so) (\<lambda>s. emitted st (s, ap, []))" for so ap
  proof -
    define s where "s = (case so of None \<Rightarrow> ''(null)'' | Some s \<Rightarrow> s)"
    define n where "n = (if f_prec f \<ge> 0 \<and> nat (f_prec f) < cstr_len s then nat (f_prec f) else cstr_len s)"
    define k where "k = f_width f - signed_take_bit 31 (int n)"
    have "n \<le> cstr_len s" by (simp add: n_def)
    then have n: "n \<le> length s" by (rule le_trans) simp
    have t: "(if f_prec f \<ge> 0 then take (nat (f_prec f)) (take (cstr_len s) s) else take (cstr_len s) s) = take n s"
      by (auto simp: n_def min_def)
    have l: "length (take n s) = n" using n by simp
    have w: "out_write_n o' s n = puts o' (take n s)" for o' using n by (rule out_write_n_puts)
    have p: "(if f_width f > signed_take_bit 31 (int n) then k else 0) = (if k > 0 then k else 0)" by (simp add: k_def)
    have q: "(if k > 0 then k else 0) > INT_MAX \<longleftrightarrow> k > INT_MAX" "nat (if k > 0 then k else 0) = nat k"
      by (simp_all add: INT_MAX_def)
    show ?thesis
      unfolding Let_def str_text_def s_def [symmetric] n_def [symmetric] t l k_def [symmetric] p emit_puts w q
      by (simp add: emitted_def)
  qed
  then show ?thesis unfolding conv_s_def Let_def by (auto intro!: arg_cong [where f = "bindE _"] ext)
qed

lemma conv_c_text:
  "conv_c f st = bindE (va_int (v_ap st)) (\<lambda>(w, ap). emitted st (field_text f CHR '' '' [char_of (unat (ucast w :: u8))], ap, []))"
proof -
  have "(if f_width f > 1 then f_width f - 1 else 0) = int (nat (f_width f) - length [c])" for c :: char by simp
  then show ?thesis
    unfolding conv_c_def Let_def emit_puts field_text_def
    by (auto intro!: arg_cong [where f = "bindE _"] ext simp: nat_diff_distrib')
qed

lemma convert_text:
  "convert junk f st = bindE (conv_text f (o_len (v_out st)) (v_ap st)) (emitted st)"
  unfolding convert_def conv_text_def Let_def
  by (simp add: conv_s_text conv_c_text conv_d_def conv_u_def conv_p_def conv_n_def conv_float_def emit_int_text
      emit_float_f_text emit_float_e_text emit_float_g_text bindE_assoc bindE_with_text split_def Let_def
      out_putc_puts if_distrib [where f = "\<lambda>m. bindE m _"] cong: if_cong)

lemma vsn_loop_text:
  "vsn_loop junk fmt p st = bindE (vsn_text fmt p (o_len (v_out st)) (v_ap st)) (emitted st)"
proof (induction junk fmt p st rule: vsn_loop.induct)
  case (1 junk fmt p st)
  show ?case
  proof (cases "cur p = NUL \<or> cur p \<noteq> CHR ''%''")
    case True
    then show ?thesis
      using 1(1) by (subst vsn_loop.simps, subst vsn_text.simps)
        (auto simp: bindE_assoc split_def out_putc_puts puts_fields intro!: arg_cong [where f = "bindE _"] ext)
  next
    case False
    then have c: "cur p = CHR ''%''" "cur p \<noteq> NUL" by auto
    show ?thesis
    proof (cases "parse_spec fmt (tl p) (v_ap st)")
      case (Inl e)
      then show ?thesis by (subst vsn_loop.simps, subst vsn_text.simps) (simp add: c)
    next
      case (Inr r)
      obtain f q ap where r: "parse_spec fmt (tl p) (v_ap st) = Inr (f, q, ap)" using Inr by (cases r) auto
      show ?thesis
      proof (cases "f_type f = NUL")
        case True
        then show ?thesis by (subst vsn_loop.simps, subst vsn_text.simps) (simp add: c r)
      next
        case False
        show ?thesis
        proof (cases "conv_text f (o_len (v_out st)) ap")
          case (Inl e)
          then show ?thesis
            using False by (subst vsn_loop.simps, subst vsn_text.simps) (simp add: c r convert_text)
        next
          case (Inr t)
          then obtain s ap' ws where t: "conv_text f (o_len (v_out st)) ap = Inr (s, ap', ws)" by (cases t) auto
          define st' where "st' = st\<lparr>v_ap := ap', v_out := puts (v_out st) s, v_stores := v_stores st @ ws\<rparr>"
          have cv: "convert junk f (st\<lparr>v_ap := ap\<rparr>) = Inr st'" using t by (simp add: convert_text st'_def)
          have "vsn_loop junk fmt q st' = bindE (vsn_text fmt q (o_len (v_out st')) (v_ap st')) (emitted st')"
            using 1(2) c r cv False by simp
          then show ?thesis
            using False by (subst vsn_loop.simps, subst vsn_text.simps)
              (auto simp: c r cv t st'_def bindE_assoc split_def emitted_def intro!: arg_cong [where f = "bindE _"] ext)
        qed
      qed
    qed
  qed
qed

lemma vsnprintf_format_text:
  "vsnprintf junk dst n fmt ap =
     bindE (format_text fmt ap) (\<lambda>(s, ws). Inr (signed_take_bit 31 (int (length s)), place dst n s, ws))"
proof -
  have l: "o_len (out_terminate out) = o_len out" for out by (simp add: out_terminate_def Let_def)
  have z: "o_len (out_init dst n) = 0" by (simp add: out_init_def)
  show ?thesis
    unfolding vsnprintf_def vsn_loop_text format_text_def bindE_assoc Let_def l
    by (auto simp: emitted_def split_def out_terminate_place z intro!: arg_cong [where f = "bindE _"] ext)
qed

end
