(* ===== verification/Snprintf_Props.thy ===== *)
theory Snprintf_Props
  imports Snprintf_Text
begin

text \<open>
  Properties of the formatter: it writes only inside the destination and terminates what it leaves there, the numbers
  it prints read back as the arguments, and where its \<open>%g\<close> goes wrong.
\<close>

section \<open>Digits\<close>

definition digit_val :: "char \<Rightarrow> nat" where
  "digit_val c = (let n = of_char c in if n < 58 then n - 48 else n - 87)"

definition read_nat :: "nat \<Rightarrow> string \<Rightarrow> nat" where
  "read_nat base s = foldl (\<lambda>a c. a * base + digit_val c) 0 s"

definition read_int :: "string \<Rightarrow> int" where
  "read_int s = (case s of [] \<Rightarrow> 0
     | c # t \<Rightarrow> if c = CHR ''-'' then - int (read_nat 10 t) else int (read_nat 10 s))"

lemma read_nat_snoc: "read_nat base (s @ [c]) = read_nat base s * base + digit_val c"
  by (simp add: read_nat_def)

lemma digs_l_val: "d < 16 \<Longrightarrow> digit_val (digs_l ! d) = d \<and> digs_l ! d \<noteq> CHR ''-''"
proof -
  have "\<forall>d \<in> set [0..<16]. digit_val (digs_l ! d) = d \<and> digs_l ! d \<noteq> CHR ''-''" by code_simp
  then show "d < 16 \<Longrightarrow> digit_val (digs_l ! d) = d \<and> digs_l ! d \<noteq> CHR ''-''" by simp
qed

lemma utoa_loop_value:
  assumes "unat v < unat base ^ room" "2 \<le> unat base" "unat base \<le> 16"
  shows "\<exists>ds. utoa_loop room v base digs_l = Inr ds \<and> read_nat (unat base) (rev ds) = unat v \<and>
    CHR ''-'' \<notin> set ds \<and> (v \<noteq> 0 \<longrightarrow> ds \<noteq> []) \<and> (\<forall>k. unat v < unat base ^ k \<longrightarrow> length ds \<le> k)"
  using assms
proof (induction room arbitrary: v)
  case 0
  then have "v = 0" by (simp add: unat_eq_zero)
  then show ?case by (simp add: read_nat_def)
next
  case (Suc room)
  show ?case
  proof (cases "v = 0")
    case True
    then show ?thesis by (simp add: read_nat_def)
  next
    case False
    have dv: "unat (v div base) = unat v div unat base" "unat (v mod base) = unat v mod unat base"
      by (simp_all add: unat_div unat_mod)
    have "unat (v div base) < unat base ^ room"
      using Suc.prems unfolding dv by (simp add: less_mult_imp_div_less mult.commute)
    then obtain ds where ds: "utoa_loop room (v div base) base digs_l = Inr ds"
      "read_nat (unat base) (rev ds) = unat (v div base)" "CHR ''-'' \<notin> set ds"
      "\<And>k. unat (v div base) < unat base ^ k \<Longrightarrow> length ds \<le> k"
      using Suc.IH Suc.prems(2,3) by blast
    have len: "Suc (length ds) \<le> k" if "unat v < unat base ^ k" for k
    proof (cases k)
      case 0
      then show ?thesis using that False by (simp add: unat_eq_zero)
    next
      case (Suc j)
      then have "unat (v div base) < unat base ^ j" using that unfolding dv by (simp add: less_mult_imp_div_less mult.commute)
      then show ?thesis using ds(4) Suc by simp
    qed
    have "unat (v mod base) < 16" unfolding dv using Suc.prems(2,3) by (intro less_le_trans [OF mod_less_divisor]) simp_all
    note d = digs_l_val [OF this]
    have "unat v div unat base * unat base + unat v mod unat base = unat v" by simp
    then have "read_nat (unat base) (rev (digs_l ! unat (v mod base) # ds)) = unat v"
      using ds(2) d by (simp add: read_nat_snoc dv)
    then show ?thesis using False ds(1,3) d len by (auto simp: Let_def)
  qed
qed

lemma utoa_rev_value:
  assumes "2 ^ 64 \<le> unat base ^ room" "2 \<le> unat base" "unat base \<le> 16"
  obtains ds where "utoa_rev room v base False = Inr ds" "read_nat (unat base) (rev ds) = unat v"
    "CHR ''-'' \<notin> set ds" "ds \<noteq> []" "\<And>k. 2 ^ 64 \<le> unat base ^ k \<Longrightarrow> length ds \<le> k"
proof (cases "v = 0")
  case True
  have "1 \<le> k" if "2 ^ 64 \<le> unat base ^ k" for k using that by (cases k) simp_all
  then show thesis using True that [of "''0''"] by (simp add: utoa_rev_def read_nat_def digit_val_def)
next
  case False
  have v: "unat v < unat base ^ k" if "2 ^ 64 \<le> unat base ^ k" for k using that unsigned_less [of v, where 'a = nat] by simp
  then show thesis using utoa_loop_value [OF v [OF assms(1)] assms(2,3)] False that by (auto simp: utoa_rev_def)
qed

lemma abs_sint: "int (unat (if sint v < 0 then - v else v :: u64)) = (if sint v < 0 then - sint v else sint v)"
proof (cases "sint v < 0")
  case True
  then have "v \<noteq> 0" "uint v \<ge> 2 ^ 63" by (auto simp: sint_cases_u64 split: if_splits)
  then show ?thesis using True by (simp add: sint_cases_u64 uint_word_ariths zmod_zminus1_eq_if)
next
  case False
  then show ?thesis using uint_lt2p [of v] by (auto simp: sint_cases_u64 split: if_splits)
qed

text \<open>The specification with no flags, width or precision.\<close>

definition plain :: "len_t \<Rightarrow> char \<Rightarrow> fmt_t" where
  "plain l t = \<lparr>f_flags = 0, f_width = - 1, f_prec = - 1, f_len = l, f_type = t\<rparr>"

lemma plain_fields [simp]: "f_type (plain l t) = t" "f_len (plain l t) = l"
  by (simp_all add: plain_def)

lemma plain_has [simp]: "\<not> has (plain l t) b"
  by (simp add: has_def plain_def)

lemma plain_num_text: "length ds \<le> 64 \<Longrightarrow> num_text (plain l t) ds sc [] = Inr (sign_text sc @ ds)"
  by (simp add: num_text_def num_body_def field_text_def INT_MAX_def Let_def) (simp add: plain_def sign_text_def)

lemma plain_int_text:
  assumes "utoa_rev 64 u base False = Inr tmp" "length tmp \<le> 64"
  shows "int_text (plain l t) u neg base False = Inr ((if neg then ''-'' else []) @ rev tmp)"
proof -
  have "alt_prefix (plain l t) u base False = []" by (simp add: alt_prefix_def)
  moreover have "f_prec (plain l t) \<noteq> 0" by (simp add: plain_def)
  ultimately show ?thesis
    using assms by (simp add: int_text_def plain_num_text sign_char_def sign_text_def)
qed

lemma plain_spec:
  "t \<in> {CHR ''d'', CHR ''u'', CHR ''x'', CHR ''o''} \<Longrightarrow>
   parse_spec [CHR ''%'', CHR ''l'', t] [CHR ''l'', t] ap = Inr (plain L_l t, [], ap)"
  by (auto simp: parse_spec_def parse_width_prec_def parse_prec_def parse_len_def cur_def is_digit_def
      plain_def Let_def prev_char_def)

lemma plain_no_zero [simp]: "no_zero_prec (plain l t) = plain l t"
  by (simp add: no_zero_prec_def plain_def)

lemma format_text_single:
  assumes "t \<in> {CHR ''d'', CHR ''u'', CHR ''x'', CHR ''o''}"
  shows "format_text [CHR ''%'', CHR ''l'', t] ap = bindE (conv_text (plain L_l t) 0 ap) (\<lambda>(s, ap, ws). Inr (s, ws))"
proof -
  have "vsn_text fmt [] len ap' = Inr ([], ap', [])" for fmt len ap' by (subst vsn_text.simps) (simp add: cur_def)
  moreover have "f_type (plain L_l t) \<noteq> NUL" using assms by (auto simp: plain_def)
  ultimately show ?thesis
    unfolding format_text_def using plain_spec [OF assms, of ap]
    by (subst vsn_text.simps) (auto simp: cur_def split: sum.splits prod.splits)
qed

section \<open>Properties\<close>

text \<open>
  C33: \<open>snprintf\<close> never writes at or behind \<open>dst + n\<close>, and for \<open>n\<close> of at least 2 what it leaves is
  a terminated string within the destination.
\<close>
theorem snprintf_bounds:
  assumes "snprintf junk dst n fmt ap = Inr (r, buf, ws)"
  shows "(\<forall>i \<ge> n. buf i = dst i) \<and> (2 \<le> n \<longrightarrow> (\<exists>i < n. buf i = NUL))"
proof -
  obtain s where buf: "buf = place dst n s"
    using assms by (auto simp: snprintf_def vsnprintf_format_text)
  have "buf (min (length s) (n - 1)) = NUL \<and> min (length s) (n - 1) < n" if "2 \<le> n"
    using that by (auto simp: buf place_def min_def)
  moreover have "buf i = dst i" if "n \<le> i" for i
    using that by (auto simp: buf place_def)
  ultimately show ?thesis by blast
qed

lemma snprintf_demo:
  "\<exists>buf ws. snprintf (\<lambda>_. NUL) (\<lambda>_. CHR ''?'') 4 ''hello'' [] = Inr (5, buf, ws)"
proof -
  have "format_text ''hello'' [] = Inr (''hello'', [])" by code_simp
  then show ?thesis by (simp add: snprintf_def vsnprintf_format_text)
qed

theorem snprintf_bounds_witness:
  "\<exists>buf ws. snprintf (\<lambda>_. NUL) (\<lambda>_. CHR ''?'') 4 ''hello'' [] = Inr (5, buf, ws) \<and> buf 4 = CHR ''?'' \<and>
     (\<exists>i < 4. buf i = NUL)"
proof -
  obtain buf ws where b: "snprintf (\<lambda>_. NUL) (\<lambda>_. CHR ''?'') 4 ''hello'' [] = Inr (5, buf, ws)"
    using snprintf_demo by blast
  then show ?thesis using snprintf_bounds [OF b] by auto
qed

text \<open>
  The digits of a 64-bit number in base 8, 10 or 16 are at most 22, and 20 in base 10.
\<close>

lemma number_digits:
  assumes "base = 8 \<or> base = 10 \<or> base = (16 :: u64)"
  obtains ds where "utoa_rev 64 w base False = Inr ds" "read_nat (unat base) (rev ds) = unat w"
    "CHR ''-'' \<notin> set ds" "ds \<noteq> []" "length ds \<le> 22" "base = 10 \<longrightarrow> length ds \<le> 20"
proof -
  have "2 ^ 64 \<le> unat base ^ 22" "2 ^ 64 \<le> unat base ^ 64" "base = 10 \<longrightarrow> 2 ^ 64 \<le> unat base ^ 20"
    "2 \<le> unat base" "unat base \<le> 16"
    using assms by auto
  then show thesis using that utoa_rev_value [of base 64 w] by metis
qed

lemma unsigned_text:
  assumes "(t, base) \<in> {(CHR ''u'', 10), (CHR ''x'', 16), (CHR ''o'', 8 :: u64)}"
  obtains s where "format_text [CHR ''%'', CHR ''l'', t] [AInt v] = Inr (s, [])" "read_nat (unat base) s = unat v" "length s \<le> 22"
proof -
  have b: "base = 8 \<or> base = 10 \<or> base = 16" using assms by auto
  obtain ds where ds: "utoa_rev 64 v base False = Inr ds" "read_nat (unat base) (rev ds) = unat v" "length ds \<le> 22"
    by (rule number_digits [OF b, of v])
  have "format_text [CHR ''%'', CHR ''l'', t] [AInt v] = Inr (rev ds, [])"
    using assms ds(1,3) by (auto simp: format_text_single conv_text_def get_uint_arg_def va_int_def with_text_def plain_int_text Let_def)
  then show thesis using that ds(2,3) by simp
qed

lemma signed_text:
  assumes "sint v \<noteq> INT64_MIN"
  obtains s where "format_text ''%ld'' [AInt v] = Inr (s, [])" "read_int s = sint v" "length s \<le> 22"
proof -
  define w where "w = (if sint v < 0 then - v else v)"
  obtain ds where ds: "utoa_rev 64 w 10 False = Inr ds" "read_nat 10 (rev ds) = unat w" "CHR ''-'' \<notin> set ds" "ds \<noteq> []"
    "length ds \<le> 20"
    by (rule number_digits [of 10 w]) auto
  have "format_text ''%ld'' [AInt v] = Inr ((if sint v < 0 then ''-'' else []) @ rev ds, [])"
    using ds(1,5) assms by (simp add: format_text_single conv_text_def get_int_arg_def va_int_def with_text_def
        plain_int_text w_def Let_def)
  moreover have "read_int ((if sint v < 0 then ''-'' else []) @ rev ds) = sint v"
  proof (cases "sint v < 0")
    case True
    then show ?thesis using ds(2) abs_sint [of v] by (simp add: read_int_def w_def)
  next
    case False
    obtain c t where c: "rev ds = c # t" "c \<noteq> CHR ''-''"
      using ds(3,4) by (cases "rev ds") (auto simp: rev_eq_Cons_iff)
    then show ?thesis using False ds(2) abs_sint [of v] by (simp add: read_int_def w_def)
  qed
  ultimately show thesis using that ds(5) by simp
qed

text \<open>The call returns a length below \<open>n\<close>, the buffer has a terminator there, and the characters in front of it satisfy \<open>P\<close>.\<close>

definition leaves_string :: "(nat \<Rightarrow> char) \<Rightarrow> (nat \<Rightarrow> char) \<Rightarrow> nat \<Rightarrow> string \<Rightarrow> arg list \<Rightarrow> (string \<Rightarrow> bool) \<Rightarrow> bool" where
  "leaves_string junk dst n fmt ap P \<longleftrightarrow>
     (\<exists>r buf. snprintf junk dst n fmt ap = Inr (int r, buf, []) \<and> r < n \<and> buf r = NUL \<and> P (map buf [0..<r]))"

lemma leaves_string_text:
  assumes "format_text fmt ap = Inr (s, [])" "P s" "length s \<le> 22" "23 \<le> n"
  shows "leaves_string junk dst n fmt ap P"
proof -
  have "signed_take_bit 31 (int (length s)) = int (length s)"
    using assms(3) by (intro signed_take_bit_int_eq_self) simp_all
  then have "snprintf junk dst n fmt ap = Inr (int (length s), place dst n s, [])"
    using assms(1) by (simp add: snprintf_def vsnprintf_format_text)
  moreover have "place dst n s (length s) = NUL" using assms(3,4) by (auto simp: place_def min_def)
  moreover have "map (place dst n s) [0..<length s] = s"
    using assms(3,4) by (intro nth_equalityI) (auto simp: place_def min_def)
  ultimately show ?thesis using assms by (auto simp: leaves_string_def intro!: exI [of _ "length s"])
qed

text \<open>
  C34: what \<open>snprintf\<close> leaves in a buffer of at least 23 characters for \<open>%ld\<close>, \<open>%lu\<close>, \<open>%lx\<close> and \<open>%lo\<close> and a 64-bit argument
  is a terminated string that reads back as that argument: signed decimal, decimal, hexadecimal and octal. The least signed
  number is excluded, which \<open>%ld\<close> negates with an overflow.
\<close>
theorem integers_print_read:
  assumes "23 \<le> n"
  shows "(sint v \<noteq> - (2 ^ 63) \<longrightarrow> leaves_string junk dst n ''%ld'' [AInt v] (\<lambda>s. read_int s = sint v)) \<and>
    leaves_string junk dst n ''%lu'' [AInt v] (\<lambda>s. read_nat 10 s = unat v) \<and>
    leaves_string junk dst n ''%lx'' [AInt v] (\<lambda>s. read_nat 16 s = unat v) \<and>
    leaves_string junk dst n ''%lo'' [AInt v] (\<lambda>s. read_nat 8 s = unat v)"
proof (intro conjI impI)
  assume "sint v \<noteq> - (2 ^ 63)"
  then have "sint v \<noteq> INT64_MIN" by (simp add: INT64_MIN_def)
  then show "leaves_string junk dst n ''%ld'' [AInt v] (\<lambda>s. read_int s = sint v)"
    by (rule signed_text) (rule leaves_string_text [OF _ _ _ assms])
next
  show "leaves_string junk dst n ''%lu'' [AInt v] (\<lambda>s. read_nat 10 s = unat v)"
    by (rule unsigned_text [of "CHR ''u''" 10 v]) (auto intro: leaves_string_text [OF _ _ _ assms])
  show "leaves_string junk dst n ''%lx'' [AInt v] (\<lambda>s. read_nat 16 s = unat v)"
    by (rule unsigned_text [of "CHR ''x''" 16 v]) (auto intro: leaves_string_text [OF _ _ _ assms])
  show "leaves_string junk dst n ''%lo'' [AInt v] (\<lambda>s. read_nat 8 s = unat v)"
    by (rule unsigned_text [of "CHR ''o''" 8 v]) (auto intro: leaves_string_text [OF _ _ _ assms])
qed

theorem integers_print_read_witness:
  "leaves_string (\<lambda>_. NUL) (\<lambda>_. CHR ''?'') 32 ''%ld'' [AInt (- 42)] (\<lambda>s. read_int s = - 42) \<and>
   leaves_string (\<lambda>_. NUL) (\<lambda>_. CHR ''?'') 32 ''%lx'' [AInt 0xBEEF] (\<lambda>s. read_nat 16 s = 0xBEEF)"
  using integers_print_read [of 32 "- 42" "\<lambda>_. NUL" "\<lambda>_. CHR ''?''"] integers_print_read [of 32 "0xBEEF" "\<lambda>_. NUL" "\<lambda>_. CHR ''?''"]
  by simp

text \<open>
  \<open>%g\<close> of 1e10 prints \<open>1.00000e+1\<close>, which is ten: \<open>trim_trailing_zeros\<close> cuts zeros from the
  end of the whole text, the exponent included.
\<close>
theorem g_trims_exponent:
  "format_text ''%g'' [ADouble (d_of_int (10 ^ 10))] = Inr (''1.00000e+1'', [])"
  by code_simp

end
