(* ===== verification/Snprintf_Spec.thy ===== *)
theory Snprintf_Spec
  imports Snprintf_Props
begin

text \<open>
  What the C standard (7.21.6.1 of C11) says a format prints, for the conversions of integers, characters, strings and
  pointers, written without any function of the formatter: a format is a list of items, a directive has its parts as data,
  \<open>unparse\<close> gives its concrete syntax and \<open>render\<close> its text. The theorem at the end shows that
  \<open>vsnprintf\<close> prints that text for the concrete syntax. \<open>covered\<close> names the cases in which the code departs from the standard.
\<close>

section \<open>Directives\<close>

datatype flag = Minus | Plus | Space | Alt | Zero
datatype width = No_width | Width nat | Width_arg
datatype precision = No_prec | Dot | Prec nat | Prec_arg
datatype modifier = M_none | M_hh | M_h | M_l | M_ll | M_j | M_z | M_t
datatype conversion = C_d | C_i | C_u | C_o | C_x | C_X | C_c | C_s | C_p | C_n

record directive =
  d_flags :: "flag list"
  d_width :: width
  d_prec :: precision
  d_mod :: modifier
  d_conv :: conversion

datatype item = Plain char | Percent | Directive directive

section \<open>Digits\<close>

definition numeral_char :: "bool \<Rightarrow> nat \<Rightarrow> char" where
  "numeral_char upper d = (if upper then ''0123456789ABCDEF'' else ''0123456789abcdef'') ! d"

function show_base :: "nat \<Rightarrow> bool \<Rightarrow> nat \<Rightarrow> string" where
  "show_base b upper n =
     (if n < b \<or> b < 2 then [numeral_char upper n] else show_base b upper (n div b) @ [numeral_char upper (n mod b)])"
  by pat_completeness auto
termination by (relation "measure (\<lambda>(b, upper, n). n)") auto

declare show_base.simps [simp del]

section \<open>Concrete syntax\<close>

primrec flag_char :: "flag \<Rightarrow> char" where
  "flag_char Minus = CHR ''-''"
| "flag_char Plus = CHR ''+''"
| "flag_char Space = CHR '' ''"
| "flag_char Alt = CHR ''#''"
| "flag_char Zero = CHR ''0''"

primrec width_string :: "width \<Rightarrow> string" where
  "width_string No_width = ''''"
| "width_string (Width n) = show_base 10 False n"
| "width_string Width_arg = ''*''"

primrec prec_string :: "precision \<Rightarrow> string" where
  "prec_string No_prec = ''''"
| "prec_string Dot = ''.''"
| "prec_string (Prec n) = CHR ''.'' # show_base 10 False n"
| "prec_string Prec_arg = ''.*''"

primrec mod_string :: "modifier \<Rightarrow> string" where
  "mod_string M_none = ''''"
| "mod_string M_hh = ''hh''"
| "mod_string M_h = ''h''"
| "mod_string M_l = ''l''"
| "mod_string M_ll = ''ll''"
| "mod_string M_j = ''j''"
| "mod_string M_z = ''z''"
| "mod_string M_t = ''t''"

primrec conv_char :: "conversion \<Rightarrow> char" where
  "conv_char C_d = CHR ''d''"
| "conv_char C_i = CHR ''i''"
| "conv_char C_u = CHR ''u''"
| "conv_char C_o = CHR ''o''"
| "conv_char C_x = CHR ''x''"
| "conv_char C_X = CHR ''X''"
| "conv_char C_c = CHR ''c''"
| "conv_char C_s = CHR ''s''"
| "conv_char C_p = CHR ''p''"
| "conv_char C_n = CHR ''n''"

definition directive_string :: "directive \<Rightarrow> string" where
  "directive_string d = CHR ''%'' # map flag_char (d_flags d) @ width_string (d_width d) @ prec_string (d_prec d) @
     mod_string (d_mod d) @ [conv_char (d_conv d)]"

primrec unparse :: "item \<Rightarrow> string" where
  "unparse (Plain c) = [c]"
| "unparse Percent = ''%%''"
| "unparse (Directive d) = directive_string d"

text \<open>A width starts with a digit other than 0, since 0 is a flag; widths and precisions are of type \<open>int\<close>.\<close>

definition directive_wf :: "directive \<Rightarrow> bool" where
  "directive_wf d \<longleftrightarrow>
     (case d_width d of Width n \<Rightarrow> 0 < n \<and> n < 2 ^ 31 | _ \<Rightarrow> True) \<and>
     (case d_prec d of Prec n \<Rightarrow> n < 2 ^ 31 | _ \<Rightarrow> True) \<and>
     (d_conv d \<in> {C_c, C_s, C_p} \<longrightarrow> d_mod d = M_none)"

primrec item_wf :: "item \<Rightarrow> bool" where
  "item_wf (Plain c) \<longleftrightarrow> c \<noteq> CHR ''%'' \<and> c \<noteq> CHR 0x00"
| "item_wf Percent \<longleftrightarrow> True"
| "item_wf (Directive d) \<longleftrightarrow> directive_wf d"

section \<open>The text of a directive\<close>

text \<open>
  The field of a directive, after the arguments for \<open>*\<close> are read: a negative width is a \<open>-\<close> flag and a width, a negative
  precision is taken as if it were omitted, and a lone period is the precision 0.
\<close>

record out_field =
  fd_left :: bool
  fd_width :: nat
  fd_prec :: "nat option"

definition star :: "arg list \<Rightarrow> (int \<times> arg list) option" where
  "star ap = (case ap of AInt w # ap \<Rightarrow> Some (signed_take_bit 31 (uint w), ap) | _ \<Rightarrow> None)"

definition width_value :: "width \<Rightarrow> arg list \<Rightarrow> (int \<times> arg list) option" where
  "width_value w ap = (case w of No_width \<Rightarrow> Some (0, ap) | Width n \<Rightarrow> Some (int n, ap) | Width_arg \<Rightarrow> star ap)"

definition prec_value :: "precision \<Rightarrow> arg list \<Rightarrow> (nat option \<times> arg list) option" where
  "prec_value p ap =
     (case p of No_prec \<Rightarrow> Some (None, ap) | Dot \<Rightarrow> Some (Some 0, ap) | Prec n \<Rightarrow> Some (Some n, ap)
      | Prec_arg \<Rightarrow> (case star ap of None \<Rightarrow> None | Some (v, ap) \<Rightarrow> Some (if v < 0 then None else Some (nat v), ap)))"

definition field_of :: "directive \<Rightarrow> arg list \<Rightarrow> (out_field \<times> arg list) option" where
  "field_of d ap =
     (case width_value (d_width d) ap of None \<Rightarrow> None
      | Some (w, ap) \<Rightarrow> (case prec_value (d_prec d) ap of None \<Rightarrow> None
        | Some (p, ap) \<Rightarrow> Some (\<lparr>fd_left = (Minus \<in> set (d_flags d) \<or> w < 0), fd_width = nat \<bar>w\<bar>, fd_prec = p\<rparr>, ap)))"

definition justify :: "out_field \<Rightarrow> string \<Rightarrow> string" where
  "justify fd s =
     (let blanks = replicate (fd_width fd - length s) CHR '' '' in if fd_left fd then s @ blanks else blanks @ s)"

text \<open>The precision is the least number of digits; the value 0 with precision 0 has none.\<close>

definition digits :: "nat \<Rightarrow> bool \<Rightarrow> nat option \<Rightarrow> nat \<Rightarrow> string" where
  "digits b upper p n =
     (let ds = (if n = 0 \<and> p = Some 0 then [] else show_base b upper n)
      in case p of None \<Rightarrow> ds | Some k \<Rightarrow> replicate (k - length ds) CHR ''0'' @ ds)"

text \<open>Leading zeros fill the field behind the prefix, unless there is a precision or the field is left-justified.\<close>

definition number :: "flag list \<Rightarrow> out_field \<Rightarrow> string \<Rightarrow> string \<Rightarrow> string" where
  "number fl fd prefix ds =
     justify fd (prefix @
       (if Zero \<in> set fl \<and> \<not> fd_left fd \<and> fd_prec fd = None
        then replicate (fd_width fd - (length prefix + length ds)) CHR ''0'' else []) @ ds)"

definition sign_of :: "flag list \<Rightarrow> int \<Rightarrow> string" where
  "sign_of fl v =
     (if v < 0 then ''-'' else if Plus \<in> set fl then ''+'' else if Space \<in> set fl then '' '' else '''')"

text \<open>\<open>#\<close> makes an octal number start with a 0, and puts 0x or 0X in front of a hexadecimal number that is not 0.\<close>

definition octal :: "bool \<Rightarrow> string \<Rightarrow> string" where
  "octal alt ds = (if alt \<and> (ds = [] \<or> hd ds \<noteq> CHR ''0'') then CHR ''0'' # ds else ds)"

primrec mod_bits :: "modifier \<Rightarrow> nat" where
  "mod_bits M_none = 32"
| "mod_bits M_hh = 8"
| "mod_bits M_h = 16"
| "mod_bits M_l = 64"
| "mod_bits M_ll = 64"
| "mod_bits M_j = 64"
| "mod_bits M_z = 64"
| "mod_bits M_t = 64"

definition signed_value :: "modifier \<Rightarrow> u64 \<Rightarrow> int" where
  "signed_value m w = signed_take_bit (mod_bits m - 1) (uint w)"

definition unsigned_value :: "modifier \<Rightarrow> u64 \<Rightarrow> nat" where
  "unsigned_value m w = unat w mod 2 ^ mod_bits m"

definition signed_text_of :: "directive \<Rightarrow> out_field \<Rightarrow> u64 \<Rightarrow> string" where
  "signed_text_of d fd w =
     (let v = signed_value (d_mod d) w
      in number (d_flags d) fd (sign_of (d_flags d) v) (digits 10 False (fd_prec fd) (nat \<bar>v\<bar>)))"

definition unsigned_text_of :: "directive \<Rightarrow> out_field \<Rightarrow> u64 \<Rightarrow> string" where
  "unsigned_text_of d fd w =
     (let v = unsigned_value (d_mod d) w; alt = (Alt \<in> set (d_flags d)); p = fd_prec fd
      in case d_conv d of
           C_o \<Rightarrow> number (d_flags d) fd [] (octal alt (digits 8 False p v))
         | C_x \<Rightarrow> number (d_flags d) fd (if alt \<and> v \<noteq> 0 then ''0x'' else []) (digits 16 False p v)
         | C_X \<Rightarrow> number (d_flags d) fd (if alt \<and> v \<noteq> 0 then ''0X'' else []) (digits 16 True p v)
         | _ \<Rightarrow> number (d_flags d) fd [] (digits 10 False p v))"

text \<open>A null string is printed as \<open>(null)\<close>, and a pointer as 0x and 16 digits: the code's own choices, which the standard leaves open.\<close>

definition string_text_of :: "out_field \<Rightarrow> string option \<Rightarrow> string" where
  "string_text_of fd so =
     (let s = takeWhile (\<lambda>c. c \<noteq> CHR 0x00) (case so of None \<Rightarrow> ''(null)'' | Some s \<Rightarrow> s)
      in justify fd (case fd_prec fd of None \<Rightarrow> s | Some k \<Rightarrow> take k s))"

definition pointer_text_of :: "out_field \<Rightarrow> u64 \<Rightarrow> string" where
  "pointer_text_of fd p = justify fd (''0x'' @ digits 16 False (Some 16) (unat p))"

text \<open>What a directive prints after \<open>cnt\<close> characters: its text, the arguments left and the stores of \<open>%n\<close>; none for arguments of other types.\<close>

definition render_directive :: "directive \<Rightarrow> nat \<Rightarrow> arg list \<Rightarrow> (string \<times> arg list \<times> stores) option" where
  "render_directive d cnt ap =
     (case field_of d ap of None \<Rightarrow> None
      | Some (fd, ap) \<Rightarrow>
          (case (d_conv d, ap) of
             (C_d, AInt w # ap) \<Rightarrow> Some (signed_text_of d fd w, ap, [])
           | (C_i, AInt w # ap) \<Rightarrow> Some (signed_text_of d fd w, ap, [])
           | (C_c, AInt w # ap) \<Rightarrow> Some (justify fd [char_of (unat w mod 256)], ap, [])
           | (C_s, AStr so # ap) \<Rightarrow> Some (string_text_of fd so, ap, [])
           | (C_p, APtr p # ap) \<Rightarrow> Some (pointer_text_of fd p, ap, [])
           | (C_n, APtr p # ap) \<Rightarrow> Some ([], ap, [(p, mod_bits (d_mod d) div 8, of_nat cnt)])
           | (C_u, AInt w # ap) \<Rightarrow> Some (unsigned_text_of d fd w, ap, [])
           | (C_o, AInt w # ap) \<Rightarrow> Some (unsigned_text_of d fd w, ap, [])
           | (C_x, AInt w # ap) \<Rightarrow> Some (unsigned_text_of d fd w, ap, [])
           | (C_X, AInt w # ap) \<Rightarrow> Some (unsigned_text_of d fd w, ap, [])
           | _ \<Rightarrow> None))"

primrec render_item :: "item \<Rightarrow> nat \<Rightarrow> arg list \<Rightarrow> (string \<times> arg list \<times> stores) option" where
  "render_item (Plain c) cnt ap = Some ([c], ap, [])"
| "render_item Percent cnt ap = Some (''%'', ap, [])"
| "render_item (Directive d) cnt ap = render_directive d cnt ap"

fun render :: "item list \<Rightarrow> nat \<Rightarrow> arg list \<Rightarrow> (string \<times> stores) option" where
  "render [] cnt ap = Some ([], [])"
| "render (i # is) cnt ap =
     (case render_item i cnt ap of None \<Rightarrow> None
      | Some (s, ap, ws) \<Rightarrow>
          (case render is (cnt + length s) ap of None \<Rightarrow> None
           | Some (t, vs) \<Rightarrow> Some (s @ t, ws @ vs)))"

section \<open>Where the code departs\<close>

text \<open>
  Not covered: a negative width argument, which the code makes positive without justifying to the left; a sign flag on an
  unsigned conversion, which the code obeys; \<open>#\<close> on an octal conversion with a precision, where the code adds its zero to
  those of the precision; the least 64-bit number, whose negation overflows; the null pointer, which the code prints without 0x.
\<close>

definition covered_directive :: "directive \<Rightarrow> arg list \<Rightarrow> bool" where
  "covered_directive d ap \<longleftrightarrow>
     (case width_value (d_width d) ap of None \<Rightarrow> True | Some (w, _) \<Rightarrow> 0 \<le> w) \<and>
     (case field_of d ap of None \<Rightarrow> True
      | Some (fd, ap) \<Rightarrow>
          (d_conv d \<in> {C_u, C_o, C_x, C_X} \<longrightarrow> Plus \<notin> set (d_flags d) \<and> Space \<notin> set (d_flags d)) \<and>
          (d_conv d = C_o \<and> Alt \<in> set (d_flags d) \<longrightarrow> fd_prec fd = None) \<and>
          (case ap of
             AInt w # _ \<Rightarrow> d_conv d \<in> {C_d, C_i} \<longrightarrow> signed_value (d_mod d) w \<noteq> - (2 ^ 63)
           | APtr p # _ \<Rightarrow> d_conv d = C_p \<longrightarrow> p \<noteq> 0
           | _ \<Rightarrow> True))"

primrec covered_item :: "item \<Rightarrow> arg list \<Rightarrow> bool" where
  "covered_item (Plain c) ap \<longleftrightarrow> True"
| "covered_item Percent ap \<longleftrightarrow> True"
| "covered_item (Directive d) ap \<longleftrightarrow> covered_directive d ap"

fun covered :: "item list \<Rightarrow> arg list \<Rightarrow> bool" where
  "covered [] ap \<longleftrightarrow> True"
| "covered (i # is) ap \<longleftrightarrow>
     covered_item i ap \<and> (case render_item i 0 ap of None \<Rightarrow> True | Some (_, ap, _) \<Rightarrow> covered is ap)"

section \<open>The digits\<close>

lemma show_base_small: "n < b \<Longrightarrow> show_base b upper n = [numeral_char upper n]"
  by (subst show_base.simps) simp

lemma show_base_step:
  "2 \<le> b \<Longrightarrow> b \<le> n \<Longrightarrow> show_base b upper n = show_base b upper (n div b) @ [numeral_char upper (n mod b)]"
  by (subst show_base.simps) simp

lemma show_base_nonempty [simp]: "show_base b upper n \<noteq> []"
  by (subst show_base.simps) simp

lemma utoa_loop_show:
  assumes "0 < unat v" "unat v < unat base ^ room" "2 \<le> unat base" "unat base \<le> 16"
  shows "utoa_loop room v base (if upper then digs_u else digs_l) = Inr (rev (show_base (unat base) upper (unat v)))"
  using assms
proof (induction room arbitrary: v)
  case (Suc room)
  have dv: "unat (v div base) = unat v div unat base" "unat (v mod base) = unat v mod unat base"
    by (simp_all add: unat_div unat_mod)
  have c: "(if upper then digs_u else digs_l) ! unat (v mod base) = numeral_char upper (unat v mod unat base)"
    by (simp add: dv numeral_char_def digs_l_def digs_u_def)
  have nz: "v \<noteq> 0" using Suc.prems(1) by auto
  show ?case
  proof (cases "unat v < unat base")
    case True
    then have "v div base = 0" using dv by (simp add: unat_eq_zero [symmetric])
    then have "utoa_loop room (v div base) base (if upper then digs_u else digs_l) = Inr []" by (cases room) simp_all
    then show ?thesis using nz c True by (simp add: Let_def show_base_small)
  next
    case False
    have "unat (v div base) < unat base ^ room"
      using Suc.prems unfolding dv by (simp add: less_mult_imp_div_less mult.commute)
    moreover have "0 < unat (v div base)" using False Suc.prems(3) unfolding dv by (simp add: div_greater_zero_iff)
    ultimately have "utoa_loop room (v div base) base (if upper then digs_u else digs_l) =
        Inr (rev (show_base (unat base) upper (unat v div unat base)))"
      using Suc.IH Suc.prems(3,4) dv by metis
    then show ?thesis using nz c False Suc.prems(3) by (simp add: Let_def show_base_step)
  qed
qed simp

lemma utoa_rev_show:
  assumes "base = 8 \<or> base = 10 \<or> base = (16 :: u64)"
  shows "utoa_rev 64 v base upper = Inr (rev (show_base (unat base) upper (unat v)))"
proof (cases "v = 0")
  case True
  then show ?thesis using assms by (auto simp: utoa_rev_def show_base_small numeral_char_def)
next
  case False
  have "2 ^ 64 \<le> unat base ^ 64" "2 \<le> unat base" "unat base \<le> 16" using assms by auto
  then show ?thesis
    using False unsigned_less [of v, where 'a = nat] utoa_loop_show [of v base 64 upper]
    by (simp add: utoa_rev_def unat_gt_0)
qed

section \<open>Reading a directive\<close>

lemma decimal_digit:
  assumes "d < 10"
  shows "is_digit (numeral_char False d)" "of_char (numeral_char False d) = 48 + int d"
    "0 < d \<Longrightarrow> numeral_char False d \<in> set ''123456789''"
proof -
  have "\<forall>d \<in> set [0..<10]. is_digit (numeral_char False d) \<and> of_char (numeral_char False d) = 48 + int d \<and>
      (0 < d \<longrightarrow> numeral_char False d \<in> set ''123456789'')" by code_simp
  then show "is_digit (numeral_char False d)" "of_char (numeral_char False d) = 48 + int d"
    "0 < d \<Longrightarrow> numeral_char False d \<in> set ''123456789''" using assms by simp_all
qed

lemma cur_simps [simp]: "cur [] = NUL" "cur (c # p) = c"
  by (simp_all add: cur_def)

lemma parse_num_stop: "\<not> is_digit (cur q) \<Longrightarrow> parse_num mx q v any = Inr (q, v, any)"
  by (cases q) auto

lemma parse_num_show:
  "int n \<le> mx \<Longrightarrow> parse_num mx (show_base 10 False n @ q) 0 any = parse_num mx q (int n) True"
proof (induction n arbitrary: q rule: less_induct)
  case (less n)
  show ?case
  proof (cases "n < 10")
    case True
    then show ?thesis using decimal_digit [of n] less.prems by (simp add: show_base_small Let_def)
  next
    case False
    have d: "is_digit (numeral_char False (n mod 10))" "of_char (numeral_char False (n mod 10)) = 48 + int (n mod 10)"
      using decimal_digit [of "n mod 10"] by simp_all
    have v: "int (n div 10) * 10 + int (n mod 10) = int n" by presburger
    have le: "int (n div 10) \<le> mx" using less.prems by (simp add: zdiv_int)
    show ?thesis
      using False less.prems less.IH [of "n div 10", OF _ le] d v by (simp add: show_base_step Let_def)
  qed
qed

lemma show_base_head: "0 < n \<Longrightarrow> cur (show_base 10 False n @ q) \<in> set ''123456789''"
proof (induction n arbitrary: q rule: less_induct)
  case (less n)
  show ?case
  proof (cases "n < 10")
    case True
    then show ?thesis using decimal_digit(3) [of n] less.prems by (simp add: show_base_small)
  next
    case False
    then show ?thesis using less.IH [of "n div 10"] by (simp add: show_base_step)
  qed
qed
text \<open>What \<open>parse_spec\<close> makes of a directive: the flags as bits, and widths and precisions as numbers, -1 for none.\<close>

primrec flag_no :: "flag \<Rightarrow> nat" where
  "flag_no Minus = 0"
| "flag_no Plus = 1"
| "flag_no Zero = 2"
| "flag_no Alt = 3"
| "flag_no Space = 4"

primrec len_code_of :: "modifier \<Rightarrow> len_t" where
  "len_code_of M_none = L_none"
| "len_code_of M_hh = L_hh"
| "len_code_of M_h = L_h"
| "len_code_of M_l = L_l"
| "len_code_of M_ll = L_ll"
| "len_code_of M_j = L_j"
| "len_code_of M_z = L_z"
| "len_code_of M_t = L_t"

definition reads :: "directive \<Rightarrow> out_field \<Rightarrow> fmt_t \<Rightarrow> bool" where
  "reads d fd f \<longleftrightarrow>
     (\<forall>k. bit (f_flags f) k \<longleftrightarrow> k \<in> flag_no ` set (d_flags d)) \<and>
     (fd_left fd \<longleftrightarrow> Minus \<in> set (d_flags d)) \<and> nat (f_width f) = fd_width fd \<and> f_width f \<le> INT_MAX \<and>
     f_prec f = (case fd_prec fd of None \<Rightarrow> - 1 | Some k \<Rightarrow> int k) \<and>
     f_len f = len_code_of (d_mod d) \<and> f_type f = conv_char (d_conv d)"

lemma parse_flags_flags:
  assumes "cur q \<notin> set ''-+0# ''"
  shows "\<exists>fl'. parse_flags (map flag_char fs @ q) fl = (q, fl') \<and> (\<forall>k. bit fl' k \<longleftrightarrow> bit fl k \<or> k \<in> flag_no ` set fs)"
proof (induction fs arbitrary: fl)
  case Nil
  then show ?case using assms by (cases q) auto
next
  case (Cons f fs)
  define fl2 where "fl2 = fl OR push_bit (flag_no f) (1 :: u32)"
  have "parse_flags (map flag_char (f # fs) @ q) fl = parse_flags (map flag_char fs @ q) fl2"
    by (cases f) (simp_all add: fl2_def F_LEFT_def F_SIGN_def F_ZERO_def F_ALT_def F_SP_def)
  moreover have "flag_no f < 32" by (cases f) simp_all
  then have "bit fl2 k \<longleftrightarrow> bit fl k \<or> k = flag_no f" for k
    unfolding fl2_def bit_or_iff bit_push_bit_iff bit_1_iff by auto
  ultimately show ?case using Cons.IH [of fl2] by auto
qed

lemma head_of_tail:
  "cur (mod_string m @ conv_char c # rest) \<in> set ''hljztdiuoxXcspn''"
  "cur (prec_string p @ mod_string m @ conv_char c # rest) \<in> set ''.hljztdiuoxXcspn''"
proof -
  show m: "cur (mod_string m @ conv_char c # rest) \<in> set ''hljztdiuoxXcspn''" by (cases m; cases c) simp_all
  show "cur (prec_string p @ mod_string m @ conv_char c # rest) \<in> set ''.hljztdiuoxXcspn''"
    using m by (cases p) auto
qed

lemma head_of_width:
  assumes "case w of Width n \<Rightarrow> 0 < n \<and> n < 2 ^ 31 | _ \<Rightarrow> True"
  shows "cur (width_string w @ prec_string p @ mod_string m @ conv_char c # rest) \<in> set ''123456789*.hljztdiuoxXcspn''"
  using assms head_of_tail(2) [of p m c rest] show_base_head by (cases w) auto

lemma star_value: "sint (ucast w :: u32) = signed_take_bit 31 (uint (w :: u64))"
  by (simp add: sint_uint unsigned_ucast_eq signed_take_bit_take_bit)

lemma not_digit: "c \<in> set ''.hljztdiuoxXcspn'' \<Longrightarrow> \<not> is_digit c"
proof -
  have "\<forall>c \<in> set ''.hljztdiuoxXcspn''. \<not> is_digit c" by code_simp
  then show "c \<in> set ''.hljztdiuoxXcspn'' \<Longrightarrow> \<not> is_digit c" by blast
qed

lemma parse_width_width:
  assumes "width_value w ap = Some (v, ap')" "0 \<le> v" "case w of Width n \<Rightarrow> 0 < n \<and> n < 2 ^ 31 | _ \<Rightarrow> True"
    and q: "cur q \<in> set ''.hljztdiuoxXcspn''"
  shows "parse_width_prec (width_string w @ q) ap = Inr (q, if w = No_width then - 1 else v, ap')"
proof (cases w)
  case No_width
  then show ?thesis using assms not_digit [OF q] by (auto simp: parse_width_prec_def parse_num_stop width_value_def)
next
  case (Width n)
  then have "cur (width_string w @ q) \<in> set ''123456789''" "int n \<le> INT_MAX"
    using assms(3) show_base_head by (auto simp: INT_MAX_def)
  then show ?thesis using Width assms(1) not_digit [OF q]
    by (auto simp: parse_width_prec_def parse_num_show parse_num_stop width_value_def)
next
  case Width_arg
  then show ?thesis using assms(1,2)
    by (auto simp: parse_width_prec_def width_value_def star_def va_int_def star_value split: list.splits arg.splits)
qed

lemma parse_prec_prec:
  assumes "prec_value p ap = Some (v, ap')" "case p of Prec n \<Rightarrow> n < 2 ^ 31 | _ \<Rightarrow> True"
    and q: "cur q \<in> set ''hljztdiuoxXcspn''"
  shows "parse_prec (prec_string p @ q) ap = Inr (q, case v of None \<Rightarrow> - 1 | Some k \<Rightarrow> int k, ap')"
proof -
  have d: "\<not> is_digit (cur q)" "cur q \<noteq> CHR ''*''" "cur q \<noteq> CHR ''.''" using q by (auto simp: is_digit_def)
  show ?thesis
  proof (cases p)
    case No_prec
    then show ?thesis using assms(1) d by (simp add: parse_prec_def prec_value_def)
  next
    case Dot
    then show ?thesis using assms(1) d by (auto simp: parse_prec_def prec_value_def parse_num_stop)
  next
    case (Prec n)
    have "cur (show_base 10 False n @ q) \<noteq> CHR ''*''"
    proof (cases "n = 0")
      case True
      then show ?thesis by (simp add: show_base_small numeral_char_def)
    next
      case False
      then show ?thesis using show_base_head [of n q] by auto
    qed
    moreover have "signed_take_bit 31 (int n) = int n" "int n \<le> INT64_MAX"
      using Prec assms(2) by (auto intro!: signed_take_bit_int_eq_self simp: INT64_MAX_def)
    ultimately show ?thesis using Prec assms(1) d
      by (auto simp: parse_prec_def prec_value_def parse_num_show parse_num_stop Let_def)
  next
    case Prec_arg
    then show ?thesis using assms(1)
      by (auto simp: parse_prec_def prec_value_def star_def va_int_def star_value split: list.splits arg.splits)
  qed
qed

lemma parse_len_mod: "parse_len (mod_string m @ conv_char c # rest) L_none = (conv_char c # rest, len_code_of m)"
  by (cases m; cases c) (simp_all add: parse_len_def)

lemma prev_char_append: "xs \<noteq> [] \<Longrightarrow> prev_char (xs @ p) p = last xs"
  by (simp add: prev_char_def nth_append last_conv_nth)

lemma flag_not_star: "last (pre @ CHR ''%'' # map flag_char fs) \<noteq> CHR ''*''"
proof (cases fs rule: rev_cases)
  case (snoc gs g)
  then show ?thesis by (cases g) simp_all
qed simp

lemma parse_spec_reads:
  assumes "directive_wf d" "covered_directive d ap" "field_of d ap = Some (fd, ap')"
  shows "\<exists>f. parse_spec (pre @ directive_string d @ rest) (tl (directive_string d @ rest)) ap = Inr (f, rest, ap') \<and> reads d fd f"
proof -
  obtain w ap1 p where w: "width_value (d_width d) ap = Some (w, ap1)" and p: "prec_value (d_prec d) ap1 = Some (p, ap')"
    and fd: "fd = \<lparr>fd_left = (Minus \<in> set (d_flags d) \<or> w < 0), fd_width = nat \<bar>w\<bar>, fd_prec = p\<rparr>"
    using assms(3) by (auto simp: field_of_def split: option.splits)
  have w0: "0 \<le> w" using assms(2) w by (auto simp: covered_directive_def)
  define q3 where "q3 = mod_string (d_mod d) @ conv_char (d_conv d) # rest"
  define q2 where "q2 = prec_string (d_prec d) @ q3"
  define q1 where "q1 = width_string (d_width d) @ q2"
  define xs where "xs = pre @ CHR ''%'' # map flag_char (d_flags d)"
  have wf: "case d_width d of Width n \<Rightarrow> 0 < n \<and> n < 2 ^ 31 | _ \<Rightarrow> True" "case d_prec d of Prec n \<Rightarrow> n < 2 ^ 31 | _ \<Rightarrow> True"
    using assms(1) by (simp_all add: directive_wf_def)
  have t: "tl (directive_string d @ rest) = map flag_char (d_flags d) @ q1"
    by (simp add: directive_string_def q1_def q2_def q3_def)
  have "cur q1 \<notin> set ''-+0# ''" using head_of_width [OF wf(1), of "d_prec d" "d_mod d" "d_conv d" rest]
    by (auto simp: q1_def q2_def q3_def)
  then obtain fl where fl: "parse_flags (map flag_char (d_flags d) @ q1) 0 = (q1, fl)" "\<And>k. bit fl k \<longleftrightarrow> k \<in> flag_no ` set (d_flags d)"
    using parse_flags_flags [of q1 "d_flags d" 0] by auto
  have "cur q2 \<in> set ''.hljztdiuoxXcspn''" unfolding q2_def q3_def by (rule head_of_tail(2))
  note pw = parse_width_width [OF w w0 wf(1) this, folded q1_def]
  have "cur q3 \<in> set ''hljztdiuoxXcspn''" unfolding q3_def by (rule head_of_tail(1))
  note pp = parse_prec_prec [OF p wf(2) this, folded q2_def]
  have pl: "parse_len q3 L_none = (conv_char (d_conv d) # rest, len_code_of (d_mod d))" unfolding q3_def by (rule parse_len_mod)
  have star: "prev_char (pre @ directive_string d @ rest) q2 \<noteq> CHR ''*''" if "d_width d = No_width"
  proof -
    have "pre @ directive_string d @ rest = xs @ q2"
      using that by (simp add: xs_def directive_string_def q2_def q3_def)
    then show ?thesis using prev_char_append [of xs q2] flag_not_star by (simp add: xs_def)
  qed
  define f where "f = \<lparr>f_flags = fl, f_width = (if d_width d = No_width then - 1 else w),
      f_prec = (case p of None \<Rightarrow> - 1 | Some k \<Rightarrow> int k), f_len = len_code_of (d_mod d), f_type = conv_char (d_conv d)\<rparr>"
  have "parse_spec (pre @ directive_string d @ rest) (tl (directive_string d @ rest)) ap = Inr (f, rest, ap')"
    unfolding parse_spec_def t fl(1) using pw pp pl star w0 by (auto simp: f_def)
  moreover have "reads d fd f"
  proof -
    have "signed_take_bit 31 (uint x) \<le> INT_MAX" for x :: u64
      using signed_take_bit_int_less_exp [of 31 "uint x"] by (simp add: INT_MAX_def)
    then have "w \<le> INT_MAX"
      using w wf(1) by (auto simp: width_value_def star_def INT_MAX_def split: width.splits list.splits arg.splits)
    moreover have "d_width d = No_width \<Longrightarrow> w = 0" using w by (simp add: width_value_def)
    ultimately show ?thesis using fl(2) w0 by (auto simp: reads_def f_def fd INT_MAX_def)
  qed
  ultimately show ?thesis by blast
qed
section \<open>Printing a directive\<close>

lemmas flag_bits = F_LEFT_def F_SIGN_def F_ZERO_def F_ALT_def F_SP_def

lemma has_bit: "has f (push_bit k 1) \<longleftrightarrow> bit (f_flags f) k"
  by (simp add: has_def bit_iff_and_push_bit_not_eq_0)

lemma flag_no_image: "flag_no x \<in> flag_no ` S \<longleftrightarrow> x \<in> S"
proof -
  have "flag_no x = flag_no y \<Longrightarrow> x = y" for x y by (cases x; cases y) simp_all
  then show ?thesis by auto
qed

lemma reads_has:
  assumes "reads d fd f"
  shows "has f F_LEFT \<longleftrightarrow> Minus \<in> set (d_flags d)" "has f F_SIGN \<longleftrightarrow> Plus \<in> set (d_flags d)"
    "has f F_ZERO \<longleftrightarrow> Zero \<in> set (d_flags d)" "has f F_ALT \<longleftrightarrow> Alt \<in> set (d_flags d)" "has f F_SP \<longleftrightarrow> Space \<in> set (d_flags d)"
  using assms flag_no_image [of Minus] flag_no_image [of Plus] flag_no_image [of Zero] flag_no_image [of Alt] flag_no_image [of Space]
  unfolding flag_bits has_bit reads_def by simp_all

lemma has_no_zero_prec:
  "has (no_zero_prec f) F_ZERO \<longleftrightarrow> has f F_ZERO \<and> f_prec f < 0"
  "k \<noteq> 2 \<Longrightarrow> has (no_zero_prec f) (push_bit k 1) \<longleftrightarrow> has f (push_bit k 1)"
  unfolding F_ZERO_def has_bit no_zero_prec_def by (auto simp: bit_and_iff bit_not_iff bit_push_bit_iff bit_1_iff dest: bit_imp_le_length simp del: push_bit_of_1)

lemma no_zero_prec_fields [simp]: "f_prec (no_zero_prec f) = f_prec f" "f_width (no_zero_prec f) = f_width f"
  by (simp_all add: no_zero_prec_def)

text \<open>The formatter's own record agrees with the field.\<close>

definition agrees :: "flag list \<Rightarrow> out_field \<Rightarrow> fmt_t \<Rightarrow> bool" where
  "agrees fl fd g \<longleftrightarrow> (has g F_LEFT \<longleftrightarrow> fd_left fd) \<and> nat (f_width g) = fd_width fd \<and>
     f_prec g = (case fd_prec fd of None \<Rightarrow> - 1 | Some k \<Rightarrow> int k) \<and>
     (fd_prec fd = None \<longrightarrow> (has g F_ZERO \<longleftrightarrow> Zero \<in> set fl))"

lemma justify_field: "has g F_LEFT = fd_left fd \<Longrightarrow> nat (f_width g) = fd_width fd \<Longrightarrow> field_text g CHR '' '' s = justify fd s"
  by (simp add: field_text_def justify_def Let_def)

lemma num_text_number:
  assumes "agrees fl fd g" and pre: "sign_text sc @ pre = prefix"
    and ds: "(case fd_prec fd of None \<Rightarrow> ds | Some k \<Rightarrow> replicate (k - length ds) CHR ''0'' @ ds) = all"
    and len: "int (length (number fl fd prefix all)) \<le> INT_MAX"
  shows "num_text g ds sc pre = Inr (number fl fd prefix all)"
proof -
  have b: "num_body g ds sc pre = prefix @ (if Zero \<in> set fl \<and> \<not> fd_left fd \<and> fd_prec fd = None
        then replicate (fd_width fd - (length prefix + length all)) CHR ''0'' else []) @ all"
    using assms(1) pre [symmetric] ds [symmetric]
    by (auto simp: num_body_def agrees_def Let_def ac_simps split: option.splits)
  have "field_text g CHR '' '' (num_body g ds sc pre) = number fl fd prefix all"
    unfolding b number_def using assms(1) by (intro justify_field) (simp_all add: agrees_def)
  moreover have "int (length (num_body g ds sc pre)) \<le> INT_MAX"
    using len unfolding b number_def by (simp add: justify_def Let_def split: if_splits)
  ultimately show ?thesis by (simp add: num_text_def Let_def)
qed

lemma int_text_number:
  assumes "agrees fl fd g" and base: "base = 8 \<or> base = 10 \<or> base = (16 :: u64)"
    and "sign_text (sign_char g neg) @ alt_prefix g u base upper = prefix"
    and "int (length (number fl fd prefix (digits (unat base) upper (fd_prec fd) (unat u)))) \<le> INT_MAX"
  shows "int_text g u neg base upper = Inr (number fl fd prefix (digits (unat base) upper (fd_prec fd) (unat u)))"
proof -
  define ds where "ds = (if f_prec g = 0 \<and> u = 0 then [] else show_base (unat base) upper (unat u))"
  have "ds = (if unat u = 0 \<and> fd_prec fd = Some 0 then [] else show_base (unat base) upper (unat u))"
    using assms(1) by (auto simp: ds_def agrees_def unat_eq_zero split: option.splits)
  then have "(case fd_prec fd of None \<Rightarrow> ds | Some k \<Rightarrow> replicate (k - length ds) CHR ''0'' @ ds) =
      digits (unat base) upper (fd_prec fd) (unat u)"
    unfolding digits_def Let_def by (rule arg_cong)
  note n = num_text_number [OF assms(1,3) this assms(4)]
  show ?thesis using n unfolding int_text_def utoa_rev_show [OF base] ds_def bindE_simps rev_rev_ident .
qed

lemma get_int_value:
  obtains v where "get_int_arg (AInt w # ap) (len_code_of m) = Inr (v, ap)" "sint v = signed_value m w"
proof -
  have s: "sint (ucast w :: u8) = signed_take_bit 7 (uint w)" "sint (ucast w :: u16) = signed_take_bit 15 (uint w)"
    "sint (ucast w :: u32) = signed_take_bit 31 (uint w)" "sint w = signed_take_bit 63 (uint w)"
    by (simp_all add: sint_uint unsigned_ucast_eq signed_take_bit_take_bit)
  have "\<exists>v. get_int_arg (AInt w # ap) (len_code_of m) = Inr (v, ap) \<and> sint v = signed_value m w"
    by (cases m) (simp_all add: get_int_arg_def va_int_def signed_value_def signed_scast_eq s)
  then show thesis using that by blast
qed

lemma get_uint_value:
  obtains u where "get_uint_arg (AInt w # ap) (len_code_of m) = Inr (u, ap)" "unat u = unsigned_value m w"
proof -
  have "unat w mod 2 ^ 64 = unat w" using unsigned_less [of w, where 'a = nat] by simp
  then have "\<exists>u. get_uint_arg (AInt w # ap) (len_code_of m) = Inr (u, ap) \<and> unat u = unsigned_value m w"
    by (cases m) (simp_all add: get_uint_arg_def va_int_def unsigned_value_def unsigned_ucast_eq take_bit_eq_mod unat_mod)
  then show thesis using that by blast
qed

lemma hd_show_base: "0 < n \<Longrightarrow> hd (show_base 8 upper n) \<noteq> CHR ''0''"
proof (induction n rule: less_induct)
  case (less n)
  have "\<forall>d \<in> set [1..<8]. numeral_char True d \<noteq> CHR ''0'' \<and> numeral_char False d \<noteq> CHR ''0''" by code_simp
  then have c: "0 < d \<Longrightarrow> d < 8 \<Longrightarrow> numeral_char upper d \<noteq> CHR ''0''" for d by (cases upper) simp_all
  show ?case
    using less c by (cases "n < 8") (simp_all add: show_base_small show_base_step hd_append)
qed

text \<open>Without a precision the prefix 0 and a leading zero digit are the same text.\<close>

lemma octal_prefix:
  assumes "fd_prec fd = None"
  shows "number fl fd (if alt \<and> n \<noteq> 0 then ''0'' else []) (digits 8 False (fd_prec fd) n) =
    number fl fd [] (octal alt (digits 8 False (fd_prec fd) n))"
proof -
  have "show_base 8 False 0 = ''0''" by (simp add: show_base_small numeral_char_def)
  moreover have "0 < n \<Longrightarrow> hd (show_base 8 False n) \<noteq> CHR ''0''" by (rule hd_show_base)
  ultimately show ?thesis
    using assms by (auto simp: number_def digits_def octal_def replicate_app_Cons_same)
qed

lemma agrees_no_zero:
  assumes "reads d fd f" shows "agrees (d_flags d) fd (no_zero_prec f)"
proof -
  have l: "has (no_zero_prec f) F_LEFT \<longleftrightarrow> has f F_LEFT" unfolding F_LEFT_def by (rule has_no_zero_prec) simp
  show ?thesis
    using assms reads_has [OF assms] unfolding agrees_def l has_no_zero_prec(1) by (auto simp: reads_def split: option.splits)
qed

lemma signed_directive:
  assumes r: "reads d fd f" and v: "signed_value (d_mod d) w \<noteq> - (2 ^ 63)"
    and len: "int (length (signed_text_of d fd w)) \<le> INT_MAX" and t: "d_conv d \<in> {C_d, C_i}"
  shows "conv_text f cnt (AInt w # ap) = Inr (signed_text_of d fd w, ap, [])"
proof -
  obtain x where x: "get_int_arg (AInt w # ap) (len_code_of (d_mod d)) = Inr (x, ap)" "sint x = signed_value (d_mod d) w"
    by (rule get_int_value)
  define u where "u = (if sint x < 0 then - x else x)"
  have "int (unat u) = (if sint x < 0 then - sint x else sint x)" unfolding u_def by (rule abs_sint)
  then have u: "unat u = nat \<bar>signed_value (d_mod d) w\<bar>" unfolding x(2) by (metis abs_if nat_int)
  have "has (no_zero_prec f) F_SIGN \<longleftrightarrow> has f F_SIGN" "has (no_zero_prec f) F_SP \<longleftrightarrow> has f F_SP"
    unfolding flag_bits by (simp_all only: has_no_zero_prec(2))
  then have s: "sign_text (sign_char (no_zero_prec f) (sint x < 0)) @ alt_prefix (no_zero_prec f) u 10 False =
      sign_of (d_flags d) (signed_value (d_mod d) w)"
    using reads_has [OF r] x(2) by (auto simp: sign_char_def sign_text_def sign_of_def alt_prefix_def)
  have "int_text (no_zero_prec f) u (sint x < 0) 10 False = Inr (signed_text_of d fd w)"
    using int_text_number [OF agrees_no_zero [OF r] _ s] len u by (simp add: signed_text_of_def Let_def)
  moreover have "f_type f = CHR ''d'' \<or> f_type f = CHR ''i''" "f_len f = len_code_of (d_mod d)" using r t by (auto simp: reads_def)
  ultimately show ?thesis
    using x v by (auto simp: conv_text_def Let_def with_text_def u_def INT64_MIN_def)
qed

text \<open>Base, case and prefix of the unsigned conversions.\<close>

lemma unsigned_directive:
  assumes r: "reads d fd f" and fl: "Plus \<notin> set (d_flags d)" "Space \<notin> set (d_flags d)"
    and o: "d_conv d = C_o \<and> Alt \<in> set (d_flags d) \<longrightarrow> fd_prec fd = None"
    and len: "int (length (unsigned_text_of d fd w)) \<le> INT_MAX" and t: "d_conv d \<in> {C_u, C_o, C_x, C_X}"
  shows "conv_text f cnt (AInt w # ap) = Inr (unsigned_text_of d fd w, ap, [])"
proof -
  obtain u where u: "get_uint_arg (AInt w # ap) (len_code_of (d_mod d)) = Inr (u, ap)" "unat u = unsigned_value (d_mod d) w"
    by (rule get_uint_value)
  have z: "u = 0 \<longleftrightarrow> unsigned_value (d_mod d) w = 0" using u(2) by (metis unat_eq_zero)
  have h: "has (no_zero_prec f) F_SIGN \<longleftrightarrow> has f F_SIGN" "has (no_zero_prec f) F_SP \<longleftrightarrow> has f F_SP"
    "has (no_zero_prec f) F_ALT \<longleftrightarrow> has f F_ALT"
    unfolding flag_bits by (simp_all only: has_no_zero_prec(2))
  define pre where "pre base upper = alt_prefix (no_zero_prec f) u base upper" for base upper
  have s: "sign_text (sign_char (no_zero_prec f) False) @ alt_prefix (no_zero_prec f) u base upper = pre base upper" for base upper
    using reads_has [OF r] h fl by (simp add: sign_char_def sign_text_def pre_def)
  note it = int_text_number [OF agrees_no_zero [OF r] _ s, unfolded u(2)]
  have p: "pre 8 upper = (if Alt \<in> set (d_flags d) \<and> unsigned_value (d_mod d) w \<noteq> 0 then ''0'' else [])"
    "pre 16 False = (if Alt \<in> set (d_flags d) \<and> unsigned_value (d_mod d) w \<noteq> 0 then ''0x'' else [])"
    "pre 16 True = (if Alt \<in> set (d_flags d) \<and> unsigned_value (d_mod d) w \<noteq> 0 then ''0X'' else [])"
    "pre 10 upper = []" for upper
    using reads_has [OF r] h z by (simp_all add: pre_def alt_prefix_def)
  have f: "f_len f = len_code_of (d_mod d)" "f_type f = conv_char (d_conv d)" using r by (simp_all add: reads_def)
  consider "d_conv d = C_u" | "d_conv d = C_o" | "d_conv d = C_x" | "d_conv d = C_X" using t by auto
  then show ?thesis
  proof cases
    case 1
    then show ?thesis using it [of 10 False] len f u(1) p by (simp add: conv_text_def Let_def with_text_def unsigned_text_of_def)
  next
    case 2
    have "number (d_flags d) fd (pre 8 False) (digits 8 False (fd_prec fd) (unsigned_value (d_mod d) w)) = unsigned_text_of d fd w"
      using 2 o p octal_prefix [of fd "d_flags d" "Alt \<in> set (d_flags d)" "unsigned_value (d_mod d) w"]
      by (cases "Alt \<in> set (d_flags d)") (simp_all add: unsigned_text_of_def Let_def octal_def)
    then show ?thesis using 2 it [of 8 False] len f u(1) by (simp add: conv_text_def Let_def with_text_def)
  next
    case 3
    then show ?thesis using it [of 16 False] len f u(1) p by (simp add: conv_text_def Let_def with_text_def unsigned_text_of_def)
  next
    case 4
    then show ?thesis using it [of 16 True] len f u(1) p by (simp add: conv_text_def Let_def with_text_def unsigned_text_of_def)
  qed
qed

lemma take_cstr_len: "take (cstr_len s) s = takeWhile (\<lambda>c. c \<noteq> NUL) s"
  by (induction s) auto

lemma string_directive:
  assumes r: "reads d fd f" and len: "int (length (string_text_of fd so)) \<le> INT_MAX"
  shows "str_text f so = Inr (string_text_of fd so)"
proof -
  define s where "s = takeWhile (\<lambda>c. c \<noteq> NUL) (case so of None \<Rightarrow> ''(null)'' | Some s \<Rightarrow> s)"
  define t where "t = (case fd_prec fd of None \<Rightarrow> s | Some k \<Rightarrow> take k s)"
  have st: "string_text_of fd so = justify fd t" unfolding string_text_of_def t_def s_def Let_def ..
  have t: "(if f_prec f \<ge> 0 then take (nat (f_prec f)) s else s) = t" using r by (auto simp: reads_def t_def split: option.splits)
  have "int (length t) \<le> INT_MAX" using len by (simp add: st justify_def Let_def split: if_splits)
  then have "signed_take_bit 31 (int (length t)) = int (length t)"
    by (intro signed_take_bit_int_eq_self) (simp_all add: INT_MAX_def)
  moreover have "f_width f - int (length t) \<le> INT_MAX" "nat (f_width f - int (length t)) = fd_width fd - length t"
    using r by (auto simp: reads_def)
  ultimately show ?thesis
    unfolding str_text_def Let_def take_cstr_len s_def [symmetric] t st
    using reads_has(1) [OF r] r by (simp add: justify_def reads_def Let_def)
qed

lemma pointer_directive:
  assumes r: "reads d fd f" and "p \<noteq> 0" and len: "int (length (pointer_text_of fd p)) \<le> INT_MAX"
  shows "int_text (f\<lparr>f_prec := 16, f_flags := (f_flags f OR F_ALT) AND NOT (F_SIGN OR F_SP)\<rparr>) p False 16 False = Inr (pointer_text_of fd p)"
proof -
  define g where "g = f\<lparr>f_prec := 16, f_flags := (f_flags f OR F_ALT) AND NOT (F_SIGN OR F_SP)\<rparr>"
  have h: "has g F_LEFT \<longleftrightarrow> has f F_LEFT" "has g F_ALT" "\<not> has g F_SIGN" "\<not> has g F_SP"
    unfolding flag_bits has_bit by (auto simp: g_def flag_bits bit_simps simp del: push_bit_of_1)
  have a: "agrees [] (fd\<lparr>fd_prec := Some 16\<rparr>) g"
    using r h(1) reads_has(1) [OF r] by (simp add: agrees_def reads_def g_def)
  have s: "sign_text (sign_char g False) @ alt_prefix g p 16 False = ''0x''"
    using h assms(2) by (simp add: sign_char_def sign_text_def alt_prefix_def)
  have "number [] (fd\<lparr>fd_prec := Some 16\<rparr>) ''0x'' (digits 16 False (Some 16) (unat p)) = pointer_text_of fd p"
    by (simp add: number_def justify_def pointer_text_of_def)
  then show ?thesis using int_text_number [OF a _ s] len unfolding g_def [symmetric] by simp
qed

lemma char_of_low: "char_of (unat (ucast (w :: u64) :: u8)) = (char_of (unat w mod 256) :: char)"
  by (simp add: unsigned_ucast_eq take_bit_eq_mod unat_mod)

lemma store_width_mod: "store_width (len_code_of m) = mod_bits m div 8"
  by (cases m) (simp_all add: store_width_def)

lemma conv_text_render:
  assumes r: "reads d fd f" and c: "covered_directive d ap" and fd: "field_of d ap = Some (fd, ap')"
    and s: "render_directive d cnt ap = Some (s, ap'', ws)" and len: "int (length s) \<le> INT_MAX"
  shows "conv_text f cnt ap' = Inr (s, ap'', ws)"
proof (cases "d_conv d \<in> {C_d, C_i, C_u, C_o, C_x, C_X}")
  case True
  then obtain w where w: "ap' = AInt w # ap''" "ws = []"
    "s = (if d_conv d \<in> {C_d, C_i} then signed_text_of d fd w else unsigned_text_of d fd w)"
    using s fd by (auto simp: render_directive_def split: conversion.splits list.splits arg.splits)
  show ?thesis
  proof (cases "d_conv d \<in> {C_d, C_i}")
    case True
    then have "signed_value (d_mod d) w \<noteq> - (2 ^ 63)" using c fd w(1) by (auto simp: covered_directive_def)
    then show ?thesis using signed_directive [OF r] True w len by simp
  next
    case False
    then have t: "d_conv d \<in> {C_u, C_o, C_x, C_X}" using \<open>d_conv d \<in> {C_d, C_i, C_u, C_o, C_x, C_X}\<close> by blast
    then have "Plus \<notin> set (d_flags d)" "Space \<notin> set (d_flags d)" "d_conv d = C_o \<and> Alt \<in> set (d_flags d) \<longrightarrow> fd_prec fd = None"
      using c fd by (auto simp: covered_directive_def)
    then show ?thesis using unsigned_directive [OF r _ _ _ _ t] False w len by simp
  qed
next
  case False
  have t: "f_type f = conv_char (d_conv d)" "f_len f = len_code_of (d_mod d)" using r by (simp_all add: reads_def)
  have j: "field_text f CHR '' '' x = justify fd x" for x
    using r reads_has(1) [OF r] by (intro justify_field) (simp_all add: reads_def)
  consider "d_conv d = C_c" | "d_conv d = C_s" | "d_conv d = C_p" | "d_conv d = C_n"
    using False by (cases "d_conv d") auto
  then show ?thesis
  proof cases
    case 1
    then obtain w where "ap' = AInt w # ap''" "ws = []" "s = justify fd [char_of (unat w mod 256)]"
      using s fd by (auto simp: render_directive_def split: list.splits arg.splits)
    then show ?thesis using 1 t j by (simp add: conv_text_def va_int_def char_of_low)
  next
    case 2
    then obtain so where "ap' = AStr so # ap''" "ws = []" "s = string_text_of fd so"
      using s fd by (auto simp: render_directive_def split: list.splits arg.splits)
    then show ?thesis using 2 t string_directive [OF r] len by (simp add: conv_text_def va_str_def with_text_def)
  next
    case 3
    then obtain p where "ap' = APtr p # ap''" "ws = []" "s = pointer_text_of fd p"
      using s fd by (auto simp: render_directive_def split: list.splits arg.splits)
    moreover from this have "p \<noteq> 0" using c fd 3 by (auto simp: covered_directive_def)
    ultimately show ?thesis using 3 t pointer_directive [OF r] len by (simp add: conv_text_def va_ptr_def with_text_def)
  next
    case 4
    then obtain p where "ap' = APtr p # ap''" "ws = [(p, mod_bits (d_mod d) div 8, of_nat cnt)]" "s = []"
      using s fd by (auto simp: render_directive_def split: list.splits arg.splits)
    then show ?thesis using 4 t by (simp add: conv_text_def va_ptr_def store_width_mod)
  qed
qed

section \<open>The whole format\<close>

lemma covered_count: "render_item i cnt ap = Some (s, ap', ws) \<Longrightarrow> \<exists>vs. render_item i 0 ap = Some (s, ap', vs)"
  by (cases i) (auto simp: render_directive_def split: option.splits conversion.splits list.splits arg.splits)

lemma vsn_text_item:
  assumes "item_wf i" "covered_item i ap" "render_item i cnt ap = Some (s, ap', ws)" "int (length s) \<le> INT_MAX"
  shows "vsn_text (pre @ unparse i @ rest) (unparse i @ rest) cnt ap =
    bindE (vsn_text (pre @ unparse i @ rest) rest (cnt + length s) ap') (\<lambda>(t, ap'', vs). Inr (s @ t, ap'', ws @ vs))"
proof (cases i)
  case (Plain c)
  then show ?thesis using assms by (subst vsn_text.simps) auto
next
  case Percent
  have "parse_spec (pre @ ''%%'' @ rest) (CHR ''%'' # rest) ap =
      Inr (\<lparr>f_flags = 0, f_width = - 1, f_prec = - 1, f_len = L_none, f_type = CHR ''%''\<rparr>, rest, ap)"
    using prev_char_append [of "pre @ ''%''" "CHR ''%'' # rest"]
    by (simp add: parse_spec_def parse_width_prec_def parse_num_stop is_digit_def parse_prec_def parse_len_def Let_def)
  moreover have "s = ''%''" "ap' = ap" "ws = []" using assms(3) Percent by simp_all
  ultimately show ?thesis by (subst vsn_text.simps) (simp add: conv_text_def Percent)
next
  case (Directive d)
  then obtain fd ap1 where fd: "field_of d ap = Some (fd, ap1)" using assms(3) by (auto simp: render_directive_def split: option.splits)
  have w: "directive_wf d" "covered_directive d ap" "render_directive d cnt ap = Some (s, ap', ws)" using assms Directive by simp_all
  obtain f where f: "parse_spec (pre @ directive_string d @ rest) (tl (directive_string d @ rest)) ap = Inr (f, rest, ap1)" "reads d fd f"
    using parse_spec_reads [OF w(1,2) fd] by blast
  have "f_type f \<noteq> NUL" using f(2) by (cases "d_conv d") (simp_all add: reads_def)
  moreover have "cur (directive_string d @ rest) = CHR ''%''" by (simp add: directive_string_def)
  ultimately show ?thesis
    using f(1) conv_text_render [OF f(2) w(2) fd w(3) assms(4)] Directive by (subst vsn_text.simps) simp
qed

lemma vsn_text_render:
  assumes "\<forall>i \<in> set is. item_wf i" "covered is ap" "render is cnt ap = Some (s, ws)" "int (length s) \<le> INT_MAX"
  shows "\<exists>ap'. vsn_text (pre @ concat (map unparse is)) (concat (map unparse is)) cnt ap = Inr (s, ap', ws)"
  using assms
proof (induction "is" arbitrary: pre cnt ap s ws)
  case Nil
  then show ?case by (subst vsn_text.simps) simp
next
  case (Cons i "is")
  obtain s1 ap1 ws1 s2 ws2 where 1: "render_item i cnt ap = Some (s1, ap1, ws1)" "render is (cnt + length s1) ap1 = Some (s2, ws2)"
    "s = s1 @ s2" "ws = ws1 @ ws2"
    using Cons.prems(3) by (auto split: option.splits)
  obtain vs where "render_item i 0 ap = Some (s1, ap1, vs)" using covered_count [OF 1(1)] by blast
  then have c: "covered_item i ap" "covered is ap1" using Cons.prems(2) by simp_all
  have l: "int (length s1) \<le> INT_MAX" "int (length s2) \<le> INT_MAX" using Cons.prems(4) 1(3) by simp_all
  obtain ap' where "vsn_text ((pre @ unparse i) @ concat (map unparse is)) (concat (map unparse is)) (cnt + length s1) ap1 = Inr (s2, ap', ws2)"
    using Cons.IH [OF _ c(2) 1(2) l(2)] Cons.prems(1) by (metis list.set_intros(2))
  then show ?case
    using vsn_text_item [OF _ c(1) 1(1) l(1), of pre "concat (map unparse is)"] Cons.prems(1) 1(3,4) by simp
qed

text \<open>
  C31: \<open>vsnprintf\<close> prints what the C standard says. For a format made of characters, \<open>%%\<close> and conversions of integers, characters,
  strings, pointers and \<open>%n\<close>, with any flags, widths, precisions and length modifiers, and arguments of the right types, it
  returns the length of the standard's text, performs the stores of \<open>%n\<close> with the counts the standard gives, and leaves in the destination
  that text cut to \<open>n - 1\<close> characters, a terminator if \<open>n\<close> is at least 2, and nothing else changed. Texts are shorter
  than \<open>2\<^sup>3\<^sup>1\<close>; \<open>covered\<close> excludes the five cases in which the code departs from the standard, and
  floating-point conversions are not among the items.
\<close>

theorem vsnprintf_correct:
  assumes "\<forall>i \<in> set is. item_wf i" "covered is args" "render is 0 args = Some (s, ws)" "length s < 2 ^ 31"
  shows "vsnprintf junk dst n (concat (map unparse is)) args =
    Inr (int (length s),
         \<lambda>i. if i < min (length s) (n - 1) then s ! i
             else if 2 \<le> n \<and> i = min (length s) (n - 1) then NUL else dst i, ws)"
proof -
  have "int (length s) \<le> INT_MAX" using assms(4) by (simp add: INT_MAX_def)
  then obtain ap' where "vsn_text (concat (map unparse is)) (concat (map unparse is)) 0 args = Inr (s, ap', ws)"
    using vsn_text_render [OF assms(1-3), of "[]"] by auto
  then have "format_text (concat (map unparse is)) args = Inr (s, ws)" by (simp add: format_text_def)
  moreover have "signed_take_bit 31 (int (length s)) = int (length s)"
    using assms(4) by (intro signed_take_bit_int_eq_self) simp_all
  ultimately show ?thesis unfolding vsnprintf_format_text by (simp add: place_def fun_eq_iff)
qed

text \<open>The format \<open>a%%%#012hX%-+*.5d%.3s%n\<close> and its arguments.\<close>

definition demo_items :: "item list" where
  "demo_items = [Plain CHR ''a'', Percent,
     Directive \<lparr>d_flags = [Alt, Zero], d_width = Width 12, d_prec = No_prec, d_mod = M_h, d_conv = C_X\<rparr>,
     Directive \<lparr>d_flags = [Minus, Plus], d_width = Width_arg, d_prec = Prec 5, d_mod = M_none, d_conv = C_d\<rparr>,
     Directive \<lparr>d_flags = [], d_width = No_width, d_prec = Prec 3, d_mod = M_none, d_conv = C_s\<rparr>,
     Directive \<lparr>d_flags = [], d_width = No_width, d_prec = No_prec, d_mod = M_none, d_conv = C_n\<rparr>]"

definition demo_args :: "arg list" where
  "demo_args = [AInt 0x1BEEF, AInt 9, AInt (- 42), AStr (Some ''hello''), APtr 0x1000]"

lemmas render_defs = render_directive_def field_of_def width_value_def prec_value_def star_def unsigned_text_of_def
  signed_text_of_def string_text_of_def number_def justify_def digits_def sign_of_def

lemma demo_digits:
  "unsigned_value M_h 0x1BEEF = 0xBEEF" "signed_value M_none (- 42) = - 42"
  "show_base 16 True 0xBEEF = ''BEEF''" "show_base 10 False 42 = ''42''"
  "show_base 10 False 12 = ''12''" "show_base 10 False 5 = ''5''" "show_base 10 False 3 = ''3''"
  by (simp_all add: unsigned_value_def signed_value_def show_base.simps numeral_char_def)

lemma replicate_small: "replicate 3 x = [x, x, x]" "replicate 6 x = [x, x, x, x, x, x]"
  by (simp_all add: eval_nat_numeral)

lemma demo_format:
  "concat (map unparse demo_items) = ''a%%%#012hX%-+*.5d%.3s%n''"
  "render demo_items 0 demo_args = Some (''a%0X000000BEEF-00042   hel'', [(0x1000, 4, 26)])"
  "covered demo_items demo_args" "\<forall>i \<in> set demo_items. item_wf i"
  by (simp_all add: demo_items_def demo_args_def demo_digits directive_string_def directive_wf_def covered_directive_def replicate_small render_defs)

theorem vsnprintf_correct_witness:
  "\<exists>buf. vsnprintf (\<lambda>_. NUL) (\<lambda>_. CHR ''?'') 32 ''a%%%#012hX%-+*.5d%.3s%n''
      [AInt 0x1BEEF, AInt 9, AInt (- 42), AStr (Some ''hello''), APtr 0x1000] = Inr (26, buf, [(0x1000, 4, 26)]) \<and>
    map buf [0..<28] = ''a%0X000000BEEF-00042   hel'' @ [NUL, CHR ''?'']"
  using vsnprintf_correct [OF demo_format(4,3,2), of "\<lambda>_. NUL" "\<lambda>_. CHR ''?''" 32, unfolded demo_format(1) demo_args_def]
  by (simp add: upt_rec)

text \<open>
  The cases that are not covered, on examples: a negative width argument does not justify to the left, \<open>%+u\<close> prints a sign,
  \<open>#\<close> adds a zero to those of an octal precision and none to the value 0 with precision 0, and the null pointer has no 0x.
\<close>

lemma uncovered_examples:
  "format_text ''%*d|'' [AInt (- 4), AInt 7] = Inr (''   7|'', [])"
  "format_text ''%+u'' [AInt 7] = Inr (''+7'', [])"
  "format_text ''%#.3o'' [AInt 8] = Inr (''0010'', [])"
  "format_text ''%#.0o'' [AInt 0] = Inr ([], [])"
  "format_text ''%p'' [APtr 0] = Inr (''0000000000000000'', [])"
  by code_simp+

text \<open>Floating-point conversions on examples: 25, 0.25 and -2.5.\<close>

lemma float_examples:
  "format_text ''%.1e'' [ADouble 0x4039000000000000] = Inr (''2.5e+01'', [])"
  "format_text ''%.1e'' [ADouble 0x3FD0000000000000] = Inr (''2.5e-01'', [])"
  "format_text ''%-8.1f|'' [ADouble 0xC004000000000000] = Inr (''-2.5    |'', [])"
  by code_simp+

end
