(* ===== verification/Snprintf_Term.thy ===== *)
theory Snprintf_Term
  imports Snprintf
begin

text \<open>
  The formatter returns, whatever it is given. The loops over the format are recursions on its length; the two loops
  that bring a floating-point number between one and ten end because multiplying by a tenth makes a number
  of ten or more smaller, and multiplying by ten makes a positive number below one larger, in spite of rounding. The
  proofs read the bits of a positive double as a number that grows with its value.
\<close>

section \<open>Positive finite doubles\<close>

definition pos_finite :: "double \<Rightarrow> bool" where
  "pos_finite x \<longleftrightarrow> 0 < uint x \<and> uint x < INF_BITS"

lemma unsigned_bits:
  assumes u: "uint x < 2 ^ 63"
  shows "\<not> d_sign x" "d_key x = uint x" "d_exp x = uint x div 2 ^ 52" "d_frac x = uint x mod 2 ^ 52"
proof -
  have u: "0 \<le> uint x" "uint x < 2 ^ 63" using assms by simp_all
  have "take_bit 63 (uint x) = uint x" using u by (simp add: take_bit_int_eq_self)
  then have "\<not> bit (uint x) 63" by (metis bit_take_bit_iff less_irrefl)
  then show sg: "\<not> d_sign x" by (simp add: d_sign_def bit_uint_iff)
  have m: "(0x7FFFFFFFFFFFFFFF :: u64) = mask 63" "(0x7FF :: u64) = mask 11" "(0xFFFFFFFFFFFFF :: u64) = mask 52"
    by (simp_all add: mask_eq_exp_minus_1)
  show "d_key x = uint x"
    using sg u unfolding d_key_def m by (simp add: take_bit_eq_mask [symmetric] unsigned_take_bit_eq take_bit_int_eq_self)
  show e: "d_exp x = uint x div 2 ^ 52"
  proof -
    have "uint x div 2 ^ 52 < 2 ^ 11" using u by simp
    moreover have "uint (drop_bit 52 x) = uint x div 2 ^ 52"
      unfolding unsigned_drop_bit_eq using u by (simp add: drop_bit_eq_div take_bit_int_eq_self)
    moreover have "0 \<le> uint x div 2 ^ 52" using u(1) by (simp add: pos_imp_zdiv_nonneg_iff)
    ultimately show ?thesis
      unfolding d_exp_def m take_bit_eq_mask [symmetric] unsigned_take_bit_eq
      by (metis take_bit_int_eq_self)
  qed
  show "d_frac x = uint x mod 2 ^ 52"
    unfolding d_frac_def m take_bit_eq_mask [symmetric] unsigned_take_bit_eq by (rule take_bit_eq_mod)
qed

lemma bits_of:
  assumes "uint x < INF_BITS"
  shows "\<not> d_sign x" "d_key x = uint x" "\<not> d_nan x" "\<not> d_inf x" "d_exp x = uint x div 2 ^ 52" "d_frac x = uint x mod 2 ^ 52"
    "d_exp x < 2047" "0 \<le> d_exp x"
proof -
  have "uint x < 2 ^ 63" using assms by (simp add: INF_BITS_def)
  note U = unsigned_bits [OF this]
  show "\<not> d_sign x" "d_key x = uint x" and e: "d_exp x = uint x div 2 ^ 52" and "d_frac x = uint x mod 2 ^ 52" by (fact U)+
  show lt: "d_exp x < 2047" unfolding e using assms by (simp add: INF_BITS_def)
  show "0 \<le> d_exp x" unfolding e by (simp add: pos_imp_zdiv_nonneg_iff)
  show "\<not> d_nan x" "\<not> d_inf x" using lt by (simp_all add: d_nan_def d_inf_def)
qed

text \<open>The bits are the scale and the mantissa side by side, for normal and subnormal numbers alike.\<close>

lemma bits_split:
  assumes "uint x < INF_BITS"
  shows "uint x = (d_scale x + 1074) * 2 ^ 52 + d_mant x" "0 \<le> d_mant x" "d_mant x < 2 ^ 53" "- 1074 \<le> d_scale x"
    "d_scale x < 972" "- 1074 < d_scale x \<Longrightarrow> 2 ^ 52 \<le> d_mant x"
proof -
  note B = bits_of [OF assms]
  have f: "0 \<le> d_frac x" "d_frac x < 2 ^ 52" unfolding B(6) by simp_all
  show "uint x = (d_scale x + 1074) * 2 ^ 52 + d_mant x"
    using div_mult_mod_eq [of "uint x" "2 ^ 52"] unfolding d_scale_def d_mant_def by (auto simp: B(5,6) algebra_simps)
  show "0 \<le> d_mant x" "d_mant x < 2 ^ 53" using f by (auto simp: d_mant_def)
  show "- 1074 \<le> d_scale x" "d_scale x < 972" using B(7,8) by (auto simp: d_scale_def)
  show "- 1074 < d_scale x \<Longrightarrow> 2 ^ 52 \<le> d_mant x" using f by (auto simp: d_scale_def d_mant_def split: if_splits)
qed

section \<open>Rounding\<close>

lemma bit_length_bounds: "0 < m \<Longrightarrow> 1 \<le> bit_length m \<and> 2 ^ nat (bit_length m - 1) \<le> m \<and> m < 2 ^ nat (bit_length m)"
proof (induction m rule: bit_length.induct)
  case (1 m)
  show ?case
  proof (cases "m = 1")
    case True
    then show ?thesis by (simp add: bit_length.simps)
  next
    case False
    then have m: "0 < m div 2" "\<not> m \<le> 0" using 1(2) by auto
    note IH = 1(1) [OF m(2) m(1)]
    have b: "bit_length m = 1 + bit_length (m div 2)" using m by (subst bit_length.simps) simp
    have "nat (bit_length m - 1) = Suc (nat (bit_length (m div 2) - 1))" "nat (bit_length m) = Suc (nat (bit_length (m div 2)))"
      using IH unfolding b by linarith+
    then show ?thesis using IH unfolding b by simp linarith
  qed
qed

lemma bit_length_le: "0 < m \<Longrightarrow> m < 2 ^ k \<Longrightarrow> bit_length m \<le> int k"
proof (rule ccontr)
  assume m: "0 < m" "m < 2 ^ k" "\<not> bit_length m \<le> int k"
  then have "k \<le> nat (bit_length m - 1)" by linarith
  then have "(2 :: int) ^ k \<le> 2 ^ nat (bit_length m - 1)" by (intro power_increasing) simp_all
  then show False using bit_length_bounds [OF m(1)] m(2) by linarith
qed

lemma bit_length_ge: "2 ^ k \<le> m \<Longrightarrow> int k < bit_length m"
proof (rule ccontr)
  assume m: "2 ^ k \<le> m" "\<not> int k < bit_length m"
  then have p: "0 < m" by (smt (verit) zero_less_power)
  have "nat (bit_length m) \<le> k" using m(2) by linarith
  then have "(2 :: int) ^ nat (bit_length m) \<le> 2 ^ k" by (intro power_increasing) simp_all
  then show False using bit_length_bounds [OF p] m(1) by linarith
qed

lemma round_shift_bounds:
  assumes "0 \<le> m" "a * 2 ^ k \<le> m" "m \<le> b * 2 ^ k"
  shows "a \<le> round_shift m k" "round_shift m k \<le> b"
proof -
  let ?q = "m div 2 ^ k" and ?r = "m mod 2 ^ k"
  have "a * 2 ^ k div 2 ^ k \<le> ?q" using assms(2) by (intro zdiv_mono1) simp_all
  then have a: "a \<le> ?q" by simp
  have cases: "round_shift m k = ?q \<or> round_shift m k = ?q + 1 \<and> ?r \<noteq> 0"
    by (auto simp: round_shift_def Let_def)
  then show "a \<le> round_shift m k" using a by linarith
  have "m div 2 ^ k \<le> b * 2 ^ k div 2 ^ k" using assms(3) by (intro zdiv_mono1) simp_all
  then have "?q \<le> b" by simp
  moreover have "?q \<noteq> b" if "?r \<noteq> 0"
  proof
    assume "?q = b"
    then have "b * 2 ^ k + ?r = m" using div_mult_mod_eq [of m "2 ^ k"] by simp
    moreover have "0 \<le> ?r" by simp
    ultimately show False using assms(3) that by linarith
  qed
  ultimately show "round_shift m k \<le> b" using cases by linarith
qed

text \<open>
  The bits of a rounded value, when the significand has \<open>bit_length m\<close> of at least 53: they lie between the powers of two
  around it.
\<close>

lemma round_bits_range:
  assumes "2 ^ 52 \<le> m" "e + bit_length m \<le> 1023"
  shows "(max (e + bit_length m - 53) (- 1074) + 1074) * 2 ^ 52 \<le> round_bits m e"
    "round_bits m e \<le> (max (e + bit_length m - 53) (- 1074) + 1074) * 2 ^ 52 + 2 ^ 53"
    "- 1074 \<le> e + bit_length m - 53 \<Longrightarrow> (e + bit_length m - 53 + 1075) * 2 ^ 52 \<le> round_bits m e"
    "round_bits m e < INF_BITS"
    "e + bit_length m - 53 \<le> - 1074 \<Longrightarrow> a * 2 ^ nat (- 1074 - e) \<le> m \<Longrightarrow> a \<le> round_bits m e"
proof -
  let ?b = "bit_length m"
  define e' where "e' = max (e + ?b - 53) (- 1074)"
  define mant where "mant = (if e' \<le> e then m * 2 ^ nat (e - e') else round_shift m (nat (e' - e)))"
  have "(0 :: int) < 2 ^ 52" by simp
  then have m: "0 < m" using assms(1) by linarith
  have b: "53 \<le> ?b" using bit_length_ge [OF assms(1)] by linarith
  have ee: "e \<le> e'" "int (nat (e' - e)) = e' - e" using b by (auto simp: e'_def)
  have mant_eq: "mant = round_shift m (nat (e' - e))"
    using ee by (cases "e = e'") (auto simp: mant_def round_shift_def)
  have "m < 2 ^ nat ?b" "2 ^ nat (?b - 1) \<le> m" using bit_length_bounds [OF m] by blast+
  moreover have "nat ?b \<le> 53 + nat (e' - e)" using b by (auto simp: e'_def)
  then have "(2 :: int) ^ nat ?b \<le> 2 ^ (53 + nat (e' - e))" by (intro power_increasing) simp_all
  ultimately have up: "m \<le> 2 ^ 53 * 2 ^ nat (e' - e)" by (simp add: power_add)
  have mant: "0 \<le> mant" "mant \<le> 2 ^ 53" unfolding mant_eq
    using round_shift_bounds [of m 0 "nat (e' - e)" "2 ^ 53"] m up by simp_all
  have e': "e' \<le> 970" "- 1074 \<le> e'" using assms(2) by (auto simp: e'_def)
  have "(e' + 1074) * 2 ^ 52 + mant < INF_BITS"
  proof -
    have "(e' + 1074) * 2 ^ 52 \<le> 2044 * 2 ^ 52" using e' by simp
    then show ?thesis using mant(2) by (simp add: INF_BITS_def)
  qed
  then have R: "round_bits m e = (e' + 1074) * 2 ^ 52 + mant" "round_bits m e < INF_BITS"
    using m unfolding round_bits_def Let_def e'_def [symmetric] mant_def [symmetric] by simp_all
  show "(max (e + ?b - 53) (- 1074) + 1074) * 2 ^ 52 \<le> round_bits m e"
    "round_bits m e \<le> (max (e + ?b - 53) (- 1074) + 1074) * 2 ^ 52 + 2 ^ 53" "round_bits m e < INF_BITS"
    using R mant unfolding e'_def [symmetric] by simp_all
  show "(e + ?b - 53 + 1075) * 2 ^ 52 \<le> round_bits m e" if "- 1074 \<le> e + ?b - 53"
  proof -
    have en: "e' = e + ?b - 53" using that by (simp add: e'_def)
    then have "nat (?b - 1) = 52 + nat (e' - e)" using b by (simp add: nat_eq_iff)
    then have "2 ^ 52 * 2 ^ nat (e' - e) \<le> m" using \<open>2 ^ nat (?b - 1) \<le> m\<close> by (simp add: power_add)
    then have "2 ^ 52 \<le> mant" unfolding mant_eq using round_shift_bounds(1) [of m "2 ^ 52" "nat (e' - e)" "2 ^ 53"] m up by simp
    then show ?thesis using R(1) unfolding en by (simp add: algebra_simps)
  qed
  show "a \<le> round_bits m e" if "e + ?b - 53 \<le> - 1074" "a * 2 ^ nat (- 1074 - e) \<le> m"
  proof -
    have "e' = - 1074" using that(1) by (simp add: e'_def)
    then show ?thesis using round_shift_bounds(1) [of m a "nat (- 1074 - e)" "2 ^ 53"] that(2) m up R(1) by (simp add: mant_eq)
  qed
qed

section \<open>Multiplying by ten and by a tenth\<close>

lemma tenth: "uint D_TENTH < INF_BITS" "d_mant D_TENTH = 0x1999999999999A" "d_scale D_TENTH = - 56"
  by code_simp+

lemma ten: "uint D_10 = 0x4024000000000000" "uint D_10 < INF_BITS" "d_mant D_10 = 0x14000000000000" "d_scale D_10 = - 49"
  by code_simp+

lemma d_mul_bits:
  assumes "uint x < INF_BITS" "uint y < INF_BITS" "0 \<le> round_bits (d_mant x * d_mant y) (d_scale x + d_scale y)"
    "round_bits (d_mant x * d_mant y) (d_scale x + d_scale y) < INF_BITS"
  shows "uint (d_mul x y) = round_bits (d_mant x * d_mant y) (d_scale x + d_scale y)"
proof -
  have "d_mul x y = of_int (round_bits (d_mant x * d_mant y) (d_scale x + d_scale y))"
    using bits_of [OF assms(1)] bits_of [OF assms(2)] by (simp add: d_mul_def d_pack_def)
  then show ?thesis using assms(3,4) by (simp add: INF_BITS_def uint_word_of_int_eq take_bit_int_eq_self)
qed

lemma norm_down_step:
  assumes "pos_finite x" "d_ge x D_10"
  shows "pos_finite (d_mul x D_TENTH)" "uint (d_mul x D_TENTH) < uint x"
proof -
  have f: "uint x < INF_BITS" using assms(1) by (simp add: pos_finite_def)
  note S = bits_split [OF f]
  have "0x4024000000000000 \<le> uint x"
    using assms(2) bits_of(2) [OF f] bits_of(2) [OF ten(2)] ten(1) by (simp add: d_ge_def)
  then have s: "- 49 \<le> d_scale x" using S(1,3) by simp
  then have mx: "2 ^ 52 \<le> d_mant x" using S(6) by simp
  define m where "m = d_mant x * 0x1999999999999A"
  define e where "e = d_scale x - 56"
  have m: "2 ^ 104 \<le> m" "m < 2 ^ 106" using mx S(3) by (simp_all add: m_def)
  have b: "105 \<le> bit_length m" "bit_length m \<le> 106"
    using bit_length_ge [OF m(1)] bit_length_le [OF _ m(2)] m(1) by simp_all
  have "2 ^ 52 \<le> m" "e + bit_length m \<le> 1023" using m(1) b S(5) by (simp_all add: e_def)
  note R = round_bits_range [OF this]
  have M: "max (e + bit_length m - 53) (- 1074) = e + bit_length m - 53" using b s by (simp add: e_def)
  have bits: "round_bits m e < uint x" "0 < round_bits m e" using R(1,2) b s S(1,2) unfolding M by (simp_all add: e_def)
  have "uint (d_mul x D_TENTH) = round_bits m e"
    using d_mul_bits [OF f tenth(1)] bits(2) R(4) unfolding tenth(2,3) m_def [symmetric] by (simp add: e_def)
  then show "uint (d_mul x D_TENTH) < uint x" "pos_finite (d_mul x D_TENTH)"
    using bits R(4) by (simp_all add: pos_finite_def)
qed

lemma norm_up_step:
  assumes "pos_finite x" "d_lt x D_1"
  shows "pos_finite (d_mul x D_10)" "uint x < uint (d_mul x D_10)"
proof -
  have f: "0 < uint x" "uint x < INF_BITS" using assms(1) by (simp_all add: pos_finite_def)
  note S = bits_split [OF f(2)]
  have one: "uint D_1 = 0x3FF0000000000000" "uint D_1 < INF_BITS" by code_simp+
  have "uint x < 0x3FF0000000000000"
    using assms(2) bits_of(2) [OF f(2)] bits_of(2) [OF one(2)] one(1) by (simp add: d_lt_def)
  then have s: "d_scale x \<le> - 52" using S(1,2) by simp
  have mx: "1 \<le> d_mant x" using f(1) S(1,4,6) by (cases "d_scale x = - 1074") simp_all
  define m where "m = d_mant x * 0x14000000000000"
  define e where "e = d_scale x - 49"
  have m: "2 ^ 52 \<le> m" "m < 2 ^ 106" using mx S(3) by (simp_all add: m_def)
  have b: "53 \<le> bit_length m" "bit_length m \<le> 106"
    using bit_length_ge [OF m(1)] bit_length_le [OF _ m(2)] m(1) by simp_all
  have "e + bit_length m \<le> 1023" using b s by (simp add: e_def)
  note R = round_bits_range [OF m(1) this]
  have up: "uint x < round_bits m e"
  proof (cases "d_scale x = - 1074")
    case False
    then have n: "2 ^ 52 \<le> d_mant x" "- 1074 < d_scale x" using S(4,6) by simp_all
    then have "2 ^ 104 \<le> m" by (simp add: m_def)
    then have "105 \<le> bit_length m" using bit_length_ge [of 104 m] by simp
    then show ?thesis using R(3) n(2) S(1,3) by (simp add: e_def)
  next
    case sub: True
    then have x: "uint x = d_mant x" using S(1) by simp
    show ?thesis
    proof (cases "102 \<le> bit_length m")
      case True
      then have R3: "(bit_length m - 101) * 2 ^ 52 \<le> round_bits m e" using R(3) sub by (simp add: e_def)
      show ?thesis
      proof (cases "bit_length m \<le> 104")
        case True
        then have "m < 2 ^ 104"
          using bit_length_ge [of 104 m] by (rule_tac ccontr) simp
        then have "d_mant x < 2 ^ 52" by (simp add: m_def)
        then show ?thesis using R3 \<open>102 \<le> bit_length m\<close> x by simp
      next
        case False
        then show ?thesis using R3 x S(3) by simp
      qed
    next
      case False
      have "(10 * d_mant x) * 2 ^ nat (- 1074 - e) \<le> m" using sub by (simp add: e_def m_def)
      then have "10 * d_mant x \<le> round_bits m e" using R(5) False sub by (simp add: e_def)
      then show ?thesis using x mx by simp
    qed
  qed
  have "uint (d_mul x D_10) = round_bits m e"
    using d_mul_bits [OF f(2) ten(2)] up f(1) R(4) unfolding ten(3,4) m_def [symmetric] by (simp add: e_def)
  then show "uint x < uint (d_mul x D_10)" "pos_finite (d_mul x D_10)"
    using up f(1) R(4) by (simp_all add: pos_finite_def)
qed

section \<open>The loops\<close>

lemma norm_down_returns:
  "pos_finite x \<Longrightarrow> \<exists>y e'. norm_down x e = Some (y, e') \<and> pos_finite y \<and> \<not> d_ge y D_10"
proof (induction "nat (uint x)" arbitrary: x e rule: less_induct)
  case less
  show ?case
  proof (cases "d_ge x D_10")
    case True
    note N = norm_down_step [OF less.prems True]
    have "d_mul x D_TENTH < x" using N(2) by (simp add: word_less_def)
    then have "nat (uint (d_mul x D_TENTH)) < nat (uint x)" by (simp add: word_less_nat_alt)
    from less.hyps [OF this N(1), of "e + 1"] True show ?thesis by (subst norm_down.simps) simp
  next
    case False
    then show ?thesis using less.prems by (subst norm_down.simps) simp
  qed
qed

lemma norm_up_returns:
  "pos_finite x \<Longrightarrow> \<exists>y e'. norm_up x e = Some (y, e') \<and> pos_finite y \<and> \<not> d_lt y D_1"
proof (induction "nat (INF_BITS - uint x)" arbitrary: x e rule: less_induct)
  case less
  show ?case
  proof (cases "d_lt x D_1")
    case True
    note N = norm_up_step [OF less.prems True]
    have "nat (INF_BITS - uint (d_mul x D_10)) < nat (INF_BITS - uint x)" using N by (simp add: pos_finite_def)
    from less.hyps [OF this N(1), of "e - 1"] True show ?thesis by (subst norm_up.simps) simp
  next
    case False
    then show ?thesis using less.prems by (subst norm_up.simps) simp
  qed
qed

lemma positive_finite:
  assumes "\<not> fp_is_inf x" "y AND 0x7FFFFFFFFFFFFFFF = x AND 0x7FFFFFFFFFFFFFFF" "d_lt D_0 y"
  shows "pos_finite y"
proof -
  have m: "(0x7FFFFFFFFFFFFFFF :: u64) = mask 63" by (simp add: mask_eq_exp_minus_1)
  have "d_key D_0 = 0" by code_simp
  then have k: "\<not> d_nan y" "0 < d_key y" using assms(3) by (simp_all add: d_lt_def)
  then have s: "\<not> d_sign y" by (auto simp: d_key_def split: if_splits)
  have ym: "y AND mask 63 = y"
  proof (rule bit_word_eqI)
    fix n assume "n < LENGTH(64)"
    then show "bit (y AND mask 63) n = bit y n" using s by (cases "n = 63") (auto simp: bit_simps d_sign_def)
  qed
  then have "uint y = uint (take_bit 63 y)" by (simp add: take_bit_eq_mask)
  also have "\<dots> < 2 ^ 63" unfolding unsigned_take_bit_eq by (rule take_bit_int_less_exp)
  finally have u: "uint y < 2 ^ 63" .
  note U = unsigned_bits [OF u]
  have "uint y < INF_BITS"
  proof (rule ccontr)
    assume "\<not> uint y < INF_BITS"
    then have "uint y div 2 ^ 52 = 2047" using u by (simp add: INF_BITS_def)
    moreover from this have "uint y mod 2 ^ 52 = 0" using k(1) U(3,4) by (simp add: d_nan_def)
    ultimately have "uint y = 2047 * 2 ^ 52" using div_mult_mod_eq [of "uint y" "2 ^ 52"] by simp
    then have "y = word_of_int (2047 * 2 ^ 52)" by (metis word_of_int_uint)
    then have "x AND 0x7fffffffffffffff = 0x7ff0000000000000" using assms(2) ym unfolding m by simp
    then show False using assms(1) by (simp add: fp_is_inf_def)
  qed
  then show ?thesis using k(2) U(2) by (simp add: pos_finite_def)
qed

lemma fp_abs_magnitude: "fp_abs x AND 0x7FFFFFFFFFFFFFFF = x AND 0x7FFFFFFFFFFFFFFF"
proof -
  have m: "(0x7FFFFFFFFFFFFFFF :: u64) = mask 63" "SIGN_BIT = push_bit 63 1"
    by (simp_all add: mask_eq_exp_minus_1 SIGN_BIT_def)
  have "\<not> bit SIGN_BIT n" if "n < 63" for n unfolding m(2) bit_push_bit_iff using that by auto
  then have "(x XOR SIGN_BIT) AND mask 63 = x AND mask 63"
    by (intro bit_word_eqI) (auto simp: bit_and_iff bit_xor_iff bit_mask_iff)
  then show ?thesis unfolding m(1) by (simp add: fp_abs_def d_neg_def)
qed

lemma normalize_returns: "\<not> fp_is_inf x \<Longrightarrow> \<exists>r. normalize (fp_abs x) = Inr r"
proof (cases "d_lt D_0 (fp_abs x)")
  case True
  assume "\<not> fp_is_inf x"
  from positive_finite [OF this fp_abs_magnitude True] obtain y e where
    "norm_down (fp_abs x) 0 = Some (y, e)" "pos_finite y" using norm_down_returns by blast
  then show ?thesis using True norm_up_returns [of y e] by (auto simp: normalize_def)
qed (simp add: normalize_def)

section \<open>The formatter\<close>

definition returns :: "'a res \<Rightarrow> bool" where
  "returns res \<longleftrightarrow> res \<noteq> Inl No_return"

lemma returns_simps [simp]: "returns (Inr x)" "returns (Inl e) \<longleftrightarrow> e \<noteq> No_return"
  by (simp_all add: returns_def)

lemma returns_bindE: "returns m \<Longrightarrow> (\<And>x. m = Inr x \<Longrightarrow> returns (f x)) \<Longrightarrow> returns (bindE m f)"
  by (cases m) simp_all

lemma args_return:
  "returns (va_int ap)" "returns (va_str ap)" "returns (va_ptr ap)" "returns (va_double ap)"
  "returns (get_int_arg ap l)" "returns (get_uint_arg ap l)"
proof -
  show i: "returns (va_int ap)" "returns (va_str ap)" "returns (va_ptr ap)" "returns (va_double ap)"
    by (simp_all add: va_int_def va_str_def va_ptr_def va_double_def split: list.split arg.split)
  show "returns (get_int_arg ap l)" "returns (get_uint_arg ap l)"
    unfolding get_int_arg_def get_uint_arg_def by (auto intro!: returns_bindE i)
qed

lemma parse_num_returns: "returns (parse_num mx p v any)"
  by (induction mx p v any rule: parse_num.induct) (simp_all add: Let_def)

lemma parse_spec_returns: "returns (parse_spec fmt p ap)"
proof -
  have "returns (parse_width_prec p ap)" "returns (parse_prec p ap)" for p ap
    unfolding parse_width_prec_def parse_prec_def
    by (auto intro!: returns_bindE args_return parse_num_returns simp: Let_def)
  then show ?thesis unfolding parse_spec_def by (auto intro!: returns_bindE simp: Let_def split: prod.split)
qed

lemma utoa_returns: "returns (utoa_rev room v base upper)"
proof -
  have "returns (utoa_loop room v base digs)" for digs
    by (induction room v base digs rule: utoa_loop.induct) (auto simp: Let_def intro!: returns_bindE)
  then show ?thesis by (simp add: utoa_rev_def)
qed

lemma emit_int_returns: "returns (emit_int out f u neg base upper)"
  unfolding emit_int_def by (intro returns_bindE utoa_returns) (simp add: Let_def)

lemma d_to_u64_returns: "returns (d_to_u64 x)"
  by (simp add: d_to_u64_def)

lemma emit_f_returns: "returns (emit_float_f out f x upper)"
  unfolding emit_float_f_def Let_def by (auto intro!: returns_bindE d_to_u64_returns utoa_returns)

lemma emit_e_returns: "returns (emit_float_e out f x upper)"
proof (cases "fp_is_nan x \<or> fp_is_inf x")
  case False
  then obtain r where "normalize (fp_abs x) = Inr r" using normalize_returns by blast
  then show ?thesis using False
    by (auto simp: emit_float_e_def Let_def intro!: returns_bindE d_to_u64_returns split: prod.split)
qed (auto simp: emit_float_e_def Let_def)

lemma emit_g_returns: "returns (emit_float_g junk out f x upper)"
proof (cases "fp_is_nan x \<or> fp_is_inf x")
  case False
  then obtain r where "normalize (fp_abs x) = Inr r" using normalize_returns by blast
  then show ?thesis using False
    by (auto simp: emit_float_g_def Let_def intro!: returns_bindE emit_e_returns emit_f_returns split: prod.split)
qed (auto simp: emit_float_g_def Let_def)

lemma conv_returns:
  "returns (conv_c f st)" "returns (conv_s f st)" "returns (conv_d f st)" "returns (conv_u base upper f st)"
  "returns (conv_p f st)" "returns (conv_n f st)"
  unfolding conv_c_def conv_s_def conv_d_def conv_u_def conv_p_def conv_n_def
  by (auto intro!: returns_bindE args_return emit_int_returns simp: Let_def)

lemma conv_float_returns: "(\<And>out f x u. returns (emit out f x u)) \<Longrightarrow> returns (conv_float emit upper f st)"
  unfolding conv_float_def by (auto intro!: returns_bindE args_return)

lemma convert_returns: "returns (convert junk f st)"
  unfolding convert_def Let_def
  using conv_returns conv_float_returns [OF emit_f_returns] conv_float_returns [OF emit_e_returns]
    conv_float_returns [OF emit_g_returns] by simp

lemma vsn_loop_returns: "returns (vsn_loop junk fmt p st)"
proof (induction junk fmt p st rule: vsn_loop.induct)
  case (1 junk fmt p st)
  show ?case
    using 1 parse_spec_returns [of fmt "tl p" "v_ap st"] convert_returns
    by (subst vsn_loop.simps) (auto split: sum.split prod.split simp: returns_def)
qed

text \<open>
  C32: the formatter returns for every format, every list of arguments and every destination: no loop of it
  runs for ever, the normalisation loops of the floating-point conversions included.
\<close>

theorem vsnprintf_returns: "vsnprintf junk dst n fmt ap \<noteq> Inl No_return"
proof -
  have "returns (vsnprintf junk dst n fmt ap)"
    unfolding vsnprintf_def by (intro returns_bindE vsn_loop_returns) (simp add: Let_def)
  then show ?thesis by (simp add: returns_def)
qed

end
