(* ===== verification/Uart.thy ===== *)
theory Uart
  imports Snprintf_Props
begin

text \<open>
  The console: \<^verbatim>\<open>rtprog/uart.c\<close> and \<^verbatim>\<open>rtprog/uart.h\<close>. The device is its control registers, the
  words written to the data register so far, and what the flag register shows at each of
  the reads to come: \<open>uart_putc\<close> polls it until the transmit queue has room.
\<close>

section \<open>Registers\<close>

definition UART_FR_TXFF :: u32 where "UART_FR_TXFF = push_bit 5 1"
definition PRINTF_MAX :: nat where "PRINTF_MAX = 4096"

record uart =
  u_cr :: u32
  u_lcrh :: u32
  u_fr :: "nat \<Rightarrow> u32"
  u_reads :: nat
  u_sent :: "u32 list"

definition uart_init :: "uart \<Rightarrow> uart" where
  "uart_init u =
     (let u = u\<lparr>u_cr := 0\<rparr>;
          u = u\<lparr>u_lcrh := push_bit 5 3 OR push_bit 4 1\<rparr>
      in u\<lparr>u_cr := push_bit 8 1 OR push_bit 9 1 OR push_bit 0 1\<rparr>)"

section \<open>Output\<close>

partial_function (option) uart_wait :: "(nat \<Rightarrow> u32) \<Rightarrow> nat \<Rightarrow> nat option" where
  "uart_wait fr t = (if fr t AND UART_FR_TXFF \<noteq> 0 then uart_wait fr (t + 1) else Some (t + 1))"

declare uart_wait.simps [code]

definition uart_putc :: "char \<Rightarrow> uart \<Rightarrow> uart res" where
  "uart_putc c u =
     (case uart_wait (u_fr u) (u_reads u) of
        None \<Rightarrow> Inl No_return
      | Some t \<Rightarrow> Inr (u\<lparr>u_reads := t, u_sent := u_sent u @ [of_char c]\<rparr>))"

fun uart_puts :: "string \<Rightarrow> uart \<Rightarrow> uart res" where
  "uart_puts [] u = Inr u"
| "uart_puts (c # s) u = (if c = NUL then Inr u else bindE (uart_putc c u) (uart_puts s))"

text \<open>
  The number printers fill a buffer from its end; \<open>room\<close> is the number of characters still
  free before the index would become negative, and the result is what lies behind it.
\<close>

fun fill_digits :: "(u64 \<Rightarrow> char) \<Rightarrow> u64 \<Rightarrow> nat \<Rightarrow> u64 \<Rightarrow> string \<Rightarrow> string" where
  "fill_digits dig base 0 v buf = buf"
| "fill_digits dig base (Suc room) v buf =
     (if v \<noteq> 0 then fill_digits dig base room (v div base) (dig (v mod base) # buf) else buf)"

definition uart_putu64 :: "u64 \<Rightarrow> uart \<Rightarrow> uart res" where
  "uart_putu64 v u =
     (if v = 0 then uart_putc CHR ''0'' u
      else uart_puts (fill_digits (\<lambda>d. digit_char (unat d)) 10 20 v []) u)"

definition uart_putu32 :: "u32 \<Rightarrow> uart \<Rightarrow> uart res" where
  "uart_putu32 v u = uart_putu64 (ucast v) u"

definition tohex :: "nat \<Rightarrow> char" where
  "tohex i = (if i < 10 then char_of (48 + i) else char_of (65 + (i - 10)))"

definition uart_puthex :: "u64 \<Rightarrow> uart \<Rightarrow> uart res" where
  "uart_puthex v u =
     (if v = 0 then uart_putc CHR ''0'' u
      else uart_puts (fill_digits (\<lambda>d. tohex (unat d)) 16 16 v []) u)"

definition vprintf :: "(nat \<Rightarrow> char) \<Rightarrow> string \<Rightarrow> arg list \<Rightarrow> uart \<Rightarrow> (int \<times> stores \<times> uart) res" where
  "vprintf junk fmt ap u =
     bindE (vsnprintf junk junk PRINTF_MAX fmt ap) (\<lambda>(r, s, ws).
     bindE (uart_puts (map s [0..<PRINTF_MAX]) u) (\<lambda>u. Inr (r, ws, u)))"

definition printf :: "(nat \<Rightarrow> char) \<Rightarrow> string \<Rightarrow> arg list \<Rightarrow> uart \<Rightarrow> (int \<times> stores \<times> uart) res" where
  "printf junk fmt ap u = vprintf junk fmt ap u"

section \<open>A device that drains\<close>

text \<open>The transmit queue has room again and again; it is checked at each read of the flag register.\<close>

definition drains :: "uart \<Rightarrow> bool" where
  "drains u \<longleftrightarrow> (\<forall>t. \<exists>t' \<ge> t. u_fr u t' AND UART_FR_TXFF = 0)"

text \<open>\<open>u'\<close> is \<open>u\<close> after the characters of \<open>s\<close> were sent.\<close>

definition sent :: "uart \<Rightarrow> string \<Rightarrow> uart \<Rightarrow> bool" where
  "sent u s u' \<longleftrightarrow> u_sent u' = u_sent u @ map of_char s \<and> u_fr u' = u_fr u \<and> u_cr u' = u_cr u \<and> u_lcrh u' = u_lcrh u"

lemma uart_wait_returns:
  assumes "t \<le> t'" "fr t' AND UART_FR_TXFF = 0" shows "\<exists>r. uart_wait fr t = Some r"
  using assms
proof (induction "t' - t" arbitrary: t)
  case 0
  then show ?case by (subst uart_wait.simps) simp
next
  case (Suc k)
  then show ?case by (subst uart_wait.simps) (auto simp: Suc_le_eq)
qed

lemma sent_drains: "sent u s u' \<Longrightarrow> drains u' = drains u"
  by (simp add: sent_def drains_def)

lemma sent_trans: "sent u s u' \<Longrightarrow> sent u' t u'' \<Longrightarrow> sent u (s @ t) u''"
  by (simp add: sent_def)

lemma sent_refl: "sent u [] u"
  by (simp add: sent_def)

lemma uart_putc_ok: "drains u \<Longrightarrow> \<exists>u'. uart_putc c u = Inr u' \<and> sent u [c] u'"
proof -
  assume "drains u"
  then obtain t where "uart_wait (u_fr u) (u_reads u) = Some t"
    using uart_wait_returns [of "u_reads u" _ "u_fr u"] unfolding drains_def by blast
  then show ?thesis by (simp add: uart_putc_def sent_def)
qed

lemma uart_puts_ok: "drains u \<Longrightarrow> \<exists>u'. uart_puts s u = Inr u' \<and> sent u (take (cstr_len s) s) u'"
proof (induction s arbitrary: u)
  case (Cons c s)
  show ?case
  proof (cases "c = NUL")
    case False
    obtain u1 where u1: "uart_putc c u = Inr u1" "sent u [c] u1" using uart_putc_ok [OF Cons.prems] by blast
    then obtain u2 where "uart_puts s u1 = Inr u2" "sent u1 (take (cstr_len s) s) u2"
      using Cons.IH [of u1] sent_drains [OF u1(2)] Cons.prems by blast
    then show ?thesis using u1 False sent_trans [OF u1(2)] by auto
  qed (simp add: sent_refl)
qed (simp add: sent_refl)

lemma cstr_len_all: "NUL \<notin> set s \<Longrightarrow> cstr_len s = length s"
  by (induction s) auto

lemma uart_puts_text: "drains u \<Longrightarrow> NUL \<notin> set s \<Longrightarrow> \<exists>u'. uart_puts s u = Inr u' \<and> sent u s u'"
  using uart_puts_ok [of u s] by (simp add: cstr_len_all)

section \<open>Numbers\<close>

definition hex_val :: "char \<Rightarrow> nat" where
  "hex_val c = (let n = of_char c in if n < 58 then n - 48 else n - 55)"

definition read_with :: "(char \<Rightarrow> nat) \<Rightarrow> nat \<Rightarrow> string \<Rightarrow> nat" where
  "read_with val base s = foldl (\<lambda>a c. a * base + val c) 0 s"

lemma foldl_read: "foldl (\<lambda>a c. a * base + val c) k s = k * base ^ length s + read_with val base s"
proof (induction s arbitrary: k)
  case (Cons c s)
  have "read_with val base (c # s) = val c * base ^ length s + read_with val base s"
    using Cons.IH [of "val c"] by (simp add: read_with_def)
  then show ?case using Cons.IH [of "k * base + val c"] by (simp add: algebra_simps)
qed (simp add: read_with_def)

lemma read_with_append: "read_with val base (s @ t) = read_with val base s * base ^ length t + read_with val base t"
proof -
  have "read_with val base (s @ t) = foldl (\<lambda>a c. a * base + val c) (read_with val base s) t"
    by (simp only: read_with_def foldl_append)
  then show ?thesis by (simp only: foldl_read)
qed

lemma fill_digits_value:
  assumes dig: "\<And>d. unat d < unat base \<Longrightarrow> val (dig d) = unat d \<and> dig d \<noteq> NUL"
    and base: "2 \<le> unat base" and v: "unat v < unat base ^ room" and buf: "NUL \<notin> set buf"
  shows "read_with val (unat base) (fill_digits dig base room v buf) =
      unat v * unat base ^ length buf + read_with val (unat base) buf \<and>
    NUL \<notin> set (fill_digits dig base room v buf)"
  using v buf
proof (induction room arbitrary: v buf)
  case 0
  then show ?case by simp
next
  case (Suc room)
  show ?case
  proof (cases "v = 0")
    case False
    have dv: "unat (v div base) = unat v div unat base" "unat (v mod base) = unat v mod unat base"
      by (simp_all add: unat_div unat_mod)
    have m: "unat (v mod base) < unat base" unfolding dv using base by simp
    note d = dig [OF m]
    have "unat (v div base) < unat base ^ room"
      using Suc.prems(1) unfolding dv by (simp add: less_mult_imp_div_less mult.commute)
    from Suc.IH [OF this, of "dig (v mod base) # buf"]
    have IH: "read_with val (unat base) (fill_digits dig base room (v div base) (dig (v mod base) # buf)) =
        unat (v div base) * unat base ^ Suc (length buf) + read_with val (unat base) (dig (v mod base) # buf)"
      "NUL \<notin> set (fill_digits dig base room (v div base) (dig (v mod base) # buf))"
      using d Suc.prems(2) by auto
    have "read_with val (unat base) (dig (v mod base) # buf) =
        unat (v mod base) * unat base ^ length buf + read_with val (unat base) buf"
      using d read_with_append [of val "unat base" "[dig (v mod base)]" buf] by (simp add: read_with_def)
    moreover have "unat v * unat base ^ length buf =
        (unat v div unat base * unat base + unat v mod unat base) * unat base ^ length buf" by simp
    ultimately have "read_with val (unat base) (fill_digits dig base (Suc room) v buf) =
        unat v * unat base ^ length buf + read_with val (unat base) buf"
      using IH(1) False unfolding dv by (simp only: fill_digits.simps if_True if_False distrib_right power_Suc mult.assoc add.assoc not_False_eq_True)
    then show ?thesis using IH(2) False by simp
  qed (use Suc in simp)
qed

lemma not_NUL: "of_char c \<noteq> (0 :: nat) \<Longrightarrow> c \<noteq> NUL"
  by auto

lemma tohex_val: "d < 16 \<Longrightarrow> hex_val (tohex d) = d \<and> tohex d \<noteq> NUL"
  by (auto simp: hex_val_def tohex_def Let_def intro!: not_NUL)

lemma digit_char_val: "d < 10 \<Longrightarrow> hex_val (digit_char d) = d \<and> digit_char d \<noteq> NUL"
  by (auto simp: hex_val_def digit_char_def Let_def intro!: not_NUL)

lemma number_text:
  assumes "drains u" "2 ^ 64 \<le> unat base ^ room" "2 \<le> unat base"
    and dig: "\<And>d. unat d < unat base \<Longrightarrow> val (dig d) = unat d \<and> dig d \<noteq> NUL"
  shows "\<exists>s u'. uart_puts (fill_digits dig base room v []) u = Inr u' \<and> sent u s u' \<and>
    read_with val (unat base) s = unat v"
proof -
  have v: "unat v < unat base ^ room" using assms(2) unsigned_less [of v, where 'a = nat] by simp
  have "read_with val (unat base) (fill_digits dig base room v []) = unat v \<and> NUL \<notin> set (fill_digits dig base room v [])"
    using fill_digits_value [of base val dig v room "[]", OF dig assms(3) v] by (simp add: read_with_def)
  then show ?thesis using uart_puts_text [OF assms(1)] by blast
qed

lemma zero_text:
  "drains u \<Longrightarrow> \<exists>s u'. uart_putc CHR ''0'' u = Inr u' \<and> sent u s u' \<and> read_with hex_val base s = 0"
  using uart_putc_ok [of u "CHR ''0''"] by (force simp: read_with_def hex_val_def)

definition demo_uart :: uart where
  "demo_uart = \<lparr>u_cr = 0, u_lcrh = 0, u_fr = (\<lambda>t. if even t then UART_FR_TXFF else 0), u_reads = 0, u_sent = []\<rparr>"

lemma demo_uart_drains: "drains demo_uart"
proof -
  have "\<exists>t' \<ge> t. odd t'" for t :: nat by (cases "odd t") (auto intro: exI [of _ t] exI [of _ "Suc t"])
  then show ?thesis by (force simp: drains_def demo_uart_def)
qed

section \<open>Properties\<close>

text \<open>
  On a console whose transmit queue drains, \<open>uart_putu64\<close> and \<open>uart_puthex\<close> return and send digits
  that read back as their argument, in decimal and in hexadecimal.
\<close>
theorem uart_numbers_correct:
  assumes "drains u"
  shows "(\<exists>s u'. uart_putu64 v u = Inr u' \<and> sent u s u' \<and> read_with hex_val 10 s = unat v) \<and>
    (\<exists>s u'. uart_puthex v u = Inr u' \<and> sent u s u' \<and> read_with hex_val 16 s = unat v)"
proof (cases "v = 0")
  case True
  then show ?thesis using zero_text [OF assms] by (simp add: uart_putu64_def uart_puthex_def)
next
  case False
  have "\<exists>s u'. uart_putu64 v u = Inr u' \<and> sent u s u' \<and> read_with hex_val 10 s = unat v"
    using number_text [OF assms, of 10 20 hex_val "\<lambda>d. digit_char (unat d)" v] digit_char_val False
    by (simp add: uart_putu64_def)
  moreover have "\<exists>s u'. uart_puthex v u = Inr u' \<and> sent u s u' \<and> read_with hex_val 16 s = unat v"
    using number_text [OF assms, of 16 16 hex_val "\<lambda>d. tohex (unat d)" v] tohex_val False
    by (simp add: uart_puthex_def)
  ultimately show ?thesis by blast
qed

theorem uart_numbers_correct_witness:
  "\<exists>s u'. uart_puthex 0xBEEF demo_uart = Inr u' \<and> sent demo_uart s u' \<and> read_with hex_val 16 s = 0xBEEF"
  using uart_numbers_correct [OF demo_uart_drains, of "0xBEEF"] by simp

text \<open>
  \<open>printf\<close> on a console whose transmit queue drains returns the length of the text and sends
  exactly its first 4095 characters (up to a NUL the format produced itself).
\<close>
theorem printf_correct:
  assumes "drains u" "format_text fmt ap = Inr (s, ws)"
  shows "\<exists>u'. printf junk fmt ap u = Inr (signed_take_bit 31 (int (length s)), ws, u') \<and>
    sent u (take (cstr_len (take 4095 s)) s) u'"
proof -
  define b where "b = place junk PRINTF_MAX s"
  have b: "map b [0..<PRINTF_MAX] = take 4095 s @ NUL # map junk [Suc (min (length s) 4095)..<4096]"
    unfolding b_def PRINTF_MAX_def
    by (rule nth_equalityI)
      (auto simp: place_def nth_append nth_Cons min_def split: nat.splits intro!: arg_cong [where f = junk])
  have "cstr_len (take 4095 s) \<le> length (take 4095 s)" by (rule cstr_len_le)
  then have t: "take (cstr_len (map b [0..<PRINTF_MAX])) (map b [0..<PRINTF_MAX]) = take (cstr_len (take 4095 s)) s"
    unfolding b cstr_len_append by simp
  obtain u' where "uart_puts (map b [0..<PRINTF_MAX]) u = Inr u'" "sent u (take (cstr_len (take 4095 s)) s) u'"
    using uart_puts_ok [OF assms(1), of "map b [0..<PRINTF_MAX]"] unfolding t by blast
  moreover have "vsnprintf junk junk PRINTF_MAX fmt ap = Inr (signed_take_bit 31 (int (length s)), b, ws)"
    unfolding vsnprintf_format_text assms(2) by (simp add: b_def)
  ultimately show ?thesis by (simp add: printf_def vprintf_def)
qed

theorem printf_correct_witness:
  "drains demo_uart \<and> (\<exists>u'. printf (\<lambda>_. NUL) ''ok %d'' [AInt 7] demo_uart = Inr (4, [], u') \<and>
     sent demo_uart ''ok 7'' u')"
proof -
  have "format_text ''ok %d'' [AInt 7] = Inr (''ok 7'', [])" by code_simp
  from printf_correct [OF demo_uart_drains this, of "\<lambda>_. NUL"] show ?thesis
    using demo_uart_drains by (simp add: take_Cons')
qed

end
