(* ===== verification/Sync.thy ===== *)
theory Sync
  imports Uart Kernel_Run
begin

text \<open>
  Synchronous exceptions and fatal errors: \<^verbatim>\<open>rtprog/sync.c\<close>, \<^verbatim>\<open>rtprog/kerror.c\<close>, the panic codes of
  \<^verbatim>\<open>rtprog/cpu.h\<close> and the recovery handler of \<^verbatim>\<open>rtprog/rtprog.c\<close>. \<open>halt()\<close> stops the core for good,
  so it is an outcome of the handler and not a loop of the model.
\<close>

section \<open>Printing\<close>

fun seqE :: "('s \<Rightarrow> 's res) list \<Rightarrow> 's \<Rightarrow> 's res" where
  "seqE [] s = Inr s"
| "seqE (f # fs) s = bindE (f s) (seqE fs)"

definition nib_char :: "u32 \<Rightarrow> char" where
  "nib_char nib = (if nib < 10 then char_of (48 + unat nib) else char_of (97 + (unat nib - 10)))"

definition print_hex64 :: "u64 \<Rightarrow> uart \<Rightarrow> uart res" where
  "print_hex64 v = seqE (map (\<lambda>k. uart_putc (nib_char (ucast (drop_bit (60 - 4 * k) v AND 0xF)))) [0..<16])"

text \<open>The \<open>do\<close> loop runs once even for 0; \<open>room\<close> counts the places left in the ten bytes.\<close>

fun u32_digits :: "nat \<Rightarrow> u32 \<Rightarrow> string \<Rightarrow> string" where
  "u32_digits 0 v buf = buf"
| "u32_digits (Suc room) v buf =
     (let t = v mod 10; buf = digit_char (unat t) # buf; v = v div 10
      in if v \<noteq> 0 then u32_digits room v buf else buf)"

definition print_u32 :: "u32 \<Rightarrow> uart \<Rightarrow> uart res" where
  "print_u32 v = uart_puts (u32_digits 10 v [])"

definition ec_str :: "u64 \<Rightarrow> string" where
  "ec_str ec =
     (let e = ucast ec :: u32 in
      if e = 0x00 then ''Unknown/UNDEF''
      else if e = 0x15 then ''SVC (AArch64)''
      else if e = 0x20 then ''Instruction Abort, lower EL''
      else if e = 0x21 then ''Instruction Abort, same EL''
      else if e = 0x22 then ''PC alignment fault''
      else if e = 0x24 then ''Data Abort, lower EL''
      else if e = 0x25 then ''Data Abort, same EL''
      else if e = 0x26 then ''SP alignment fault''
      else if e = 0x28 then ''FP/ASIMD''
      else if e = 0x2C then ''SError (system error)''
      else if e = 0x30 then ''Breakpoint, lower EL''
      else if e = 0x31 then ''Breakpoint, same EL''
      else if e = 0x32 then ''Vector catch (AArch32)''
      else if e = 0x33 then ''Watchpoint, lower EL''
      else if e = 0x34 then ''Watchpoint, same EL''
      else if e = 0x35 then ''BKPT (AArch32)''
      else if e = 0x38 then ''Software Step, lower EL''
      else if e = 0x39 then ''Software Step, same EL''
      else if e = 0x3C then ''BRK (AArch64)''
      else ''EC(?)'')"

definition dfsc_table :: "(u32 \<times> string) list" where
  "dfsc_table =
     [(0x00, ''Addr size fault L0''), (0x01, ''Addr size fault L1''),
      (0x02, ''Addr size fault L2''), (0x03, ''Addr size fault L3''),
      (0x04, ''Translation fault L0''), (0x05, ''Translation fault L1''),
      (0x06, ''Translation fault L2''), (0x07, ''Translation fault L3''),
      (0x08, ''Access flag fault L0''), (0x09, ''Access flag fault L1''),
      (0x0A, ''Access flag fault L2''), (0x0B, ''Access flag fault L3''),
      (0x0C, ''Permission fault L0''), (0x0D, ''Permission fault L1''),
      (0x0E, ''Permission fault L2''), (0x0F, ''Permission fault L3''),
      (0x10, ''Sync ext abort (nTWB)''), (0x11, ''Async ext abort''),
      (0x12, ''Sync ext abort (TWB)''), (0x14, ''Sync parity/ECC''),
      (0x15, ''Async parity/ECC''), (0x18, ''Sync parity (TWB)''), (0x1C, ''TF check''),
      (0x21, ''Alignment fault''), (0x22, ''Debug event'')]"

definition dfsc_str :: "u32 \<Rightarrow> string" where
  "dfsc_str fsc = (case map_of dfsc_table fsc of None \<Rightarrow> ''DFSC(?)'' | Some s \<Rightarrow> s)"

definition ifsc_table :: "(u32 \<times> string) list" where
  "ifsc_table =
     [(0x00, ''Addr size fault L0''), (0x01, ''Addr size fault L1''),
      (0x02, ''Addr size fault L2''), (0x03, ''Addr size fault L3''),
      (0x04, ''Translation fault L0''), (0x05, ''Translation fault L1''),
      (0x06, ''Translation fault L2''), (0x07, ''Translation fault L3''),
      (0x0C, ''Permission fault L0''), (0x0D, ''Permission fault L1''),
      (0x0E, ''Permission fault L2''), (0x0F, ''Permission fault L3''),
      (0x11, ''Async ext abort''), (0x14, ''Sync parity/ECC''), (0x1C, ''TF check'')]"

definition ifsc_str :: "u32 \<Rightarrow> string" where
  "ifsc_str fsc = (case map_of ifsc_table fsc of None \<Rightarrow> ''IFSC(?)'' | Some s \<Rightarrow> s)"

definition print_ec_line :: "u64 \<Rightarrow> u64 \<Rightarrow> uart \<Rightarrow> uart res" where
  "print_ec_line ec il =
     seqE [uart_puts ''EC=0x'', print_hex64 ec, uart_puts '' ('', uart_puts (ec_str ec),
           uart_puts '') IL='', print_u32 (ucast il), uart_puts ''\<newline>'']"

definition decode_abort :: "u64 \<Rightarrow> u64 \<Rightarrow> bool \<Rightarrow> uart \<Rightarrow> uart res" where
  "decode_abort esr far instr_abort =
     (let iss = ucast (esr AND 0x01FFFFFF) :: u32;
          wnr = drop_bit 6 iss AND 1;
          s1ptw = drop_bit 7 iss AND 1;
          ea = drop_bit 9 iss AND 1;
          fnv = drop_bit 10 iss AND 1;
          fsc = iss AND 0x3F
      in seqE [uart_puts (if instr_abort then ''IABT '' else ''DABT ''),
               uart_puts ''WnR='', print_u32 wnr,
               uart_puts '' S1PTW='', print_u32 s1ptw,
               uart_puts '' EA='', print_u32 ea,
               uart_puts '' FnV='', print_u32 fnv,
               uart_puts '' FSC=0x'', print_hex64 (ucast fsc),
               uart_puts '' ('', uart_puts (if instr_abort then ifsc_str fsc else dfsc_str fsc),
               uart_puts '')\<newline>'',
               uart_puts ''FAR=0x'', print_hex64 far, uart_puts ''\<newline>''])"

section \<open>Errors\<close>

definition err_code :: "jrt_err \<Rightarrow> int" where
  "err_code e = (case e of JRT_ENOMEM \<Rightarrow> 0 | JRT_EINVAL \<Rightarrow> 1 | JRT_EASSERT \<Rightarrow> 2 | JRT_EUNKNOWN \<Rightarrow> 3)"

record assert_info =
  ai_str :: "string option"
  ai_file :: "string option"
  ai_func :: "string option"
  ai_line :: u32

datatype recover_t = Norecover | Sync_recover

record sys =
  y_kern :: kernel
  y_uart :: uart
  g_errno :: int
  g_assert_info :: assert_info
  g_sync_recover :: recover_t

definition jrt_seterrno :: "int \<Rightarrow> sys \<Rightarrow> sys" where
  "jrt_seterrno err s = s\<lparr>g_errno := err\<rparr>"

definition jrt_errno :: "sys \<Rightarrow> int" where
  "jrt_errno s = g_errno s"

definition jrt_strerror :: "sys \<Rightarrow> string" where
  "jrt_strerror s =
     (if g_errno s = err_code JRT_ENOMEM then ''Out of memory''
      else if g_errno s = err_code JRT_EINVAL then ''Invalid argument''
      else if g_errno s = err_code JRT_EASSERT then ''Assertion error''
      else ''Unknown error'')"

definition puts_ptr :: "string option \<Rightarrow> uart \<Rightarrow> uart res" where
  "puts_ptr so u = (case so of None \<Rightarrow> Inl Null_deref | Some s \<Rightarrow> uart_puts s u)"

definition jrt_print_assert :: "sys \<Rightarrow> uart \<Rightarrow> uart res" where
  "jrt_print_assert s =
     seqE [uart_puts ''file: '', puts_ptr (ai_file (g_assert_info s)), uart_puts '':'',
           puts_ptr (ai_func (g_assert_info s)), uart_puts '':'',
           uart_putu32 (ai_line (g_assert_info s)), uart_puts '':\<newline>'',
           puts_ptr (ai_str (g_assert_info s)), uart_puts ''\<newline>'']"

section \<open>The exception handler\<close>

definition KERNEL_PANIC :: u32 where "KERNEL_PANIC = 0"
definition USER_PANIC :: u32 where "USER_PANIC = 1"

definition panic_str :: "u32 \<Rightarrow> string" where
  "panic_str r = (if r = KERNEL_PANIC then ''Kernel panic'' else if r = USER_PANIC then ''User panic''
                  else ''Unknown panic'')"

datatype sync_end = Resumed | Halted

definition on_uart :: "(uart \<Rightarrow> uart res) \<Rightarrow> sys \<Rightarrow> sys res" where
  "on_uart f s = bindE (f (y_uart s)) (\<lambda>u. Inr (s\<lparr>y_uart := u\<rparr>))"

definition sync_recover :: "u32 \<Rightarrow> sys \<Rightarrow> (sync_end \<times> sys) res" where
  "sync_recover r s =
     bindE (on_uart (seqE [uart_puts ''[JRT RECOVERY] '', uart_puts (panic_str r), uart_puts ''\<newline>'']) s) (\<lambda>s.
       if r = USER_PANIC then Inr (Resumed, s)
       else
         bindE (on_uart (seqE [uart_puts ''reason: '', uart_puts (jrt_strerror s), uart_puts ''\<newline>'']) s) (\<lambda>s.
         bindE (if jrt_errno s = err_code JRT_EASSERT then on_uart (jrt_print_assert s) s else Inr s) (\<lambda>s.
         bindE (on_uart (uart_puts ''\<newline>'') s) (\<lambda>s. Inr (Halted, s)))))"

definition recover :: "u32 \<Rightarrow> sys \<Rightarrow> (sync_end \<times> sys) res" where
  "recover r s = (case g_sync_recover s of Norecover \<Rightarrow> Inr (Halted, s) | Sync_recover \<Rightarrow> sync_recover r s)"

definition sync_set_recover_handler :: "recover_t \<Rightarrow> sys \<Rightarrow> sys" where
  "sync_set_recover_handler r s = s\<lparr>g_sync_recover := r\<rparr>"

definition ESR_EC :: "u64 \<Rightarrow> u64" where "ESR_EC esr = drop_bit 26 esr AND 0x3F"
definition ESR_IL :: "u64 \<Rightarrow> u64" where "ESR_IL esr = drop_bit 25 esr AND 1"

definition sync_exception_entry :: "u64 \<Rightarrow> u64 \<Rightarrow> u64 \<Rightarrow> u64 \<Rightarrow> sys \<Rightarrow> (sync_end \<times> sys) res" where
  "sync_exception_entry dl0 esr elr far s =
     (let ec = ESR_EC esr;
          il = ESR_IL esr;
          iss = esr AND 0x01ffffff;
          e = ucast ec :: u32
      in bindE (if e \<noteq> 0x15 then
                  on_uart (seqE [uart_puts ''[SYNC] ESR=0x'', print_hex64 esr,
                                 uart_puts '' ELR=0x'', print_hex64 elr,
                                 uart_puts '' FAR=0x'', print_hex64 far,
                                 uart_puts ''\<newline>'', print_ec_line ec il]) s
                else Inr s) (\<lambda>s.
         if e = 0x15 then
           bindE (on_uart (uart_puts ''syscall\<newline>'') s) (\<lambda>s.
           bindE (take_syscall dl0 (y_kern s)) (\<lambda>k. Inr (Resumed, s\<lparr>y_kern := k\<rparr>)))
         else if e = 0x3C then
           (let imm16 = ucast (iss AND 0xFFFF) :: u32 in
            bindE (on_uart (seqE [uart_puts ''[BRK] type='', uart_puts (panic_str imm16),
                                  uart_puts '' ELR=0x'', print_hex64 elr, uart_puts ''\<newline>'']) s) (recover imm16))
         else
           bindE (on_uart (if e = 0x20 \<or> e = 0x21 then decode_abort esr far True
                           else if e = 0x24 \<or> e = 0x25 then decode_abort esr far False
                           else if e = 0x2C then uart_puts ''SError reported synchronously\<newline>''
                           else uart_puts ''Unhandled SYNC class\<newline>'') s) (\<lambda>s.
           bindE (on_uart (uart_puts ''Halting.\<newline>'') s) (\<lambda>s. Inr (Halted, s)))))"

text \<open>
  \<open>PANIC_BRK\<close> raises the exception whose syndrome carries class \<open>0x3C\<close> and the code;
  \<open>jrt_fail_kassert\<close> records the assertion and panics.
\<close>

definition brk_esr :: "u32 \<Rightarrow> u64" where
  "brk_esr code = push_bit 26 0x3C OR push_bit 25 1 OR ucast code"

definition jrt_fail_kassert ::
  "u64 \<Rightarrow> string \<Rightarrow> string \<Rightarrow> string \<Rightarrow> u32 \<Rightarrow> u64 \<Rightarrow> u64 \<Rightarrow> sys \<Rightarrow> (sync_end \<times> sys) res" where
  "jrt_fail_kassert dl0 str file func line elr far s =
     (let s = s\<lparr>g_assert_info := \<lparr>ai_str = Some str, ai_file = Some file, ai_func = Some func, ai_line = line\<rparr>\<rparr>;
          s = jrt_seterrno (err_code JRT_EASSERT) s
      in sync_exception_entry dl0 (brk_esr KERNEL_PANIC) elr far s)"

section \<open>What is printed\<close>

text \<open>On a console that drains, \<open>f\<close> returns and sends the text \<open>t\<close>.\<close>

definition prints :: "(uart \<Rightarrow> uart res) \<Rightarrow> string \<Rightarrow> bool" where
  "prints f t \<longleftrightarrow> (\<forall>u. drains u \<longrightarrow> (\<exists>u'. f u = Inr u' \<and> sent u t u'))"

lemma printsE:
  assumes "prints f t" "drains u"
  obtains u' where "f u = Inr u'" "sent u t u'" "drains u'"
  using assms sent_drains unfolding prints_def by blast

lemma prints_puts [intro]: "NUL \<notin> set t \<Longrightarrow> prints (uart_puts t) t"
  using uart_puts_text by (auto simp: prints_def)

lemma prints_puts_ex [intro]: "\<exists>t'. prints (uart_puts t) t'"
  using uart_puts_ok by (auto simp: prints_def)

lemma prints_putc [intro]: "prints (uart_putc c) [c]"
  using uart_putc_ok by (auto simp: prints_def)

lemma seqE_append: "seqE (fs @ gs) s = bindE (seqE fs s) (seqE gs)"
proof (induction fs arbitrary: s)
  case (Cons f fs)
  then show ?case by (cases "f s") simp_all
qed simp

lemma prints_seqE: "list_all2 prints fs ts \<Longrightarrow> prints (seqE fs) (concat ts)"
proof (induction fs ts rule: list_all2_induct)
  case (Cons f fs t ts)
  show ?case unfolding prints_def
  proof (intro allI impI)
    fix u assume "drains u"
    then obtain u1 where u1: "f u = Inr u1" "sent u t u1" "drains u1" using printsE [OF Cons.hyps(1)] by blast
    then obtain u2 where "seqE fs u1 = Inr u2" "sent u1 (concat ts) u2" using Cons.IH by (auto elim: printsE)
    then show "\<exists>u'. seqE (f # fs) u = Inr u' \<and> sent u (concat (t # ts)) u'"
      using u1 sent_trans [OF u1(2)] by auto
  qed
qed (simp add: prints_def sent_refl)

lemma prints_seqE_ex: "(\<And>f. f \<in> set fs \<Longrightarrow> \<exists>t. prints f t) \<Longrightarrow> \<exists>t. prints (seqE fs) t"
proof (induction fs)
  case Nil
  have "prints (seqE []) []" by (simp add: prints_def sent_refl)
  then show ?case by (rule exI)
next
  case (Cons f fs)
  then obtain t t' where "prints f t" "prints (seqE fs) t'" by (metis list.set_intros(1,2))
  then have "prints (seqE (f # fs)) (t @ t')"
    unfolding prints_def by (auto, metis sent_drains sent_trans bindE_simps(2))
  then show ?case by blast
qed

lemma prints_hex64 [intro]: "\<exists>t. prints (print_hex64 v) t"
  unfolding print_hex64_def by (intro prints_seqE_ex) (auto intro: prints_putc)

lemma prints_u32 [intro]: "\<exists>t. prints (print_u32 v) t"
  unfolding print_u32_def by (rule prints_puts_ex)

lemma prints_ec_line [intro]: "\<exists>t. prints (print_ec_line ec il) t"
  unfolding print_ec_line_def by (intro prints_seqE_ex) auto

lemma prints_decode_abort [intro]: "\<exists>t. prints (decode_abort esr far i) t"
  unfolding decode_abort_def Let_def by (intro prints_seqE_ex) auto

lemma on_uart_ok:
  assumes "prints f t" "drains (y_uart s)"
  obtains u where "on_uart f s = Inr (s\<lparr>y_uart := u\<rparr>)" "sent (y_uart s) t u" "drains u"
  using assms by (elim printsE) (auto simp: on_uart_def)

lemma on_uart_ex:
  assumes "\<exists>t. prints f t" "drains (y_uart s)"
  shows "\<exists>u. on_uart f s = Inr (s\<lparr>y_uart := u\<rparr>) \<and> drains u"
  using assms(1) on_uart_ok [OF _ assms(2)] by blast

lemma on_uart_seq_ex:
  assumes "\<And>f. f \<in> set fs \<Longrightarrow> \<exists>t. prints f t" "drains (y_uart s)"
  shows "\<exists>u. on_uart (seqE fs) s = Inr (s\<lparr>y_uart := u\<rparr>) \<and> drains u"
  using on_uart_ex [OF prints_seqE_ex assms(2)] assms(1) by blast

lemma prints_putu32:
  "\<exists>d. prints (uart_putu32 v) d \<and> read_with hex_val 10 d = unat v"
proof -
  define w where "w = (ucast v :: u64)"
  define d where "d = (if w = 0 then ''0'' else fill_digits (\<lambda>d. digit_char (unat d)) 10 20 w [])"
  have "unat w < 10 ^ 20" using unsigned_less [of w, where 'a = nat] by simp
  then have "read_with hex_val 10 d = unat w \<and> NUL \<notin> set d"
    using fill_digits_value [of 10 hex_val "\<lambda>d. digit_char (unat d)" w 20 "[]"] digit_char_val
    by (auto simp: d_def read_with_def hex_val_def)
  moreover have "prints (uart_putu32 v) d" if "NUL \<notin> set d"
    using that prints_puts [of d] prints_putc [of "CHR ''0''"]
    by (auto simp: uart_putu32_def uart_putu64_def prints_def w_def d_def split: if_splits)
  moreover have "unat w = unat v" unfolding w_def unsigned_ucast_eq using unsigned_less [of v, where 'a = nat] by (simp add: take_bit_nat_eq_self)
  ultimately show ?thesis by auto
qed

text \<open>The recovery handler and the assertion record fit together: an assertion error comes with its record.\<close>

definition assert_known :: "sys \<Rightarrow> bool" where
  "assert_known s \<longleftrightarrow> (g_errno s = err_code JRT_EASSERT \<longrightarrow>
     ai_str (g_assert_info s) \<noteq> None \<and> ai_file (g_assert_info s) \<noteq> None \<and> ai_func (g_assert_info s) \<noteq> None)"

lemma prints_assert:
  assumes "g_assert_info s = \<lparr>ai_str = Some str, ai_file = Some file, ai_func = Some func, ai_line = line\<rparr>"
    and "NUL \<notin> set str" "NUL \<notin> set file" "NUL \<notin> set func"
  shows "\<exists>d. prints (jrt_print_assert s)
      (''file: '' @ file @ '':'' @ func @ '':'' @ d @ '':\<newline>'' @ str @ ''\<newline>'') \<and> read_with hex_val 10 d = unat line"
proof -
  obtain d where d: "prints (uart_putu32 line) d" "read_with hex_val 10 d = unat line" using prints_putu32 by blast
  have p: "puts_ptr (Some t) = uart_puts t" for t by (rule ext) (simp add: puts_ptr_def)
  have "prints (jrt_print_assert s) (concat [''file: '', file, '':'', func, '':'', d, '':\<newline>'', str, ''\<newline>''])"
    unfolding jrt_print_assert_def assms(1) by (rule prints_seqE) (use d(1) assms in \<open>auto simp: p\<close>)
  then show ?thesis using d(2) by auto
qed

lemma prints_assert_ex: "assert_known s \<Longrightarrow> g_errno s = err_code JRT_EASSERT \<Longrightarrow> \<exists>t. prints (jrt_print_assert s) t"
proof -
  assume a: "assert_known s" "g_errno s = err_code JRT_EASSERT"
  have p: "puts_ptr (Some t) = uart_puts t" for t by (rule ext) (simp add: puts_ptr_def)
  show ?thesis
    unfolding jrt_print_assert_def using a
    by (intro prints_seqE_ex) (auto simp: assert_known_def p intro: prints_putu32 [THEN exE])
qed

lemma sync_recover_ok:
  assumes "drains (y_uart s)" "assert_known s"
  shows "\<exists>u. sync_recover r s = Inr (if r = USER_PANIC then Resumed else Halted, s\<lparr>y_uart := u\<rparr>)"
proof -
  obtain u1 where u1: "on_uart (seqE [uart_puts ''[JRT RECOVERY] '', uart_puts (panic_str r), uart_puts ''\<newline>'']) s =
      Inr (s\<lparr>y_uart := u1\<rparr>)" "drains u1"
    using on_uart_seq_ex [of "[uart_puts ''[JRT RECOVERY] '', uart_puts (panic_str r), uart_puts ''\<newline>'']" s]
      assms(1) prints_puts_ex by fastforce
  show ?thesis
  proof (cases "r = USER_PANIC")
    case True
    then show ?thesis using u1(1) by (auto simp: sync_recover_def)
  next
    case False
    let ?s1 = "s\<lparr>y_uart := u1\<rparr>"
    obtain u2 where u2: "on_uart (seqE [uart_puts ''reason: '', uart_puts (jrt_strerror ?s1), uart_puts ''\<newline>'']) ?s1 =
        Inr (?s1\<lparr>y_uart := u2\<rparr>)" "drains u2"
      using on_uart_seq_ex [of "[uart_puts ''reason: '', uart_puts (jrt_strerror ?s1), uart_puts ''\<newline>'']" ?s1]
        u1(2) prints_puts_ex by fastforce
    let ?s2 = "s\<lparr>y_uart := u2\<rparr>"
    have k: "assert_known ?s2" using assms(2) by (simp add: assert_known_def)
    obtain u3 where u3: "(if jrt_errno ?s2 = err_code JRT_EASSERT then on_uart (jrt_print_assert ?s2) ?s2 else Inr ?s2) =
        Inr (s\<lparr>y_uart := u3\<rparr>)" "drains u3"
    proof (cases "jrt_errno ?s2 = err_code JRT_EASSERT")
      case True
      then have "\<exists>t. prints (jrt_print_assert ?s2) t" using prints_assert_ex [OF k] by (simp add: jrt_errno_def)
      then show thesis using that True u2(2) on_uart_ex [of "jrt_print_assert ?s2" ?s2] by auto
    qed (use that u2(2) in auto)
    obtain u4 where "on_uart (uart_puts ''\<newline>'') (s\<lparr>y_uart := u3\<rparr>) = Inr (s\<lparr>y_uart := u4\<rparr>)"
      using on_uart_ex [of "uart_puts ''\<newline>''" "s\<lparr>y_uart := u3\<rparr>"] u3(2) by auto
    then show ?thesis using u1(1) u2(1) u3(1) False by (auto simp: sync_recover_def)
  qed
qed

lemma sync_entry_svc:
  assumes "ESR_EC esr = 0x15" "drains (y_uart s)"
  obtains u where "sync_exception_entry dl0 esr elr far s =
      bindE (take_syscall dl0 (y_kern s)) (\<lambda>k. Inr (Resumed, s\<lparr>y_uart := u, y_kern := k\<rparr>))" "drains u"
proof -
  obtain u where u: "on_uart (uart_puts ''syscall\<newline>'') s = Inr (s\<lparr>y_uart := u\<rparr>)" "drains u"
    using on_uart_ex [OF prints_puts_ex assms(2)] by blast
  then show thesis using that [of u] assms(1) by (simp add: sync_exception_entry_def Let_def)
qed

lemma ucast_ec_nat:
  assumes "k < 64" shows "(ucast (ESR_EC esr) :: u32) = of_nat k \<longleftrightarrow> ESR_EC esr = of_nat k"
proof -
  have "ESR_EC esr \<le> 0x3F" unfolding ESR_EC_def by (rule word_and_le1)
  then have e: "unat (ESR_EC esr) < 64" by (simp add: word_le_nat_alt)
  have u: "unat (ucast (ESR_EC esr) :: u32) = unat (ESR_EC esr)"
    unfolding unsigned_ucast_eq using e by (simp add: take_bit_nat_eq_self)
  show ?thesis unfolding word_unat_eq_iff u using assms by simp
qed

lemma ucast_ec:
  "(ucast (ESR_EC esr) :: u32) = 0x15 \<longleftrightarrow> ESR_EC esr = 0x15"
  "(ucast (ESR_EC esr) :: u32) = 0x3C \<longleftrightarrow> ESR_EC esr = 0x3C"
  using ucast_ec_nat [of 21 esr] ucast_ec_nat [of 60 esr] by simp_all

lemma sync_entry_other:
  assumes "ESR_EC esr \<noteq> 0x15" "drains (y_uart s)" "assert_known s"
  shows "\<exists>e u. sync_exception_entry dl0 esr elr far s = Inr (e, s\<lparr>y_uart := u\<rparr>) \<and>
    (e = Resumed \<longleftrightarrow> ESR_EC esr = 0x3C \<and> ucast (esr AND 0xFFFF) = USER_PANIC \<and> g_sync_recover s = Sync_recover)"
proof -
  let ?hd = "seqE [uart_puts ''[SYNC] ESR=0x'', print_hex64 esr, uart_puts '' ELR=0x'', print_hex64 elr,
      uart_puts '' FAR=0x'', print_hex64 far, uart_puts ''\<newline>'', print_ec_line (ESR_EC esr) (ESR_IL esr)]"
  have "\<exists>t. prints ?hd t" by (intro prints_seqE_ex) auto
  then obtain u1 where u1: "on_uart ?hd s = Inr (s\<lparr>y_uart := u1\<rparr>)" "drains u1"
    using on_uart_ex [OF _ assms(2)] by blast
  let ?s1 = "s\<lparr>y_uart := u1\<rparr>"
  have imm: "(esr AND 0x01ffffff) AND 0xFFFF = esr AND (0xFFFF :: u64)" by (simp add: and.assoc)
  show ?thesis
  proof (cases "ESR_EC esr = 0x3C")
    case True
    let ?i = "ucast (esr AND 0xFFFF) :: u32"
    have "\<exists>t. prints (seqE [uart_puts ''[BRK] type='', uart_puts (panic_str ?i), uart_puts '' ELR=0x'', print_hex64 elr,
        uart_puts ''\<newline>'']) t" by (intro prints_seqE_ex) auto
    then obtain u2 where u2: "on_uart (seqE [uart_puts ''[BRK] type='', uart_puts (panic_str ?i),
        uart_puts '' ELR=0x'', print_hex64 elr, uart_puts ''\<newline>'']) ?s1 = Inr (s\<lparr>y_uart := u2\<rparr>)" "drains u2"
      using on_uart_ex [of _ ?s1] u1(2) by fastforce
    have "assert_known (s\<lparr>y_uart := u2\<rparr>)" using assms(3) by (simp add: assert_known_def)
    then obtain e u where "recover ?i (s\<lparr>y_uart := u2\<rparr>) = Inr (e, s\<lparr>y_uart := u\<rparr>)"
        "e = Resumed \<longleftrightarrow> ?i = USER_PANIC \<and> g_sync_recover s = Sync_recover"
      using sync_recover_ok [of "s\<lparr>y_uart := u2\<rparr>" ?i] u2(2)
      by (cases "g_sync_recover s"; cases "?i = USER_PANIC") (auto simp: recover_def)
    then show ?thesis
      using u1(1) u2(1) True unfolding sync_exception_entry_def Let_def imm by (auto simp: ucast_ec)
  next
    case False
    define f where "f = (if ucast (ESR_EC esr) = (0x20 :: u32) \<or> ucast (ESR_EC esr) = (0x21 :: u32)
      then decode_abort esr far True
      else if ucast (ESR_EC esr) = (0x24 :: u32) \<or> ucast (ESR_EC esr) = (0x25 :: u32) then decode_abort esr far False
      else if ucast (ESR_EC esr) = (0x2C :: u32) then uart_puts ''SError reported synchronously\<newline>''
      else uart_puts ''Unhandled SYNC class\<newline>'')"
    have "\<exists>t. prints f t" unfolding f_def by auto
    then obtain u2 where u2: "on_uart f ?s1 = Inr (s\<lparr>y_uart := u2\<rparr>)" "drains u2"
      using on_uart_ex [of f ?s1] u1(2) by auto
    obtain u3 where u3: "on_uart (uart_puts ''Halting.\<newline>'') (s\<lparr>y_uart := u2\<rparr>) = Inr (s\<lparr>y_uart := u3\<rparr>)"
      using on_uart_ex [of "uart_puts ''Halting.\<newline>''" "s\<lparr>y_uart := u2\<rparr>"] u2(2) by auto
    show ?thesis
      using u1(1) u2(1) u3 False assms(1) unfolding sync_exception_entry_def Let_def f_def [symmetric]
      by (auto simp: ucast_ec)
  qed
qed

section \<open>Properties\<close>

text \<open>
  C18: an exception handler never resumes by accident: on a console that drains it always comes to
  an end; for a supervisor call it does what \<open>take_syscall\<close> does and resumes; for every other
  class it leaves the kernel state alone, and it resumes only for a \<open>brk\<close> with the code of a user
  panic under the installed recovery handler. Everything else halts the core.
\<close>
theorem sync_exception_outcome:
  assumes "drains (y_uart s)" "assert_known s"
  shows "\<exists>u. if ESR_EC esr = 0x15
    then sync_exception_entry dl0 esr elr far s =
      bindE (take_syscall dl0 (y_kern s)) (\<lambda>k. Inr (Resumed, s\<lparr>y_uart := u, y_kern := k\<rparr>))
    else sync_exception_entry dl0 esr elr far s =
      Inr (if ESR_EC esr = 0x3C \<and> ucast (esr AND 0xFFFF) = USER_PANIC \<and> g_sync_recover s = Sync_recover
           then Resumed else Halted, s\<lparr>y_uart := u\<rparr>)"
proof (cases "ESR_EC esr = 0x15")
  case True
  obtain u where "sync_exception_entry dl0 esr elr far s =
      bindE (take_syscall dl0 (y_kern s)) (\<lambda>k. Inr (Resumed, s\<lparr>y_uart := u, y_kern := k\<rparr>))"
    using sync_entry_svc [OF True assms(1)] by blast
  then show ?thesis using True by auto
next
  case False
  then obtain e u where "sync_exception_entry dl0 esr elr far s = Inr (e, s\<lparr>y_uart := u\<rparr>)"
      "e = Resumed \<longleftrightarrow> ESR_EC esr = 0x3C \<and> ucast (esr AND 0xFFFF) = USER_PANIC \<and> g_sync_recover s = Sync_recover"
    using sync_entry_other [OF _ assms] by blast
  then show ?thesis using False by (cases e) auto
qed

definition demo_sys :: sys where
  "demo_sys = \<lparr>y_kern = demo_kernel, y_uart = demo_uart, g_errno = 0,
     g_assert_info = \<lparr>ai_str = None, ai_file = None, ai_func = None, ai_line = 0\<rparr>, g_sync_recover = Sync_recover\<rparr>"

lemma demo_sys_ok: "drains (y_uart demo_sys)" "assert_known demo_sys" "g_sync_recover demo_sys = Sync_recover"
  using demo_uart_drains by (simp_all add: demo_sys_def assert_known_def err_code_def)

theorem sync_exception_outcome_witness:
  "\<exists>u. sync_exception_entry 0 0x96000045 0x1000 0x2000 demo_sys = Inr (Halted, demo_sys\<lparr>y_uart := u\<rparr>)"
proof -
  have "ESR_EC 0x96000045 = 0x25" by code_simp
  then show ?thesis using sync_exception_outcome [OF demo_sys_ok(1,2), of "0x96000045" 0 "0x1000" "0x2000"] by simp
qed

lemma brk_esr_kernel: "ESR_EC (brk_esr KERNEL_PANIC) = 0x3C" "ucast (brk_esr KERNEL_PANIC AND 0xFFFF) = KERNEL_PANIC"
  by (simp_all add: ESR_EC_def brk_esr_def KERNEL_PANIC_def)

lemma on_uart_text:
  assumes "prints f t" "sent u0 pre (y_uart s)" "drains u0"
  shows "\<exists>u. on_uart f s = Inr (s\<lparr>y_uart := u\<rparr>) \<and> sent u0 (pre @ t) u"
proof -
  have "drains (y_uart s)" using sent_drains [OF assms(2)] assms(3) by simp
  then obtain u where "on_uart f s = Inr (s\<lparr>y_uart := u\<rparr>)" "sent (y_uart s) t u"
    using on_uart_ok [OF assms(1)] by blast
  then show ?thesis using sent_trans [OF assms(2)] by blast
qed

lemma prints_three: "NUL \<notin> set a \<Longrightarrow> NUL \<notin> set b \<Longrightarrow> NUL \<notin> set c \<Longrightarrow>
  prints (seqE [uart_puts a, uart_puts b, uart_puts c]) (a @ b @ c)"
  using prints_seqE [of "[uart_puts a, uart_puts b, uart_puts c]" "[a, b, c]"] by auto

lemma sync_recover_assert:
  assumes "drains u0" "sent u0 pre (y_uart s)" "g_errno s = err_code JRT_EASSERT"
    and info: "g_assert_info s = \<lparr>ai_str = Some str, ai_file = Some file, ai_func = Some func, ai_line = line\<rparr>"
    and str: "NUL \<notin> set str" "NUL \<notin> set file" "NUL \<notin> set func"
  shows "\<exists>u d. sync_recover KERNEL_PANIC s = Inr (Halted, s\<lparr>y_uart := u\<rparr>) \<and>
    sent u0 (pre @ ''[JRT RECOVERY] Kernel panic\<newline>reason: Assertion error\<newline>file: '' @ file @ '':'' @ func @ '':'' @
      d @ '':\<newline>'' @ str @ ''\<newline>\<newline>'') u \<and> read_with hex_val 10 d = unat line"
proof -
  have pk: "panic_str KERNEL_PANIC = ''Kernel panic''" by (simp add: panic_str_def)
  have es: "jrt_strerror (s\<lparr>y_uart := u\<rparr>) = ''Assertion error''" for u
    using assms(3) by (simp add: jrt_strerror_def err_code_def)
  obtain u1 where u1: "on_uart (seqE [uart_puts ''[JRT RECOVERY] '', uart_puts (panic_str KERNEL_PANIC), uart_puts ''\<newline>'']) s =
      Inr (s\<lparr>y_uart := u1\<rparr>)" "sent u0 (pre @ ''[JRT RECOVERY] Kernel panic\<newline>'') u1"
    using on_uart_text [OF prints_three assms(2,1), of "''[JRT RECOVERY] ''" "''Kernel panic''" "''\<newline>''"]
    unfolding pk by auto
  obtain u2 where u2: "on_uart (seqE [uart_puts ''reason: '', uart_puts (jrt_strerror (s\<lparr>y_uart := u1\<rparr>)), uart_puts ''\<newline>''])
      (s\<lparr>y_uart := u1\<rparr>) = Inr (s\<lparr>y_uart := u2\<rparr>)"
      "sent u0 (pre @ ''[JRT RECOVERY] Kernel panic\<newline>reason: Assertion error\<newline>'') u2"
    using on_uart_text [OF prints_three _ assms(1), of "''reason: ''" "''Assertion error''" "''\<newline>''" _ "s\<lparr>y_uart := u1\<rparr>"] u1(2)
    unfolding es by fastforce
  obtain d where d: "prints (jrt_print_assert (s\<lparr>y_uart := u2\<rparr>))
      (''file: '' @ file @ '':'' @ func @ '':'' @ d @ '':\<newline>'' @ str @ ''\<newline>'')" "read_with hex_val 10 d = unat line"
    using prints_assert [of "s\<lparr>y_uart := u2\<rparr>" "str" "file" "func" "line"] info str by auto
  obtain u3 where u3: "on_uart (jrt_print_assert (s\<lparr>y_uart := u2\<rparr>)) (s\<lparr>y_uart := u2\<rparr>) = Inr (s\<lparr>y_uart := u3\<rparr>)"
      "sent u0 ((pre @ ''[JRT RECOVERY] Kernel panic\<newline>reason: Assertion error\<newline>'') @ ''file: '' @ file @ '':'' @ func @ '':'' @
        d @ '':\<newline>'' @ str @ ''\<newline>'') u3"
    using on_uart_text [OF d(1) _ assms(1), of "pre @ ''[JRT RECOVERY] Kernel panic\<newline>reason: Assertion error\<newline>''" "s\<lparr>y_uart := u2\<rparr>"] u2(2)
    by auto
  obtain u4 where u4: "on_uart (uart_puts ''\<newline>'') (s\<lparr>y_uart := u3\<rparr>) = Inr (s\<lparr>y_uart := u4\<rparr>)"
      "sent u0 (((pre @ ''[JRT RECOVERY] Kernel panic\<newline>reason: Assertion error\<newline>'') @ ''file: '' @ file @ '':'' @ func @ '':'' @
        d @ '':\<newline>'' @ str @ ''\<newline>'') @ ''\<newline>'') u4"
    using on_uart_text [OF prints_puts _ assms(1), of "''\<newline>''" _ "s\<lparr>y_uart := u3\<rparr>"] u3(2) by fastforce
  have "sync_recover KERNEL_PANIC s = Inr (Halted, s\<lparr>y_uart := u4\<rparr>)"
    using u1(1) u2(1) u3(1) u4(1) assms(3)
    by (simp add: sync_recover_def jrt_errno_def KERNEL_PANIC_def USER_PANIC_def)
  then show ?thesis using u4(2) d(2) by auto
qed

text \<open>
  A failed assertion in the kernel halts the core after the console has shown the reason, the
  file, the function, the line and the asserted text.
\<close>
theorem kassert_reports_and_halts:
  assumes "drains (y_uart s)" "g_sync_recover s = Sync_recover"
    "NUL \<notin> set str" "NUL \<notin> set file" "NUL \<notin> set func"
  shows "\<exists>s' pre d. jrt_fail_kassert dl0 str file func line elr far s = Inr (Halted, s') \<and>
    sent (y_uart s) (pre @ ''reason: Assertion error\<newline>file: '' @ file @ '':'' @ func @ '':'' @ d @ '':\<newline>'' @ str @ ''\<newline>\<newline>'')
      (y_uart s') \<and> read_with hex_val 10 d = unat line \<and> y_kern s' = y_kern s"
proof -
  define s0 where "s0 = jrt_seterrno (err_code JRT_EASSERT)
    (s\<lparr>g_assert_info := \<lparr>ai_str = Some str, ai_file = Some file, ai_func = Some func, ai_line = line\<rparr>\<rparr>)"
  define esr where "esr = brk_esr KERNEL_PANIC"
  have s0: "y_uart s0 = y_uart s" "g_errno s0 = err_code JRT_EASSERT" "g_sync_recover s0 = Sync_recover"
      "g_assert_info s0 = \<lparr>ai_str = Some str, ai_file = Some file, ai_func = Some func, ai_line = line\<rparr>" "y_kern s0 = y_kern s"
    using assms(2) by (simp_all add: s0_def jrt_seterrno_def)
  let ?hd = "seqE [uart_puts ''[SYNC] ESR=0x'', print_hex64 esr, uart_puts '' ELR=0x'', print_hex64 elr,
      uart_puts '' FAR=0x'', print_hex64 far, uart_puts ''\<newline>'', print_ec_line (ESR_EC esr) (ESR_IL esr)]"
  let ?br = "seqE [uart_puts ''[BRK] type='', uart_puts (panic_str KERNEL_PANIC), uart_puts '' ELR=0x'', print_hex64 elr,
      uart_puts ''\<newline>'']"
  have "\<exists>t. prints ?hd t" "\<exists>t. prints ?br t" by (intro prints_seqE_ex, auto)+
  then obtain t1 t2 where t: "prints ?hd t1" "prints ?br t2" by blast
  obtain u1 where u1: "on_uart ?hd s0 = Inr (s0\<lparr>y_uart := u1\<rparr>)" "sent (y_uart s) t1 u1"
    using on_uart_text [OF t(1) _ assms(1), of "[]" s0] s0(1) sent_refl by auto
  obtain u2 where u2: "on_uart ?br (s0\<lparr>y_uart := u1\<rparr>) = Inr (s0\<lparr>y_uart := u2\<rparr>)" "sent (y_uart s) (t1 @ t2) u2"
    using on_uart_text [OF t(2) _ assms(1), of t1 "s0\<lparr>y_uart := u1\<rparr>"] u1(2) by auto
  obtain u d where r: "sync_recover KERNEL_PANIC (s0\<lparr>y_uart := u2\<rparr>) = Inr (Halted, s0\<lparr>y_uart := u\<rparr>)"
      "sent (y_uart s) ((t1 @ t2) @ ''[JRT RECOVERY] Kernel panic\<newline>reason: Assertion error\<newline>file: '' @ file @ '':'' @ func @ '':'' @
      d @ '':\<newline>'' @ str @ ''\<newline>\<newline>'') u" "read_with hex_val 10 d = unat line"
    using sync_recover_assert [OF assms(1), of "t1 @ t2" "s0\<lparr>y_uart := u2\<rparr>" "str" "file" "func" "line"] u2(2) s0 assms(3-5) by auto
  have ec: "ESR_EC esr = 0x3C" "(esr AND 0x01ffffff) AND 0xFFFF = ucast KERNEL_PANIC" "ucast (ucast KERNEL_PANIC :: u64) = KERNEL_PANIC"
    using brk_esr_kernel by (simp_all add: esr_def brk_esr_def KERNEL_PANIC_def)
  have "jrt_fail_kassert dl0 str file func line elr far s = Inr (Halted, s0\<lparr>y_uart := u\<rparr>)"
    unfolding jrt_fail_kassert_def Let_def s0_def [symmetric] esr_def [symmetric] sync_exception_entry_def
    using u1(1) u2(1) r(1) s0(3) by (simp add: ec recover_def)
  moreover have "sent (y_uart s) ((t1 @ t2 @ ''[JRT RECOVERY] Kernel panic\<newline>'') @ ''reason: Assertion error\<newline>file: '' @ file @ '':'' @
      func @ '':'' @ d @ '':\<newline>'' @ str @ ''\<newline>\<newline>'') (y_uart (s0\<lparr>y_uart := u\<rparr>))"
    using r(2) by simp
  ultimately show ?thesis using r(3) s0(5) by fastforce
qed

theorem kassert_reports_and_halts_witness:
  "\<exists>s'. jrt_fail_kassert 0 ''p'' ''mmu.c'' ''pt_alloc_page_or_die'' 22 0x1000 0 demo_sys = Inr (Halted, s')"
  using kassert_reports_and_halts [OF demo_sys_ok(1,3), of "''p''" "''mmu.c''" "''pt_alloc_page_or_die''" 0 22 "0x1000" 0]
  by auto

end
