(* ===== verification/Gic.thy ===== *)
theory Gic
  imports Janus_Prelude
begin

text \<open>
  The interrupt controller: \<^verbatim>\<open>rtprog/gic.c\<close> and \<^verbatim>\<open>rtprog/gic.h\<close>, with \<open>gic_enable_dist\<close> of
  \<^verbatim>\<open>rtprog/timer_aarch64.S\<close>. The controller is a device: the model keeps every write to it
  (address, width in bytes, value) and answers a read from a function of the writes so far, the
  number of reads so far and the address. The definitions assume nothing of the answers; the theorems assume of the registers
  they are about what the architecture (Arm IHI 0069) says of them, in \<open>dist_ok\<close> and \<open>redist_ok\<close>.
\<close>

section \<open>Registers\<close>

definition GICD_BASE :: u64 where "GICD_BASE = 0x08000000"
definition GICR_BASE0 :: u64 where "GICR_BASE0 = 0x080A0000"
definition GICR_STRIDE :: u64 where "GICR_STRIDE = 0x00020000"

definition GICD_CTLR :: u64 where "GICD_CTLR = 0x0000"
definition GICD_IGROUPR :: "u32 \<Rightarrow> u64" where "GICD_IGROUPR n = ucast (0x0080 + 4 * n)"
definition GICD_IGRPMODR :: "u32 \<Rightarrow> u64" where "GICD_IGRPMODR n = ucast (0x0D00 + 4 * n)"
definition GICD_ISENABLER :: "u32 \<Rightarrow> u64" where "GICD_ISENABLER n = ucast (0x0100 + 4 * n)"
definition GICD_ICFGR :: "u32 \<Rightarrow> u64" where "GICD_ICFGR n = ucast (0x0C00 + 4 * n)"
definition GICD_IPRIORITYR :: u64 where "GICD_IPRIORITYR = 0x0400"
definition GICD_IROUTER :: "u32 \<Rightarrow> u64" where "GICD_IROUTER i = ucast (0x6000 + 8 * i)"

definition GICR_TYPER :: u64 where "GICR_TYPER = 0x0008"
definition GICR_WAKER :: u64 where "GICR_WAKER = 0x0014"
definition GICR_WAKER_ProcessorSleep :: u32 where "GICR_WAKER_ProcessorSleep = push_bit 1 1"
definition GICR_WAKER_ChildrenAsleep :: u32 where "GICR_WAKER_ChildrenAsleep = push_bit 2 1"
definition GICR_SGI_BASE :: u64 where "GICR_SGI_BASE = 0x10000"
definition GICR_IGROUPR0 :: u64 where "GICR_IGROUPR0 = 0x0080"
definition GICR_ISENABLER0 :: u64 where "GICR_ISENABLER0 = 0x0100"
definition GICR_IPRIORITYR :: u64 where "GICR_IPRIORITYR = 0x0400"
definition GICR_IGRPMODR0 :: u64 where "GICR_IGRPMODR0 = 0x0D00"

definition r32i :: "u32 \<Rightarrow> u32" where "r32i i = i div 32"
definition b32i :: "u32 \<Rightarrow> u32" where "b32i i = i mod 32"
definition icfgr_i :: "u32 \<Rightarrow> u32" where "icfgr_i i = i div 16"
definition icfgr_sh :: "u32 \<Rightarrow> u32" where "icfgr_sh i = (i mod 16) * 2"
definition prio_off :: "u32 \<Rightarrow> u32" where "prio_off i = i"

type_synonym mmio = "u64 \<times> nat \<times> u64"

record gic =
  g_rd :: "mmio list \<Rightarrow> nat \<Rightarrow> u64 \<Rightarrow> u64"
  g_reads :: nat
  g_wr :: "mmio list"
  g_mpidr :: u64
  icc_sre :: u64
  icc_pmr :: u64
  icc_igrpen1 :: u64

definition mmio_r64 :: "u64 \<Rightarrow> gic \<Rightarrow> u64 \<times> gic" where
  "mmio_r64 a g = (g_rd g (g_wr g) (g_reads g) a, g\<lparr>g_reads := g_reads g + 1\<rparr>)"

definition mmio_r32 :: "u64 \<Rightarrow> gic \<Rightarrow> u32 \<times> gic" where
  "mmio_r32 a g = (ucast (g_rd g (g_wr g) (g_reads g) a), g\<lparr>g_reads := g_reads g + 1\<rparr>)"

definition mmio_w32 :: "u64 \<Rightarrow> u32 \<Rightarrow> gic \<Rightarrow> gic" where
  "mmio_w32 a v g = g\<lparr>g_wr := g_wr g @ [(a, 4, ucast v)]\<rparr>"

definition mmio_w8 :: "u64 \<Rightarrow> u8 \<Rightarrow> gic \<Rightarrow> gic" where
  "mmio_w8 a v g = g\<lparr>g_wr := g_wr g @ [(a, 1, ucast v)]\<rparr>"

definition sys_mrs_mpidr :: "gic \<Rightarrow> u64" where "sys_mrs_mpidr g = g_mpidr g"

definition sys_enable_icc_el1 :: "gic \<Rightarrow> gic" where
  "sys_enable_icc_el1 g = g\<lparr>icc_sre := icc_sre g OR 1, icc_pmr := 0xFF, icc_igrpen1 := 1\<rparr>"

definition irouter_aff :: "u8 \<Rightarrow> u8 \<Rightarrow> u8 \<Rightarrow> u8 \<Rightarrow> u64" where
  "irouter_aff a3 a2 a1 a0 =
     push_bit 48 (ucast a3) OR push_bit 32 (ucast a2) OR push_bit 16 (ucast a1) OR ucast a0"

section \<open>Operations\<close>

definition gic_enable_dist :: "gic \<Rightarrow> gic" where
  "gic_enable_dist g =
     (let (w, g) = mmio_r32 (GICD_BASE + GICD_CTLR) g;
          w = w OR push_bit 4 1;
          w = w OR push_bit 1 1
      in mmio_w32 (GICD_BASE + GICD_CTLR) w g)"

text \<open>The loop over the redistributor frames; it ends only at a frame that matches or is the last.\<close>

partial_function (option) gicr_loop :: "u32 \<Rightarrow> u64 \<Rightarrow> gic \<Rightarrow> (u64 \<times> gic) option" where
  "gicr_loop want base g =
     (case mmio_r64 (base + GICR_TYPER) g of (typer, g) \<Rightarrow>
        if ucast (drop_bit 32 typer) = want then Some (base, g)
        else if typer AND push_bit 4 1 \<noteq> 0 then Some (GICR_BASE0, g)
        else gicr_loop want (base + GICR_STRIDE) g)"

declare gicr_loop.simps [code]

definition gicr_base_for_this_cpu :: "gic \<Rightarrow> (u64 \<times> gic) res" where
  "gicr_base_for_this_cpu g =
     (let mpidr = sys_mrs_mpidr g;
          aff0 = ucast (mpidr AND 0xFF) :: u32;
          aff1 = ucast (drop_bit 8 mpidr AND 0xFF) :: u32;
          aff2 = ucast (drop_bit 16 mpidr AND 0xFF) :: u32;
          aff3 = ucast (drop_bit 32 mpidr AND 0xFF) :: u32;
          want = aff0 OR push_bit 8 aff1 OR push_bit 16 aff2 OR push_bit 24 aff3
      in case gicr_loop want GICR_BASE0 g of None \<Rightarrow> Inl No_return | Some r \<Rightarrow> Inr r)"

partial_function (option) waker_loop :: "u64 \<Rightarrow> gic \<Rightarrow> gic option" where
  "waker_loop a g =
     (case mmio_r32 a g of (v, g) \<Rightarrow>
        if v AND GICR_WAKER_ChildrenAsleep = 0 then Some g else waker_loop a g)"

declare waker_loop.simps [code]

definition gic_enable_ppi :: "u32 \<Rightarrow> u8 \<Rightarrow> bool \<Rightarrow> gic \<Rightarrow> (int \<times> gic) res" where
  "gic_enable_ppi ppi prio group1ns g =
     (if ppi < 16 \<or> ppi > 31 then Inr (-1, g)
      else
        (let g = sys_enable_icc_el1 g;
             g = gic_enable_dist g
         in bindE (gicr_base_for_this_cpu g) (\<lambda>(rd_base, g).
              (let sgi_base = rd_base + GICR_SGI_BASE;
                   (v, g) = mmio_r32 (rd_base + GICR_WAKER) g;
                   v = v AND NOT GICR_WAKER_ProcessorSleep;
                   g = mmio_w32 (rd_base + GICR_WAKER) v g
               in case waker_loop (rd_base + GICR_WAKER) g of
                    None \<Rightarrow> Inl No_return
                  | Some g \<Rightarrow>
                      (let (v, g) = mmio_r32 (sgi_base + GICR_IGROUPR0) g;
                           v = (if group1ns then v OR push_bit (unat ppi) 1
                                else v AND NOT (push_bit (unat ppi) 1));
                           g = mmio_w32 (sgi_base + GICR_IGROUPR0) v g;
                           g = (if group1ns then
                                  (let (v, g) = mmio_r32 (sgi_base + GICR_IGRPMODR0) g;
                                       v = v AND NOT (push_bit (unat ppi) 1)
                                   in mmio_w32 (sgi_base + GICR_IGRPMODR0) v g)
                                else g);
                           addr = sgi_base + GICR_IPRIORITYR + ucast ppi;
                           g = mmio_w8 addr prio g;
                           v = push_bit (unat ppi) 1;
                           g = mmio_w32 (sgi_base + GICR_ISENABLER0) v g
                       in Inr (0, g))))))"

definition build_irouter_from_mpidr :: "u64 \<Rightarrow> bool \<Rightarrow> u64" where
  "build_irouter_from_mpidr mpidr irm_any =
     (let aff0 = ucast (mpidr AND 0xFF) :: u8;
          aff1 = ucast (drop_bit 8 mpidr AND 0xFF) :: u8;
          aff2 = ucast (drop_bit 16 mpidr AND 0xFF) :: u8;
          aff3 = ucast (drop_bit 32 mpidr AND 0xFF) :: u8;
          route = push_bit 56 (ucast aff3) OR push_bit 32 (ucast aff2) OR push_bit 16 (ucast aff1) OR
                  push_bit 0 (ucast aff0) :: u64
      in if irm_any then route OR ucast (push_bit 31 1 :: u32) else route)"

definition route_spi_to_this_cpu :: "u32 \<Rightarrow> gic \<Rightarrow> gic" where
  "route_spi_to_this_cpu spi g =
     (let mpidr = sys_mrs_mpidr g;
          route = build_irouter_from_mpidr mpidr False;
          g = mmio_w32 (GICD_BASE + GICD_IROUTER spi + 0) (ucast route) g
      in mmio_w32 (GICD_BASE + GICD_IROUTER spi + 4) (ucast (drop_bit 32 route)) g)"

definition gic_enable_spi :: "u32 \<Rightarrow> gic \<Rightarrow> gic" where
  "gic_enable_spi spi g =
     (let (v, g) = mmio_r32 (GICD_BASE + GICD_IGROUPR (r32i spi)) g;
          v = v OR push_bit (unat (b32i spi)) 1;
          g = mmio_w32 (GICD_BASE + GICD_IGROUPR (r32i spi)) v g;
          (v, g) = mmio_r32 (GICD_BASE + GICD_IGRPMODR (r32i spi)) g;
          v = v AND NOT (push_bit (unat (b32i spi)) 1);
          g = mmio_w32 (GICD_BASE + GICD_IGRPMODR (r32i spi)) v g;
          (v, g) = mmio_r32 (GICD_BASE + GICD_ICFGR (icfgr_i spi)) g;
          v = v OR push_bit (unat (icfgr_sh spi)) 2;
          g = mmio_w32 (GICD_BASE + GICD_ICFGR (icfgr_i spi)) v g;
          g = mmio_w8 (GICD_BASE + GICD_IPRIORITYR + ucast (prio_off spi)) 0x80 g;
          g = route_spi_to_this_cpu spi g
      in mmio_w32 (GICD_BASE + GICD_ISENABLER (r32i spi)) (push_bit (unat (b32i spi)) 1) g)"

section \<open>What the controller holds\<close>

text \<open>
  The specification of the device, from its architecture: register offsets as numbers, the
  configuration of an interrupt as a record. Registers hold what was last written (\<open>regs\<close>);
  \<open>init\<close> is what they hold at the start. A 1 written to a bit of a set-enable register enables its
  interrupt, a 1 written to the clear-enable register disables it, zeros change nothing. An \<open>IROUTER\<close> has the
  target's affinity levels 0 to 2 in its first three bytes and level 3 in the fifth; bit 31 stands for any core.
\<close>

definition regs :: "(u64 \<Rightarrow> u64) \<Rightarrow> mmio list \<Rightarrow> u64 \<Rightarrow> u64" where
  "regs init ws = fold (\<lambda>(a, w, v) m. m(a := v)) ws init"

definition enabled_after :: "u64 \<Rightarrow> u64 \<Rightarrow> nat \<Rightarrow> (u64 \<Rightarrow> u64) \<Rightarrow> mmio list \<Rightarrow> bool" where
  "enabled_after set_reg clear_reg i init ws =
     fold (\<lambda>(a, w, v) e. if a = set_reg \<and> bit v i then True else if a = clear_reg \<and> bit v i then False else e)
       ws (bit (init set_reg) i)"

definition gicd :: "nat \<Rightarrow> u64" where
  "gicd off = 0x08000000 + of_nat off"

record spi_cfg =
  sc_group1 :: bool
  sc_secure :: bool
  sc_edge :: bool
  sc_prio :: u64
  sc_any :: bool
  sc_target :: "u8 \<times> u8 \<times> u8 \<times> u8"
  sc_enabled :: bool

text \<open>With one security state only (\<open>ds\<close>) the modifier registers are not there and read as zero.\<close>

definition cfg_of :: "bool \<Rightarrow> (u64 \<Rightarrow> u64) \<Rightarrow> mmio list \<Rightarrow> nat \<Rightarrow> spi_cfg" where
  "cfg_of ds init ws j =
     (let R = (\<lambda>off. regs init ws (gicd off)); route = R (0x6000 + 8 * j) in
      \<lparr>sc_group1 = bit (R (0x80 + 4 * (j div 32))) (j mod 32),
       sc_secure = (\<not> ds \<and> bit (R (0xD00 + 4 * (j div 32))) (j mod 32)),
       sc_edge = bit (R (0xC00 + 4 * (j div 16))) (2 * (j mod 16) + 1),
       sc_prio = R (0x400 + j),
       sc_any = bit route 31,
       sc_target = (ucast (R (0x6004 + 8 * j)), ucast (drop_bit 16 route), ucast (drop_bit 8 route), ucast route),
       sc_enabled = enabled_after (gicd (0x100 + 4 * (j div 32))) (gicd (0x180 + 4 * (j div 32))) (j mod 32) init ws\<rparr>)"

text \<open>The affinity of a core in its \<open>MPIDR_EL1\<close>, level 3 first.\<close>

definition core_aff :: "u64 \<Rightarrow> u8 \<times> u8 \<times> u8 \<times> u8" where
  "core_aff mpidr = (ucast (drop_bit 32 mpidr), ucast (drop_bit 16 mpidr), ucast (drop_bit 8 mpidr), ucast mpidr)"

definition in_service :: "u64 \<Rightarrow> u64 \<Rightarrow> spi_cfg" where
  "in_service prio mpidr = \<lparr>sc_group1 = True, sc_secure = False, sc_edge = True, sc_prio = prio,
     sc_any = False, sc_target = core_aff mpidr, sc_enabled = True\<rparr>"

text \<open>
  What is assumed of a real controller. A bit that is kept reads as it was last written, as long as its register is written
  as a whole word; this is asked for the implemented interrupts (32 up to \<open>nirq\<close>) only, of the bits that configure them.
\<close>

definition word_log :: "u64 \<Rightarrow> mmio list \<Rightarrow> bool" where
  "word_log a ws \<longleftrightarrow> (\<forall>(b, w, v) \<in> set ws. b = a \<and> w = 4 \<or> unat b + w \<le> unat a \<or> unat a + 4 \<le> unat b)"

definition keeps_bit :: "(u64 \<Rightarrow> u64) \<Rightarrow> gic \<Rightarrow> u64 \<Rightarrow> nat \<Rightarrow> bool" where
  "keeps_bit init g a i \<longleftrightarrow> (\<forall>ws n. word_log a ws \<longrightarrow> bit (g_rd g (g_wr g @ ws) n a) i = bit (regs init ws a) i)"

definition zero_bit :: "gic \<Rightarrow> u64 \<Rightarrow> nat \<Rightarrow> bool" where
  "zero_bit g a i \<longleftrightarrow> (\<forall>ws n. word_log a ws \<longrightarrow> \<not> bit (g_rd g (g_wr g @ ws) n a) i)"

definition mod_bit :: "bool \<Rightarrow> (u64 \<Rightarrow> u64) \<Rightarrow> gic \<Rightarrow> u64 \<Rightarrow> nat \<Rightarrow> bool" where
  "mod_bit ds init g a i \<longleftrightarrow> (if ds then zero_bit g a i else keeps_bit init g a i)"

definition dist_ok :: "bool \<Rightarrow> (u64 \<Rightarrow> u64) \<Rightarrow> nat \<Rightarrow> gic \<Rightarrow> bool" where
  "dist_ok ds init nirq g \<longleftrightarrow> nirq \<le> 1020 \<and> (\<forall>j \<ge> 32. j < nirq \<longrightarrow>
     keeps_bit init g (gicd (0x80 + 4 * (j div 32))) (j mod 32) \<and>
     mod_bit ds init g (gicd (0xD00 + 4 * (j div 32))) (j mod 32) \<and>
     keeps_bit init g (gicd (0xC00 + 4 * (j div 16))) (2 * (j mod 16) + 1))"

lemma regs_Nil [simp]: "regs init [] = init"
  by (simp add: regs_def)

lemma regs_Cons [simp]: "regs init ((a, w, v) # ws) = regs (init(a := v)) ws"
  by (simp add: regs_def)

lemma regs_append [simp]: "regs init (ws @ ws') = regs (regs init ws) ws'"
  by (simp add: regs_def)

lemma regs_frame: "a \<notin> fst ` set ws \<Longrightarrow> regs init ws a = init a"
  by (induction ws arbitrary: init) auto

lemma enabled_after_append:
  "s \<notin> fst ` set ws \<Longrightarrow> c \<notin> fst ` set ws \<Longrightarrow>
     enabled_after s c i init (ws @ ws') = enabled_after s c i (regs init ws) ws'"
  "s \<notin> fst ` set ws' \<Longrightarrow> c \<notin> fst ` set ws' \<Longrightarrow> enabled_after s c i init (ws @ ws') = enabled_after s c i init ws"
proof -
  have f: "fold (\<lambda>(a, w, v) e. if a = s \<and> bit v i then True else if a = c \<and> bit v i then False else e) ws e = e"
    if "s \<notin> fst ` set ws" "c \<notin> fst ` set ws" for ws :: "mmio list" and e
    using that by (induction ws arbitrary: e) auto
  show "s \<notin> fst ` set ws \<Longrightarrow> c \<notin> fst ` set ws \<Longrightarrow>
     enabled_after s c i init (ws @ ws') = enabled_after s c i (regs init ws) ws'"
    by (simp add: enabled_after_def f regs_frame)
  show "s \<notin> fst ` set ws' \<Longrightarrow> c \<notin> fst ` set ws' \<Longrightarrow> enabled_after s c i init (ws @ ws') = enabled_after s c i init ws"
    by (simp add: enabled_after_def f)
qed

lemma keeps_later:
  assumes "g_rd g' = g_rd g" "g_wr g' = g_wr g @ ws" "word_log a ws"
  shows "keeps_bit init g a i \<Longrightarrow> keeps_bit (regs init ws) g' a i" "zero_bit g a i \<Longrightarrow> zero_bit g' a i"
    "mod_bit ds init g a i \<Longrightarrow> mod_bit ds (regs init ws) g' a i"
proof -
  have w: "word_log a (ws @ ws')" if "word_log a ws'" for ws' using that assms(3) by (auto simp: word_log_def)
  show k: "keeps_bit init g a i \<Longrightarrow> keeps_bit (regs init ws) g' a i"
    unfolding keeps_bit_def assms append_assoc using w by fastforce
  show z: "zero_bit g a i \<Longrightarrow> zero_bit g' a i" unfolding zero_bit_def assms append_assoc using w by blast
  show "mod_bit ds init g a i \<Longrightarrow> mod_bit ds (regs init ws) g' a i" using k z by (simp add: mod_bit_def split: if_splits)
qed

lemma unat_gicd: "n < 0x10000 \<Longrightarrow> unat (gicd n) = 0x08000000 + n"
  by (simp add: gicd_def unat_word_ariths)

lemma gicd_eq [simp]: "m < 0x10000 \<Longrightarrow> n < 0x10000 \<Longrightarrow> gicd m = gicd n \<longleftrightarrow> m = n"
  by (simp add: word_unat_eq_iff unat_gicd)

lemma unat_ucast_u64: "unat (ucast (x :: u32) :: u64) = unat x"
proof -
  have "unat x < 2 ^ 64" using unsigned_less [of x, where 'a = nat] by simp
  then show ?thesis unfolding unsigned_ucast_eq by (simp add: take_bit_nat_eq_self)
qed

lemma unat_affine:
  fixes n :: u32 assumes "c + k * unat n < 4294967296"
  shows "unat (of_nat c + of_nat k * n) = c + k * unat n"
proof -
  have "of_nat c + of_nat k * n = (of_nat (c + k * unat n) :: u32)" by simp
  then show ?thesis using unat_of_nat_u32 [OF assms] by simp
qed

lemma unat_parts:
  "unat (r32i j) = unat j div 32" "unat (b32i j) = unat j mod 32"
  "unat (icfgr_i j) = unat j div 16"
  by (simp_all add: r32i_def b32i_def icfgr_i_def unat_div unat_mod)

lemma unat_icfgr_sh: "unat (icfgr_sh j) = 2 * (unat j mod 16)"
  using unat_affine [of 0 2 "j mod 16"] by (simp add: icfgr_sh_def unat_mod mult.commute)

lemma unat_regs:
  assumes "unat j < 1020"
  shows "unat (GICD_IGROUPR (r32i j)) = 0x80 + 4 * (unat j div 32)"
    "unat (GICD_IGRPMODR (r32i j)) = 0xD00 + 4 * (unat j div 32)"
    "unat (GICD_ISENABLER (r32i j)) = 0x100 + 4 * (unat j div 32)"
    "unat (GICD_ICFGR (icfgr_i j)) = 0xC00 + 4 * (unat j div 16)"
    "unat (GICD_IPRIORITYR + ucast (prio_off j)) = 0x400 + unat j"
    "unat (GICD_IROUTER j) = 0x6000 + 8 * unat j"
    "unat (GICD_IROUTER j + 4) = 0x6004 + 8 * unat j"
proof -
  note d = GICD_IGROUPR_def GICD_IGRPMODR_def GICD_ISENABLER_def GICD_ICFGR_def GICD_IROUTER_def
  have b: "unat j div 32 < 32" "unat j div 16 < 64" using assms by simp_all
  show "unat (GICD_IGROUPR (r32i j)) = 0x80 + 4 * (unat j div 32)"
    using unat_affine [of "0x80" 4 "r32i j"] b by (simp add: d unat_ucast_u64 unat_parts)
  show "unat (GICD_IGRPMODR (r32i j)) = 0xD00 + 4 * (unat j div 32)"
    using unat_affine [of "0xD00" 4 "r32i j"] b by (simp add: d unat_ucast_u64 unat_parts)
  show "unat (GICD_ISENABLER (r32i j)) = 0x100 + 4 * (unat j div 32)"
    using unat_affine [of "0x100" 4 "r32i j"] b by (simp add: d unat_ucast_u64 unat_parts)
  show "unat (GICD_ICFGR (icfgr_i j)) = 0xC00 + 4 * (unat j div 16)"
    using unat_affine [of "0xC00" 4 "icfgr_i j"] b by (simp add: d unat_ucast_u64 unat_parts)
  show r: "unat (GICD_IROUTER j) = 0x6000 + 8 * unat j"
    using unat_affine [of "0x6000" 8 j] assms by (simp add: d unat_ucast_u64)
  have "unat (GICD_IROUTER j) + unat (4 :: u64) < 2 ^ 64" using r assms by simp
  then show "unat (GICD_IROUTER j + 4) = 0x6004 + 8 * unat j"
    using r by (simp add: unat_word_ariths)
  show "unat (GICD_IPRIORITYR + ucast (prio_off j)) = 0x400 + unat j"
    using assms by (simp add: GICD_IPRIORITYR_def prio_off_def unat_word_ariths unat_ucast_u64)
qed

text \<open>The addresses the code computes are those of the architecture.\<close>

lemma spi_addrs:
  assumes "unat j < 1020"
  shows "GICD_BASE + GICD_IGROUPR (r32i j) = gicd (0x80 + 4 * (unat j div 32))"
    "GICD_BASE + GICD_IGRPMODR (r32i j) = gicd (0xD00 + 4 * (unat j div 32))"
    "GICD_BASE + GICD_ISENABLER (r32i j) = gicd (0x100 + 4 * (unat j div 32))"
    "GICD_BASE + GICD_ICFGR (icfgr_i j) = gicd (0xC00 + 4 * (unat j div 16))"
    "GICD_BASE + (GICD_IPRIORITYR + ucast (prio_off j)) = gicd (0x400 + unat j)"
    "GICD_BASE + GICD_IROUTER j = gicd (0x6000 + 8 * unat j)"
    "GICD_BASE + (GICD_IROUTER j + 4) = gicd (0x6004 + 8 * unat j)"
proof -
  have "GICD_BASE + a = gicd n" if "unat a = n" for a n
    unfolding that [symmetric] by (simp add: GICD_BASE_def gicd_def)
  then show "GICD_BASE + GICD_IGROUPR (r32i j) = gicd (0x80 + 4 * (unat j div 32))"
    "GICD_BASE + GICD_IGRPMODR (r32i j) = gicd (0xD00 + 4 * (unat j div 32))"
    "GICD_BASE + GICD_ISENABLER (r32i j) = gicd (0x100 + 4 * (unat j div 32))"
    "GICD_BASE + GICD_ICFGR (icfgr_i j) = gicd (0xC00 + 4 * (unat j div 16))"
    "GICD_BASE + (GICD_IPRIORITYR + ucast (prio_off j)) = gicd (0x400 + unat j)"
    "GICD_BASE + GICD_IROUTER j = gicd (0x6000 + 8 * unat j)"
    "GICD_BASE + (GICD_IROUTER j + 4) = gicd (0x6004 + 8 * unat j)"
    using unat_regs [OF assms] by blast+
qed

lemmas gic_simps = mmio_r32_def mmio_r64_def mmio_w32_def mmio_w8_def sys_mrs_mpidr_def

text \<open>The registers of the distributor do not overlap.\<close>

lemma gicd_distinct:
  assumes "i < 1020" "j < 1020"
  shows "gicd (0x80 + 4 * (i div 32)) \<noteq> gicd (0x100 + 4 * (j div 32))" "gicd (0x80 + 4 * (i div 32)) \<noteq> gicd (0x180 + 4 * (j div 32))"
    "gicd (0x80 + 4 * (i div 32)) \<noteq> gicd (0x400 + j)" "gicd (0x80 + 4 * (i div 32)) \<noteq> gicd (0xC00 + 4 * (j div 16))"
    "gicd (0x80 + 4 * (i div 32)) \<noteq> gicd (0xD00 + 4 * (j div 32))" "gicd (0x80 + 4 * (i div 32)) \<noteq> gicd (0x6000 + 8 * j)"
    "gicd (0x80 + 4 * (i div 32)) \<noteq> gicd (0x6004 + 8 * j)" "gicd (0x100 + 4 * (i div 32)) \<noteq> gicd (0x80 + 4 * (j div 32))"
    "gicd (0x100 + 4 * (i div 32)) \<noteq> gicd (0x180 + 4 * (j div 32))" "gicd (0x100 + 4 * (i div 32)) \<noteq> gicd (0x400 + j)"
    "gicd (0x100 + 4 * (i div 32)) \<noteq> gicd (0xC00 + 4 * (j div 16))" "gicd (0x100 + 4 * (i div 32)) \<noteq> gicd (0xD00 + 4 * (j div 32))"
    "gicd (0x100 + 4 * (i div 32)) \<noteq> gicd (0x6000 + 8 * j)" "gicd (0x100 + 4 * (i div 32)) \<noteq> gicd (0x6004 + 8 * j)"
    "gicd (0x180 + 4 * (i div 32)) \<noteq> gicd (0x80 + 4 * (j div 32))" "gicd (0x180 + 4 * (i div 32)) \<noteq> gicd (0x100 + 4 * (j div 32))"
    "gicd (0x180 + 4 * (i div 32)) \<noteq> gicd (0x400 + j)" "gicd (0x180 + 4 * (i div 32)) \<noteq> gicd (0xC00 + 4 * (j div 16))"
    "gicd (0x180 + 4 * (i div 32)) \<noteq> gicd (0xD00 + 4 * (j div 32))" "gicd (0x180 + 4 * (i div 32)) \<noteq> gicd (0x6000 + 8 * j)"
    "gicd (0x180 + 4 * (i div 32)) \<noteq> gicd (0x6004 + 8 * j)" "gicd (0x400 + i) \<noteq> gicd (0x80 + 4 * (j div 32))"
    "gicd (0x400 + i) \<noteq> gicd (0x100 + 4 * (j div 32))" "gicd (0x400 + i) \<noteq> gicd (0x180 + 4 * (j div 32))"
    "gicd (0x400 + i) \<noteq> gicd (0xC00 + 4 * (j div 16))" "gicd (0x400 + i) \<noteq> gicd (0xD00 + 4 * (j div 32))"
    "gicd (0x400 + i) \<noteq> gicd (0x6000 + 8 * j)" "gicd (0x400 + i) \<noteq> gicd (0x6004 + 8 * j)"
    "gicd (0xC00 + 4 * (i div 16)) \<noteq> gicd (0x80 + 4 * (j div 32))" "gicd (0xC00 + 4 * (i div 16)) \<noteq> gicd (0x100 + 4 * (j div 32))"
    "gicd (0xC00 + 4 * (i div 16)) \<noteq> gicd (0x180 + 4 * (j div 32))" "gicd (0xC00 + 4 * (i div 16)) \<noteq> gicd (0x400 + j)"
    "gicd (0xC00 + 4 * (i div 16)) \<noteq> gicd (0xD00 + 4 * (j div 32))" "gicd (0xC00 + 4 * (i div 16)) \<noteq> gicd (0x6000 + 8 * j)"
    "gicd (0xC00 + 4 * (i div 16)) \<noteq> gicd (0x6004 + 8 * j)" "gicd (0xD00 + 4 * (i div 32)) \<noteq> gicd (0x80 + 4 * (j div 32))"
    "gicd (0xD00 + 4 * (i div 32)) \<noteq> gicd (0x100 + 4 * (j div 32))" "gicd (0xD00 + 4 * (i div 32)) \<noteq> gicd (0x180 + 4 * (j div 32))"
    "gicd (0xD00 + 4 * (i div 32)) \<noteq> gicd (0x400 + j)" "gicd (0xD00 + 4 * (i div 32)) \<noteq> gicd (0xC00 + 4 * (j div 16))"
    "gicd (0xD00 + 4 * (i div 32)) \<noteq> gicd (0x6000 + 8 * j)" "gicd (0xD00 + 4 * (i div 32)) \<noteq> gicd (0x6004 + 8 * j)"
    "gicd (0x6000 + 8 * i) \<noteq> gicd (0x80 + 4 * (j div 32))" "gicd (0x6000 + 8 * i) \<noteq> gicd (0x100 + 4 * (j div 32))"
    "gicd (0x6000 + 8 * i) \<noteq> gicd (0x180 + 4 * (j div 32))" "gicd (0x6000 + 8 * i) \<noteq> gicd (0x400 + j)"
    "gicd (0x6000 + 8 * i) \<noteq> gicd (0xC00 + 4 * (j div 16))" "gicd (0x6000 + 8 * i) \<noteq> gicd (0xD00 + 4 * (j div 32))"
    "gicd (0x6000 + 8 * i) \<noteq> gicd (0x6004 + 8 * j)" "gicd (0x6004 + 8 * i) \<noteq> gicd (0x80 + 4 * (j div 32))"
    "gicd (0x6004 + 8 * i) \<noteq> gicd (0x100 + 4 * (j div 32))" "gicd (0x6004 + 8 * i) \<noteq> gicd (0x180 + 4 * (j div 32))"
    "gicd (0x6004 + 8 * i) \<noteq> gicd (0x400 + j)" "gicd (0x6004 + 8 * i) \<noteq> gicd (0xC00 + 4 * (j div 16))"
    "gicd (0x6004 + 8 * i) \<noteq> gicd (0xD00 + 4 * (j div 32))" "gicd (0x6004 + 8 * i) \<noteq> gicd (0x6000 + 8 * j)"
proof -
  have b: "i div 32 < 32" "j div 32 < 32" "i div 16 < 64" "j div 16 < 64" using assms by simp_all
  have p: "8 * i \<noteq> 4 + 8 * j" "4 + 8 * i \<noteq> 8 * j" by presburger+
  show "gicd (0x80 + 4 * (i div 32)) \<noteq> gicd (0x100 + 4 * (j div 32))" using b p assms by (simp add: word_unat_eq_iff unat_gicd)
  show "gicd (0x80 + 4 * (i div 32)) \<noteq> gicd (0x180 + 4 * (j div 32))" using b p assms by (simp add: word_unat_eq_iff unat_gicd)
  show "gicd (0x80 + 4 * (i div 32)) \<noteq> gicd (0x400 + j)" using b p assms by (simp add: word_unat_eq_iff unat_gicd)
  show "gicd (0x80 + 4 * (i div 32)) \<noteq> gicd (0xC00 + 4 * (j div 16))" using b p assms by (simp add: word_unat_eq_iff unat_gicd)
  show "gicd (0x80 + 4 * (i div 32)) \<noteq> gicd (0xD00 + 4 * (j div 32))" using b p assms by (simp add: word_unat_eq_iff unat_gicd)
  show "gicd (0x80 + 4 * (i div 32)) \<noteq> gicd (0x6000 + 8 * j)" using b p assms by (simp add: word_unat_eq_iff unat_gicd)
  show "gicd (0x80 + 4 * (i div 32)) \<noteq> gicd (0x6004 + 8 * j)" using b p assms by (simp add: word_unat_eq_iff unat_gicd)
  show "gicd (0x100 + 4 * (i div 32)) \<noteq> gicd (0x80 + 4 * (j div 32))" using b p assms by (simp add: word_unat_eq_iff unat_gicd)
  show "gicd (0x100 + 4 * (i div 32)) \<noteq> gicd (0x180 + 4 * (j div 32))" using b p assms by (simp add: word_unat_eq_iff unat_gicd)
  show "gicd (0x100 + 4 * (i div 32)) \<noteq> gicd (0x400 + j)" using b p assms by (simp add: word_unat_eq_iff unat_gicd)
  show "gicd (0x100 + 4 * (i div 32)) \<noteq> gicd (0xC00 + 4 * (j div 16))" using b p assms by (simp add: word_unat_eq_iff unat_gicd)
  show "gicd (0x100 + 4 * (i div 32)) \<noteq> gicd (0xD00 + 4 * (j div 32))" using b p assms by (simp add: word_unat_eq_iff unat_gicd)
  show "gicd (0x100 + 4 * (i div 32)) \<noteq> gicd (0x6000 + 8 * j)" using b p assms by (simp add: word_unat_eq_iff unat_gicd)
  show "gicd (0x100 + 4 * (i div 32)) \<noteq> gicd (0x6004 + 8 * j)" using b p assms by (simp add: word_unat_eq_iff unat_gicd)
  show "gicd (0x180 + 4 * (i div 32)) \<noteq> gicd (0x80 + 4 * (j div 32))" using b p assms by (simp add: word_unat_eq_iff unat_gicd)
  show "gicd (0x180 + 4 * (i div 32)) \<noteq> gicd (0x100 + 4 * (j div 32))" using b p assms by (simp add: word_unat_eq_iff unat_gicd)
  show "gicd (0x180 + 4 * (i div 32)) \<noteq> gicd (0x400 + j)" using b p assms by (simp add: word_unat_eq_iff unat_gicd)
  show "gicd (0x180 + 4 * (i div 32)) \<noteq> gicd (0xC00 + 4 * (j div 16))" using b p assms by (simp add: word_unat_eq_iff unat_gicd)
  show "gicd (0x180 + 4 * (i div 32)) \<noteq> gicd (0xD00 + 4 * (j div 32))" using b p assms by (simp add: word_unat_eq_iff unat_gicd)
  show "gicd (0x180 + 4 * (i div 32)) \<noteq> gicd (0x6000 + 8 * j)" using b p assms by (simp add: word_unat_eq_iff unat_gicd)
  show "gicd (0x180 + 4 * (i div 32)) \<noteq> gicd (0x6004 + 8 * j)" using b p assms by (simp add: word_unat_eq_iff unat_gicd)
  show "gicd (0x400 + i) \<noteq> gicd (0x80 + 4 * (j div 32))" using b p assms by (simp add: word_unat_eq_iff unat_gicd)
  show "gicd (0x400 + i) \<noteq> gicd (0x100 + 4 * (j div 32))" using b p assms by (simp add: word_unat_eq_iff unat_gicd)
  show "gicd (0x400 + i) \<noteq> gicd (0x180 + 4 * (j div 32))" using b p assms by (simp add: word_unat_eq_iff unat_gicd)
  show "gicd (0x400 + i) \<noteq> gicd (0xC00 + 4 * (j div 16))" using b p assms by (simp add: word_unat_eq_iff unat_gicd)
  show "gicd (0x400 + i) \<noteq> gicd (0xD00 + 4 * (j div 32))" using b p assms by (simp add: word_unat_eq_iff unat_gicd)
  show "gicd (0x400 + i) \<noteq> gicd (0x6000 + 8 * j)" using b p assms by (simp add: word_unat_eq_iff unat_gicd)
  show "gicd (0x400 + i) \<noteq> gicd (0x6004 + 8 * j)" using b p assms by (simp add: word_unat_eq_iff unat_gicd)
  show "gicd (0xC00 + 4 * (i div 16)) \<noteq> gicd (0x80 + 4 * (j div 32))" using b p assms by (simp add: word_unat_eq_iff unat_gicd)
  show "gicd (0xC00 + 4 * (i div 16)) \<noteq> gicd (0x100 + 4 * (j div 32))" using b p assms by (simp add: word_unat_eq_iff unat_gicd)
  show "gicd (0xC00 + 4 * (i div 16)) \<noteq> gicd (0x180 + 4 * (j div 32))" using b p assms by (simp add: word_unat_eq_iff unat_gicd)
  show "gicd (0xC00 + 4 * (i div 16)) \<noteq> gicd (0x400 + j)" using b p assms by (simp add: word_unat_eq_iff unat_gicd)
  show "gicd (0xC00 + 4 * (i div 16)) \<noteq> gicd (0xD00 + 4 * (j div 32))" using b p assms by (simp add: word_unat_eq_iff unat_gicd)
  show "gicd (0xC00 + 4 * (i div 16)) \<noteq> gicd (0x6000 + 8 * j)" using b p assms by (simp add: word_unat_eq_iff unat_gicd)
  show "gicd (0xC00 + 4 * (i div 16)) \<noteq> gicd (0x6004 + 8 * j)" using b p assms by (simp add: word_unat_eq_iff unat_gicd)
  show "gicd (0xD00 + 4 * (i div 32)) \<noteq> gicd (0x80 + 4 * (j div 32))" using b p assms by (simp add: word_unat_eq_iff unat_gicd)
  show "gicd (0xD00 + 4 * (i div 32)) \<noteq> gicd (0x100 + 4 * (j div 32))" using b p assms by (simp add: word_unat_eq_iff unat_gicd)
  show "gicd (0xD00 + 4 * (i div 32)) \<noteq> gicd (0x180 + 4 * (j div 32))" using b p assms by (simp add: word_unat_eq_iff unat_gicd)
  show "gicd (0xD00 + 4 * (i div 32)) \<noteq> gicd (0x400 + j)" using b p assms by (simp add: word_unat_eq_iff unat_gicd)
  show "gicd (0xD00 + 4 * (i div 32)) \<noteq> gicd (0xC00 + 4 * (j div 16))" using b p assms by (simp add: word_unat_eq_iff unat_gicd)
  show "gicd (0xD00 + 4 * (i div 32)) \<noteq> gicd (0x6000 + 8 * j)" using b p assms by (simp add: word_unat_eq_iff unat_gicd)
  show "gicd (0xD00 + 4 * (i div 32)) \<noteq> gicd (0x6004 + 8 * j)" using b p assms by (simp add: word_unat_eq_iff unat_gicd)
  show "gicd (0x6000 + 8 * i) \<noteq> gicd (0x80 + 4 * (j div 32))" using b p assms by (simp add: word_unat_eq_iff unat_gicd)
  show "gicd (0x6000 + 8 * i) \<noteq> gicd (0x100 + 4 * (j div 32))" using b p assms by (simp add: word_unat_eq_iff unat_gicd)
  show "gicd (0x6000 + 8 * i) \<noteq> gicd (0x180 + 4 * (j div 32))" using b p assms by (simp add: word_unat_eq_iff unat_gicd)
  show "gicd (0x6000 + 8 * i) \<noteq> gicd (0x400 + j)" using b p assms by (simp add: word_unat_eq_iff unat_gicd)
  show "gicd (0x6000 + 8 * i) \<noteq> gicd (0xC00 + 4 * (j div 16))" using b p assms by (simp add: word_unat_eq_iff unat_gicd)
  show "gicd (0x6000 + 8 * i) \<noteq> gicd (0xD00 + 4 * (j div 32))" using b p assms by (simp add: word_unat_eq_iff unat_gicd)
  show "gicd (0x6000 + 8 * i) \<noteq> gicd (0x6004 + 8 * j)" using b p assms by (simp add: word_unat_eq_iff unat_gicd)
  show "gicd (0x6004 + 8 * i) \<noteq> gicd (0x80 + 4 * (j div 32))" using b p assms by (simp add: word_unat_eq_iff unat_gicd)
  show "gicd (0x6004 + 8 * i) \<noteq> gicd (0x100 + 4 * (j div 32))" using b p assms by (simp add: word_unat_eq_iff unat_gicd)
  show "gicd (0x6004 + 8 * i) \<noteq> gicd (0x180 + 4 * (j div 32))" using b p assms by (simp add: word_unat_eq_iff unat_gicd)
  show "gicd (0x6004 + 8 * i) \<noteq> gicd (0x400 + j)" using b p assms by (simp add: word_unat_eq_iff unat_gicd)
  show "gicd (0x6004 + 8 * i) \<noteq> gicd (0xC00 + 4 * (j div 16))" using b p assms by (simp add: word_unat_eq_iff unat_gicd)
  show "gicd (0x6004 + 8 * i) \<noteq> gicd (0xD00 + 4 * (j div 32))" using b p assms by (simp add: word_unat_eq_iff unat_gicd)
  show "gicd (0x6004 + 8 * i) \<noteq> gicd (0x6000 + 8 * j)" using b p assms by (simp add: word_unat_eq_iff unat_gicd)
qed

lemma gicd_same:
  assumes "i < 1020" "j < 1020"
  shows "gicd (0x80 + 4 * (i div 32)) = gicd (0x80 + 4 * (j div 32)) \<longleftrightarrow> i div 32 = j div 32"
    "gicd (0x100 + 4 * (i div 32)) = gicd (0x100 + 4 * (j div 32)) \<longleftrightarrow> i div 32 = j div 32"
    "gicd (0x180 + 4 * (i div 32)) = gicd (0x180 + 4 * (j div 32)) \<longleftrightarrow> i div 32 = j div 32"
    "gicd (0xD00 + 4 * (i div 32)) = gicd (0xD00 + 4 * (j div 32)) \<longleftrightarrow> i div 32 = j div 32"
    "gicd (0xC00 + 4 * (i div 16)) = gicd (0xC00 + 4 * (j div 16)) \<longleftrightarrow> i div 16 = j div 16"
    "gicd (0x400 + i) = gicd (0x400 + j) \<longleftrightarrow> i = j"
    "gicd (0x6000 + 8 * i) = gicd (0x6000 + 8 * j) \<longleftrightarrow> i = j"
    "gicd (0x6004 + 8 * i) = gicd (0x6004 + 8 * j) \<longleftrightarrow> i = j"
proof -
  have b: "i div 32 < 32" "j div 32 < 32" "i div 16 < 64" "j div 16 < 64" using assms by simp_all
  show "gicd (0x80 + 4 * (i div 32)) = gicd (0x80 + 4 * (j div 32)) \<longleftrightarrow> i div 32 = j div 32" using b assms by (simp add: word_unat_eq_iff unat_gicd)
  show "gicd (0x100 + 4 * (i div 32)) = gicd (0x100 + 4 * (j div 32)) \<longleftrightarrow> i div 32 = j div 32" using b assms by (simp add: word_unat_eq_iff unat_gicd)
  show "gicd (0x180 + 4 * (i div 32)) = gicd (0x180 + 4 * (j div 32)) \<longleftrightarrow> i div 32 = j div 32" using b assms by (simp add: word_unat_eq_iff unat_gicd)
  show "gicd (0xD00 + 4 * (i div 32)) = gicd (0xD00 + 4 * (j div 32)) \<longleftrightarrow> i div 32 = j div 32" using b assms by (simp add: word_unat_eq_iff unat_gicd)
  show "gicd (0xC00 + 4 * (i div 16)) = gicd (0xC00 + 4 * (j div 16)) \<longleftrightarrow> i div 16 = j div 16" using b assms by (simp add: word_unat_eq_iff unat_gicd)
  show "gicd (0x400 + i) = gicd (0x400 + j) \<longleftrightarrow> i = j" using b assms by (simp add: word_unat_eq_iff unat_gicd)
  show "gicd (0x6000 + 8 * i) = gicd (0x6000 + 8 * j) \<longleftrightarrow> i = j" using b assms by (simp add: word_unat_eq_iff unat_gicd)
  show "gicd (0x6004 + 8 * i) = gicd (0x6004 + 8 * j) \<longleftrightarrow> i = j" using b assms by (simp add: word_unat_eq_iff unat_gicd)
qed

text \<open>The writes of \<open>gic_enable_spi\<close>; the first three values depend on what the device answered.\<close>

definition spi_writes :: "nat \<Rightarrow> u32 \<Rightarrow> u32 \<Rightarrow> u32 \<Rightarrow> u64 \<Rightarrow> mmio list" where
  "spi_writes s v1 v2 v3 route =
     [(gicd (0x80 + 4 * (s div 32)), 4, ucast v1), (gicd (0xD00 + 4 * (s div 32)), 4, ucast v2),
      (gicd (0xC00 + 4 * (s div 16)), 4, ucast v3), (gicd (0x400 + s), 1, 0x80),
      (gicd (0x6000 + 8 * s), 4, ucast (ucast route :: u32)),
      (gicd (0x6004 + 8 * s), 4, ucast (ucast (drop_bit 32 route) :: u32)),
      (gicd (0x100 + 4 * (s div 32)), 4, ucast (push_bit (s mod 32) 1 :: u32))]"

lemma gic_enable_spi_writes:
  assumes "unat spi < 1020"
  obtains v1 v2 v3 where
    "g_wr (gic_enable_spi spi g) = g_wr g @ spi_writes (unat spi) v1 v2 v3 (build_irouter_from_mpidr (g_mpidr g) False)"
    "v1 = ucast (g_rd g (g_wr g) (g_reads g) (gicd (0x80 + 4 * (unat spi div 32)))) OR push_bit (unat spi mod 32) 1"
    "v2 = ucast (g_rd g (g_wr g @ [(gicd (0x80 + 4 * (unat spi div 32)), 4, ucast v1)]) (g_reads g + 1)
       (gicd (0xD00 + 4 * (unat spi div 32)))) AND NOT (push_bit (unat spi mod 32) 1)"
    "v3 = ucast (g_rd g (g_wr g @ [(gicd (0x80 + 4 * (unat spi div 32)), 4, ucast v1),
         (gicd (0xD00 + 4 * (unat spi div 32)), 4, ucast v2)]) (g_reads g + 2)
       (gicd (0xC00 + 4 * (unat spi div 16)))) OR push_bit (2 * (unat spi mod 16)) 2"
proof -
  note a = spi_addrs [OF assms]
  have r: "gicd (0x6000 + 8 * unat spi) + 4 = gicd (0x6004 + 8 * unat spi)" by (simp add: gicd_def)
  show thesis
    by (rule that, unfold gic_enable_spi_def route_spi_to_this_cpu_def gic_simps Let_def spi_writes_def)
      (simp_all add: add.assoc a r unat_parts unat_icfgr_sh)
qed

lemma bit_field_set:
  fixes v :: u64 assumes "k < 32"
  shows "bit (ucast (ucast v OR push_bit i 1 :: u32) :: u64) k \<longleftrightarrow> bit v k \<or> k = i"
    "bit (ucast (ucast v AND NOT (push_bit i 1) :: u32) :: u64) k \<longleftrightarrow> bit v k \<and> k \<noteq> i"
    "bit (ucast (push_bit i 1 :: u32) :: u64) k \<longleftrightarrow> k = i"
  using assms by (auto simp: bit_simps bit_ucast_iff)

lemma bit_trigger_set:
  fixes v :: u64 assumes "k < 16" "i < 16"
  shows "bit (ucast (ucast v OR push_bit (2 * i) 2 :: u32) :: u64) (2 * k + 1) \<longleftrightarrow> bit v (2 * k + 1) \<or> k = i"
proof -
  have "push_bit (2 * i) 2 = (push_bit (2 * i + 1) 1 :: u32)"
    using push_bit_push_bit [of "2 * i" 1 "1 :: u32"] by simp
  then show ?thesis using assms bit_field_set(1) [of "2 * k + 1" v "2 * i + 1"] by simp
qed

lemma same_field:
  fixes i j m :: nat assumes "0 < m" "i div m = j div m"
  shows "i mod m = j mod m \<longleftrightarrow> i = j"
  using assms by (metis div_mult_mod_eq)

lemma spi_writes_regs:
  fixes init :: "u64 \<Rightarrow> u64" and v1 v2 v3 :: u32 and route :: u64
  assumes "s < 1020" "j < 1020"
  defines "R \<equiv> regs init (spi_writes s v1 v2 v3 route)"
  shows "R (gicd (0x80 + 4 * (j div 32))) = (if j div 32 = s div 32 then ucast v1 else init (gicd (0x80 + 4 * (j div 32))))"
    "R (gicd (0xD00 + 4 * (j div 32))) = (if j div 32 = s div 32 then ucast v2 else init (gicd (0xD00 + 4 * (j div 32))))"
    "R (gicd (0xC00 + 4 * (j div 16))) = (if j div 16 = s div 16 then ucast v3 else init (gicd (0xC00 + 4 * (j div 16))))"
    "R (gicd (0x400 + j)) = (if j = s then 0x80 else init (gicd (0x400 + j)))"
    "R (gicd (0x6000 + 8 * j)) = (if j = s then ucast (ucast route :: u32) else init (gicd (0x6000 + 8 * j)))"
    "R (gicd (0x6004 + 8 * j)) = (if j = s then ucast (ucast (drop_bit 32 route) :: u32) else init (gicd (0x6004 + 8 * j)))"
  unfolding R_def spi_writes_def regs_Cons regs_Nil
  by (simp_all add: gicd_distinct [OF assms(2,1)] gicd_same [OF assms(2,1)] del: gicd_eq)

lemma spi_writes_enabled:
  assumes "s < 1020" "j < 1020"
  shows "enabled_after (gicd (0x100 + 4 * (j div 32))) (gicd (0x180 + 4 * (j div 32))) (j mod 32) init
      (spi_writes s v1 v2 v3 route) \<longleftrightarrow> j = s \<or> bit (init (gicd (0x100 + 4 * (j div 32)))) (j mod 32)"
proof -
  have "bit (ucast (push_bit (s mod 32) 1 :: u32) :: u64) (j mod 32) \<longleftrightarrow> j mod 32 = s mod 32" by (rule bit_field_set(3)) simp
  moreover have "j div 32 = s div 32 \<and> j mod 32 = s mod 32 \<longleftrightarrow> j = s" using same_field [of 32 j s] by auto
  ultimately show ?thesis
    unfolding enabled_after_def spi_writes_def
    by (simp add: gicd_distinct [OF assms(1,2)] gicd_same [OF assms(1,2)] del: gicd_eq) metis
qed

text \<open>
  Where the code puts the affinity levels: right for level 0 only. Level 1 goes to the place of level 2, level 2 to
  that of level 3, and level 3 to bits that are reserved.
\<close>

lemma bit_255: "bit (0xFF :: int) n \<longleftrightarrow> n < 8"
  using bit_mask_iff [of 8 n, where 'a = int] by (simp add: mask_eq_exp_minus_1)

lemma route_target:
  fixes mpidr :: u64 defines "r \<equiv> build_irouter_from_mpidr mpidr False"
  shows "(ucast (ucast (ucast (drop_bit 32 r) :: u32) :: u64) :: u8, ucast (drop_bit 16 (ucast (ucast r :: u32) :: u64)) :: u8,
      ucast (drop_bit 8 (ucast (ucast r :: u32) :: u64)) :: u8, ucast (ucast (ucast r :: u32) :: u64) :: u8) =
    (case core_aff mpidr of (a3, a2, a1, a0) \<Rightarrow> (a2, a1, 0, a0))"
    "\<not> bit (ucast (ucast r :: u32) :: u64) 31"
  unfolding r_def build_irouter_from_mpidr_def Let_def core_aff_def
  by (auto simp: bit_eq_iff bit_simps bit_ucast_iff bit_255)

lemma gic_enable_spi_cfg:
  assumes ok: "dist_ok ds init nirq g" and s: "32 \<le> unat spi" "unat spi < nirq"
    and aff: "core_aff (g_mpidr g) = (0, 0, 0, a0)"
  obtains v1 v2 v3 where
    "g_wr (gic_enable_spi spi g) = g_wr g @ spi_writes (unat spi) v1 v2 v3 (build_irouter_from_mpidr (g_mpidr g) False)"
    "\<And>j. 32 \<le> j \<Longrightarrow> j < nirq \<Longrightarrow> cfg_of ds init (spi_writes (unat spi) v1 v2 v3 (build_irouter_from_mpidr (g_mpidr g) False)) j =
       (if j = unat spi then in_service 0x80 (g_mpidr g) else cfg_of ds init [] j)"
proof -
  let ?s = "unat spi" and ?r = "build_irouter_from_mpidr (g_mpidr g) False"
  have n: "nirq \<le> 1020" using ok by (simp add: dist_ok_def)
  then have s': "?s < 1020" using s by simp
  obtain v1 v2 v3 where w: "g_wr (gic_enable_spi spi g) = g_wr g @ spi_writes ?s v1 v2 v3 ?r"
    and v1: "v1 = ucast (g_rd g (g_wr g) (g_reads g) (gicd (0x80 + 4 * (?s div 32)))) OR push_bit (?s mod 32) 1"
    and v2: "v2 = ucast (g_rd g (g_wr g @ [(gicd (0x80 + 4 * (?s div 32)), 4, ucast v1)]) (g_reads g + 1)
       (gicd (0xD00 + 4 * (?s div 32)))) AND NOT (push_bit (?s mod 32) 1)"
    and v3: "v3 = ucast (g_rd g (g_wr g @ [(gicd (0x80 + 4 * (?s div 32)), 4, ucast v1),
         (gicd (0xD00 + 4 * (?s div 32)), 4, ucast v2)]) (g_reads g + 2)
       (gicd (0xC00 + 4 * (?s div 16)))) OR push_bit (2 * (?s mod 16)) 2"
    by (rule gic_enable_spi_writes [OF s'])
  have b: "?s div 32 < 32" "?s div 16 < 64" using s' by simp_all
  have lg: "word_log (gicd (0xD00 + 4 * (?s div 32))) [(gicd (0x80 + 4 * (?s div 32)), 4, x)]"
    "word_log (gicd (0xC00 + 4 * (?s div 16))) [(gicd (0x80 + 4 * (?s div 32)), 4, x), (gicd (0xD00 + 4 * (?s div 32)), 4, y)]" for x y
    using b by (simp_all add: word_log_def unat_gicd)
  have "cfg_of ds init (spi_writes ?s v1 v2 v3 ?r) j = (if j = ?s then in_service 0x80 (g_mpidr g) else cfg_of ds init [] j)"
    if j: "32 \<le> j" "j < nirq" for j
  proof -
    have j': "j < 1020" using j(2) n by simp
    note k = ok [unfolded dist_ok_def, THEN conjunct2, rule_format, OF j]
    have g1: "bit (ucast v1 :: u64) (j mod 32) \<longleftrightarrow> bit (init (gicd (0x80 + 4 * (j div 32)))) (j mod 32) \<or> j = ?s"
      if "j div 32 = ?s div 32"
      using k(1) [THEN conjunct1, unfolded keeps_bit_def, rule_format, of "[]" "g_reads g"] that same_field [of 32 j ?s]
      unfolding v1 by (simp add: bit_field_set [simplified] word_log_def)
    have g2: "\<not> ds \<and> bit (ucast v2 :: u64) (j mod 32) \<longleftrightarrow> \<not> ds \<and> bit (init (gicd (0xD00 + 4 * (j div 32)))) (j mod 32) \<and> j \<noteq> ?s"
      if e: "j div 32 = ?s div 32"
    proof (cases ds)
      case False
      then have "keeps_bit init g (gicd (0xD00 + 4 * (?s div 32))) (j mod 32)" using k e by (simp add: mod_bit_def)
      from this [unfolded keeps_bit_def, rule_format, OF lg(1), of "ucast v1" "g_reads g + 1"] b False e same_field [of 32 j ?s]
      show ?thesis unfolding v2 by (simp add: bit_field_set [simplified])
    qed simp
    have g3: "bit (ucast v3 :: u64) (2 * (j mod 16) + 1) \<longleftrightarrow> bit (init (gicd (0xC00 + 4 * (j div 16)))) (2 * (j mod 16) + 1) \<or> j = ?s"
      if e: "j div 16 = ?s div 16"
    proof -
      have "keeps_bit init g (gicd (0xC00 + 4 * (?s div 16))) (2 * (j mod 16) + 1)" using k e by simp
      from this [unfolded keeps_bit_def, rule_format, OF lg(2), of "ucast v1" "ucast v2" "g_reads g + 2"] b e same_field [of 16 j ?s]
      show ?thesis unfolding v3 by (simp add: bit_trigger_set [simplified])
    qed
    show ?thesis
      unfolding cfg_of_def Let_def spi_writes_regs [OF s' j'] spi_writes_enabled [OF s' j'] in_service_def
      using g1 g2 g3 route_target [of "g_mpidr g"] aff by (auto simp: enabled_after_def)
  qed
  then show thesis using that w by blast
qed

text \<open>
  C35: \<open>gic_enable_spi\<close> puts exactly one interrupt into service. On a controller whose implemented group, trigger and (where
  there are any) modifier bits read as last written, every other shared interrupt keeps its whole configuration, and \<open>spi\<close>
  is left in the non-secure group 1, edge triggered, with priority \<open>0x80\<close>, enabled, and routed to the core
  that runs the code; the route is right for cores whose affinity has level 0 only.
\<close>

theorem gic_enable_spi_correct:
  assumes "dist_ok ds init nirq g" "32 \<le> unat spi" "unat spi < nirq" "core_aff (g_mpidr g) = (0, 0, 0, a0)"
  shows "\<exists>ws. g_wr (gic_enable_spi spi g) = g_wr g @ ws \<and>
    (\<forall>j. 32 \<le> j \<and> j < nirq \<longrightarrow> cfg_of ds init ws j =
      (if j = unat spi then
         \<lparr>sc_group1 = True, sc_secure = False, sc_edge = True, sc_prio = 0x80, sc_any = False,
          sc_target = core_aff (g_mpidr g), sc_enabled = True\<rparr>
       else cfg_of ds init [] j))"
  using gic_enable_spi_cfg [OF assms] unfolding in_service_def by metis

text \<open>
  A core with another affinity, level 1 being 1, is not the target: the route names a core with level 2 being 1.
\<close>

theorem route_misses_core:
  "core_aff 0x100 = (0, 0, 1, 0) \<and>
   (let r = build_irouter_from_mpidr 0x100 False in (ucast (drop_bit 16 r) :: u8, ucast (drop_bit 8 r) :: u8) = (1, 0))"
  by (simp add: core_aff_def build_irouter_from_mpidr_def Let_def)

text \<open>The demonstration controller: its configuration registers hold what is written, from 0 on.\<close>

definition demo_gic :: gic where
  "demo_gic = \<lparr>g_rd = (\<lambda>ws n a. if a = GICR_BASE0 + GICR_TYPER then 0
        else if a = GICR_BASE0 + GICR_STRIDE + GICR_TYPER then 0x0000000100000010
        else if a = GICR_BASE0 + GICR_STRIDE + GICR_WAKER then 0
        else regs (\<lambda>_. 0) ws a),
      g_reads = 0, g_wr = [], g_mpidr = 0x80000001, icc_sre = 0, icc_pmr = 0, icc_igrpen1 = 0\<rparr>"

lemma demo_gicd_read: "n < 0x10000 \<Longrightarrow> g_rd demo_gic ws k (gicd n) = regs (\<lambda>_. 0) ws (gicd n)"
  by (simp add: demo_gic_def word_unat_eq_iff unat_gicd) (simp add: GICR_BASE0_def GICR_STRIDE_def GICR_TYPER_def GICR_WAKER_def)

lemma demo_dist_ok: "dist_ok False (\<lambda>_. 0) 1020 demo_gic"
proof -
  have "g_wr demo_gic = []" by (simp add: demo_gic_def)
  moreover have "j div 32 < 32" "j div 16 < 64" if "j < 1020" for j :: nat using that by simp_all
  ultimately show ?thesis by (simp add: dist_ok_def keeps_bit_def mod_bit_def demo_gicd_read)
qed

lemma demo_core_aff: "core_aff (g_mpidr demo_gic) = (0, 0, 0, 1)"
  by (simp add: core_aff_def demo_gic_def)

theorem gic_enable_spi_correct_witness:
  "\<exists>ws. g_wr (gic_enable_spi 72 demo_gic) = ws \<and>
     cfg_of False (\<lambda>_. 0) ws 72 = \<lparr>sc_group1 = True, sc_secure = False, sc_edge = True, sc_prio = 0x80, sc_any = False,
       sc_target = (0, 0, 0, 1), sc_enabled = True\<rparr> \<and>
     cfg_of False (\<lambda>_. 0) ws 73 = cfg_of False (\<lambda>_. 0) [] 73"
proof -
  have w: "g_wr demo_gic = []" by (simp add: demo_gic_def)
  show ?thesis
    using gic_enable_spi_correct [OF demo_dist_ok _ _ demo_core_aff, of 72] unfolding w demo_core_aff by fastforce
qed

section \<open>The redistributor of this core\<close>

definition frame :: "nat \<Rightarrow> u64" where
  "frame i = GICR_BASE0 + of_nat i * GICR_STRIDE"

definition affinity :: "u64 \<Rightarrow> u32" where
  "affinity mpidr = ucast (mpidr AND 0xFF) OR push_bit 8 (ucast (drop_bit 8 mpidr AND 0xFF)) OR
     push_bit 16 (ucast (drop_bit 16 mpidr AND 0xFF)) OR push_bit 24 (ucast (drop_bit 32 mpidr AND 0xFF))"

definition frames :: "(nat \<Rightarrow> u64) \<Rightarrow> nat \<Rightarrow> gic \<Rightarrow> bool" where
  "frames typer nlast g \<longleftrightarrow> (\<forall>ws n. \<forall>i \<le> nlast. g_rd g ws n (frame i + GICR_TYPER) = typer i) \<and>
     (\<forall>i < nlast. \<not> bit (typer i) 4) \<and> bit (typer nlast) 4"

definition frame_of :: "(nat \<Rightarrow> u64) \<Rightarrow> nat \<Rightarrow> u32 \<Rightarrow> nat \<Rightarrow> u64" where
  "frame_of typer nlast want i =
     (case find (\<lambda>k. ucast (drop_bit 32 (typer k)) = want) [i..<Suc nlast] of
        None \<Rightarrow> GICR_BASE0 | Some k \<Rightarrow> frame k)"

lemma last_bit_iff: "typer AND 16 = 0 \<longleftrightarrow> \<not> bit (typer :: u64) 4"
  using and_exp_eq_0_iff_not_bit [of typer 4] by simp

lemma frame_Suc: "frame i + GICR_STRIDE = frame (Suc i)"
  by (simp add: frame_def algebra_simps)

lemma gicr_loop_ok:
  assumes "frames typer nlast g" "i \<le> nlast"
  shows "\<exists>n. gicr_loop want (frame i) g = Some (frame_of typer nlast want i, g\<lparr>g_reads := n\<rparr>)"
  using assms
proof (induction "nlast - i" arbitrary: i g)
  case 0
  then have i: "i = nlast" by simp
  have r: "g_rd g ws n (frame nlast + GICR_TYPER) = typer nlast" "bit (typer nlast) 4" for ws n
    using 0 by (auto simp: frames_def)
  show ?case
    using r by (subst gicr_loop.simps) (auto simp: i mmio_r64_def last_bit_iff frame_of_def)
next
  case (Suc m)
  have i: "i < nlast" using Suc.hyps(2) by simp
  have r: "g_rd g ws n (frame i + GICR_TYPER) = typer i" "\<not> bit (typer i) 4" for ws n
    using Suc.prems i by (auto simp: frames_def)
  let ?g = "g\<lparr>g_reads := Suc (g_reads g)\<rparr>"
  have f: "frames typer nlast ?g" using Suc.prems by (simp add: frames_def)
  obtain n where n: "gicr_loop want (frame (Suc i)) ?g =
      Some (frame_of typer nlast want (Suc i), ?g\<lparr>g_reads := n\<rparr>)"
    using Suc.hyps(1) [of "Suc i" ?g, OF _ f] Suc.hyps(2) i by fastforce
  have "[i..<Suc nlast] = i # [Suc i..<Suc nlast]" using i by (simp add: upt_conv_Cons)
  then show ?case
    using r n by (subst gicr_loop.simps) (auto simp: mmio_r64_def last_bit_iff frame_of_def frame_Suc)
qed

text \<open>
  \<open>gicr_base_for_this_cpu\<close> returns, for redistributor frames that end with one marked as the
  last. It returns the first frame whose affinity is the core's, and the first frame of all
  when there is none. It writes nothing.
\<close>

lemma gicr_base_ok:
  assumes "frames typer nlast g"
  shows "\<exists>n. gicr_base_for_this_cpu g =
    Inr (case find (\<lambda>k. ucast (drop_bit 32 (typer k)) = affinity (g_mpidr g)) [0..<Suc nlast] of
           None \<Rightarrow> GICR_BASE0 | Some k \<Rightarrow> frame k, g\<lparr>g_reads := n\<rparr>)"
proof -
  have "frame 0 = GICR_BASE0" by (simp add: frame_def)
  then obtain n where "gicr_loop (affinity (g_mpidr g)) GICR_BASE0 g =
      Some (frame_of typer nlast (affinity (g_mpidr g)) 0, g\<lparr>g_reads := n\<rparr>)"
    using gicr_loop_ok [OF assms, of 0] by auto
  then show ?thesis
    by (auto simp: gicr_base_for_this_cpu_def affinity_def sys_mrs_mpidr_def frame_of_def Let_def)
qed

lemma demo_frames: "frames (\<lambda>i. if i = 0 then 0 else 0x0000000100000010) 1 demo_gic"
proof -
  have "bit (0x0000000100000010 :: u64) 4" by (simp add: bit_iff_odd)
  moreover have "frame 0 = GICR_BASE0" "frame 1 = GICR_BASE0 + GICR_STRIDE" by (simp_all add: frame_def)
  moreover have "GICR_BASE0 + GICR_STRIDE + GICR_TYPER \<noteq> GICR_BASE0 + GICR_TYPER"
    by (simp add: GICR_BASE0_def GICR_STRIDE_def GICR_TYPER_def)
  ultimately show ?thesis by (auto simp: frames_def demo_gic_def le_Suc_eq)
qed

section \<open>Private interrupts\<close>

text \<open>From any read on the wake-up flag of the redistributor at \<open>base\<close> is clear at some read.\<close>

definition wakes :: "u64 \<Rightarrow> gic \<Rightarrow> bool" where
  "wakes base g \<longleftrightarrow> (\<forall>ws n. \<exists>m \<ge> n.
     (ucast (g_rd g ws m (base + GICR_WAKER)) :: u32) AND GICR_WAKER_ChildrenAsleep = 0)"

lemma waker_loop_ok:
  assumes "g_reads g \<le> m" "(ucast (g_rd g (g_wr g) m a) :: u32) AND GICR_WAKER_ChildrenAsleep = 0"
  shows "\<exists>n. waker_loop a g = Some (g\<lparr>g_reads := n\<rparr>)"
  using assms
proof (induction "m - g_reads g" arbitrary: g)
  case 0
  then have "g_reads g = m" by simp
  then show ?case using 0 by (subst waker_loop.simps) (auto simp: mmio_r32_def)
next
  case (Suc d)
  let ?g = "g\<lparr>g_reads := g_reads g + 1\<rparr>"
  obtain n where "waker_loop a ?g = Some (?g\<lparr>g_reads := n\<rparr>)"
    using Suc.hyps(1) [of ?g] Suc.hyps(2) Suc.prems by fastforce
  then show ?case by (subst waker_loop.simps) (auto simp: mmio_r32_def)
qed

lemma gic_enable_ppi_ok:
  assumes "frames typer nlast g" "wakes b g"
    and "find (\<lambda>k. ucast (drop_bit 32 (typer k)) = affinity (g_mpidr g)) [0..<Suc nlast] = Some k" "b = frame k"
  shows "if ppi < 16 \<or> ppi > 31 then gic_enable_ppi ppi prio ns g = Inr (-1, g)
    else \<exists>g' w. gic_enable_ppi ppi prio ns g = Inr (0, g') \<and>
      g_wr g' = g_wr g @ w @ [(b + GICR_SGI_BASE + GICR_IPRIORITYR + ucast ppi, 1, ucast prio),
                              (b + GICR_SGI_BASE + GICR_ISENABLER0, 4, ucast (push_bit (unat ppi) 1 :: u32))] \<and>
      icc_pmr g' = 0xFF \<and> icc_igrpen1 g' = 1 \<and> bit (icc_sre g') 0"
proof (cases "ppi < 16 \<or> ppi > 31")
  case True
  then show ?thesis by (simp add: gic_enable_ppi_def)
next
  case False
  define g1 where "g1 = gic_enable_dist (sys_enable_icc_el1 g)"
  have g1: "frames typer nlast g1" "wakes b g1" "g_mpidr g1 = g_mpidr g" "icc_pmr g1 = 0xFF"
    "icc_igrpen1 g1 = 1" "bit (icc_sre g1) 0" "\<exists>w. g_wr g1 = g_wr g @ w"
    using assms(1,2)
    by (auto simp: g1_def gic_enable_dist_def sys_enable_icc_el1_def gic_simps frames_def wakes_def Let_def bit_or_iff)
  obtain n where n: "gicr_base_for_this_cpu g1 = Inr (b, g1\<lparr>g_reads := n\<rparr>)"
    using gicr_base_ok [OF g1(1)] unfolding g1(3) assms(3,4) by auto
  define v where "v = (ucast (g_rd g1 (g_wr g1) n (b + GICR_WAKER)) :: u32) AND NOT GICR_WAKER_ProcessorSleep"
  define g2 where "g2 = g1\<lparr>g_reads := n + 1, g_wr := g_wr g1 @ [(b + GICR_WAKER, 4, ucast v)]\<rparr>"
  obtain m where "g_reads g2 \<le> m" "(ucast (g_rd g2 (g_wr g2) m (b + GICR_WAKER)) :: u32) AND GICR_WAKER_ChildrenAsleep = 0"
    using g1(2) by (auto simp: wakes_def g2_def)
  then obtain n' where n': "waker_loop (b + GICR_WAKER) g2 = Some (g2\<lparr>g_reads := n'\<rparr>)"
    using waker_loop_ok by blast
  show ?thesis
    using False n n' g1(4-7)
    by (auto simp: gic_enable_ppi_def g1_def [symmetric] Let_def gic_simps v_def g2_def split: option.splits)
qed

text \<open>
  \<open>gic_enable_ppi\<close> refuses every interrupt that is not private to a core without touching
  the controller. For a private one it returns 0, when the core's redistributor frame \<open>b\<close> is
  among the frames and wakes up: it has set up the core's interface and written the
  priority and, last of all, the enable bit of that interrupt to the redistributor.
\<close>

theorem gic_enable_ppi_correct:
  assumes "frames typer nlast g" "wakes b g"
    and "find (\<lambda>k. ucast (drop_bit 32 (typer k)) = affinity (g_mpidr g)) [0..<Suc nlast] = Some k" "b = frame k"
  shows "if ppi < 16 \<or> ppi > 31 then gic_enable_ppi ppi prio ns g = Inr (-1, g)
    else \<exists>g' w. gic_enable_ppi ppi prio ns g = Inr (0, g') \<and>
      g_wr g' = g_wr g @ w @ [(b + GICR_SGI_BASE + GICR_IPRIORITYR + ucast ppi, 1, ucast prio),
                              (b + GICR_SGI_BASE + GICR_ISENABLER0, 4, ucast (push_bit (unat ppi) 1 :: u32))] \<and>
      icc_pmr g' = 0xFF \<and> icc_igrpen1 g' = 1 \<and> bit (icc_sre g') 0"
  using assms by (rule gic_enable_ppi_ok)

text \<open>
  What the redistributor at \<open>b\<close> holds of a private interrupt, and what is assumed of it; as for the distributor.
\<close>

definition sgi :: "u64 \<Rightarrow> nat \<Rightarrow> u64" where
  "sgi b off = b + 0x10000 + of_nat off"

record ppi_cfg =
  pc_group1 :: bool
  pc_secure :: bool
  pc_prio :: u64
  pc_enabled :: bool

definition ppi_cfg_of :: "bool \<Rightarrow> (u64 \<Rightarrow> u64) \<Rightarrow> mmio list \<Rightarrow> u64 \<Rightarrow> nat \<Rightarrow> ppi_cfg" where
  "ppi_cfg_of ds init ws b i =
     (let R = (\<lambda>off. regs init ws (sgi b off)) in
      \<lparr>pc_group1 = bit (R 0x80) i, pc_secure = (\<not> ds \<and> bit (R 0xD00) i), pc_prio = R (0x400 + i),
       pc_enabled = enabled_after (sgi b 0x100) (sgi b 0x180) i init ws\<rparr>)"

definition redist_ok :: "bool \<Rightarrow> (u64 \<Rightarrow> u64) \<Rightarrow> u64 \<Rightarrow> gic \<Rightarrow> bool" where
  "redist_ok ds init b g \<longleftrightarrow> unat b < 2 ^ 40 \<and> 0x080A0000 \<le> unat b \<and> (\<forall>i < 32.
     keeps_bit init g (sgi b 0x80) i \<and> mod_bit ds init g (sgi b 0xD00) i)"

definition ppi_writes :: "u64 \<Rightarrow> nat \<Rightarrow> u8 \<Rightarrow> u32 \<Rightarrow> u32 \<Rightarrow> u32 \<Rightarrow> u32 \<Rightarrow> mmio list" where
  "ppi_writes b i prio c w v1 v2 =
     [(gicd 0, 4, ucast c), (b + 0x14, 4, ucast w), (sgi b 0x80, 4, ucast v1), (sgi b 0xD00, 4, ucast v2),
      (sgi b (0x400 + i), 1, ucast prio), (sgi b 0x100, 4, ucast (push_bit i 1 :: u32))]"

lemma gic_enable_ppi_writes:
  assumes "frames typer nlast g" "wakes b g"
    and "find (\<lambda>k. ucast (drop_bit 32 (typer k)) = affinity (g_mpidr g)) [0..<Suc nlast] = Some k" "b = frame k"
    and "16 \<le> unat ppi" "unat ppi < 32"
  obtains g' c w v1 v2 n n' where "gic_enable_ppi ppi prio True g = Inr (0, g')"
    "g_wr g' = g_wr g @ ppi_writes b (unat ppi) prio c w v1 v2" "bit c 1" "bit c 4"
    "v1 = ucast (g_rd g (g_wr g @ [(gicd 0, 4, ucast c), (b + 0x14, 4, ucast w)]) n (sgi b 0x80)) OR push_bit (unat ppi) 1"
    "v2 = ucast (g_rd g (g_wr g @ [(gicd 0, 4, ucast c), (b + 0x14, 4, ucast w), (sgi b 0x80, 4, ucast v1)]) n' (sgi b 0xD00))
       AND NOT (push_bit (unat ppi) 1)"
    "icc_pmr g' = 0xFF" "icc_igrpen1 g' = 1" "bit (icc_sre g') 0" "g_rd g' = g_rd g" "g_mpidr g' = g_mpidr g"
proof -
  have p: "\<not> (ppi < 16 \<or> ppi > 31)" using assms(5,6) by (simp add: word_less_nat_alt)
  define c where "c = (ucast (g_rd g (g_wr g) (g_reads g) (gicd 0)) OR push_bit 4 1) OR push_bit 1 (1 :: u32)"
  have d0: "GICD_BASE + GICD_CTLR = gicd 0" by (simp add: GICD_BASE_def GICD_CTLR_def gicd_def)
  define g1 where "g1 = gic_enable_dist (sys_enable_icc_el1 g)"
  have g1: "frames typer nlast g1" "wakes b g1" "g_mpidr g1 = g_mpidr g" "icc_pmr g1 = 0xFF"
    "icc_igrpen1 g1 = 1" "bit (icc_sre g1) 0" "g_wr g1 = g_wr g @ [(gicd 0, 4, ucast c)]" "g_rd g1 = g_rd g"
    using assms(1,2) unfolding c_def
    by (auto simp: g1_def gic_enable_dist_def sys_enable_icc_el1_def gic_simps frames_def wakes_def Let_def bit_or_iff d0)
  obtain n where n: "gicr_base_for_this_cpu g1 = Inr (b, g1\<lparr>g_reads := n\<rparr>)"
    using gicr_base_ok [OF g1(1)] unfolding g1(3) assms(3,4) by auto
  define w where "w = (ucast (g_rd g1 (g_wr g1) n (b + GICR_WAKER)) :: u32) AND NOT GICR_WAKER_ProcessorSleep"
  define g2 where "g2 = g1\<lparr>g_reads := n + 1, g_wr := g_wr g1 @ [(b + GICR_WAKER, 4, ucast w)]\<rparr>"
  obtain m where "g_reads g2 \<le> m" "(ucast (g_rd g2 (g_wr g2) m (b + GICR_WAKER)) :: u32) AND GICR_WAKER_ChildrenAsleep = 0"
    using g1(2) by (auto simp: wakes_def g2_def)
  then obtain n' where n': "waker_loop (b + GICR_WAKER) g2 = Some (g2\<lparr>g_reads := n'\<rparr>)"
    using waker_loop_ok by blast
  define v1 where "v1 = ucast (g_rd g (g_wr g @ [(gicd 0, 4, ucast c), (b + 0x14, 4, ucast w)]) n' (sgi b 0x80)) OR push_bit (unat ppi) (1 :: u32)"
  define v2 where "v2 = ucast (g_rd g (g_wr g @ [(gicd 0, 4, ucast c), (b + 0x14, 4, ucast w), (sgi b 0x80, 4, ucast v1)]) (n' + 1) (sgi b 0xD00))
       AND NOT (push_bit (unat ppi) (1 :: u32))"
  have a: "b + GICR_WAKER = b + 0x14" "b + GICR_SGI_BASE + GICR_IGROUPR0 = sgi b 0x80" "b + GICR_SGI_BASE + GICR_IGRPMODR0 = sgi b 0xD00"
    "b + GICR_SGI_BASE + GICR_IPRIORITYR + ucast ppi = sgi b (0x400 + unat ppi)" "b + GICR_SGI_BASE + GICR_ISENABLER0 = sgi b 0x100"
    by (simp_all add: sgi_def GICR_WAKER_def GICR_SGI_BASE_def GICR_IGROUPR0_def GICR_IGRPMODR0_def GICR_IPRIORITYR_def GICR_ISENABLER0_def)
  let ?g = "g1\<lparr>g_reads := n' + 2, g_wr := g_wr g @ ppi_writes b (unat ppi) prio c w v1 v2\<rparr>"
  have "gic_enable_ppi ppi prio True g = Inr (0, ?g)"
    using p n n' by (simp add: gic_enable_ppi_def g1_def [symmetric] Let_def gic_simps g1(7,8) a ppi_writes_def v1_def v2_def w_def g2_def)
  moreover have "bit c 1" "bit c 4" by (simp_all add: c_def bit_or_iff bit_push_bit_iff)
  ultimately show thesis using that [of ?g c w v1 v2 n' "n' + 1"] g1 v1_def v2_def by simp
qed

lemma unat_sgi: "unat b < 2 ^ 40 \<Longrightarrow> n < 0x10000 \<Longrightarrow> unat (sgi b n) = unat b + 0x10000 + n"
  by (simp add: sgi_def unat_word_ariths)

lemma gic_enable_ppi_cfg:
  assumes ok: "redist_ok ds init b g" and i: "i < 32"
    and v1: "v1 = ucast (g_rd g (g_wr g @ [(gicd 0, 4, ucast c), (b + 0x14, 4, ucast w)]) n (sgi b 0x80)) OR push_bit i 1"
    and v2: "v2 = ucast (g_rd g (g_wr g @ [(gicd 0, 4, ucast c), (b + 0x14, 4, ucast w), (sgi b 0x80, 4, ucast v1)]) n' (sgi b 0xD00))
       AND NOT (push_bit i 1)"
    and j: "j < 32"
  shows "ppi_cfg_of ds init (ppi_writes b i prio c w v1 v2) b j =
    (if j = i then \<lparr>pc_group1 = True, pc_secure = False, pc_prio = ucast prio, pc_enabled = True\<rparr> else ppi_cfg_of ds init [] b j)"
proof -
  have b: "unat b < 2 ^ 40" "0x080A0000 \<le> unat b" using ok by (simp_all add: redist_ok_def)
  have wk: "unat (b + 0x14) = unat b + 0x14" using b(1) by (simp add: unat_word_ariths)
  note u = unat_sgi [OF b(1)] wk unat_gicd
  have ne: "sgi b x \<noteq> gicd 0" "sgi b x \<noteq> b + 0x14" if "x < 0x10000" for x
    using that b(2) by (simp_all add: word_unat_eq_iff u)
  have eq: "sgi b x = sgi b y \<longleftrightarrow> x = y" if "x < 0x10000" "y < 0x10000" for x y
    using that by (simp add: word_unat_eq_iff u)
  have lg: "word_log (sgi b 0x80) [(gicd 0, 4, ucast c), (b + 0x14, 4, ucast w)]"
    "word_log (sgi b 0xD00) [(gicd 0, 4, ucast c), (b + 0x14, 4, ucast w), (sgi b 0x80, 4, ucast v1)]"
    using b(2) by (simp_all add: word_log_def u)
  have k: "keeps_bit init g (sgi b 0x80) j" "mod_bit ds init g (sgi b 0xD00) j" using ok j by (simp_all add: redist_ok_def)
  have g1: "bit (ucast v1 :: u64) j \<longleftrightarrow> bit (init (sgi b 0x80)) j \<or> j = i"
    using k(1) [unfolded keeps_bit_def, rule_format, OF lg(1), of n] ne j unfolding v1 by (simp add: bit_field_set [simplified])
  have g2: "\<not> ds \<and> bit (ucast v2 :: u64) j \<longleftrightarrow> \<not> ds \<and> bit (init (sgi b 0xD00)) j \<and> j \<noteq> i"
  proof (cases ds)
    case False
    then have "keeps_bit init g (sgi b 0xD00) j" using k(2) by (simp add: mod_bit_def)
    from this [unfolded keeps_bit_def, rule_format, OF lg(2), of n'] ne eq j False show ?thesis unfolding v2 by (simp add: bit_field_set [simplified])
  qed simp
  show ?thesis
    unfolding ppi_cfg_of_def ppi_writes_def enabled_after_def Let_def
    using g1 g2 i j by (simp add: ne ne [symmetric] eq bit_field_set(3) [simplified])
qed

section \<open>Several set-ups in a row\<close>

text \<open>The addresses that say something about shared interrupt \<open>j\<close>, and those about private ones in the frame at \<open>b\<close>.\<close>

definition spi_area :: "nat \<Rightarrow> u64 set" where
  "spi_area j = gicd ` {0x80 + 4 * (j div 32), 0xD00 + 4 * (j div 32), 0xC00 + 4 * (j div 16), 0x400 + j,
     0x6000 + 8 * j, 0x6004 + 8 * j, 0x100 + 4 * (j div 32), 0x180 + 4 * (j div 32)}"

definition ppi_area :: "u64 \<Rightarrow> nat \<Rightarrow> u64 set" where
  "ppi_area b i = sgi b ` {0x80, 0xD00, 0x400 + i, 0x100, 0x180}"

lemma area_notin:
  "A \<inter> spi_area j = {} \<longleftrightarrow> (\<forall>n \<in> {0x80 + 4 * (j div 32), 0xD00 + 4 * (j div 32), 0xC00 + 4 * (j div 16), 0x400 + j,
     0x6000 + 8 * j, 0x6004 + 8 * j, 0x100 + 4 * (j div 32), 0x180 + 4 * (j div 32)}. gicd n \<notin> A)"
  "A \<inter> ppi_area b i = {} \<longleftrightarrow> (\<forall>n \<in> {0x80, 0xD00, 0x400 + i, 0x100, 0x180}. sgi b n \<notin> A)"
  unfolding spi_area_def ppi_area_def by blast+

lemma cfg_of_append:
  "fst ` set ws \<inter> spi_area j = {} \<Longrightarrow> cfg_of ds init (ws @ ws') j = cfg_of ds (regs init ws) ws' j"
  "fst ` set ws' \<inter> spi_area j = {} \<Longrightarrow> cfg_of ds init (ws @ ws') j = cfg_of ds init ws j"
  unfolding area_notin cfg_of_def by (simp_all add: Let_def enabled_after_append regs_frame)

lemma ppi_cfg_of_append:
  "fst ` set ws \<inter> ppi_area b i = {} \<Longrightarrow> ppi_cfg_of ds init (ws @ ws') b i = ppi_cfg_of ds (regs init ws) ws' b i"
  unfolding area_notin ppi_cfg_of_def by (simp add: Let_def enabled_after_append)

text \<open>Writes below an address do not disturb what is assumed of the registers above it.\<close>

definition below :: "nat \<Rightarrow> mmio list \<Rightarrow> bool" where
  "below n ws \<longleftrightarrow> (\<forall>(a, w, v) \<in> set ws. unat a + w \<le> n)"

lemma below_word_log: "below n ws \<Longrightarrow> n \<le> unat a \<Longrightarrow> word_log a ws"
  by (fastforce simp: below_def word_log_def)

lemma dist_ok_later:
  assumes "dist_ok ds init nirq g" "g_rd g' = g_rd g" "g_wr g' = g_wr g @ ws" "below 0x08000080 ws"
  shows "dist_ok ds (regs init ws) nirq g'"
proof -
  have w: "word_log (gicd n) ws" if "0x80 \<le> n" "n < 0x10000" for n
    using below_word_log [OF assms(4)] that by (simp add: unat_gicd)
  have "j div 32 < 32" "j div 16 < 64" if "j < 1020" for j :: nat using that by simp_all
  then show ?thesis
    using assms(1) keeps_later [OF assms(2,3) w] unfolding dist_ok_def by (auto intro: order_less_le_trans)
qed

lemma redist_ok_later:
  assumes "redist_ok ds init b g" "g_rd g' = g_rd g" "g_wr g' = g_wr g @ ws" "below 0x08010000 ws"
  shows "redist_ok ds (regs init ws) b g'"
proof -
  have b: "unat b < 2 ^ 40" "0x080A0000 \<le> unat b" using assms(1) by (simp_all add: redist_ok_def)
  have "word_log (sgi b n) ws" if "n < 0x10000" for n
    using below_word_log [OF assms(4)] that b by (simp add: unat_sgi)
  then show ?thesis using assms(1) keeps_later [OF assms(2,3)] unfolding redist_ok_def by simp
qed

lemma demo_wakes: "wakes (GICR_BASE0 + GICR_STRIDE) demo_gic"
proof -
  have "g_rd demo_gic ws n (GICR_BASE0 + GICR_STRIDE + GICR_WAKER) = 0" for ws n
    by (simp add: demo_gic_def GICR_BASE0_def GICR_STRIDE_def GICR_TYPER_def GICR_WAKER_def)
  then show ?thesis by (auto simp: wakes_def)
qed

lemma demo_affinity: "affinity (g_mpidr demo_gic) = 1"
  by (simp add: affinity_def demo_gic_def)

theorem gic_enable_ppi_correct_witness:
  "\<exists>g' w. gic_enable_ppi 30 0x80 True demo_gic = Inr (0, g') \<and>
     g_wr g' = w @ [(0x080D041E, 1, 0x80), (0x080D0100, 4, 0x40000000)]"
proof -
  have f: "find (\<lambda>k. ucast (drop_bit 32 (if k = 0 then 0 else 0x0000000100000010 :: u64)) = affinity (g_mpidr demo_gic))
      [0..<Suc 1] = Some 1"
    by (simp add: demo_affinity)
  have w: "wakes (frame 1) demo_gic" using demo_wakes by (simp add: frame_def)
  have d: "g_wr demo_gic = []" by (simp add: demo_gic_def)
  show ?thesis
    using gic_enable_ppi_correct [OF demo_frames w f HOL.refl, of 30 "0x80" True] unfolding d
    by (auto simp: frame_def GICR_BASE0_def GICR_STRIDE_def GICR_SGI_BASE_def GICR_IPRIORITYR_def GICR_ISENABLER0_def)
qed

end
