(* ===== verification/Rtcore.thy ===== *)
theory Rtcore
  imports Mailbox Mmu
begin

text \<open>
  The Linux side: the driver \<^verbatim>\<open>kernelmod/rtmain.c\<close> with \<^verbatim>\<open>kernelmod/psci.c\<close> and
  \<^verbatim>\<open>kernelmod/psci_arm64.S\<close>, and the interface of \<^verbatim>\<open>shared/rtcore.h\<close>. What Linux decides is an argument of the
  operation: whether \<open>kzalloc\<close>, \<open>remap_pfn_range\<close> and \<open>memremap\<close> succeed, what
  \<open>copy_from_user\<close> delivers, the page size (\<open>ps\<close> is its logarithm), the cache type register \<open>ctr\<close> and the
  answer of the firmware. The log messages are not modelled. \<open>rtcore_mmap\<close> takes no lock, so it is also split into the
  accesses to shared data it makes (\<open>mmap_fits\<close>, \<open>mmap_place\<close>, \<open>mmap_record\<close>), which the calls of other processes may come between.
\<close>

section \<open>Data\<close>

record rtcore_ctx =
  user_base :: u64
  user_len :: u64
  phys_base :: u64
  first_off :: u64
  mapped :: bool

record start_cpu_args_t =
  sa_entry_user :: u64
  sa_core_id :: u64

record sched_prog_args_t =
  pa_entry_user :: u64
  pa_mem_req :: u64

text \<open>
  The driver's state: the private data of the open files, the cursor \<open>G_MEM_OFF\<close>, the ring,
  and the effects outside: the writes to the distributor, the calls of the firmware, the cache lines
  cleaned and invalidated.
\<close>

text \<open>What the module holds from Linux between loading and unloading.\<close>

datatype resource = Chrdev_region | Cdev | Gicd_map | Class_rt | Device_rt | Code_map | Ring_map

record rtmod =
  private_data :: "nat \<Rightarrow> rtcore_ctx option"
  G_MEM_OFF :: u64
  tojrt_ring :: mpsc_ring
  jrt_mem_virt :: u64
  gicd_writes :: "(u64 \<times> u32) list"
  hvc_calls :: "(u64 \<times> u64 \<times> u64 \<times> u64) list"
  dc_lines :: "u64 list"
  ic_lines :: "u64 list"
  held :: "resource list"

definition EAGAIN :: int where "EAGAIN = 11"
definition ENOMEM :: int where "ENOMEM = 12"
definition EFAULT :: int where "EFAULT = 14"
definition EINVAL :: int where "EINVAL = 22"
definition ENOTTY :: int where "ENOTTY = 25"

section \<open>Opening and closing\<close>

definition rtcore_open :: "bool \<Rightarrow> nat \<Rightarrow> rtmod \<Rightarrow> int \<times> rtmod" where
  "rtcore_open kzalloc_ok filp d =
     (if \<not> kzalloc_ok then (- ENOMEM, d)
      else (0, d\<lparr>private_data := (private_data d)(filp :=
              Some \<lparr>user_base = 0, user_len = 0, phys_base = 0, first_off = 0, mapped = False\<rparr>)\<rparr>))"

definition rtcore_release :: "nat \<Rightarrow> rtmod \<Rightarrow> int \<times> rtmod" where
  "rtcore_release filp d = (0, d\<lparr>private_data := (private_data d)(filp := None)\<rparr>)"

section \<open>Caches\<close>

partial_function (option) line_loop :: "u64 \<Rightarrow> u64 \<Rightarrow> u64 \<Rightarrow> u64 list \<Rightarrow> u64 list option" where
  "line_loop line fin addr done =
     (if addr < fin then line_loop line fin (addr + line) (done @ [addr]) else Some done)"

declare line_loop.simps [code]

definition cache_lines :: "nat \<Rightarrow> u64 \<Rightarrow> u64 \<Rightarrow> u64 list res" where
  "cache_lines minline start fin =
     (let line = push_bit minline 4;
          start = start AND NOT (line - 1)
      in case line_loop line fin start [] of None \<Rightarrow> Inl No_return | Some ls \<Rightarrow> Inr ls)"

definition clean_dcache_pou_range :: "u64 \<Rightarrow> u64 \<Rightarrow> u64 \<Rightarrow> rtmod \<Rightarrow> rtmod res" where
  "clean_dcache_pou_range ctr start fin d =
     (let dminline = unat (drop_bit 16 ctr AND 0xF)
      in bindE (cache_lines dminline start fin) (\<lambda>ls. Inr (d\<lparr>dc_lines := dc_lines d @ ls\<rparr>)))"

definition inval_icache_pou_range :: "u64 \<Rightarrow> u64 \<Rightarrow> u64 \<Rightarrow> rtmod \<Rightarrow> rtmod res" where
  "inval_icache_pou_range ctr start fin d =
     (let iminline = unat (ctr AND 0xF)
      in bindE (cache_lines iminline start fin) (\<lambda>ls. Inr (d\<lparr>ic_lines := ic_lines d @ ls\<rparr>)))"

definition rtcore_icache_sync_phys_range :: "u64 \<Rightarrow> u64 \<Rightarrow> u64 \<Rightarrow> rtmod \<Rightarrow> rtmod res" where
  "rtcore_icache_sync_phys_range ctr phys len d =
     (if len = 0 then Inr d
      else
        (let off = phys - JRT_CODE_PHYS;
             start = jrt_mem_virt d + off;
             fin = start + len
         in bindE (clean_dcache_pou_range ctr start fin d) (inval_icache_pou_range ctr start fin)))"

section \<open>Starting a core\<close>

text \<open>\<open>psci_cpu_on_arm64\<close>: the registers \<open>x0\<close> to \<open>x3\<close> at the \<open>hvc\<close>; the answer is the firmware's.\<close>

definition PSCI_CPU_ON :: u64 where "PSCI_CPU_ON = 0x0003 OR push_bit 16 0xc400"

definition psci_cpu_on :: "(u64 \<Rightarrow> u64 \<Rightarrow> u64 \<Rightarrow> u64) \<Rightarrow> u64 \<Rightarrow> u64 \<Rightarrow> u64 \<Rightarrow> rtmod \<Rightarrow> u64 \<times> rtmod" where
  "psci_cpu_on fw core_id entry ctxt d =
     (fw core_id entry ctxt, d\<lparr>hvc_calls := hvc_calls d @ [(PSCI_CPU_ON, core_id, entry, ctxt)]\<rparr>)"

text \<open>
  The checks the two \<open>ioctl\<close> commands share: the entry point must lie in the mapping of this
  file, be aligned and lie in the code window. The result is an error code or the physical address.
\<close>

definition entry_of :: "rtcore_ctx option \<Rightarrow> u64 \<Rightarrow> int + u64" where
  "entry_of c entry_user =
     (case c of None \<Rightarrow> Inl (- EINVAL)
      | Some ctx \<Rightarrow>
          if \<not> mapped ctx then Inl (- EINVAL)
          else if entry_user < user_base ctx \<or> entry_user \<ge> user_base ctx + user_len ctx then Inl (- EFAULT)
          else
            (let entry_phys = phys_base ctx + (entry_user - user_base ctx) in
             if entry_phys AND 0x3 \<noteq> 0 then Inl (- EINVAL)
             else if entry_phys < JRT_CODE_PHYS \<or> entry_phys \<ge> JRT_CODE_PHYS + JRT_CODE_SIZE then Inl (- EINVAL)
             else Inr entry_phys))"

definition rest_of :: "rtcore_ctx option \<Rightarrow> u64 \<Rightarrow> u64" where
  "rest_of c entry_user = (case c of None \<Rightarrow> 0 | Some ctx \<Rightarrow> user_len ctx - (entry_user - user_base ctx))"

definition rtcore_start_cpu ::
  "u64 \<Rightarrow> (u64 \<Rightarrow> u64 \<Rightarrow> u64 \<Rightarrow> u64) \<Rightarrow> nat \<Rightarrow> start_cpu_args_t option \<Rightarrow> rtmod \<Rightarrow> (int \<times> rtmod) res" where
  "rtcore_start_cpu ctr fw filp user d =
     (let ctx = private_data d filp in
      case user of None \<Rightarrow> Inr (- EFAULT, d)
      | Some args \<Rightarrow>
          (case entry_of ctx (sa_entry_user args) of
             Inl e \<Rightarrow> Inr (e, d)
           | Inr entry_phys \<Rightarrow>
               bindE (rtcore_icache_sync_phys_range ctr entry_phys (rest_of ctx (sa_entry_user args)) d) (\<lambda>d.
                 (let (r, d) = psci_cpu_on fw (sa_core_id args) entry_phys 0 d in Inr (sint r, d)))))"

section \<open>Scheduling a program\<close>

definition reg_index32 :: "u32 \<Rightarrow> u32" where "reg_index32 i = i div 32"
definition bit_index32 :: "u32 \<Rightarrow> u32" where "bit_index32 i = i mod 32"

definition SCHED_SPI :: u32 where "SCHED_SPI = 72"

definition GICD_ISPENDR :: "u32 \<Rightarrow> u32" where "GICD_ISPENDR n = 0x0200 + 4 * n"

definition writel_relaxed :: "u32 \<Rightarrow> u64 \<Rightarrow> rtmod \<Rightarrow> rtmod" where
  "writel_relaxed v a d = d\<lparr>gicd_writes := gicd_writes d @ [(a, v)]\<rparr>"

text \<open>
  The mutex serialises the producers, so the push runs as it does alone; a full slot keeps it
  spinning until the real-time core has read it. Distributor addresses are offsets from \<open>gicd\<close>.
\<close>

definition rtcore_sched_prog :: "u64 \<Rightarrow> nat \<Rightarrow> sched_prog_args_t option \<Rightarrow> rtmod \<Rightarrow> (int \<times> rtmod) res" where
  "rtcore_sched_prog ctr filp user d =
     (let ctx = private_data d filp in
      case user of None \<Rightarrow> Inr (- EFAULT, d)
      | Some args \<Rightarrow>
          (case entry_of ctx (pa_entry_user args) of
             Inl e \<Rightarrow> Inr (e, d)
           | Inr entry_phys \<Rightarrow>
               (let req = \<lparr>rq_pc = entry_phys, rq_prog_size = rest_of ctx (pa_entry_user args),
                           rq_mem_req = pa_mem_req args\<rparr>
                in bindE (rtcore_icache_sync_phys_range ctr entry_phys (rest_of ctx (pa_entry_user args)) d) (\<lambda>d.
                   bindE (mpsc_push req False (tojrt_ring d)) (\<lambda>(res, ring).
                     (let d = d\<lparr>tojrt_ring := ring\<rparr>;
                          d = writel_relaxed (push_bit (unat (bit_index32 SCHED_SPI)) 1)
                                (ucast (GICD_ISPENDR (reg_index32 SCHED_SPI))) d
                      in Inr (0, d)))))))"

text \<open>The argument of \<open>ioctl\<close>: a command number with what \<open>copy_from_user\<close> would deliver.\<close>

datatype ioctl_cmd =
    RTCORE_IOCTL_START_CPU "start_cpu_args_t option"
  | RTCORE_IOCTL_SCHED_PROG "sched_prog_args_t option"
  | Other_cmd

definition rtcore_ioctl ::
  "u64 \<Rightarrow> (u64 \<Rightarrow> u64 \<Rightarrow> u64 \<Rightarrow> u64) \<Rightarrow> nat \<Rightarrow> ioctl_cmd \<Rightarrow> rtmod \<Rightarrow> (int \<times> rtmod) res" where
  "rtcore_ioctl ctr fw filp cmd d =
     (case cmd of
        RTCORE_IOCTL_START_CPU a \<Rightarrow> rtcore_start_cpu ctr fw filp a d
      | RTCORE_IOCTL_SCHED_PROG a \<Rightarrow> rtcore_sched_prog ctr filp a d
      | Other_cmd \<Rightarrow> Inr (- ENOTTY, d))"

section \<open>Mapping the code window\<close>

definition rtcore_mmap :: "nat \<Rightarrow> bool \<Rightarrow> nat \<Rightarrow> u64 \<Rightarrow> u64 \<Rightarrow> rtmod \<Rightarrow> (int \<times> rtmod) res" where
  "rtcore_mmap ps remap_ok filp vm_start vm_end d =
     (let sz = vm_end - vm_start;
          PAGE_SIZE = push_bit ps 1;
          PAGE_MASK = NOT (PAGE_SIZE - 1)
      in if G_MEM_OFF d + sz > JRT_CODE_SIZE then Inr (- EINVAL, d)
         else
           (let phys_start_unaligned = JRT_CODE_PHYS + G_MEM_OFF d;
                foff = phys_start_unaligned AND (PAGE_SIZE - 1);
                pbase = phys_start_unaligned AND PAGE_MASK
            in if \<not> remap_ok then Inr (- EAGAIN, d)
               else
                 (case private_data d filp of None \<Rightarrow> Inl Null_deref
                  | Some ctx \<Rightarrow>
                      (let ctx = \<lparr>user_base = vm_start, user_len = sz, phys_base = pbase,
                                  first_off = foff, mapped = True\<rparr>
                       in Inr (0, d\<lparr>private_data := (private_data d)(filp := Some ctx),
                                    G_MEM_OFF := G_MEM_OFF d + sz\<rparr>)))))"

section \<open>Loading the module\<close>

text \<open>
  \<open>rtcore_init\<close> with the outcome of \<open>ioremap\<close> and of the two \<open>memremap\<close> calls (the address, or 0); the calls that
  register the device are taken to succeed, as the code does not look at their results.
\<close>

definition acquire :: "resource \<Rightarrow> rtmod \<Rightarrow> rtmod" where
  "acquire r d = d\<lparr>held := r # held d\<rparr>"

definition release :: "resource \<Rightarrow> rtmod \<Rightarrow> rtmod" where
  "release r d = d\<lparr>held := remove1 r (held d)\<rparr>"

definition rtcore_init :: "bool \<Rightarrow> u64 \<Rightarrow> bool \<Rightarrow> rtmod \<Rightarrow> int \<times> rtmod" where
  "rtcore_init gicd_ok code_virt ring_ok d =
     (let d = acquire Cdev (acquire Chrdev_region d) in
      if \<not> gicd_ok then (- ENOMEM, d)
      else
        (let d = acquire Device_rt (acquire Class_rt (acquire Gicd_map d));
             d = d\<lparr>jrt_mem_virt := code_virt\<rparr> in
         if jrt_mem_virt d = 0 then (- ENOMEM, d)
         else
           (let d = acquire Code_map d in
            if \<not> ring_ok then (- ENOMEM, d)
            else
              (let d = acquire Ring_map d in
               (0, d\<lparr>tojrt_ring := ipc_init (tojrt_ring d)\<rparr>)))))"

definition rtcore_exit :: "rtmod \<Rightarrow> rtmod" where
  "rtcore_exit d =
     release Chrdev_region (release Cdev (release Class_rt (release Device_rt (release Code_map d))))"

section \<open>Cache lines\<close>

lemma line_loop_cover:
  assumes "unat fin + unat line \<le> 2 ^ 64" "0 < unat line"
  shows "\<exists>ls. line_loop line fin addr acc = Some (acc @ ls) \<and>
    (\<forall>a. addr \<le> a \<and> a < fin \<longrightarrow> (\<exists>l \<in> set ls. l \<le> a \<and> unat a < unat l + unat line))"
  using assms
proof (induction "unat fin - unat addr" arbitrary: addr acc rule: less_induct)
  case less
  show ?case
  proof (cases "addr < fin")
    case False
    then show ?thesis by (subst line_loop.simps) auto
  next
    case True
    then have lt: "unat addr < unat fin" by (simp add: word_less_nat_alt)
    then have u: "unat (addr + line) = unat addr + unat line" using less.prems by (simp add: unat_word_ariths)
    obtain ls where ls: "line_loop line fin (addr + line) (acc @ [addr]) = Some ((acc @ [addr]) @ ls)"
      "\<forall>a. addr + line \<le> a \<and> a < fin \<longrightarrow> (\<exists>l \<in> set ls. l \<le> a \<and> unat a < unat l + unat line)"
    proof -
      have "unat fin - unat (addr + line) < unat fin - unat addr" unfolding u using lt less.prems(2) by simp
      from less.hyps [OF this less.prems, of "acc @ [addr]"] show thesis using that by blast
    qed
    have "\<exists>l \<in> set (addr # ls). l \<le> a \<and> unat a < unat l + unat line" if "addr \<le> a" "a < fin" for a
    proof (cases "addr + line \<le> a")
      case True
      then show ?thesis using ls(2) that(2) by auto
    next
      case False
      then show ?thesis using that(1) u by (auto simp: word_le_nat_alt not_le)
    qed
    moreover have "line_loop line fin addr acc = Some (acc @ addr # ls)"
      using True ls(1) by (subst line_loop.simps) simp
    ultimately show ?thesis by blast
  qed
qed

lemma cache_lines_ok:
  assumes "k < 16" "unat fin + 2 ^ 18 \<le> 2 ^ 64"
  shows "\<exists>ls. cache_lines k start fin = Inr ls \<and>
    (\<forall>a. start \<le> a \<and> a < fin \<longrightarrow> (\<exists>l \<in> set ls. l \<le> a \<and> unat a < unat l + 4 * 2 ^ k))"
proof -
  let ?line = "push_bit k 4 :: u64"
  have "(2 :: nat) ^ k \<le> 2 ^ 15" using assms(1) by (intro power_increasing) auto
  then have b: "4 * (2 :: nat) ^ k \<le> 2 ^ 18" by simp
  have "?line = of_nat (4 * 2 ^ k)" by (simp add: push_bit_eq_mult)
  then have u: "unat ?line = 4 * 2 ^ k" using b by (simp only: unat_of_nat) simp
  have "start AND NOT (?line - 1) \<le> start" by (rule word_and_le2)
  then show ?thesis
    using line_loop_cover [of fin ?line "start AND NOT (?line - 1)" "[]"] assms(2) b u
    by (fastforce simp: cache_lines_def Let_def)
qed

lemma icache_sync_ok:
  assumes "unat (jrt_mem_virt d + (phys - JRT_CODE_PHYS) + len) + 2 ^ 18 \<le> 2 ^ 64"
  shows "\<exists>dc ic. rtcore_icache_sync_phys_range ctr phys len d = Inr (d\<lparr>dc_lines := dc, ic_lines := ic\<rparr>)"
proof (cases "len = 0")
  case True
  have "d = d\<lparr>dc_lines := dc_lines d, ic_lines := ic_lines d\<rparr>" by simp
  then show ?thesis using True unfolding rtcore_icache_sync_phys_range_def by metis
next
  case False
  let ?s = "jrt_mem_virt d + (phys - JRT_CODE_PHYS)"
  have k: "unat (x AND 0xF) < 16" for x :: u64
    using word_and_le1 [of x "0xF"] by (simp add: word_le_nat_alt)
  obtain l1 l2 where "cache_lines (unat (drop_bit 16 ctr AND 0xF)) ?s (?s + len) = Inr l1"
    "cache_lines (unat (ctr AND 0xF)) ?s (?s + len) = Inr l2"
    using cache_lines_ok [OF k assms] by blast
  then show ?thesis
    using False by (auto simp: rtcore_icache_sync_phys_range_def clean_dcache_pou_range_def inval_icache_pou_range_def Let_def)
qed

section \<open>Windows\<close>

text \<open>
  The physical bytes a file may reach. The invariant: the windows of the open files lie in the
  code region below the cursor, start on a page, and are pairwise disjoint.
\<close>

definition window :: "rtcore_ctx \<Rightarrow> nat set" where
  "window c = {unat (phys_base c)..<unat (phys_base c) + unat (user_len c)}"

definition ctx_ok :: "u64 \<Rightarrow> rtcore_ctx \<Rightarrow> bool" where
  "ctx_ok off c \<longleftrightarrow> (mapped c \<longrightarrow>
     unat JRT_CODE_PHYS \<le> unat (phys_base c) \<and>
     unat (phys_base c) + unat (user_len c) \<le> unat JRT_CODE_PHYS + unat off \<and>
     first_off c = 0 \<and> unat (user_base c) + unat (user_len c) < 2 ^ 64)"

definition rt_inv :: "nat \<Rightarrow> rtmod \<Rightarrow> bool" where
  "rt_inv ps d \<longleftrightarrow> unat (G_MEM_OFF d) \<le> unat JRT_CODE_SIZE \<and> 2 ^ ps dvd unat (G_MEM_OFF d) \<and>
     (\<forall>f c. private_data d f = Some c \<longrightarrow> ctx_ok (G_MEM_OFF d) c) \<and>
     (\<forall>f f' c c'. f \<noteq> f' \<and> private_data d f = Some c \<and> private_data d f' = Some c' \<and> mapped c \<and> mapped c' \<longrightarrow>
        window c \<inter> window c' = {})"

text \<open>What Linux guarantees of the range it asks a driver to map: whole pages of user space.\<close>

definition vma_ok :: "nat \<Rightarrow> u64 \<Rightarrow> u64 \<Rightarrow> bool" where
  "vma_ok ps vm_start vm_end \<longleftrightarrow> vm_start \<le> vm_end \<and> unat vm_end < 2 ^ 56 \<and>
     2 ^ ps dvd unat vm_start \<and> 2 ^ ps dvd unat vm_end"

text \<open>The operations on a file other than \<open>mmap\<close>, and what the real-time core does to the ring.\<close>

inductive rstep :: "rtmod \<Rightarrow> rtmod \<Rightarrow> bool" where
  opened: "private_data d f = None \<Longrightarrow> rtcore_open ok f d = (r, d') \<Longrightarrow> rstep d d'"
| released: "rtcore_release f d = (r, d') \<Longrightarrow> rstep d d'"
| ioctl: "rtcore_ioctl ctr fw f cmd d = Inr (r, d') \<Longrightarrow> rstep d d'"
| consumed: "mpsc_pop (tojrt_ring d) = (x, ring) \<Longrightarrow> rstep d (d\<lparr>tojrt_ring := ring\<rparr>)"

lemma page_split:
  fixes x :: u64 assumes "2 ^ ps dvd unat x" "ps < 64"
  shows "x AND (push_bit ps 1 - 1) = 0" "x AND NOT (push_bit ps 1 - 1) = x"
proof -
  have m: "push_bit ps 1 - 1 = (mask ps :: u64)" by (simp add: mask_eq_exp_minus_1 push_bit_eq_mult)
  have "unat (take_bit ps x) = 0"
    unfolding unsigned_take_bit_eq take_bit_nat_def using assms(1) by (simp add: dvd_imp_mod_0)
  then have t: "x AND mask ps = 0" by (simp add: take_bit_eq_mask flip: unat_eq_0)
  then show "x AND (push_bit ps 1 - 1) = 0" unfolding m .
  have "x = (x AND mask ps) OR (x AND NOT (mask ps))"
    by (simp add: bit.conj_disj_distrib [symmetric])
  then show "x AND NOT (push_bit ps 1 - 1) = x" unfolding m t by simp
qed

lemma unat_JRT_CODE_PHYS: "unat JRT_CODE_PHYS = 0x50000000"
  by (simp add: JRT_CODE_PHYS_def)

lemma cursor_page:
  assumes "rt_inv ps d" "ps \<le> 28"
  shows "unat (JRT_CODE_PHYS + G_MEM_OFF d) = 0x50000000 + unat (G_MEM_OFF d)"
    "2 ^ ps dvd unat (JRT_CODE_PHYS + G_MEM_OFF d)"
proof -
  have off: "unat (G_MEM_OFF d) \<le> 0x1000000" "2 ^ ps dvd unat (G_MEM_OFF d)"
    using assms(1) by (auto simp: rt_inv_def JRT_CODE_SIZE_def)
  show p: "unat (JRT_CODE_PHYS + G_MEM_OFF d) = 0x50000000 + unat (G_MEM_OFF d)"
    using off(1) by (simp add: unat_word_ariths JRT_CODE_PHYS_def)
  have "(2 :: nat) ^ ps dvd 2 ^ 28" using assms(2) by (rule le_imp_power_dvd)
  moreover have "(0x50000000 :: nat) = 2 ^ 28 * 5" by simp
  ultimately have "(2 :: nat) ^ ps dvd 0x50000000" by (simp only: dvd_mult2)
  then show "2 ^ ps dvd unat (JRT_CODE_PHYS + G_MEM_OFF d)" unfolding p using off(2) by (simp only: dvd_add)
qed

lemma mmap_eval:
  assumes "rt_inv ps d" "ps \<le> 28"
  shows "rtcore_mmap ps ok f vs ve d =
    (if G_MEM_OFF d + (ve - vs) > JRT_CODE_SIZE then Inr (- EINVAL, d)
     else if \<not> ok then Inr (- EAGAIN, d)
     else if private_data d f = None then Inl Null_deref
     else Inr (0, d\<lparr>private_data := (private_data d)(f := Some \<lparr>user_base = vs, user_len = ve - vs,
              phys_base = JRT_CODE_PHYS + G_MEM_OFF d, first_off = 0, mapped = True\<rparr>),
            G_MEM_OFF := G_MEM_OFF d + (ve - vs)\<rparr>))"
  using page_split [OF cursor_page(2) [OF assms]] assms(2)
  by (auto simp: rtcore_mmap_def Let_def split: option.splits)

lemma mmap_inv:
  assumes inv: "rt_inv ps d" and vma: "vma_ok ps vs ve" and ps: "ps \<le> 28"
    and run: "rtcore_mmap ps ok f vs ve d = Inr (r, d')"
  shows "rt_inv ps d'"
proof (cases "d' = d")
  case True
  then show ?thesis using inv by simp
next
  case False
  let ?sz = "ve - vs" and ?p = "JRT_CODE_PHYS + G_MEM_OFF d"
  have sz: "unat ?sz = unat ve - unat vs" "unat ?sz < 2 ^ 56" "2 ^ ps dvd unat ?sz"
    using vma by (auto simp: vma_ok_def unat_sub dvd_diff_nat)
  have off: "unat (G_MEM_OFF d) \<le> 0x1000000" "2 ^ ps dvd unat (G_MEM_OFF d)"
    using inv by (auto simp: rt_inv_def JRT_CODE_SIZE_def)
  have o': "unat (G_MEM_OFF d + ?sz) = unat (G_MEM_OFF d) + unat ?sz" using sz(2) off(1) by (simp add: unat_word_ariths)
  note p = cursor_page(1) [OF inv ps] and j = unat_JRT_CODE_PHYS
  have c: "G_MEM_OFF d + ?sz \<le> JRT_CODE_SIZE"
    "d' = d\<lparr>private_data := (private_data d)(f := Some \<lparr>user_base = vs, user_len = ?sz, phys_base = ?p, first_off = 0, mapped = True\<rparr>),
            G_MEM_OFF := G_MEM_OFF d + ?sz\<rparr>"
    using run False unfolding mmap_eval [OF inv ps] by (auto simp: not_less split: if_splits)
  let ?c = "\<lparr>user_base = vs, user_len = ?sz, phys_base = ?p, first_off = 0, mapped = True\<rparr>"
  have le: "unat (G_MEM_OFF d) + unat ?sz \<le> unat JRT_CODE_SIZE" using c(1) o' by (simp add: word_le_nat_alt)
  have new: "ctx_ok (G_MEM_OFF d + ?sz) ?c"
    using vma sz(1) by (auto simp: ctx_ok_def o' p j vma_ok_def word_le_nat_alt)
  have old: "ctx_ok (G_MEM_OFF d + ?sz) x" if "private_data d g = Some x" for g x
    using inv that unfolding rt_inv_def ctx_ok_def o' by fastforce
  have apart: "window ?c \<inter> window x = {}" if "private_data d g = Some x" "mapped x" for g x
  proof -
    have "unat (phys_base x) + unat (user_len x) \<le> unat JRT_CODE_PHYS + unat (G_MEM_OFF d)"
      using inv that by (auto simp: rt_inv_def ctx_ok_def)
    then show ?thesis using p by (auto simp: window_def j)
  qed
  show ?thesis
    unfolding rt_inv_def
  proof (intro conjI allI impI)
    show "unat (G_MEM_OFF d') \<le> unat JRT_CODE_SIZE" using le o' c(2) by simp
    show "2 ^ ps dvd unat (G_MEM_OFF d')" using off(2) sz(3) o' c(2) by (simp add: dvd_add)
    show "ctx_ok (G_MEM_OFF d') x" if "private_data d' g = Some x" for g x
      using that new old c(2) by (auto split: if_splits)
    show "window x \<inter> window x' = {}"
      if "g \<noteq> g' \<and> private_data d' g = Some x \<and> private_data d' g' = Some x' \<and> mapped x \<and> mapped x'" for g g' x x'
    proof -
      have *: "window a \<inter> window b = {}" if "h \<noteq> h'" "private_data d h = Some a" "private_data d h' = Some b" "mapped a" "mapped b"
        for h h' a b using inv that unfolding rt_inv_def by blast
      from that show ?thesis using apart * c(2) by (auto split: if_splits) (metis disjoint_iff)+
    qed
  qed
qed

lemma ioctl_same:
  assumes "rtcore_ioctl ctr fw f cmd d = Inr (r, d')"
  shows "private_data d' = private_data d \<and> G_MEM_OFF d' = G_MEM_OFF d"
proof -
  have s: "private_data x = private_data d \<and> G_MEM_OFF x = G_MEM_OFF d"
    if "rtcore_icache_sync_phys_range ctr a b d = Inr x" for a b x
    using that by (auto simp: rtcore_icache_sync_phys_range_def clean_dcache_pou_range_def
        inval_icache_pou_range_def Let_def split: if_splits)
  show ?thesis
    using assms by (auto simp: rtcore_ioctl_def rtcore_start_cpu_def rtcore_sched_prog_def psci_cpu_on_def
        writel_relaxed_def Let_def dest!: s split: ioctl_cmd.splits option.splits sum.splits)
qed

lemma rt_inv_cong:
  "private_data d' = private_data d \<Longrightarrow> G_MEM_OFF d' = G_MEM_OFF d \<Longrightarrow> rt_inv ps d' = rt_inv ps d"
  by (simp only: rt_inv_def)

text \<open>These operations do not move the cursor, and keep the invariant whatever the cursor is.\<close>

lemma rstep_inv:
  "rstep d d' \<Longrightarrow> G_MEM_OFF d' = G_MEM_OFF d \<and> (rt_inv ps (d\<lparr>G_MEM_OFF := v\<rparr>) \<longrightarrow> rt_inv ps (d'\<lparr>G_MEM_OFF := v\<rparr>))"
proof (induction rule: rstep.induct)
  case (opened d f ok r d')
  then show ?case
    by (auto simp: rt_inv_def ctx_ok_def rtcore_open_def split: if_splits) (metis disjoint_iff)+
next
  case (released f d r d')
  then show ?case by (auto simp: rt_inv_def rtcore_release_def split: if_splits) (metis disjoint_iff)+
next
  case (ioctl ctr fw f cmd d r d')
  then show ?case using ioctl_same [OF ioctl(1)] rt_inv_cong [of "d'\<lparr>G_MEM_OFF := v\<rparr>" "d\<lparr>G_MEM_OFF := v\<rparr>"] by simp
next
  case (consumed d x ring)
  then show ?case using rt_inv_cong [of "d\<lparr>tojrt_ring := ring, G_MEM_OFF := v\<rparr>" "d\<lparr>G_MEM_OFF := v\<rparr>"] by simp
qed

lemma rstep_keeps: "rstep d d' \<Longrightarrow> rt_inv ps d \<Longrightarrow> rt_inv ps d'"
  using rstep_inv [of d d' ps "G_MEM_OFF d"] by (cases d, cases d') simp

section \<open>Calls of \<open>mmap\<close> at the same time\<close>

text \<open>
  \<open>rtcore_mmap\<close> holds no lock: it reads the cursor to check the size, reads it again to place the window,
  maps the pages, records the window in the file's context, and advances the cursor with a load and a store. A call in progress
  is one of these stages; \<open>c_calls\<close> has the calls of all threads. With \<open>ex\<close> a call begins only when no other is in progress.
\<close>

datatype mmap_pc = M_checked nat u64 u64 | M_placed nat u64 u64 u64 u64 | M_recorded u64 | M_advancing u64

record rtcon =
  c_mod :: rtmod
  c_calls :: "nat \<Rightarrow> mmap_pc option"

definition mmap_fits :: "u64 \<Rightarrow> rtmod \<Rightarrow> bool" where
  "mmap_fits sz d \<longleftrightarrow> \<not> G_MEM_OFF d + sz > JRT_CODE_SIZE"

definition mmap_place :: "nat \<Rightarrow> rtmod \<Rightarrow> u64 \<times> u64" where
  "mmap_place ps d =
     (let phys_start_unaligned = JRT_CODE_PHYS + G_MEM_OFF d
      in (phys_start_unaligned AND (push_bit ps 1 - 1), phys_start_unaligned AND NOT (push_bit ps 1 - 1)))"

definition mmap_record :: "nat \<Rightarrow> u64 \<Rightarrow> u64 \<Rightarrow> u64 \<Rightarrow> u64 \<Rightarrow> rtmod \<Rightarrow> rtmod" where
  "mmap_record f vs ve foff pbase d = d\<lparr>private_data := (private_data d)(f :=
     Some \<lparr>user_base = vs, user_len = ve - vs, phys_base = pbase, first_off = foff, mapped = True\<rparr>)\<rparr>"

text \<open>Uninterrupted, the stages are the function.\<close>

lemma mmap_stages:
  "rtcore_mmap ps ok f vs ve d =
     (if \<not> mmap_fits (ve - vs) d then Inr (- EINVAL, d)
      else if \<not> ok then Inr (- EAGAIN, d)
      else if private_data d f = None then Inl Null_deref
      else (case mmap_place ps d of (foff, pbase) \<Rightarrow>
              let d = mmap_record f vs ve foff pbase d; v = G_MEM_OFF d + (ve - vs) in Inr (0, d\<lparr>G_MEM_OFF := v\<rparr>)))"
  by (simp add: rtcore_mmap_def mmap_fits_def mmap_place_def mmap_record_def Let_def split: option.splits)

text \<open>The file a call is about; Linux keeps it open as long as the call runs.\<close>

definition call_file :: "mmap_pc \<Rightarrow> nat option" where
  "call_file pc = (case pc of M_checked f _ _ \<Rightarrow> Some f | M_placed f _ _ _ _ \<Rightarrow> Some f | _ \<Rightarrow> None)"

definition files_open :: "rtcon \<Rightarrow> bool" where
  "files_open s \<longleftrightarrow> (\<forall>t pc f. c_calls s t = Some pc \<and> call_file pc = Some f \<longrightarrow> private_data (c_mod s) f \<noteq> None)"

inductive cstep :: "bool \<Rightarrow> nat \<Rightarrow> rtcon \<Rightarrow> rtcon \<Rightarrow> bool" for ex ps where
  other: "rstep (c_mod s) d \<Longrightarrow> s' = s\<lparr>c_mod := d\<rparr> \<Longrightarrow> files_open s' \<Longrightarrow> cstep ex ps s s'"
| check: "c_calls s t = None \<Longrightarrow> (ex \<Longrightarrow> c_calls s = Map.empty) \<Longrightarrow> private_data (c_mod s) f \<noteq> None \<Longrightarrow>
    vma_ok ps vs ve \<Longrightarrow> mmap_fits (ve - vs) (c_mod s) \<Longrightarrow>
    cstep ex ps s (s\<lparr>c_calls := (c_calls s)(t \<mapsto> M_checked f vs ve)\<rparr>)"
| remap_fails: "c_calls s t = Some (M_checked f vs ve) \<Longrightarrow> cstep ex ps s (s\<lparr>c_calls := (c_calls s)(t := None)\<rparr>)"
| place: "c_calls s t = Some (M_checked f vs ve) \<Longrightarrow> mmap_place ps (c_mod s) = (foff, pbase) \<Longrightarrow>
    cstep ex ps s (s\<lparr>c_calls := (c_calls s)(t \<mapsto> M_placed f vs ve foff pbase)\<rparr>)"
| record_ctx: "c_calls s t = Some (M_placed f vs ve foff pbase) \<Longrightarrow>
    cstep ex ps s (s\<lparr>c_mod := mmap_record f vs ve foff pbase (c_mod s), c_calls := (c_calls s)(t \<mapsto> M_recorded (ve - vs))\<rparr>)"
| load: "c_calls s t = Some (M_recorded sz) \<Longrightarrow>
    cstep ex ps s (s\<lparr>c_calls := (c_calls s)(t \<mapsto> M_advancing (G_MEM_OFF (c_mod s) + sz))\<rparr>)"
| store: "c_calls s t = Some (M_advancing v) \<Longrightarrow>
    cstep ex ps s (s\<lparr>c_mod := (c_mod s)\<lparr>G_MEM_OFF := v\<rparr>, c_calls := (c_calls s)(t := None)\<rparr>)"

inductive creach :: "bool \<Rightarrow> nat \<Rightarrow> rtcon \<Rightarrow> rtcon \<Rightarrow> bool" for ex ps where
  start: "creach ex ps s s"
| step: "creach ex ps s0 s \<Longrightarrow> cstep ex ps s s' \<Longrightarrow> creach ex ps s0 s'"

text \<open>What holds at each stage of the only call in progress.\<close>

fun stage_inv :: "nat \<Rightarrow> rtmod \<Rightarrow> mmap_pc \<Rightarrow> bool" where
  "stage_inv ps d (M_checked f vs ve) \<longleftrightarrow> rt_inv ps d \<and> vma_ok ps vs ve \<and> mmap_fits (ve - vs) d"
| "stage_inv ps d (M_placed f vs ve foff pbase) \<longleftrightarrow>
     rt_inv ps d \<and> vma_ok ps vs ve \<and> mmap_fits (ve - vs) d \<and> mmap_place ps d = (foff, pbase)"
| "stage_inv ps d (M_recorded sz) \<longleftrightarrow> rt_inv ps (d\<lparr>G_MEM_OFF := G_MEM_OFF d + sz\<rparr>)"
| "stage_inv ps d (M_advancing v) \<longleftrightarrow> rt_inv ps (d\<lparr>G_MEM_OFF := v\<rparr>)"

definition con_inv :: "nat \<Rightarrow> rtcon \<Rightarrow> bool" where
  "con_inv ps s \<longleftrightarrow> files_open s \<and>
     (c_calls s = Map.empty \<and> rt_inv ps (c_mod s) \<or>
      (\<exists>t pc. c_calls s = [t \<mapsto> pc] \<and> stage_inv ps (c_mod s) pc))"

lemma stage_inv_other:
  assumes "rstep d d'" "stage_inv ps d pc"
  shows "stage_inv ps d' pc"
proof -
  have g: "G_MEM_OFF d' = G_MEM_OFF d" and i: "rt_inv ps (d\<lparr>G_MEM_OFF := v\<rparr>) \<Longrightarrow> rt_inv ps (d'\<lparr>G_MEM_OFF := v\<rparr>)" for v
    using rstep_inv [OF assms(1)] by blast+
  show ?thesis using assms(2) i g rstep_keeps [OF assms(1)] by (cases pc) (simp_all add: mmap_fits_def mmap_place_def)
qed

lemma record_inv:
  assumes "stage_inv ps d (M_placed f vs ve foff pbase)" "private_data d f \<noteq> None" "ps \<le> 28"
  shows "stage_inv ps (mmap_record f vs ve foff pbase d) (M_recorded (ve - vs))"
proof -
  have "rtcore_mmap ps True f vs ve d =
      Inr (0, (mmap_record f vs ve foff pbase d)\<lparr>G_MEM_OFF := G_MEM_OFF (mmap_record f vs ve foff pbase d) + (ve - vs)\<rparr>)"
    using assms(1,2) by (simp add: mmap_stages Let_def)
  from mmap_inv [OF _ _ assms(3) this] assms(1) show ?thesis by simp
qed

lemma con_inv_idle: "c_calls s = Map.empty \<Longrightarrow> con_inv ps s \<longleftrightarrow> files_open s \<and> rt_inv ps (c_mod s)"
  unfolding con_inv_def by (metis map_upd_nonempty)

lemma con_inv_call: "c_calls s = [t \<mapsto> pc] \<Longrightarrow> con_inv ps s \<longleftrightarrow> files_open s \<and> stage_inv ps (c_mod s) pc"
  unfolding con_inv_def by (metis map_upd_eqD1 map_upd_nonempty option.inject fun_upd_same fun_upd_other option.distinct(1))

lemma files_open_call:
  "c_calls s = [t \<mapsto> pc] \<Longrightarrow> files_open s \<longleftrightarrow> (\<forall>f. call_file pc = Some f \<longrightarrow> private_data (c_mod s) f \<noteq> None)"
  by (auto simp: files_open_def)

lemma con_inv_at:
  "con_inv ps s \<Longrightarrow> c_calls s t = Some pc \<Longrightarrow> c_calls s = [t \<mapsto> pc] \<and> stage_inv ps (c_mod s) pc \<and>
     (\<forall>f. call_file pc = Some f \<longrightarrow> private_data (c_mod s) f \<noteq> None)"
  by (auto simp: con_inv_def files_open_def split: if_splits)

lemma cstep_inv:
  assumes "cstep True ps s s'" "con_inv ps s" "ps \<le> 28"
  shows "con_inv ps s'"
  using assms
proof (induction rule: cstep.induct)
  case (other s d s')
  then show ?case using rstep_keeps [OF other(1)] stage_inv_other [OF other(1)] unfolding con_inv_def by fastforce
next
  case (check s t f vs ve)
  then have "c_calls s = Map.empty" by simp
  then show ?case using check by (simp add: con_inv_idle con_inv_call files_open_call call_file_def)
next
  case (remap_fails s t f vs ve)
  then show ?case using con_inv_at [OF remap_fails(2,1)] by (simp add: con_inv_idle files_open_def)
next
  case (place s t f vs ve foff pbase)
  then show ?case using con_inv_at [OF place(3,1)] by (simp add: con_inv_call files_open_call call_file_def)
next
  case (record_ctx s t f vs ve foff pbase)
  note c = con_inv_at [OF record_ctx(2,1)]
  then have "private_data (c_mod s) f \<noteq> None" by (simp add: call_file_def)
  with record_inv [of ps "c_mod s" f vs ve foff pbase] c record_ctx(3) show ?case
    by (simp add: con_inv_call files_open_call call_file_def)
next
  case (load s t sz)
  then show ?case using con_inv_at [OF load(2,1)] by (simp add: con_inv_call files_open_call call_file_def)
next
  case (store s t v)
  then show ?case using con_inv_at [OF store(2,1)] by (simp add: con_inv_idle files_open_def)
qed

lemma creach_inv: "creach True ps s0 s \<Longrightarrow> con_inv ps s0 \<Longrightarrow> ps \<le> 28 \<Longrightarrow> con_inv ps s"
  by (induction rule: creach.induct) (use cstep_inv in blast)+

text \<open>At every stage the windows recorded so far are apart.\<close>

lemma con_inv_windows:
  assumes "con_inv ps s"
  shows "\<exists>v. rt_inv ps ((c_mod s)\<lparr>G_MEM_OFF := v\<rparr>)"
proof -
  have id: "(c_mod s)\<lparr>G_MEM_OFF := G_MEM_OFF (c_mod s)\<rparr> = c_mod s" by simp
  show ?thesis
  proof (cases "c_calls s = Map.empty")
    case True
    then show ?thesis using assms id by (metis con_inv_def map_upd_nonempty)
  next
    case False
    then obtain t pc where "c_calls s = [t \<mapsto> pc]" "stage_inv ps (c_mod s) pc" using assms by (auto simp: con_inv_def)
    then show ?thesis using id by (cases pc) (metis stage_inv.simps)+
  qed
qed

lemma entry_in_window:
  assumes "ctx_ok off c" "unat off \<le> unat JRT_CODE_SIZE" "entry_of (Some c) e = Inr p"
  shows "unat p \<in> window c" "unat p + unat (rest_of (Some c) e) = unat (phys_base c) + unat (user_len c)"
    "p AND 3 = 0"
proof -
  have m: "mapped c" "user_base c \<le> e" "e < user_base c + user_len c" "p = phys_base c + (e - user_base c)" "p AND 3 = 0"
    using assms(3) by (auto simp: entry_of_def Let_def not_less not_le split: if_splits)
  have ok: "unat (phys_base c) + unat (user_len c) \<le> 0x51000000" "unat (user_base c) + unat (user_len c) < 2 ^ 64"
    using assms(1,2) m(1) by (auto simp: ctx_ok_def JRT_CODE_PHYS_def JRT_CODE_SIZE_def)
  have sum: "unat (user_base c + user_len c) = unat (user_base c) + unat (user_len c)"
    using ok(2) by (simp add: unat_word_ariths)
  have d: "unat (e - user_base c) = unat e - unat (user_base c)" using m(2) by (simp add: unat_sub)
  have lt: "unat e - unat (user_base c) < unat (user_len c)"
    using m(2,3) sum by (simp add: word_less_nat_alt word_le_nat_alt)
  have p: "unat p = unat (phys_base c) + (unat e - unat (user_base c))"
    using ok(1) lt d by (simp add: m(4) unat_word_ariths)
  have r: "unat (rest_of (Some c) e) = unat (user_len c) - (unat e - unat (user_base c))"
    using lt d by (simp add: rest_of_def unat_sub word_le_nat_alt)
  show "unat p \<in> window c" "unat p + unat (rest_of (Some c) e) = unat (phys_base c) + unat (user_len c)"
    using p r lt by (auto simp: window_def)
  show "p AND 3 = 0" by (rule m(5))
qed

section \<open>Properties\<close>

text \<open>
  C27: files share nothing as long as no two \<open>mmap\<close> calls are in progress at once, which the driver itself does not
  ensure. Whatever files are opened, mapped, used and closed, in any order and between any two accesses of a running
  \<open>mmap\<close>, the windows of two open files are disjoint and lie inside the code region, for page sizes up to 256 MiB.
\<close>

theorem rtcore_windows_disjoint:
  assumes "ps \<le> 28" "rt_inv ps d0" "creach True ps \<lparr>c_mod = d0, c_calls = Map.empty\<rparr> s"
    and "private_data (c_mod s) f = Some c" "private_data (c_mod s) f' = Some c'" "f \<noteq> f'" "mapped c" "mapped c'"
  shows "window c \<inter> window c' = {} \<and>
    window c \<subseteq> {unat JRT_CODE_PHYS..<unat JRT_CODE_PHYS + unat JRT_CODE_SIZE}"
proof -
  have "con_inv ps \<lparr>c_mod = d0, c_calls = Map.empty\<rparr>" using assms(2) by (simp add: con_inv_idle files_open_def)
  then obtain v where i: "rt_inv ps ((c_mod s)\<lparr>G_MEM_OFF := v\<rparr>)"
    using con_inv_windows creach_inv [OF assms(3)] assms(1) by blast
  have p: "private_data ((c_mod s)\<lparr>G_MEM_OFF := v\<rparr>) = private_data (c_mod s)" "G_MEM_OFF ((c_mod s)\<lparr>G_MEM_OFF := v\<rparr>) = v" by simp_all
  have "ctx_ok v c" "unat v \<le> unat JRT_CODE_SIZE" "window c \<inter> window c' = {}"
    using i [unfolded rt_inv_def p] assms(4-8) by blast+
  then show ?thesis using assms(7) by (auto simp: ctx_ok_def window_def)
qed

definition demo_driver :: rtmod where
  "demo_driver = \<lparr>private_data = (\<lambda>_. None), G_MEM_OFF = 0, tojrt_ring = demo_ring, jrt_mem_virt = 0xFFFF000000000000,
     gicd_writes = [], hvc_calls = [], dc_lines = [], ic_lines = [], held = []\<rparr>"

lemma demo_driver_inv: "rt_inv 12 demo_driver"
  by (simp add: rt_inv_def demo_driver_def)

text \<open>Two files are opened and map 16 KiB and 4 KiB.\<close>

definition demo_ctx1 :: rtcore_ctx where
  "demo_ctx1 = \<lparr>user_base = 0x400000, user_len = 0x4000, phys_base = 0x50000000, first_off = 0, mapped = True\<rparr>"

definition demo_ctx2 :: rtcore_ctx where
  "demo_ctx2 = \<lparr>user_base = 0x800000, user_len = 0x1000, phys_base = 0x50004000, first_off = 0, mapped = True\<rparr>"

definition demo_mapped :: rtmod where
  "demo_mapped = demo_driver\<lparr>private_data := [3 \<mapsto> demo_ctx1, 4 \<mapsto> demo_ctx2], G_MEM_OFF := 0x5000\<rparr>"

text \<open>The two files open, nothing mapped yet.\<close>

definition demo_open :: rtmod where
  "demo_open = demo_driver\<lparr>private_data :=
     [3 \<mapsto> \<lparr>user_base = 0, user_len = 0, phys_base = 0, first_off = 0, mapped = False\<rparr>,
      4 \<mapsto> \<lparr>user_base = 0, user_len = 0, phys_base = 0, first_off = 0, mapped = False\<rparr>]\<rparr>"

abbreviation no_calls :: "rtmod \<Rightarrow> rtcon" where
  "no_calls d \<equiv> \<lparr>c_mod = d, c_calls = Map.empty\<rparr>"

lemma creach_trans: "creach ex ps b c \<Longrightarrow> creach ex ps a b \<Longrightarrow> creach ex ps a c"
  by (induction rule: creach.induct) (auto intro: creach.step)

lemma demo_open_reach: "creach ex 12 (no_calls demo_driver) (no_calls demo_open)"
proof -
  let ?z = "\<lparr>user_base = 0, user_len = 0, phys_base = 0, first_off = 0, mapped = False\<rparr>"
  let ?d = "demo_driver\<lparr>private_data := [3 \<mapsto> ?z]\<rparr>"
  have "rstep demo_driver ?d"
    by (rule rstep.opened [of _ 3 True 0]) (simp_all add: rtcore_open_def demo_driver_def)
  then have "cstep ex 12 (no_calls demo_driver) (no_calls ?d)" by (intro cstep.other) (simp_all add: files_open_def)
  moreover have "rstep ?d demo_open"
    by (rule rstep.opened [of _ 4 True 0]) (simp_all add: rtcore_open_def demo_open_def demo_driver_def)
  then have "cstep ex 12 (no_calls ?d) (no_calls demo_open)" by (intro cstep.other) (simp_all add: files_open_def)
  ultimately show ?thesis by (meson creach.start creach.step)
qed

text \<open>A call that runs alone is a run of the stages.\<close>

lemma mmap_runs:
  assumes "rtcore_mmap ps True f vs ve d = Inr (0, d')" "vma_ok ps vs ve"
  shows "creach ex ps (no_calls d) (no_calls d')"
proof -
  obtain foff pbase where p: "mmap_place ps d = (foff, pbase)" by (metis surj_pair)
  let ?d = "mmap_record f vs ve foff pbase d"
  have r: "mmap_fits (ve - vs) d" "private_data d f \<noteq> None" "d' = ?d\<lparr>G_MEM_OFF := G_MEM_OFF ?d + (ve - vs)\<rparr>"
    using assms(1) p by (auto simp: mmap_stages Let_def EINVAL_def split: if_splits)
  have s1: "cstep ex ps (no_calls d) \<lparr>c_mod = d, c_calls = [0 \<mapsto> M_checked f vs ve]\<rparr>"
    using cstep.check [of "no_calls d" 0 ex f ps vs ve] r assms(2) by simp
  have s2: "cstep ex ps \<lparr>c_mod = d, c_calls = [0 \<mapsto> M_checked f vs ve]\<rparr> \<lparr>c_mod = d, c_calls = [0 \<mapsto> M_placed f vs ve foff pbase]\<rparr>"
    using cstep.place [of "\<lparr>c_mod = d, c_calls = [0 \<mapsto> M_checked f vs ve]\<rparr>" 0 f vs ve ps foff pbase ex] p by simp
  have s3: "cstep ex ps \<lparr>c_mod = d, c_calls = [0 \<mapsto> M_placed f vs ve foff pbase]\<rparr> \<lparr>c_mod = ?d, c_calls = [0 \<mapsto> M_recorded (ve - vs)]\<rparr>"
    using cstep.record_ctx [of "\<lparr>c_mod = d, c_calls = [0 \<mapsto> M_placed f vs ve foff pbase]\<rparr>" 0 f vs ve foff pbase ex ps] by simp
  have s4: "cstep ex ps \<lparr>c_mod = ?d, c_calls = [0 \<mapsto> M_recorded (ve - vs)]\<rparr>
      \<lparr>c_mod = ?d, c_calls = [0 \<mapsto> M_advancing (G_MEM_OFF ?d + (ve - vs))]\<rparr>"
    using cstep.load [of "\<lparr>c_mod = ?d, c_calls = [0 \<mapsto> M_recorded (ve - vs)]\<rparr>" 0 "ve - vs" ex ps] by simp
  have s5: "cstep ex ps \<lparr>c_mod = ?d, c_calls = [0 \<mapsto> M_advancing (G_MEM_OFF ?d + (ve - vs))]\<rparr> (no_calls d')"
    using cstep.store [of "\<lparr>c_mod = ?d, c_calls = [0 \<mapsto> M_advancing (G_MEM_OFF ?d + (ve - vs))]\<rparr>" 0 _ ex ps] r(3) by simp
  show ?thesis by (rule creach.step [OF creach.step [OF creach.step [OF creach.step [OF creach.step [OF creach.start s1] s2] s3] s4] s5])
qed

lemma demo_mapped_reach: "creach ex 12 (no_calls demo_driver) (no_calls demo_mapped)"
proof -
  let ?d = "demo_open\<lparr>private_data := (private_data demo_open)(3 \<mapsto> demo_ctx1), G_MEM_OFF := 0x4000\<rparr>"
  have e: "G_MEM_OFF demo_driver = 0" by (simp add: demo_driver_def)
  have "rtcore_mmap 12 True 3 0x400000 0x404000 demo_open = Inr (0, ?d)"
    "rtcore_mmap 12 True 4 0x800000 0x801000 ?d = Inr (0, demo_mapped)"
    by (simp_all add: rtcore_mmap_def JRT_CODE_SIZE_def JRT_CODE_PHYS_def demo_ctx1_def demo_ctx2_def demo_open_def
        demo_mapped_def e fun_upd_twist)
  then have "creach ex 12 (no_calls demo_open) (no_calls ?d)" "creach ex 12 (no_calls ?d) (no_calls demo_mapped)"
    by (auto intro!: mmap_runs simp: vma_ok_def)
  then show ?thesis using demo_open_reach creach_trans by blast
qed

theorem rtcore_windows_disjoint_witness:
  "window demo_ctx1 \<inter> window demo_ctx2 = {} \<and> window demo_ctx1 \<subseteq> {0x50000000..<0x51000000}"
proof -
  have "private_data (c_mod (no_calls demo_mapped)) 3 = Some demo_ctx1"
    "private_data (c_mod (no_calls demo_mapped)) 4 = Some demo_ctx2"
    by (simp_all add: demo_mapped_def)
  from rtcore_windows_disjoint [OF _ demo_driver_inv demo_mapped_reach this] show ?thesis
    by (simp add: demo_ctx1_def demo_ctx2_def JRT_CODE_PHYS_def JRT_CODE_SIZE_def)
qed

text \<open>
  With two calls at once the promise fails: both read the cursor before either advances it, and two
  files end up with the same window.
\<close>

theorem rtcore_mmap_race:
  "\<exists>s c c'. creach False 12 (no_calls demo_driver) s \<and> c_calls s = Map.empty \<and>
     private_data (c_mod s) 3 = Some c \<and> private_data (c_mod s) 4 = Some c' \<and> mapped c \<and> mapped c' \<and>
     window c = window c' \<and> window c \<noteq> {}"
proof -
  let ?r = "\<lambda>f vs. mmap_record f vs (vs + 0x1000) 0 0x50000000"
  let ?A = "M_checked 3 0x400000 0x401000" and ?B = "M_checked 4 0x800000 0x801000"
  let ?A' = "M_placed 3 0x400000 0x401000 0 0x50000000" and ?B' = "M_placed 4 0x800000 0x801000 0 0x50000000"
  let ?d1 = "?r 3 0x400000 demo_open" let ?d2 = "?r 4 0x800000 ?d1"
  let ?s = "\<lambda>d a b. \<lparr>c_mod = d, c_calls = Map.empty(0 := a, 1 := b)\<rparr>"
  have o: "private_data demo_open 3 \<noteq> None" "private_data demo_open 4 \<noteq> None" "G_MEM_OFF demo_open = 0"
    by (simp_all add: demo_open_def demo_driver_def)
  have fits: "mmap_fits 0x1000 demo_open" "mmap_place 12 demo_open = (0, 0x50000000)"
    using o(3) by (simp_all add: mmap_fits_def mmap_place_def JRT_CODE_SIZE_def JRT_CODE_PHYS_def Let_def)
  have v: "vma_ok 12 0x400000 0x401000" "vma_ok 12 0x800000 0x801000" by (simp_all add: vma_ok_def)
  have g: "G_MEM_OFF ?d2 = 0" using o(3) by (simp add: mmap_record_def)
  have s: "cstep False 12 (?s demo_open None None) (?s demo_open (Some ?A) None)"
    "cstep False 12 (?s demo_open (Some ?A) None) (?s demo_open (Some ?A) (Some ?B))"
    "cstep False 12 (?s demo_open (Some ?A) (Some ?B)) (?s demo_open (Some ?A') (Some ?B))"
    "cstep False 12 (?s demo_open (Some ?A') (Some ?B)) (?s demo_open (Some ?A') (Some ?B'))"
    "cstep False 12 (?s demo_open (Some ?A') (Some ?B')) (?s ?d1 (Some (M_recorded 0x1000)) (Some ?B'))"
    "cstep False 12 (?s ?d1 (Some (M_recorded 0x1000)) (Some ?B')) (?s ?d2 (Some (M_recorded 0x1000)) (Some (M_recorded 0x1000)))"
    "cstep False 12 (?s ?d2 (Some (M_recorded 0x1000)) (Some (M_recorded 0x1000))) (?s ?d2 (Some (M_advancing 0x1000)) (Some (M_recorded 0x1000)))"
    "cstep False 12 (?s ?d2 (Some (M_advancing 0x1000)) (Some (M_recorded 0x1000))) (?s ?d2 (Some (M_advancing 0x1000)) (Some (M_advancing 0x1000)))"
    "cstep False 12 (?s ?d2 (Some (M_advancing 0x1000)) (Some (M_advancing 0x1000))) (?s (?d2\<lparr>G_MEM_OFF := 0x1000\<rparr>) None (Some (M_advancing 0x1000)))"
    "cstep False 12 (?s (?d2\<lparr>G_MEM_OFF := 0x1000\<rparr>) None (Some (M_advancing 0x1000))) (?s (?d2\<lparr>G_MEM_OFF := 0x1000\<rparr>) None None)"
    using cstep.check [of "?s demo_open None None" 0 False 3 12 "0x400000" "0x401000"]
      cstep.check [of "?s demo_open (Some ?A) None" 1 False 4 12 "0x800000" "0x801000"]
      cstep.place [of "?s demo_open (Some ?A) (Some ?B)" 0 3 "0x400000" "0x401000" 12 0 "0x50000000" False]
      cstep.place [of "?s demo_open (Some ?A') (Some ?B)" 1 4 "0x800000" "0x801000" 12 0 "0x50000000" False]
      cstep.record_ctx [of "?s demo_open (Some ?A') (Some ?B')" 0 3 "0x400000" "0x401000" 0 "0x50000000" False 12]
      cstep.record_ctx [of "?s ?d1 (Some (M_recorded 0x1000)) (Some ?B')" 1 4 "0x800000" "0x801000" 0 "0x50000000" False 12]
      cstep.load [of "?s ?d2 (Some (M_recorded 0x1000)) (Some (M_recorded 0x1000))" 0 "0x1000" False 12]
      cstep.load [of "?s ?d2 (Some (M_advancing 0x1000)) (Some (M_recorded 0x1000))" 1 "0x1000" False 12]
      cstep.store [of "?s ?d2 (Some (M_advancing 0x1000)) (Some (M_advancing 0x1000))" 0 "0x1000" False 12]
      cstep.store [of "?s (?d2\<lparr>G_MEM_OFF := 0x1000\<rparr>) None (Some (M_advancing 0x1000))" 1 "0x1000" False 12]
      o fits v g by (simp_all add: fun_upd_twist)
  have "creach False 12 (?s demo_open None None) (?s (?d2\<lparr>G_MEM_OFF := 0x1000\<rparr>) None None)"
    by (rule creach.step [OF creach.step [OF creach.step [OF creach.step [OF creach.step [OF creach.step [OF creach.step
          [OF creach.step [OF creach.step [OF creach.step [OF creach.start s(1)] s(2)] s(3)] s(4)] s(5)] s(6)] s(7)] s(8)] s(9)] s(10)])
  moreover have "?s d None None = no_calls d" for d by simp
  ultimately have "creach False 12 (no_calls demo_driver) (no_calls (?d2\<lparr>G_MEM_OFF := 0x1000\<rparr>))"
    using demo_open_reach creach_trans by simp
  moreover obtain c c' where "private_data ?d2 3 = Some c" "private_data ?d2 4 = Some c'" "mapped c" "mapped c'"
    "window c = window c'" "window c \<noteq> {}"
    by (simp add: mmap_record_def window_def)
  ultimately show ?thesis by (intro exI [of _ "no_calls (?d2\<lparr>G_MEM_OFF := 0x1000\<rparr>)"] exI [of _ c] exI [of _ c']) simp
qed

lemma sched_prog_ok:
  assumes inv: "rt_inv ps d" and c: "private_data d f = Some c"
    and q: "ring_rep (tojrt_ring d) q" "length q < 4096"
    and virt: "unat (jrt_mem_virt d) + unat JRT_CODE_SIZE + 2 ^ 18 \<le> 2 ^ 64"
    and p: "entry_of (Some c) e = Inr p"
  shows "\<exists>d'. rtcore_sched_prog ctr f (Some \<lparr>pa_entry_user = e, pa_mem_req = mr\<rparr>) d = Inr (0, d') \<and>
    ring_rep (tojrt_ring d') (q @ [\<lparr>rq_pc = p, rq_prog_size = rest_of (Some c) e, rq_mem_req = mr\<rparr>]) \<and>
    gicd_writes d' = gicd_writes d @ [(0x208, 0x100)]"
proof -
  have off: "ctx_ok (G_MEM_OFF d) c" "unat (G_MEM_OFF d) \<le> unat JRT_CODE_SIZE"
    using inv c unfolding rt_inv_def by blast+
  note w = entry_in_window [OF off p]
  have m: "mapped c" using p by (auto simp: entry_of_def split: if_splits)
  have b: "0x50000000 \<le> unat p" "unat p + unat (rest_of (Some c) e) \<le> 0x51000000"
    using w(1,2) off m by (auto simp: window_def ctx_ok_def JRT_CODE_PHYS_def JRT_CODE_SIZE_def)
  have "unat (p - JRT_CODE_PHYS) = unat p - 0x50000000"
    using b(1) by (simp add: unat_sub word_le_nat_alt JRT_CODE_PHYS_def)
  then have "unat (jrt_mem_virt d + (p - JRT_CODE_PHYS) + rest_of (Some c) e) + 2 ^ 18 \<le> 2 ^ 64"
    using b virt by (simp add: unat_word_ariths JRT_CODE_SIZE_def)
  then obtain dc ic where s: "rtcore_icache_sync_phys_range ctr p (rest_of (Some c) e) d = Inr (d\<lparr>dc_lines := dc, ic_lines := ic\<rparr>)"
    using icache_sync_ok by blast
  obtain r where r: "mpsc_push \<lparr>rq_pc = p, rq_prog_size = rest_of (Some c) e, rq_mem_req = mr\<rparr> False (tojrt_ring d) = Inr (0, r)"
    "ring_rep r (q @ [\<lparr>rq_pc = p, rq_prog_size = rest_of (Some c) e, rq_mem_req = mr\<rparr>])"
    using mpsc_push_room [OF q] by blast
  show ?thesis
    using c p s r by (auto simp: rtcore_sched_prog_def writel_relaxed_def Let_def GICD_ISPENDR_def reg_index32_def
        bit_index32_def SCHED_SPI_def)
qed

text \<open>
  C28: a program is handed over as it was mapped. For a file with a mapping and a ring with room,
  the \<open>ioctl\<close> either fails one of the checks, returns that error and changes nothing, or
  it queues one request and raises the scheduling interrupt (bit 8 of the pending register
  2, interrupt 72). The request starts in the file's own window, 4-byte aligned, and its size reaches exactly
  to the end of that window.
\<close>

theorem rtcore_sched_prog_correct:
  assumes "rt_inv ps d" "private_data d f = Some c" "ring_rep (tojrt_ring d) q" "length q < 4096"
    and "unat (jrt_mem_virt d) + unat JRT_CODE_SIZE + 2 ^ 18 \<le> 2 ^ 64"
  shows "case entry_of (Some c) e of
      Inl err \<Rightarrow> rtcore_sched_prog ctr f (Some \<lparr>pa_entry_user = e, pa_mem_req = mr\<rparr>) d = Inr (err, d)
    | Inr p \<Rightarrow> \<exists>d' n. rtcore_sched_prog ctr f (Some \<lparr>pa_entry_user = e, pa_mem_req = mr\<rparr>) d = Inr (0, d') \<and>
        ring_rep (tojrt_ring d') (q @ [\<lparr>rq_pc = p, rq_prog_size = n, rq_mem_req = mr\<rparr>]) \<and>
        gicd_writes d' = gicd_writes d @ [(0x208, 0x100)] \<and> unat p \<in> window c \<and> p AND 3 = 0 \<and>
        unat p + unat n = unat (phys_base c) + unat (user_len c)"
proof (cases "entry_of (Some c) e")
  case (Inl err)
  then show ?thesis using assms(2) by (simp add: rtcore_sched_prog_def)
next
  case (Inr p)
  have "ctx_ok (G_MEM_OFF d) c" "unat (G_MEM_OFF d) \<le> unat JRT_CODE_SIZE"
    using assms(1,2) unfolding rt_inv_def by blast+
  from entry_in_window [OF this Inr] show ?thesis
    using sched_prog_ok [OF assms Inr, of ctr mr] Inr by auto
qed

lemma demo_mapped_inv: "rt_inv 12 demo_mapped"
  using creach_inv [OF demo_mapped_reach [of True]] demo_driver_inv by (simp add: con_inv_idle files_open_def)

lemma demo_ring_empty: "ring_rep (tojrt_ring demo_mapped) []"
  using ring_rep_init by (simp add: demo_mapped_def demo_driver_def demo_ring_def)

theorem rtcore_sched_prog_correct_witness:
  "\<exists>d'. rtcore_sched_prog 0x84448004 4 (Some \<lparr>pa_entry_user = 0x800010, pa_mem_req = 0x10000\<rparr>) demo_mapped = Inr (0, d') \<and>
     ring_rep (tojrt_ring d') [\<lparr>rq_pc = 0x50004010, rq_prog_size = 0xFF0, rq_mem_req = 0x10000\<rparr>]"
proof -
  have c: "private_data demo_mapped 4 = Some demo_ctx2" by (simp add: demo_mapped_def)
  have v: "unat (jrt_mem_virt demo_mapped) + unat JRT_CODE_SIZE + 2 ^ 18 \<le> 2 ^ 64"
    by (simp add: demo_mapped_def demo_driver_def JRT_CODE_SIZE_def)
  have e: "entry_of (Some demo_ctx2) 0x800010 = Inr 0x50004010"
    by (simp add: entry_of_def demo_ctx2_def JRT_CODE_PHYS_def JRT_CODE_SIZE_def)
  obtain d' n where d: "rtcore_sched_prog 0x84448004 4 (Some \<lparr>pa_entry_user = 0x800010, pa_mem_req = 0x10000\<rparr>) demo_mapped = Inr (0, d')"
    "ring_rep (tojrt_ring d') ([] @ [\<lparr>rq_pc = 0x50004010, rq_prog_size = n, rq_mem_req = 0x10000\<rparr>])"
    "0x50004010 + unat n = unat (phys_base demo_ctx2) + unat (user_len demo_ctx2)"
    using rtcore_sched_prog_correct [OF demo_mapped_inv c demo_ring_empty _ v, of "0x84448004" "0x800010" "0x10000"]
    unfolding e by auto
  have "unat n = 0xFF0" using d(3) by (simp add: demo_ctx2_def)
  then have "n = 0xFF0" by (simp add: word_unat_eq_iff)
  then show ?thesis using d(1,2) by auto
qed

section \<open>Loading and unloading\<close>

text \<open>
  Loading the module empties the ring and unloading gives back the device and the code window, but the mappings of the
  interrupt controller and of the ring stay; and a load that fails gives back nothing of what it took.
\<close>

theorem rtcore_lifecycle:
  assumes "held d = []" "code_virt \<noteq> 0"
  shows "fst (rtcore_init True code_virt True d) = 0 \<and>
    tojrt_ring (snd (rtcore_init True code_virt True d)) = ipc_init (tojrt_ring d) \<and>
    held (rtcore_exit (snd (rtcore_init True code_virt True d))) = [Ring_map, Gicd_map] \<and>
    rtcore_init False code_virt ring_ok d = (- ENOMEM, d\<lparr>held := [Cdev, Chrdev_region]\<rparr>) \<and>
    rtcore_init True 0 ring_ok d =
      (- ENOMEM, d\<lparr>jrt_mem_virt := 0, held := [Device_rt, Class_rt, Gicd_map, Cdev, Chrdev_region]\<rparr>) \<and>
    rtcore_init True code_virt False d =
      (- ENOMEM, d\<lparr>jrt_mem_virt := code_virt, held := [Code_map, Device_rt, Class_rt, Gicd_map, Cdev, Chrdev_region]\<rparr>)"
  using assms by (simp add: rtcore_init_def rtcore_exit_def acquire_def release_def Let_def)

end
