(* ===== verification/Irq.thy ===== *)
theory Irq
  imports Sync Gic Rtcore Kernel_Admit
begin

text \<open>
  Interrupts and start-up: \<^verbatim>\<open>rtprog/irq.c\<close>, the masking functions of \<^verbatim>\<open>rtprog/cpu.h\<close> and the
  initialisation functions of \<^verbatim>\<open>rtprog/rtprog.c\<close>. The state is the whole machine: the kernel with
  its console and error state, the interrupt controller, the handler tables, the MMU's
  registers and the interrupt mask of the core. Function pointers are the two handlers the
  kernel registers, or \<open>None\<close> for \<open>NULL\<close>. \<open>adr\<close> gives the addresses the linker chose, which are only printed.
  The last section runs the machine on a sequence of interrupts, exceptions and steps of the running program and of Linux, and compares it
  with the kernel's handlers run in the order the inputs call for.
\<close>

section \<open>State\<close>

datatype irq_fn = Timer_fn | Ipc_sched

record machine =
  m_sys :: sys
  m_gic :: gic
  m_mmu :: mmu_regs
  m_daif :: u64
  spi_table :: "irq_fn option list"
  ppi_table :: "irq_fn option list"

definition on_console :: "(uart \<Rightarrow> uart res) \<Rightarrow> machine \<Rightarrow> machine res" where
  "on_console f m = bindE (on_uart f (m_sys m)) (\<lambda>s. Inr (m\<lparr>m_sys := s\<rparr>))"

definition on_kernel :: "(kernel \<Rightarrow> kernel res) \<Rightarrow> machine \<Rightarrow> machine res" where
  "on_kernel f m = bindE (f (y_kern (m_sys m))) (\<lambda>k. Inr (m\<lparr>m_sys := (m_sys m)\<lparr>y_kern := k\<rparr>\<rparr>))"

section \<open>Masking\<close>

definition daifset :: "u64 \<Rightarrow> machine \<Rightarrow> machine" where
  "daifset imm m = m\<lparr>m_daif := m_daif m OR imm\<rparr>"

definition daifclr :: "u64 \<Rightarrow> machine \<Rightarrow> machine" where
  "daifclr imm m = m\<lparr>m_daif := m_daif m AND NOT imm\<rparr>"

definition irq_disable :: "machine \<Rightarrow> machine" where "irq_disable = daifset 2"
definition fiq_disable :: "machine \<Rightarrow> machine" where "fiq_disable = daifset 1"
definition fiq_enable :: "machine \<Rightarrow> machine" where "fiq_enable = daifclr 1"
definition aborts_disable :: "machine \<Rightarrow> machine" where "aborts_disable = daifset 4"
definition aborts_enable :: "machine \<Rightarrow> machine" where "aborts_enable = daifclr 4"
definition debug_disable :: "machine \<Rightarrow> machine" where "debug_disable = daifset 8"
definition debug_enable :: "machine \<Rightarrow> machine" where "debug_enable = daifclr 8"

section \<open>Handler tables\<close>




definition irq_default_handler :: "u32 \<Rightarrow> machine \<Rightarrow> machine res" where
  "irq_default_handler intid m = on_console (uart_puts ''default irq\<newline>'') m"


definition irq_call :: "u64 \<Rightarrow> irq_fn \<Rightarrow> machine \<Rightarrow> machine res" where
  "irq_call dl0 f = on_kernel (case f of Timer_fn \<Rightarrow> timer_fn dl0 | Ipc_sched \<Rightarrow> ipc_sched dl0)"

definition tbl_get :: "'a list \<Rightarrow> nat \<Rightarrow> 'a res" where
  "tbl_get t i = (if i < length t then Inr (t ! i) else Inl Out_of_bounds)"

definition irq_dispatch :: "u64 \<Rightarrow> u32 \<Rightarrow> machine \<Rightarrow> machine res" where
  "irq_dispatch dl0 intid m =
     (if intid > 1020 then irq_default_handler intid m
      else bindE (if intid < 32 then tbl_get (ppi_table m) (unat intid)
                  else tbl_get (spi_table m) (unat (intid - 32))) (\<lambda>f.
             case f of None \<Rightarrow> Inr m | Some f \<Rightarrow> irq_call dl0 f m))"

section \<open>Start-up\<close>

definition EL1_PHYS_TIMER_PPI :: u32 where "EL1_PHYS_TIMER_PPI = 30"








section \<open>The handler tables\<close>




lemma prints_puthex [intro]: "\<exists>t. prints (uart_puthex v) t"
  using prints_puts_ex [of "fill_digits (\<lambda>d. tohex (unat d)) 16 16 v []"] prints_putc [of "CHR ''0''"]
  by (cases "v = 0") (auto simp: uart_puthex_def prints_def)








section \<open>Properties\<close>

definition handlers :: "machine \<Rightarrow> bool" where
  "handlers m \<longleftrightarrow> ppi_table m = (replicate 32 None)[30 := Some Timer_fn] \<and>
     spi_table m = (replicate 988 None)[40 := Some Ipc_sched]"


lemma gic_frame [simp]:
  "frames typer n (sys_enable_icc_el1 g) = frames typer n g" "wakes b (sys_enable_icc_el1 g) = wakes b g"
  "frames typer n (gic_enable_dist g) = frames typer n g" "wakes b (gic_enable_dist g) = wakes b g"
  "frames typer n (gic_enable_spi i g) = frames typer n g" "wakes b (gic_enable_spi i g) = wakes b g"
  "g_mpidr (sys_enable_icc_el1 g) = g_mpidr g" "g_mpidr (gic_enable_dist g) = g_mpidr g"
  "g_mpidr (gic_enable_spi i g) = g_mpidr g"
  by (simp_all add: frames_def wakes_def sys_enable_icc_el1_def gic_enable_dist_def gic_enable_spi_def
      route_spi_to_this_cpu_def gic_simps Let_def)






definition demo_machine :: machine where
  "demo_machine = \<lparr>m_sys = demo_sys, m_gic = demo_gic,
     m_mmu = \<lparr>mair_el1 = 0, tcr_el1 = 0, ttbr0_el1 = 0, sctlr_el1 = 0, G_MAIR = 0, G_TCR = 0\<rparr>,
     m_daif = 0xF, spi_table = replicate 988 None, ppi_table = replicate 32 None\<rparr>"





lemma irq_dispatch_cases:
  assumes "handlers m"
  shows "irq_dispatch dl0 intid m =
    (if intid = EL1_PHYS_TIMER_PPI then on_kernel (timer_fn dl0) m
     else if intid = SCHED_SPI then on_kernel (ipc_sched dl0) m
     else if intid = 1020 then Inl Out_of_bounds
     else if intid > 1020 then on_console (uart_puts ''default irq\<newline>'') m
     else Inr m)"
proof -
  have t: "ppi_table m = (replicate 32 None)[30 := Some Timer_fn]"
    "spi_table m = (replicate 988 None)[40 := Some Ipc_sched]"
    using assms by (simp_all add: handlers_def)
  have i: "intid = of_nat (unat intid)" by simp
  have sub: "unat (intid - 32) = unat intid - 32" if "\<not> intid < 32"
    using that by (simp add: unat_sub not_less)
  have eq: "intid = 30 \<longleftrightarrow> unat intid = 30" "intid = 72 \<longleftrightarrow> unat intid = 72" "intid = 1020 \<longleftrightarrow> unat intid = 1020"
    by (simp_all add: word_unat_eq_iff)
  show ?thesis
    using sub unfolding irq_dispatch_def EL1_PHYS_TIMER_PPI_def SCHED_SPI_def eq
    by (auto simp: t tbl_get_def irq_call_def irq_default_handler_def nth_list_update word_less_nat_alt word_le_nat_alt)
qed

text \<open>
  C17: what an interrupt does once start-up has installed the handlers. The timer's interrupt
  runs \<open>timer_fn\<close>, the mailbox's runs \<open>ipc_sched\<close>, every other one up to 1019 does nothing and
  one above 1020 prints a line. Interrupt 1020 passes the guard of \<open>irq_dispatch\<close> and reads one
  entry past the end of the handler table.
\<close>

theorem irq_dispatch_correct:
  assumes "handlers m"
  shows "irq_dispatch dl0 intid m =
    (if intid = EL1_PHYS_TIMER_PPI then on_kernel (timer_fn dl0) m
     else if intid = SCHED_SPI then on_kernel (ipc_sched dl0) m
     else if intid = 1020 then Inl Out_of_bounds
     else if intid > 1020 then on_console (uart_puts ''default irq\<newline>'') m
     else Inr m)"
  using assms by (rule irq_dispatch_cases)

definition demo_running :: machine where
  "demo_running = demo_machine\<lparr>ppi_table := (replicate 32 None)[30 := Some Timer_fn],
     spi_table := (replicate 988 None)[40 := Some Ipc_sched]\<rparr>"

lemma demo_handlers: "handlers demo_running"
  by (simp add: handlers_def demo_running_def)

theorem irq_dispatch_correct_witness:
  "irq_dispatch 0 1020 demo_running = Inl Out_of_bounds"
  using irq_dispatch_correct [OF demo_handlers, of 0 1020] by (simp add: EL1_PHYS_TIMER_PPI_def SCHED_SPI_def)

section \<open>The machine and the kernel's handlers\<close>
















end
