(* ===== verification/Layout.thy ===== *)
theory Layout
  imports Janus_Prelude
begin

text \<open>
  The layout of the structures that the C code and the assembly share: \<^verbatim>\<open>rtprog/mmu_structs.h\<close>,
  \<^verbatim>\<open>rtprog/heap_structs.h\<close>, \<^verbatim>\<open>rtprog/sched_structs.h\<close>, and \<^verbatim>\<open>rtprog/structs.h\<close>, which the
  build runs on the host to print the offsets that the assembly files include. The layout rule is that of
  the 64-bit ARM procedure call standard: a member is placed at the next multiple of its alignment, a
  structure has the largest alignment of its members and is padded to a multiple of it.
\<close>

section \<open>The layout rule\<close>

datatype cty = Prim nat | Arr nat cty | Struct "(string \<times> cty) list"

type_synonym fields = "(string \<times> cty) list"

definition align_to :: "nat \<Rightarrow> nat \<Rightarrow> nat" where
  "align_to off a = (off + (a - 1)) div a * a"

fun calign :: "cty \<Rightarrow> nat" and falign :: "fields \<Rightarrow> nat" where
  "calign (Prim n) = n"
| "calign (Arr k t) = calign t"
| "calign (Struct fs) = falign fs"
| "falign [] = 1"
| "falign ((f, t) # fs) = max (calign t) (falign fs)"

fun csize :: "cty \<Rightarrow> nat" and fend :: "nat \<Rightarrow> fields \<Rightarrow> nat" where
  "csize (Prim n) = n"
| "csize (Arr k t) = k * csize t"
| "csize (Struct fs) = align_to (fend 0 fs) (falign fs)"
| "fend off [] = off"
| "fend off ((f, t) # fs) = fend (align_to off (calign t) + csize t) fs"

text \<open>\<open>OFFSETOF\<close>: \<open>None\<close> when there is no such member.\<close>

fun foffset :: "nat \<Rightarrow> fields \<Rightarrow> string \<Rightarrow> nat option" where
  "foffset off [] g = None"
| "foffset off ((f, t) # fs) g =
     (if f = g then Some (align_to off (calign t)) else foffset (align_to off (calign t) + csize t) fs g)"

fun OFFSETOF :: "cty \<Rightarrow> string \<Rightarrow> nat option" where
  "OFFSETOF (Struct fs) g = foffset 0 fs g"
| "OFFSETOF _ g = None"

text \<open>The scalars an object of a type consists of, with their offsets from \<open>off\<close> on.\<close>

fun leaves :: "nat \<Rightarrow> cty \<Rightarrow> (nat \<times> nat) list" and fleaves :: "nat \<Rightarrow> nat \<Rightarrow> fields \<Rightarrow> (nat \<times> nat) list" where
  "leaves b (Prim n) = [(b, n)]"
| "leaves b (Arr k t) = concat (map (\<lambda>i. leaves (b + i * csize t) t) [0..<k])"
| "leaves b (Struct fs) = fleaves b 0 fs"
| "fleaves b off [] = []"
| "fleaves b off ((f, t) # fs) =
     leaves (b + align_to off (calign t)) t @ fleaves b (align_to off (calign t) + csize t) fs"

section \<open>The structures\<close>

definition c_u16 :: cty where "c_u16 = Prim 2"
definition c_u32 :: cty where "c_u32 = Prim 4"
definition c_u64 :: cty where "c_u64 = Prim 8"
definition c_u128 :: cty where "c_u128 = Prim 16"
definition c_int :: cty where "c_int = Prim 4"
definition c_ptr :: cty where "c_ptr = Prim 8"
definition c_size_t :: cty where "c_size_t = Prim 8"

definition c_pt_root_t :: cty where
  "c_pt_root_t = Struct [(''l0'', c_ptr), (''l0_pa'', c_u64)]"

definition c_mmu_map_t :: cty where
  "c_mmu_map_t = Struct [(''root'', c_pt_root_t), (''asid'', c_u16)]"

definition c_heap_node_t :: cty where
  "c_heap_node_t = Struct [(''key'', c_u64), (''val'', c_ptr), (''idx'', c_size_t)]"

definition c_minheap_t :: cty where
  "c_minheap_t = Struct [(''a'', c_ptr), (''len'', c_size_t), (''cap'', c_size_t)]"

definition c_ctx_t :: cty where
  "c_ctx_t = Struct [(''x'', Arr 31 c_u64), (''sp'', c_u64), (''pc'', c_u64), (''pstate'', c_u64),
     (''vregs'', Arr 32 c_u128), (''fpsr'', c_u32), (''fpcr'', c_u32), (''mmap'', c_mmu_map_t)]"

definition c_proc_t :: cty where
  "c_proc_t = Struct [(''ctx'', c_ctx_t), (''pid'', c_u32), (''state'', c_int), (''first'', c_int),
     (''pa_pc'', c_u64), (''wait_until'', c_u64), (''abs_deadline'', c_u64), (''eff_deadline'', c_u64),
     (''wait_start_ns'', c_u64), (''wait_seq'', c_u64), (''prog_size'', c_u64), (''mem'', c_ptr),
     (''mem_size'', c_size_t)]"

definition c_sched_t :: cty where
  "c_sched_t = Struct [(''p0'', c_proc_t), (''curr'', c_ptr), (''pid'', c_u32), (''pb'', Arr 0x1000 c_proc_t),
     (''free_proc'', Arr 0x1000 c_ptr), (''nfree_proc'', c_size_t), (''rn'', Arr 0xFF c_heap_node_t),
     (''ready'', c_minheap_t), (''wn'', Arr 0xFF c_heap_node_t), (''waiting'', c_minheap_t)]"

section \<open>The generator\<close>

definition PT_ROOT_L0 :: nat where "PT_ROOT_L0 = the (OFFSETOF c_pt_root_t ''l0'')"
definition PT_ROOT_L0_PA :: nat where "PT_ROOT_L0_PA = the (OFFSETOF c_pt_root_t ''l0_pa'')"
definition PT_ROOT_SIZE :: nat where "PT_ROOT_SIZE = csize c_pt_root_t"
definition MMAP_ROOT :: nat where "MMAP_ROOT = the (OFFSETOF c_mmu_map_t ''root'')"
definition MMAP_ASID :: nat where "MMAP_ASID = the (OFFSETOF c_mmu_map_t ''asid'')"
definition MMAP_SIZE :: nat where "MMAP_SIZE = csize c_mmu_map_t"
definition CTX_X :: nat where "CTX_X = the (OFFSETOF c_ctx_t ''x'')"
definition CTX_SP :: nat where "CTX_SP = the (OFFSETOF c_ctx_t ''sp'')"
definition CTX_PC :: nat where "CTX_PC = the (OFFSETOF c_ctx_t ''pc'')"
definition CTX_PSTATE :: nat where "CTX_PSTATE = the (OFFSETOF c_ctx_t ''pstate'')"
definition CTX_VREGS :: nat where "CTX_VREGS = the (OFFSETOF c_ctx_t ''vregs'')"
definition CTX_FPSR :: nat where "CTX_FPSR = the (OFFSETOF c_ctx_t ''fpsr'')"
definition CTX_FPCR :: nat where "CTX_FPCR = the (OFFSETOF c_ctx_t ''fpcr'')"
definition CTX_MMAP :: nat where "CTX_MMAP = the (OFFSETOF c_ctx_t ''mmap'')"
definition CTX_SIZE :: nat where "CTX_SIZE = csize c_ctx_t"
definition PROC_CTX :: nat where "PROC_CTX = the (OFFSETOF c_proc_t ''ctx'')"
definition PROC_SIZE :: nat where "PROC_SIZE = csize c_proc_t"
definition SCHED_P0 :: nat where "SCHED_P0 = the (OFFSETOF c_sched_t ''p0'')"
definition SCHED_CURR :: nat where "SCHED_CURR = the (OFFSETOF c_sched_t ''curr'')"
definition SCHED_PID :: nat where "SCHED_PID = the (OFFSETOF c_sched_t ''pid'')"
definition SCHED_SIZE :: nat where "SCHED_SIZE = csize c_sched_t"

text \<open>The lines \<open>main\<close> prints, in order, as a name and a value.\<close>

definition autogen_lines :: "(string \<times> nat) list" where
  "autogen_lines =
     [(''PT_ROOT_L0'', PT_ROOT_L0), (''PT_ROOT_L0_PA'', PT_ROOT_L0_PA), (''PT_ROOT_SIZE'', PT_ROOT_SIZE),
      (''MMAP_ROOT'', MMAP_ROOT), (''MMAP_ASID'', MMAP_ASID), (''MMAP_SIZE'', MMAP_SIZE),
      (''CTX_X'', CTX_X), (''CTX_SP'', CTX_SP), (''CTX_PC'', CTX_PC), (''CTX_PSTATE'', CTX_PSTATE),
      (''CTX_VREGS'', CTX_VREGS), (''CTX_FPSR'', CTX_FPSR), (''CTX_FPCR'', CTX_FPCR),
      (''CTX_MMAP'', CTX_MMAP), (''CTX_SIZE'', CTX_SIZE), (''PROC_CTX'', PROC_CTX),
      (''PROC_SIZE'', PROC_SIZE), (''SCHED_P0'', SCHED_P0), (''SCHED_CURR'', SCHED_CURR),
      (''SCHED_PID'', SCHED_PID), (''SCHED_SIZE'', SCHED_SIZE)]"

text \<open>The offsets that \<^verbatim>\<open>ctx_switch.S\<close> writes out instead of including them.\<close>

definition X_OFF :: nat where "X_OFF = 0x000"
definition SP_OFF :: nat where "SP_OFF = 0x0F8"
definition PC_OFF :: nat where "PC_OFF = 0x100"
definition PSTATE_OFF :: nat where "PSTATE_OFF = 0x108"
definition VREGS_OFF :: nat where "VREGS_OFF = 0x110"
definition FPSR_OFF :: nat where "FPSR_OFF = 0x310"
definition FPCR_OFF :: nat where "FPCR_OFF = 0x314"

section \<open>Soundness of the layout\<close>

text \<open>The scalar sizes in use are powers of two, so of two alignments one divides the other.\<close>

fun wf_cty :: "cty \<Rightarrow> bool" and wf_fields :: "fields \<Rightarrow> bool" where
  "wf_cty (Prim n) \<longleftrightarrow> n \<in> {1, 2, 4, 8, 16}"
| "wf_cty (Arr k t) \<longleftrightarrow> wf_cty t"
| "wf_cty (Struct fs) \<longleftrightarrow> wf_fields fs"
| "wf_fields [] \<longleftrightarrow> True"
| "wf_fields ((f, t) # fs) \<longleftrightarrow> wf_cty t \<and> wf_fields fs"

definition scalar_sizes :: "nat set" where "scalar_sizes = {1, 2, 4, 8, 16}"

lemma scalar_max: "a \<in> scalar_sizes \<Longrightarrow> b \<in> scalar_sizes \<Longrightarrow> max a b \<in> scalar_sizes \<and> a dvd max a b \<and> b dvd max a b"
  by (auto simp: scalar_sizes_def)

lemma align_scalar:
  "wf_cty t \<Longrightarrow> calign t \<in> scalar_sizes"
  "wf_fields fs \<Longrightarrow> falign fs \<in> scalar_sizes"
  by (induction t and fs rule: calign_falign.induct) (simp_all add: scalar_max, simp_all add: scalar_sizes_def)

lemma align_to_props:
  assumes "a \<in> scalar_sizes"
  shows "a dvd align_to off a" "off \<le> align_to off a"
  using assms by (auto simp: align_to_def scalar_sizes_def)

text \<open>Size is a multiple of the alignment, so the elements of an array are aligned too.\<close>

lemma calign_dvd_csize: "wf_cty t \<Longrightarrow> calign t dvd csize t"
proof (induction t)
  case (Struct fs)
  then show ?case using align_to_props(1) [OF align_scalar(2)] by simp
qed simp_all

definition sound_at :: "nat \<Rightarrow> nat \<Rightarrow> (nat \<times> nat) list \<Rightarrow> bool" where
  "sound_at lo hi ls \<longleftrightarrow> (\<forall>(o', n) \<in> set ls. n dvd o' \<and> lo \<le> o' \<and> o' + n \<le> hi) \<and>
     sorted_wrt (\<lambda>(o', n) (o'', _). o' + n \<le> o'') ls"

lemma sound_nil [simp]: "sound_at lo hi []"
  by (simp add: sound_at_def)

lemma sound_append:
  "sound_at lo mid xs \<Longrightarrow> sound_at mid' hi ys \<Longrightarrow> mid \<le> mid' \<Longrightarrow> lo \<le> mid' \<Longrightarrow> mid \<le> hi \<Longrightarrow> sound_at lo hi (xs @ ys)"
  by (fastforce simp: sound_at_def sorted_wrt_append)

lemma sound_wider: "sound_at lo hi ls \<Longrightarrow> lo' \<le> lo \<Longrightarrow> hi \<le> hi' \<Longrightarrow> sound_at lo' hi' ls"
  by (fastforce simp: sound_at_def)

lemma sound_array:
  assumes "\<And>i. i < k \<Longrightarrow> sound_at (b + i * s) (b + i * s + s) (f i)"
  shows "sound_at b (b + k * s) (concat (map f [0..<k]))"
  using assms
proof (induction k)
  case (Suc k)
  have "sound_at b (b + k * s) (concat (map f [0..<k]))" using Suc by simp
  then show ?case using sound_append [of b "b + k * s" _ "b + k * s" "b + k * s + s" "f k"] Suc.prems [of k]
    by (simp add: algebra_simps)
qed simp

lemma fend_ge: "wf_fields fs \<Longrightarrow> off \<le> fend off fs"
proof (induction fs arbitrary: off)
  case (Cons x fs)
  obtain f t where x: "x = (f, t)" by (cases x)
  have "off \<le> align_to off (calign t)" using Cons.prems align_to_props(2) align_scalar(1) by (simp add: x)
  then show ?case using Cons.IH [of "align_to off (calign t) + csize t"] Cons.prems by (simp add: x)
qed simp

lemma leaves_sound:
  "wf_cty t \<Longrightarrow> calign t dvd b \<Longrightarrow> sound_at b (b + csize t) (leaves b t)"
  "wf_fields fs \<Longrightarrow> falign fs dvd b \<Longrightarrow> sound_at (b + off) (b + fend off fs) (fleaves b off fs)"
proof (induction b t and b off fs rule: leaves_fleaves.induct)
  case (2 b k t)
  have "sound_at (b + i * csize t) (b + i * csize t + csize t) (leaves (b + i * csize t) t)" if "i < k" for i
    using 2 that calign_dvd_csize [of t] by simp
  then show ?case using sound_array by simp
next
  case (3 b fs)
  then show ?case using sound_wider align_to_props(2) [OF align_scalar(2)] by fastforce
next
  case (5 b off f t fs)
  let ?a = "align_to off (calign t)"
  have al: "calign t dvd ?a" "off \<le> ?a" using 5(3) align_to_props [OF align_scalar(1)] by simp_all
  have d: "calign t dvd falign ((f, t) # fs)" "falign fs dvd falign ((f, t) # fs)"
    using 5(3) scalar_max [OF align_scalar(1) align_scalar(2)] by simp_all
  have "sound_at (b + ?a) (b + ?a + csize t) (leaves (b + ?a) t)"
    using 5(1,3) dvd_add [OF dvd_trans [OF d(1) 5(4)] al(1)] by simp
  moreover have "sound_at (b + (?a + csize t)) (b + fend (?a + csize t) fs) (fleaves b (?a + csize t) fs)"
    using 5(2,3) dvd_trans [OF d(2) 5(4)] by simp
  moreover have "?a + csize t \<le> fend (?a + csize t) fs" using fend_ge 5(3) by simp
  ultimately have "sound_at (b + ?a) (b + fend (?a + csize t) fs) (fleaves b off ((f, t) # fs))"
    using sound_append by simp
  then show ?case using sound_wider al(2) by simp
qed (auto simp: sound_at_def)

text \<open>The structures of the kernel.\<close>

lemmas c_defs = c_u16_def c_u32_def c_u64_def c_u128_def c_int_def c_ptr_def c_size_t_def
  c_pt_root_t_def c_mmu_map_t_def c_heap_node_t_def c_minheap_t_def c_ctx_t_def c_proc_t_def c_sched_t_def

lemmas offset_defs = PT_ROOT_L0_def PT_ROOT_L0_PA_def PT_ROOT_SIZE_def MMAP_ROOT_def MMAP_ASID_def MMAP_SIZE_def
  CTX_X_def CTX_SP_def CTX_PC_def CTX_PSTATE_def CTX_VREGS_def CTX_FPSR_def CTX_FPCR_def CTX_MMAP_def CTX_SIZE_def
  PROC_CTX_def PROC_SIZE_def SCHED_P0_def SCHED_CURR_def SCHED_PID_def SCHED_SIZE_def

lemma size_evals:
  "calign c_mmu_map_t = 8" "csize c_mmu_map_t = 24" "calign c_ctx_t = 16" "csize c_ctx_t = 816"
  "calign c_proc_t = 16" "csize c_proc_t = 912"
  by (simp_all add: c_defs align_to_def)

lemma sched_layout: "wf_cty c_sched_t" "calign c_sched_t = 16"
  by (simp_all add: c_defs)

lemma offset_values:
  "PT_ROOT_L0 = 0" "PT_ROOT_L0_PA = 8" "PT_ROOT_SIZE = 16" "MMAP_ROOT = 0" "MMAP_ASID = 16" "MMAP_SIZE = 24"
  "CTX_X = 0" "CTX_SP = 248" "CTX_PC = 256" "CTX_PSTATE = 264" "CTX_VREGS = 272" "CTX_FPSR = 784" "CTX_FPCR = 788"
  "CTX_MMAP = 792" "CTX_SIZE = 816" "PROC_CTX = 0" "PROC_SIZE = 912" "SCHED_P0 = 0" "SCHED_CURR = 912"
  "SCHED_PID = 920" "SCHED_SIZE = 3781552"
  by (simp_all add: offset_defs c_defs align_to_def)

text \<open>
  C39: The scheduler state that C and assembly share is laid out without overlap: wherever it starts at a
  multiple of its alignment, every scalar in it (all contexts, processes and queues included) is aligned to
  its size, lies inside the structure and ends before the next one begins. The offsets written out in
  \<^verbatim>\<open>ctx_switch.S\<close> are those of the C structure, and the numbers the generator prints are its offsets and
  sizes.
\<close>

theorem shared_layout_correct:
  assumes "calign c_sched_t dvd g"
  shows "(\<forall>(o', n) \<in> set (leaves g c_sched_t). n dvd o' \<and> g \<le> o' \<and> o' + n \<le> g + SCHED_SIZE) \<and>
    sorted_wrt (\<lambda>(o', n) (o'', _). o' + n \<le> o'') (leaves g c_sched_t) \<and>
    [X_OFF, SP_OFF, PC_OFF, PSTATE_OFF, VREGS_OFF, FPSR_OFF, FPCR_OFF] =
      map (\<lambda>f. the (OFFSETOF c_ctx_t f)) [''x'', ''sp'', ''pc'', ''pstate'', ''vregs'', ''fpsr'', ''fpcr''] \<and>
    map snd autogen_lines = [0, 8, 16, 0, 16, 24, 0, 248, 256, 264, 272, 784, 788, 792, 816, 0, 912, 0,
      912, 920, 3781552]"
proof -
  have "sound_at g (g + SCHED_SIZE) (leaves g c_sched_t)"
    using leaves_sound(1) [OF sched_layout(1) assms] by (simp add: SCHED_SIZE_def)
  moreover have "[X_OFF, SP_OFF, PC_OFF, PSTATE_OFF, VREGS_OFF, FPSR_OFF, FPCR_OFF] =
      map (\<lambda>f. the (OFFSETOF c_ctx_t f)) [''x'', ''sp'', ''pc'', ''pstate'', ''vregs'', ''fpsr'', ''fpcr'']"
    using offset_values unfolding offset_defs
    by (simp add: X_OFF_def SP_OFF_def PC_OFF_def PSTATE_OFF_def VREGS_OFF_def FPSR_OFF_def FPCR_OFF_def)
  ultimately show ?thesis by (simp add: sound_at_def autogen_lines_def offset_values)
qed

theorem shared_layout_correct_witness:
  "list_all (\<lambda>(o', n). n dvd o' \<and> o' + n \<le> 0x80000 + SCHED_SIZE) (leaves 0x80000 c_sched_t) \<and>
   sorted_wrt (\<lambda>(o', n) (o'', _). o' + n \<le> o'') (leaves 0x80000 c_sched_t)"
proof -
  have "calign c_sched_t dvd 0x80000" by (simp add: sched_layout)
  from shared_layout_correct [OF this] show ?thesis unfolding list_all_iff by fastforce
qed

end
