(* ===== verification/Trap.thy ===== *)
theory Trap
  imports Layout Memory
begin

text \<open>
  The exception entries \<^verbatim>\<open>rtprog/irq_el1.S\<close> and \<^verbatim>\<open>rtprog/sync_el1.S\<close>: they save the interrupted
  registers into the context of the current process, run the C handler on the kernel's stack and resume
  whichever process is current afterwards; \<open>update_current_ctx\<close> of \<^verbatim>\<open>ctx_switch.S\<close> saves its caller the
  same way. The instructions they use are a datatype with an interpreter;
  the compiled C functions they call are arguments that keep to the procedure call standard. Kernel memory
  is mapped at the same addresses in every map, so there is one memory. \<open>SAVE_FP\<close> is 0 in
  \<^verbatim>\<open>structs.h\<close>: the floating-point part of the entries is not assembled.
\<close>

section \<open>Instructions\<close>

datatype breg = X nat | SP

datatype instr =
    STP nat nat breg nat | LDP nat nat breg nat | STRX nat breg nat | LDRX nat breg nat
  | STR_PRE16 nat | LDR_POST16 nat | SUB_SP nat | ADD_SP nat | ADD_IMM nat nat nat | ADR_G_SCHED nat
  | MOV nat nat | MOV_FROM_SP nat | MOV_TO_SP nat | AND_W nat nat u64
  | MRS_ELR nat | MRS_SPSR nat | MSR_ELR nat | MSR_SPSR nat | MRS_IAR nat | MSR_EOIR nat | MRS_ESR nat | MRS_FAR nat

record cpu =
  xr :: "nat \<Rightarrow> u64"
  spr :: u64
  elr :: u64
  spsr :: u64
  eoir :: u64
  cmem :: memory

text \<open>What the core reads from its environment: the address of \<open>G_SCHED\<close> and three system registers.\<close>

record trap_in =
  t_sched :: u64
  t_iar :: u64
  t_esr :: u64
  t_far :: u64

fun bval :: "breg \<Rightarrow> cpu \<Rightarrow> u64" where
  "bval (X n) c = xr c n"
| "bval SP c = spr c"

definition set_x :: "nat \<Rightarrow> u64 \<Rightarrow> cpu \<Rightarrow> cpu" where
  "set_x n v c = c\<lparr>xr := (xr c)(n := v)\<rparr>"

fun exec1 :: "trap_in \<Rightarrow> instr \<Rightarrow> cpu \<Rightarrow> cpu" where
  "exec1 t (STP a b r i) c =
     c\<lparr>cmem := store64 (store64 (cmem c) (bval r c + of_nat i) (xr c a)) (bval r c + of_nat (i + 8)) (xr c b)\<rparr>"
| "exec1 t (LDP a b r i) c =
     set_x b (load64 (cmem c) (bval r c + of_nat (i + 8))) (set_x a (load64 (cmem c) (bval r c + of_nat i)) c)"
| "exec1 t (STRX a r i) c = c\<lparr>cmem := store64 (cmem c) (bval r c + of_nat i) (xr c a)\<rparr>"
| "exec1 t (LDRX a r i) c = set_x a (load64 (cmem c) (bval r c + of_nat i)) c"
| "exec1 t (STR_PRE16 a) c = c\<lparr>spr := spr c - 16, cmem := store64 (cmem c) (spr c - 16) (xr c a)\<rparr>"
| "exec1 t (LDR_POST16 a) c = (set_x a (load64 (cmem c) (spr c)) c)\<lparr>spr := spr c + 16\<rparr>"
| "exec1 t (SUB_SP i) c = c\<lparr>spr := spr c - of_nat i\<rparr>"
| "exec1 t (ADD_SP i) c = c\<lparr>spr := spr c + of_nat i\<rparr>"
| "exec1 t (ADD_IMM a b i) c = set_x a (xr c b + of_nat i) c"
| "exec1 t (ADR_G_SCHED a) c = set_x a (t_sched t) c"
| "exec1 t (MOV a b) c = set_x a (xr c b) c"
| "exec1 t (MOV_FROM_SP a) c = set_x a (spr c) c"
| "exec1 t (MOV_TO_SP a) c = c\<lparr>spr := xr c a\<rparr>"
| "exec1 t (AND_W a b v) c = set_x a (xr c b AND v AND 0xFFFFFFFF) c"
| "exec1 t (MRS_ELR a) c = set_x a (elr c) c"
| "exec1 t (MRS_SPSR a) c = set_x a (spsr c) c"
| "exec1 t (MSR_ELR a) c = c\<lparr>elr := xr c a\<rparr>"
| "exec1 t (MSR_SPSR a) c = c\<lparr>spsr := xr c a\<rparr>"
| "exec1 t (MRS_IAR a) c = set_x a (t_iar t) c"
| "exec1 t (MSR_EOIR a) c = c\<lparr>eoir := xr c a\<rparr>"
| "exec1 t (MRS_ESR a) c = set_x a (t_esr t) c"
| "exec1 t (MRS_FAR a) c = set_x a (t_far t) c"

definition exec :: "trap_in \<Rightarrow> instr list \<Rightarrow> cpu \<Rightarrow> cpu" where
  "exec t is c = fold (exec1 t) is c"

section \<open>The entries\<close>

definition KERNEL_SP :: nat where "KERNEL_SP = SCHED_P0 + PROC_CTX + CTX_SP"
definition KERNEL_MMAP :: nat where "KERNEL_MMAP = SCHED_P0 + PROC_CTX + CTX_MMAP"

text \<open>Both files begin with the same code: scratch registers, the current context, every register saved.\<close>

definition save_ctx :: "instr list" where
  "save_ctx =
     [SUB_SP 32, STP 20 21 SP 0, STP 0 1 SP 16,
      ADR_G_SCHED 21,
      LDRX 20 (X 21) SCHED_CURR, ADD_IMM 20 20 PROC_CTX,
      LDP 0 1 SP 0, STP 0 1 (X 20) (CTX_X + 160), ADD_SP 16,
      LDP 0 1 SP 0, STP 0 1 (X 20) CTX_X, ADD_SP 16,
      STP 2 3 (X 20) (CTX_X + 16), STP 4 5 (X 20) (CTX_X + 32), STP 6 7 (X 20) (CTX_X + 48),
      STP 8 9 (X 20) (CTX_X + 64), STP 10 11 (X 20) (CTX_X + 80), STP 12 13 (X 20) (CTX_X + 96),
      STP 14 15 (X 20) (CTX_X + 112), STP 16 17 (X 20) (CTX_X + 128), STP 18 19 (X 20) (CTX_X + 144),
      STP 22 23 (X 20) (CTX_X + 176), STP 24 25 (X 20) (CTX_X + 192), STP 26 27 (X 20) (CTX_X + 208),
      STP 28 29 (X 20) (CTX_X + 224), STRX 30 (X 20) (CTX_X + 240),
      MRS_ELR 0, MRS_SPSR 1, STRX 0 (X 20) CTX_PC, STRX 1 (X 20) CTX_PSTATE,
      MOV_FROM_SP 0, STRX 0 (X 20) CTX_SP]"

text \<open>\<open>update_current_ctx\<close> of \<^verbatim>\<open>ctx_switch.S\<close>, which no code calls, saves its caller the same way.\<close>

definition update_current_ctx :: "instr list" where
  "update_current_ctx =
     [SUB_SP 32, STP 2 3 SP 0, STP 0 1 SP 16,
      ADR_G_SCHED 3,
      LDRX 2 (X 3) SCHED_CURR, ADD_IMM 2 2 PROC_CTX,
      LDP 0 1 SP 0, STP 0 1 (X 2) (CTX_X + 16), ADD_SP 16,
      LDP 0 1 SP 0, STP 0 1 (X 2) CTX_X, ADD_SP 16,
      STP 4 5 (X 2) (CTX_X + 32), STP 6 7 (X 2) (CTX_X + 48), STP 8 9 (X 2) (CTX_X + 64),
      STP 10 11 (X 2) (CTX_X + 80), STP 12 13 (X 2) (CTX_X + 96), STP 14 15 (X 2) (CTX_X + 112),
      STP 16 17 (X 2) (CTX_X + 128), STP 18 19 (X 2) (CTX_X + 144), STP 20 21 (X 2) (CTX_X + 160),
      STP 22 23 (X 2) (CTX_X + 176), STP 24 25 (X 2) (CTX_X + 192), STP 26 27 (X 2) (CTX_X + 208),
      STP 28 29 (X 2) (CTX_X + 224), STRX 30 (X 2) (CTX_X + 240),
      MOV 0 30, MRS_SPSR 1, STRX 0 (X 2) CTX_PC, STRX 1 (X 2) CTX_PSTATE,
      MOV_FROM_SP 0, STRX 0 (X 2) CTX_SP]"

definition enter_kernel :: "instr list" where
  "enter_kernel = [LDRX 2 (X 21) KERNEL_SP, MOV_TO_SP 2, ADD_IMM 0 21 KERNEL_MMAP]"

definition irq_args :: "instr list" where
  "irq_args = [MRS_IAR 0, STR_PRE16 0, AND_W 1 0 0x00FFFFFF, MOV 0 20]"

definition sync_args :: "instr list" where
  "sync_args = [MRS_ESR 0, LDRX 1 (X 20) CTX_PC, MRS_FAR 2]"

definition fetch_ctx :: "instr list" where
  "fetch_ctx = [LDRX 20 (X 21) SCHED_CURR, ADD_IMM 20 20 PROC_CTX, ADD_IMM 0 20 CTX_MMAP]"

definition restore_pc :: "instr list" where
  "restore_pc = [LDRX 8 (X 20) CTX_PC, LDRX 9 (X 20) CTX_PSTATE, MSR_ELR 8, MSR_SPSR 9]"

definition end_irq :: "instr list" where
  "end_irq = [LDR_POST16 0, MSR_EOIR 0]"

definition restore_regs :: "instr list" where
  "restore_regs =
     [LDRX 12 (X 20) CTX_SP, MOV_TO_SP 12, MOV 0 20,
      LDP 2 3 (X 0) (CTX_X + 16), LDP 4 5 (X 0) (CTX_X + 32), LDP 6 7 (X 0) (CTX_X + 48),
      LDP 8 9 (X 0) (CTX_X + 64), LDP 10 11 (X 0) (CTX_X + 80), LDP 12 13 (X 0) (CTX_X + 96),
      LDP 14 15 (X 0) (CTX_X + 112), LDP 16 17 (X 0) (CTX_X + 128), LDP 18 19 (X 0) (CTX_X + 144),
      LDP 20 21 (X 0) (CTX_X + 160), LDP 22 23 (X 0) (CTX_X + 176), LDP 24 25 (X 0) (CTX_X + 192),
      LDP 26 27 (X 0) (CTX_X + 208), LDP 28 29 (X 0) (CTX_X + 224), LDRX 30 (X 0) (CTX_X + 240),
      LDP 0 1 (X 0) CTX_X]"

text \<open>
  \<open>sw\<close> is the compiled \<open>mmu_map_switch\<close>, \<open>h\<close> the compiled handler. The state in which the handler is
  called is a definition of its own.
\<close>

definition irq_call_state :: "(cpu \<Rightarrow> cpu) \<Rightarrow> trap_in \<Rightarrow> cpu \<Rightarrow> cpu" where
  "irq_call_state sw t c = exec t irq_args (sw (exec t enter_kernel (exec t save_ctx c)))"

definition irq_el1 :: "(cpu \<Rightarrow> cpu) \<Rightarrow> (cpu \<Rightarrow> cpu) \<Rightarrow> trap_in \<Rightarrow> cpu \<Rightarrow> cpu" where
  "irq_el1 sw h t c =
     exec t (restore_pc @ end_irq @ restore_regs) (sw (exec t fetch_ctx (h (irq_call_state sw t c))))"

definition sync_call_state :: "(cpu \<Rightarrow> cpu) \<Rightarrow> trap_in \<Rightarrow> cpu \<Rightarrow> cpu" where
  "sync_call_state sw t c = exec t sync_args (sw (exec t enter_kernel (exec t save_ctx c)))"

definition sync_el1 :: "(cpu \<Rightarrow> cpu) \<Rightarrow> (cpu \<Rightarrow> cpu) \<Rightarrow> trap_in \<Rightarrow> cpu \<Rightarrow> cpu" where
  "sync_el1 sw h t c =
     exec t (restore_pc @ restore_regs) (sw (exec t fetch_ctx (h (sync_call_state sw t c))))"

section \<open>Saving and restoring\<close>

definition region :: "u64 \<Rightarrow> nat \<Rightarrow> u64 set" where
  "region b n = {a. unat (a - b) < n}"

text \<open>What a resumed process sees of the core, and the same as its context in memory holds it.\<close>

definition core_view :: "cpu \<Rightarrow> u64 list \<times> u64 \<times> u64 \<times> u64" where
  "core_view c = (map (xr c) [0..<31], spr c, elr c, spsr c)"

definition ctx_view :: "memory \<Rightarrow> u64 \<Rightarrow> u64 list \<times> u64 \<times> u64 \<times> u64" where
  "ctx_view m p = (map (\<lambda>i. load64 m (p + of_nat (CTX_X + 8 * i))) [0..<31], load64 m (p + of_nat CTX_SP),
     load64 m (p + of_nat CTX_PC), load64 m (p + of_nat CTX_PSTATE))"

lemma all_regs: "[0..<31] = [0, 1, 2, 3, 4, 5, 6, 7, 8, 9, 10, 11, 12, 13, 14, 15, 16, 17, 18, 19, 20, 21, 22, 23,
  24, 25, 26, 27, 28, 29, 30]"
  by code_simp

lemma load64_frame:
  assumes "\<And>a. a \<notin> A \<Longrightarrow> m' a = m a" "region b 8 \<inter> A = {}"
  shows "load64 m' b = load64 m b"
  unfolding load64_def
proof (rule load_le_cong)
  fix i :: nat assume "i < 8"
  then have "b + of_nat i \<in> region b 8" by (simp add: region_def)
  then show "m' (b + of_nat i) = m (b + of_nat i)" using assms by blast
qed

lemma store64_outside: "a \<notin> region b 8 \<Longrightarrow> store64 m b v a = m a"
  by (simp add: store64_def store_le_def region_def)

lemma load64_store64_other: "region b 8 \<inter> region a 8 = {} \<Longrightarrow> load64 (store64 m a v) b = load64 m b"
  by (rule load64_frame [where A = "region a 8"]) (simp_all add: store64_outside)

lemma unat_offset: "unat (x + of_nat k :: u64) \<le> unat x + k"
proof -
  have "unat (x + of_nat k) = (unat x + k mod 2 ^ 64) mod 2 ^ 64" by (simp add: unat_word_ariths unat_of_nat)
  also have "\<dots> \<le> unat x + k mod 2 ^ 64" by simp
  also have "\<dots> \<le> unat x + k" by simp
  finally show ?thesis .
qed

lemma region_sub: "j + k \<le> n \<Longrightarrow> region (b + of_nat j) k \<subseteq> region b n"
proof
  fix a assume *: "j + k \<le> n" "a \<in> region (b + of_nat j) k"
  have "a - b = (a - (b + of_nat j)) + of_nat j" by simp
  then have "unat (a - b) \<le> unat (a - (b + of_nat j)) + j" using unat_offset by metis
  then show "a \<in> region b n" using * by (simp add: region_def)
qed

lemma words_disjoint:
  assumes "i + 8 \<le> j \<or> j + 8 \<le> i" "i < 2 ^ 32" "j < 2 ^ 32"
  shows "region (p + of_nat i) 8 \<inter> region (p + of_nat j) 8 = {}"
proof -
  { fix i j :: nat and a assume *: "i + 8 \<le> j" "j < 2 ^ 32" "a \<in> region (p + of_nat i) 8" "a \<in> region (p + of_nat j) 8"
    have "unat (a - (p + of_nat j)) + (j - i) < 2 ^ 64" using * by (simp add: region_def)
    moreover have "j - i < 18446744073709551616" using *(2) by simp
    ultimately have "unat ((a - (p + of_nat j)) + of_nat (j - i)) = unat (a - (p + of_nat j)) + (j - i)"
      by (simp add: unat_word_ariths)
    moreover have "(a - (p + of_nat j)) + of_nat (j - i) = a - (p + of_nat i)" using *(1) by (simp add: of_nat_diff)
    ultimately have "unat (a - (p + of_nat i)) = unat (a - (p + of_nat j)) + (j - i)" by simp
    then have False using * by (simp add: region_def) }
  then show ?thesis using assms by blast
qed

lemma load_slot:
  "i < 2 ^ 32 \<Longrightarrow> j < 2 ^ 32 \<Longrightarrow> i + 8 \<le> j \<or> j + 8 \<le> i \<Longrightarrow>
   load64 (store64 m (p + of_nat i) v) (p + of_nat j) = load64 m (p + of_nat j)"
  by (rule load64_store64_other) (metis words_disjoint)

text \<open>The same with the offsets as numbers, for symbolic execution.\<close>

lemma load_slot_numeral:
  "numeral i < (2 ^ 32 :: nat) \<Longrightarrow> numeral j < (2 ^ 32 :: nat) \<Longrightarrow>
   numeral i + 8 \<le> (numeral j :: nat) \<or> numeral j + 8 \<le> (numeral i :: nat) \<Longrightarrow>
   load64 (store64 m (p + numeral i) v) (p + numeral j) = load64 m (p + numeral j)"
  "numeral i < (2 ^ 32 :: nat) \<Longrightarrow> 8 \<le> (numeral i :: nat) \<Longrightarrow> load64 (store64 m (p + numeral i) v) p = load64 m p"
  "numeral i < (2 ^ 32 :: nat) \<Longrightarrow> 8 \<le> (numeral i :: nat) \<Longrightarrow>
   load64 (store64 m p v) (p + numeral i) = load64 m (p + numeral i)"
  using load_slot [of "numeral i" "numeral j"] load_slot [of "numeral i" 0] load_slot [of 0 "numeral i"]
  by simp_all

lemma exec_simps [simp]:
  "exec t [] c = c" "exec t (i # is) c = exec t is (exec1 t i c)" "exec t (is @ js) c = exec t js (exec t is c)"
  by (simp_all add: exec_def)

lemma set_x_simps [simp]:
  "xr (set_x n v c) = (xr c)(n := v)" "spr (set_x n v c) = spr c" "elr (set_x n v c) = elr c"
  "spsr (set_x n v c) = spsr c" "eoir (set_x n v c) = eoir c" "cmem (set_x n v c) = cmem c"
  by (simp_all add: set_x_def)

text \<open>The scratch area of the interrupted stack, the current context and the pointer to it do not overlap.\<close>

lemma scratch_apart:
  assumes "region s 32 \<inter> region g SCHED_SIZE = {}" "region p CTX_SIZE \<subseteq> region g SCHED_SIZE"
  shows "i + 8 \<le> 816 \<Longrightarrow> j + 8 \<le> 32 \<Longrightarrow>
      load64 (store64 m (p + of_nat i) v) (s + of_nat j) = load64 m (s + of_nat j)"
    and "j + 8 \<le> 32 \<Longrightarrow> load64 (store64 m (s + of_nat j) v) (g + of_nat 912) = load64 m (g + of_nat 912)"
proof -
  have st: "region (s + of_nat j) 8 \<subseteq> region s 32" if "j + 8 \<le> 32" using region_sub that .
  have cx: "region (p + of_nat i) 8 \<subseteq> region g SCHED_SIZE" if "i + 8 \<le> 816"
    using region_sub [of i 8 CTX_SIZE p] that assms(2) by (auto simp: offset_values)
  have cu: "region (g + of_nat 912) 8 \<subseteq> region g SCHED_SIZE" using region_sub [of 912 8] by (simp add: offset_values)
  show "load64 (store64 m (p + of_nat i) v) (s + of_nat j) = load64 m (s + of_nat j)" if "i + 8 \<le> 816" "j + 8 \<le> 32"
    by (rule load64_store64_other) (use st [OF that(2)] cx [OF that(1)] assms(1) in blast)
  show "load64 (store64 m (s + of_nat j) v) (g + of_nat 912) = load64 m (g + of_nat 912)" if "j + 8 \<le> 32"
    by (rule load64_store64_other) (use st [OF that] cu assms(1) in blast)
qed

text \<open>The saved context is the interrupted core, wherever the scratch area of the interrupted stack lies outside \<open>G_SCHED\<close>.\<close>

lemma save_ctx_ok:
  assumes "region (spr c - 32) 32 \<inter> region (t_sched t) SCHED_SIZE = {}"
    and "p = load64 (cmem c) (t_sched t + of_nat SCHED_CURR)"
    and "region p CTX_SIZE \<subseteq> region (t_sched t) SCHED_SIZE"
  shows "ctx_view (cmem (exec t save_ctx c)) p = core_view c" "xr (exec t save_ctx c) 20 = p"
    "xr (exec t save_ctx c) 21 = t_sched t"
proof -
  let ?s = "spr c - 32"
  note sp_cx = scratch_apart(1) [OF assms(1,3)] and cu_sp = scratch_apart(2) [OF assms(1,3)]
  have curr: "load64 (cmem c) (t_sched t + 912) = p" using assms(2) by (simp add: offset_values)
  note stack = load_slot [of 8 0 _ ?s, simplified] load_slot [of 16 0 _ ?s, simplified] load_slot [of 24 0 _ ?s, simplified]
    load_slot [of 16 8 _ ?s, simplified] load_slot [of 24 8 _ ?s, simplified] load_slot [of 24 16 _ ?s, simplified]
  show "xr (exec t save_ctx c) 20 = p" "xr (exec t save_ctx c) 21 = t_sched t"
    using cu_sp [of 0] cu_sp [of 8] cu_sp [of 16] cu_sp [of 24]
    by (simp_all add: save_ctx_def offset_values curr)
  show "ctx_view (cmem (exec t save_ctx c)) p = core_view c"
    using cu_sp [of 0] cu_sp [of 8] cu_sp [of 16] cu_sp [of 24]
      sp_cx [of 160 16] sp_cx [of 160 24] sp_cx [of 168 16] sp_cx [of 168 24]
    by (simp add: save_ctx_def ctx_view_def core_view_def offset_values curr stack load_slot_numeral
        all_regs)
qed

text \<open>
  The same routine as a function to call: the context is that of the caller at the call, resuming at the
  return address. It comes back with four registers changed.
\<close>

lemma update_current_ctx_ok:
  assumes "region (spr c - 32) 32 \<inter> region (t_sched t) SCHED_SIZE = {}"
    and "p = load64 (cmem c) (t_sched t + of_nat SCHED_CURR)"
    and "region p CTX_SIZE \<subseteq> region (t_sched t) SCHED_SIZE"
  shows "ctx_view (cmem (exec t update_current_ctx c)) p = core_view (c\<lparr>elr := xr c 30\<rparr>)"
    "core_view (exec t update_current_ctx c) =
       core_view (c\<lparr>xr := (xr c)(0 := spr c, 1 := spsr c, 2 := p, 3 := t_sched t)\<rparr>)"
proof -
  let ?s = "spr c - 32"
  note sp_cx = scratch_apart(1) [OF assms(1,3)] and cu_sp = scratch_apart(2) [OF assms(1,3)]
  have curr: "load64 (cmem c) (t_sched t + 912) = p" using assms(2) by (simp add: offset_values)
  note stack = load_slot [of 8 0 _ ?s, simplified] load_slot [of 16 0 _ ?s, simplified] load_slot [of 24 0 _ ?s, simplified]
    load_slot [of 16 8 _ ?s, simplified] load_slot [of 24 8 _ ?s, simplified] load_slot [of 24 16 _ ?s, simplified]
  show "ctx_view (cmem (exec t update_current_ctx c)) p = core_view (c\<lparr>elr := xr c 30\<rparr>)"
    using cu_sp [of 0] cu_sp [of 8] cu_sp [of 16] cu_sp [of 24]
      sp_cx [of 16 16] sp_cx [of 16 24] sp_cx [of 24 16] sp_cx [of 24 24]
    by (simp add: update_current_ctx_def ctx_view_def core_view_def offset_values curr stack load_slot_numeral
        all_regs)
  show "core_view (exec t update_current_ctx c) =
       core_view (c\<lparr>xr := (xr c)(0 := spr c, 1 := spsr c, 2 := p, 3 := t_sched t)\<rparr>)"
    using cu_sp [of 0] cu_sp [of 8] cu_sp [of 16] cu_sp [of 24]
    by (simp add: update_current_ctx_def core_view_def offset_values curr all_regs)
qed

lemma ctx_view_frame:
  assumes "\<And>a. a \<notin> A \<Longrightarrow> m' a = m a" "region p CTX_SIZE \<inter> A = {}"
  shows "ctx_view m' p = ctx_view m p"
proof -
  have slot: "load64 m' (p + of_nat i) = load64 m (p + of_nat i)" if "i + 8 \<le> CTX_SIZE" for i
  proof (rule load64_frame [OF assms(1)])
    show "region (p + of_nat i) 8 \<inter> A = {}" using region_sub [OF that, of p] assms(2) by blast
  qed
  have "load64 m' (p + of_nat (CTX_X + 8 * i)) = load64 m (p + of_nat (CTX_X + 8 * i))" if "i < 31" for i
    using slot [of "CTX_X + 8 * i"] that by (simp add: offset_values)
  then show ?thesis using slot [of CTX_SP] slot [of CTX_PC] slot [of CTX_PSTATE]
    by (simp add: ctx_view_def offset_values)
qed

text \<open>Reading a context back; the interrupt's entry also pops the acknowledge word.\<close>

lemma restore_ok:
  "core_view (exec t (restore_pc @ restore_regs) c) = ctx_view (cmem c) (xr c 20)"
  "core_view (exec t (restore_pc @ end_irq @ restore_regs) c) = ctx_view (cmem c) (xr c 20)"
  "eoir (exec t (restore_pc @ end_irq @ restore_regs) c) = load64 (cmem c) (spr c)"
  by (simp_all add: restore_pc_def restore_regs_def end_irq_def core_view_def ctx_view_def offset_values all_regs)

text \<open>
  What the procedure call standard promises of a compiled function: the registers 19 to 28 and the stack
  pointer are as before. \<open>mmu_map_switch\<close> writes system registers and its own frame only.
\<close>

definition aapcs :: "(cpu \<Rightarrow> cpu) \<Rightarrow> bool" where
  "aapcs f \<longleftrightarrow> (\<forall>c. spr (f c) = spr c \<and> (\<forall>i. 19 \<le> i \<longrightarrow> i \<le> 28 \<longrightarrow> xr (f c) i = xr c i))"

definition own_frame :: "(cpu \<Rightarrow> cpu) \<Rightarrow> bool" where
  "own_frame f \<longleftrightarrow> (\<forall>c a. a \<notin> region (spr c - 4096) 4096 \<longrightarrow> cmem (f c) a = cmem c a)"

text \<open>Where things are: the scratch area of the interrupted stack, the current context, the kernel's stack.\<close>

definition places_ok :: "trap_in \<Rightarrow> cpu \<Rightarrow> bool" where
  "places_ok t c \<longleftrightarrow>
     region (spr c - 32) 32 \<inter> region (t_sched t) SCHED_SIZE = {} \<and>
     region (load64 (cmem c) (t_sched t + of_nat SCHED_CURR)) CTX_SIZE \<subseteq> region (t_sched t) SCHED_SIZE \<and>
     region (spr (exec t enter_kernel (exec t save_ctx c)) - 4112) 4112 \<inter> region (t_sched t) SCHED_SIZE = {}"

lemma frame_sub: "region (ks - 4096) 4096 \<subseteq> region (ks - 4112) 4112" "region (ks - 16 - 4096) 4096 \<subseteq> region (ks - 4112) 4112"
  "region (ks - 16) 8 \<subseteq> region (ks - 4112) 4112"
  using region_sub [of 16 4096 4112 "ks - 4112"] region_sub [of 0 4096 4112 "ks - 4112"] region_sub [of 4096 8 4112 "ks - 4112"]
  by simp_all

lemma slot_below: "region (s :: u64) 8 \<inter> region (s - 4096) 4096 = {}"
proof -
  { fix a assume a: "unat (a - s) < 8" "unat (a - (s - 4096)) < 4096"
    have "unat ((a - s) + 4096) = unat (a - s) + 4096" using a(1) by (simp add: unat_word_ariths)
    then have False using a(2) by (simp add: algebra_simps) }
  then show ?thesis by (auto simp: region_def)
qed

definition curr_ctx :: "trap_in \<Rightarrow> cpu \<Rightarrow> u64" where
  "curr_ctx t c = load64 (cmem c) (t_sched t + of_nat SCHED_CURR)"

definition kernel_sp :: "trap_in \<Rightarrow> cpu \<Rightarrow> u64" where
  "kernel_sp t c = spr (exec t enter_kernel (exec t save_ctx c))"

lemma aapcsD: "aapcs f \<Longrightarrow> spr (f c) = spr c" "aapcs f \<Longrightarrow> xr (f c) 20 = xr c 20" "aapcs f \<Longrightarrow> xr (f c) 21 = xr c 21"
  by (simp_all add: aapcs_def)

lemma enter_kernel_simps [simp]:
  "cmem (exec t enter_kernel c) = cmem c" "xr (exec t enter_kernel c) 20 = xr c 20" "xr (exec t enter_kernel c) 21 = xr c 21"
  by (simp_all add: enter_kernel_def)

lemma entered:
  assumes "aapcs sw" "own_frame sw" "places_ok t c"
  defines "e \<equiv> sw (exec t enter_kernel (exec t save_ctx c))"
  shows "ctx_view (cmem e) (curr_ctx t c) = core_view c" "xr e 20 = curr_ctx t c" "xr e 21 = t_sched t"
    "spr e = kernel_sp t c"
proof -
  let ?p = "curr_ctx t c" and ?s = "exec t save_ctx c" and ?g = "t_sched t"
  have p: "region (spr c - 32) 32 \<inter> region ?g SCHED_SIZE = {}" "region ?p CTX_SIZE \<subseteq> region ?g SCHED_SIZE"
    "region (kernel_sp t c - 4112) 4112 \<inter> region ?g SCHED_SIZE = {}"
    using assms(3) by (auto simp: places_ok_def curr_ctx_def kernel_sp_def)
  note s = save_ctx_ok [OF p(1) curr_ctx_def p(2)]
  show "xr e 20 = ?p" "xr e 21 = ?g" "spr e = kernel_sp t c"
    using s(2,3) by (simp_all add: e_def aapcsD [OF assms(1)] kernel_sp_def)
  have "ctx_view (cmem e) ?p = ctx_view (cmem ?s) ?p"
  proof (rule ctx_view_frame)
    fix a assume "a \<notin> region (kernel_sp t c - 4096) 4096"
    then show "cmem e a = cmem ?s a" using assms(2) by (simp add: own_frame_def e_def kernel_sp_def)
  next
    show "region ?p CTX_SIZE \<inter> region (kernel_sp t c - 4096) 4096 = {}" using p(2,3) frame_sub(1) by blast
  qed
  then show "ctx_view (cmem e) ?p = core_view c" using s(1) by simp
qed

lemma resumed:
  assumes "aapcs sw" "own_frame sw" "xr d 21 = t_sched t"
    "region (spr d - 4096) 4096 \<inter> region (t_sched t) SCHED_SIZE = {}"
    "region (curr_ctx t d) CTX_SIZE \<subseteq> region (t_sched t) SCHED_SIZE"
  defines "f \<equiv> sw (exec t fetch_ctx d)"
  shows "xr f 20 = curr_ctx t d" "ctx_view (cmem f) (curr_ctx t d) = ctx_view (cmem d) (curr_ctx t d)"
    "load64 (cmem f) (spr f) = load64 (cmem d) (spr d)"
proof -
  have e: "xr (exec t fetch_ctx d) 20 = curr_ctx t d" "cmem (exec t fetch_ctx d) = cmem d" "spr (exec t fetch_ctx d) = spr d"
    using assms(3) by (simp_all add: fetch_ctx_def curr_ctx_def offset_values)
  have fr: "cmem f a = cmem d a" if "a \<notin> region (spr d - 4096) 4096" for a
    using assms(2) that e by (simp add: own_frame_def f_def)
  show "xr f 20 = curr_ctx t d" using e(1) by (simp add: f_def aapcsD [OF assms(1)])
  show "ctx_view (cmem f) (curr_ctx t d) = ctx_view (cmem d) (curr_ctx t d)"
  proof (rule ctx_view_frame)
    show "region (curr_ctx t d) CTX_SIZE \<inter> region (spr d - 4096) 4096 = {}" using assms(4,5) by blast
  qed (rule fr)
  have "spr f = spr d" using e(3) by (simp add: f_def aapcsD [OF assms(1)])
  then show "load64 (cmem f) (spr f) = load64 (cmem d) (spr d)"
    using load64_frame [OF fr slot_below] by simp
qed

lemma sync_called:
  assumes "aapcs sw" "own_frame sw" "places_ok t c"
  defines "k \<equiv> sync_call_state sw t c"
  shows "ctx_view (cmem k) (curr_ctx t c) = core_view c" "xr k 21 = t_sched t" "spr k = kernel_sp t c"
    "xr k 0 = t_esr t" "xr k 1 = elr c" "xr k 2 = t_far t"
proof -
  note e = entered [OF assms(1-3)]
  have "load64 (cmem (sw (exec t enter_kernel (exec t save_ctx c)))) (curr_ctx t c + of_nat CTX_PC) = elr c"
    using e(1) by (simp add: ctx_view_def core_view_def)
  then show "xr k 1 = elr c" using e(2) by (simp add: k_def sync_call_state_def sync_args_def)
  show "ctx_view (cmem k) (curr_ctx t c) = core_view c" "xr k 21 = t_sched t" "spr k = kernel_sp t c"
    "xr k 0 = t_esr t" "xr k 2 = t_far t"
    using e by (simp_all add: k_def sync_call_state_def sync_args_def)
qed

lemma irq_called:
  assumes "aapcs sw" "own_frame sw" "places_ok t c"
  defines "k \<equiv> irq_call_state sw t c"
  shows "ctx_view (cmem k) (curr_ctx t c) = core_view c" "xr k 21 = t_sched t" "spr k = kernel_sp t c - 16"
    "xr k 0 = curr_ctx t c" "xr k 1 = t_iar t AND 0xFFFFFF" "load64 (cmem k) (spr k) = t_iar t"
proof -
  let ?e = "sw (exec t enter_kernel (exec t save_ctx c))" and ?p = "curr_ctx t c"
  note e = entered [OF assms(1-3)]
  have m: "cmem k = store64 (cmem ?e) (kernel_sp t c - 16) (t_iar t)"
    using e(4) by (simp add: k_def irq_call_state_def irq_args_def)
  show "xr k 21 = t_sched t" "xr k 0 = ?p" and s: "spr k = kernel_sp t c - 16"
    using e by (simp_all add: k_def irq_call_state_def irq_args_def)
  show "xr k 1 = t_iar t AND 0xFFFFFF"
    by (simp add: k_def irq_call_state_def irq_args_def and.assoc)
  show "load64 (cmem k) (spr k) = t_iar t" by (simp add: m s)
  have "region ?p CTX_SIZE \<inter> region (kernel_sp t c - 16) 8 = {}"
    using assms(3) frame_sub(3) [of "kernel_sp t c"] by (auto simp: places_ok_def curr_ctx_def kernel_sp_def)
  then have "ctx_view (cmem k) ?p = ctx_view (cmem ?e) ?p"
    by (intro ctx_view_frame [where A = "region (kernel_sp t c - 16) 8"]) (simp_all add: m store64_outside)
  then show "ctx_view (cmem k) ?p = core_view c" using e(1) by simp
qed

lemma sync_resumes:
  assumes "aapcs sw" "own_frame sw" "aapcs h" "places_ok t c"
  defines "d \<equiv> h (sync_call_state sw t c)"
  assumes "region (curr_ctx t d) CTX_SIZE \<subseteq> region (t_sched t) SCHED_SIZE"
  shows "core_view (sync_el1 sw h t c) = ctx_view (cmem d) (curr_ctx t d)"
proof -
  note k = sync_called [OF assms(1,2,4)]
  have "region (kernel_sp t c - 4096) 4096 \<inter> region (t_sched t) SCHED_SIZE = {}"
    using assms(4) frame_sub(1) [of "kernel_sp t c"] by (auto simp: places_ok_def kernel_sp_def)
  then have "region (spr d - 4096) 4096 \<inter> region (t_sched t) SCHED_SIZE = {}" "xr d 21 = t_sched t"
    using k(2,3) by (simp_all add: d_def aapcsD [OF assms(3)])
  from resumed [OF assms(1,2) this(2,1) assms(6)] show ?thesis
    by (simp add: sync_el1_def restore_ok(1) del: exec_simps(3) flip: d_def)
qed

lemma irq_resumes:
  assumes "aapcs sw" "own_frame sw" "aapcs h" "places_ok t c"
  defines "k \<equiv> irq_call_state sw t c"
  assumes "region (curr_ctx t (h k)) CTX_SIZE \<subseteq> region (t_sched t) SCHED_SIZE"
    "load64 (cmem (h k)) (spr k) = load64 (cmem k) (spr k)"
  shows "core_view (irq_el1 sw h t c) = ctx_view (cmem (h k)) (curr_ctx t (h k))" "eoir (irq_el1 sw h t c) = t_iar t"
proof -
  note c = irq_called [OF assms(1,2,4)]
  have "region (kernel_sp t c - 16 - 4096) 4096 \<inter> region (t_sched t) SCHED_SIZE = {}"
    using assms(4) frame_sub(2) [of "kernel_sp t c"] by (auto simp: places_ok_def kernel_sp_def)
  then have "region (spr (h k) - 4096) 4096 \<inter> region (t_sched t) SCHED_SIZE = {}" "xr (h k) 21 = t_sched t"
    using c(2,3) by (simp_all add: k_def aapcsD [OF assms(3)])
  note r = resumed [OF assms(1,2) this(2,1) assms(6)]
  show "core_view (irq_el1 sw h t c) = ctx_view (cmem (h k)) (curr_ctx t (h k))"
    using r by (simp add: irq_el1_def restore_ok(2) del: exec_simps(3) flip: k_def)
  show "eoir (irq_el1 sw h t c) = t_iar t"
    using r(3) assms(7) c(6) by (simp add: irq_el1_def restore_ok(3) aapcsD [OF assms(3)] del: exec_simps(3) flip: k_def)
qed

text \<open>
  C14: the interrupt entry switches contexts without losing a register. With the compiled C functions
  keeping to the procedure call standard, \<open>mmu_map_switch\<close> writing only its frame, and the scratch area, the
  kernel's stack and the scheduler state in different places, the handler is called with the interrupted
  \<open>x0\<close> to \<open>x30\<close>, stack pointer, program counter and state all saved in the context of the current process
  (and with that context and the interrupt number as its arguments), and the entry leaves with exactly the
  registers that the context of the process then current holds, having ended the interrupt it acknowledged.
  When the handler keeps the process and its context, the interrupted registers are back.
\<close>

theorem irq_el1_switches:
  assumes "aapcs sw" "own_frame sw" "aapcs h" "places_ok t c"
    and "region (curr_ctx t (h (irq_call_state sw t c))) CTX_SIZE \<subseteq> region (t_sched t) SCHED_SIZE"
    and "load64 (cmem (h (irq_call_state sw t c))) (spr (irq_call_state sw t c)) =
      load64 (cmem (irq_call_state sw t c)) (spr (irq_call_state sw t c))"
  shows "let k = irq_call_state sw t c; d = h k; r = irq_el1 sw h t c in
    ctx_view (cmem k) (curr_ctx t c) = core_view c \<and> xr k 0 = curr_ctx t c \<and> xr k 1 = t_iar t AND 0xFFFFFF \<and>
    core_view r = ctx_view (cmem d) (curr_ctx t d) \<and> eoir r = t_iar t \<and>
    (curr_ctx t d = curr_ctx t c \<and> ctx_view (cmem d) (curr_ctx t d) = ctx_view (cmem k) (curr_ctx t d) \<longrightarrow>
     core_view r = core_view c)"
  using irq_called [OF assms(1,2,4)] irq_resumes [OF assms] unfolding Let_def by (intro conjI impI; (elim conjE)?; simp)

text \<open>An interrupt that makes another process current: the table at \<open>0x400000\<close>, the kernel's stack at \<open>0x900000\<close>.\<close>

definition demo_trap :: trap_in where
  "demo_trap = \<lparr>t_sched = 0x400000, t_iar = 30, t_esr = 0, t_far = 0\<rparr>"

definition demo_core :: cpu where
  "demo_core = \<lparr>xr = (\<lambda>i. of_nat i), spr = 0x1000000, elr = 0x2000, spsr = 5, eoir = 0,
     cmem = store64 (store64 (\<lambda>_. 0) 0x400390 0x4003A0) 0x4000F8 0x900000\<rparr>"

definition demo_switch :: "cpu \<Rightarrow> cpu" where
  "demo_switch c = set_x 0 1 c"

definition demo_handler :: "cpu \<Rightarrow> cpu" where
  "demo_handler c = c\<lparr>cmem := store64 (cmem c) 0x400390 0x400730\<rparr>"

lemma region_nat:
  assumes "b + n \<le> 2 ^ 64"
  shows "region (of_nat b) n = {a. b \<le> unat a \<and> unat a < b + n}"
proof (cases "n = 0")
  case False
  then have b: "b < 18446744073709551616" using assms by simp
  show ?thesis
  proof (rule set_eqI)
    fix a :: u64
    show "a \<in> region (of_nat b) n \<longleftrightarrow> a \<in> {a. b \<le> unat a \<and> unat a < b + n}"
    proof
      assume r: "a \<in> region (of_nat b) n"
      define d where "d = a - of_nat b"
      have "unat d + b < 18446744073709551616" using assms r by (simp add: region_def d_def)
      then have "unat (d + of_nat b) = unat d + b" using b by (simp add: unat_word_ariths)
      then have "unat a = unat (a - of_nat b) + b" by (simp add: d_def)
      then show "a \<in> {a. b \<le> unat a \<and> unat a < b + n}" using r by (simp add: region_def)
    next
      assume r: "a \<in> {a. b \<le> unat a \<and> unat a < b + n}"
      then have "unat (a - of_nat b) = unat a - b" using unat_sub [of "of_nat b" a] b by (simp add: word_le_nat_alt)
      then show "a \<in> region (of_nat b) n" using r by (auto simp: region_def)
    qed
  qed
qed (simp add: region_def)

lemma demo_regions:
  "region 0x400000 SCHED_SIZE = {a. 0x400000 \<le> unat a \<and> unat a < 7975856}"
  "region 0xFFFFE0 32 = {a. 0xFFFFE0 \<le> unat a \<and> unat a < 0x1000000}"
  "region 0x4003A0 CTX_SIZE = {a. 0x4003A0 \<le> unat a \<and> unat a < 0x4006D0}"
  "region 0x400730 CTX_SIZE = {a. 0x400730 \<le> unat a \<and> unat a < 0x400A60}"
  "region 0x8FEFF0 4112 = {a. 0x8FEFF0 \<le> unat a \<and> unat a < 0x900000}"
  using region_nat [of "0x400000" SCHED_SIZE] region_nat [of "0xFFFFE0" 32] region_nat [of "0x4003A0" CTX_SIZE]
    region_nat [of "0x400730" CTX_SIZE] region_nat [of "0x8FEFF0" 4112]
  by (simp_all add: offset_values)

lemma load_numeral:
  "numeral i < (2 ^ 32 :: nat) \<Longrightarrow> numeral j < (2 ^ 32 :: nat) \<Longrightarrow>
   numeral i + 8 \<le> (numeral j :: nat) \<or> numeral j + 8 \<le> (numeral i :: nat) \<Longrightarrow>
   load64 (store64 m (numeral i) v) (numeral j) = load64 m (numeral j)"
  using load_slot_numeral(1) [where p = 0] by simp

lemma demo_places: "places_ok demo_trap demo_core" "curr_ctx demo_trap demo_core = 0x4003A0"
  "kernel_sp demo_trap demo_core = 0x900000"
proof -
  show c: "curr_ctx demo_trap demo_core = 0x4003A0"
    by (simp add: curr_ctx_def demo_trap_def demo_core_def offset_values load_numeral)
  show k: "kernel_sp demo_trap demo_core = 0x900000"
    by (simp add: kernel_sp_def enter_kernel_def save_ctx_def KERNEL_SP_def demo_trap_def demo_core_def offset_values
        load_numeral)
  show "places_ok demo_trap demo_core"
    using c k unfolding places_ok_def curr_ctx_def kernel_sp_def
    by (simp add: demo_regions demo_trap_def) (simp add: demo_core_def demo_regions, auto simp: demo_regions)
qed

theorem irq_el1_switches_witness:
  "ctx_view (cmem (irq_call_state demo_switch demo_trap demo_core)) 0x4003A0 = core_view demo_core \<and>
   core_view (irq_el1 demo_switch demo_handler demo_trap demo_core) =
     ctx_view (cmem (demo_handler (irq_call_state demo_switch demo_trap demo_core))) 0x400730 \<and>
   eoir (irq_el1 demo_switch demo_handler demo_trap demo_core) = 30"
proof -
  let ?k = "irq_call_state demo_switch demo_trap demo_core"
  have a: "aapcs demo_switch" "own_frame demo_switch" "aapcs demo_handler"
    by (simp_all add: aapcs_def own_frame_def demo_switch_def demo_handler_def)
  have s: "spr ?k = 0x8FFFF0" using irq_called(3) [OF a(1,2) demo_places(1)] demo_places(3) by simp
  have h: "curr_ctx demo_trap (demo_handler ?k) = 0x400730"
    by (simp add: curr_ctx_def demo_handler_def demo_trap_def offset_values)
  have "load64 (cmem (demo_handler ?k)) (spr ?k) = load64 (cmem ?k) (spr ?k)"
    by (simp add: s demo_handler_def load_numeral)
  moreover have "region (curr_ctx demo_trap (demo_handler ?k)) CTX_SIZE \<subseteq> region (t_sched demo_trap) SCHED_SIZE"
    unfolding h by (auto simp: demo_regions demo_trap_def)
  ultimately show ?thesis
    using irq_el1_switches [OF a demo_places(1)] by (simp add: h demo_places(2) Let_def) (simp add: demo_trap_def)
qed

end
