(* ===== verification/Loader.thy ===== *)
theory Loader
  imports Rtcore
begin

text \<open>
  The Linux program that loads code into the shared window and starts or schedules it:
  \<^verbatim>\<open>userspace/loader.c\<close>. What Linux decides is the environment \<open>lenv\<close>: which calls succeed, the contents of the
  program file, and the address it picks for the mapping. A mapping covers whole pages of \<open>2 ^ ps\<close> bytes.
\<close>

section \<open>Operations\<close>

record lenv =
  le_argc :: nat
  le_open :: bool
  le_stat :: bool
  le_file :: "u8 list"
  le_dev :: bool
  le_vma :: u64
  le_remap :: bool
  le_map :: bool

type_synonym host = "rtmod \<times> memory"

definition start_kernel_cmd ::
  "u64 \<Rightarrow> (u64 \<Rightarrow> u64 \<Rightarrow> u64 \<Rightarrow> u64) \<Rightarrow> nat \<Rightarrow> u64 \<Rightarrow> u64 \<Rightarrow> rtmod \<Rightarrow> rtmod res" where
  "start_kernel_cmd ctr fw fd entry core_id d =
     bindE (rtcore_ioctl ctr fw fd (RTCORE_IOCTL_START_CPU (Some \<lparr>sa_entry_user = entry, sa_core_id = core_id\<rparr>)) d)
       (\<lambda>(r, d). Inr d)"

definition sched_prog ::
  "u64 \<Rightarrow> (u64 \<Rightarrow> u64 \<Rightarrow> u64 \<Rightarrow> u64) \<Rightarrow> nat \<Rightarrow> u64 \<Rightarrow> u64 \<Rightarrow> rtmod \<Rightarrow> rtmod res" where
  "sched_prog ctr fw fd entry mem_req d =
     bindE (rtcore_ioctl ctr fw fd (RTCORE_IOCTL_SCHED_PROG (Some \<lparr>pa_entry_user = entry, pa_mem_req = mem_req\<rparr>)) d)
       (\<lambda>(r, d). Inr d)"

definition page_up :: "nat \<Rightarrow> nat \<Rightarrow> nat" where
  "page_up ps n = (n + 2 ^ ps - 1) div 2 ^ ps * 2 ^ ps"

text \<open>
  \<open>mmap\<close> of the device: Linux refuses an empty mapping, rounds the length up to whole pages and calls the
  driver; the result is the address, or \<open>None\<close> for \<open>MAP_FAILED\<close>.
\<close>

definition dev_mmap :: "nat \<Rightarrow> lenv \<Rightarrow> nat \<Rightarrow> nat \<Rightarrow> rtmod \<Rightarrow> (u64 option \<times> rtmod) res" where
  "dev_mmap ps env fd len d =
     (if len = 0 then Inr (None, d)
      else bindE (rtcore_mmap ps (le_remap env) fd (le_vma env) (le_vma env + of_nat (page_up ps len)) d)
             (\<lambda>(r, d). Inr (if r = 0 then Some (le_vma env) else None, d)))"

text \<open>\<open>memcpy\<close> into the mapping: its first byte is the physical byte at \<open>phys_base\<close>.\<close>

definition put_bytes :: "u64 \<Rightarrow> u8 list \<Rightarrow> memory \<Rightarrow> memory" where
  "put_bytes p bs m = (\<lambda>a. if unat p \<le> unat a \<and> unat a < unat p + length bs then bs ! (unat a - unat p) else m a)"

definition loader_main ::
  "nat \<Rightarrow> u64 \<Rightarrow> (u64 \<Rightarrow> u64 \<Rightarrow> u64 \<Rightarrow> u64) \<Rightarrow> lenv \<Rightarrow> nat \<Rightarrow> host \<Rightarrow> (int \<times> host) res" where
  "loader_main ps ctr fw env fd h =
     (let (d, m) = h;
          st_size = length (le_file env)
      in if le_argc env < 2 then Inr (1, h)
         else if \<not> le_open env then Inr (1, h)
         else if \<not> le_stat env then Inr (1, h)
         else if st_size > unat JRT_CODE_SIZE then Inr (1, h)
         else
           (case rtcore_open (le_dev env) fd d of (r, d) \<Rightarrow>
              if r < 0 then Inr (1, d, m)
              else
                bindE (dev_mmap ps env fd (st_size * 2) d) (\<lambda>(jrt_mem, d).
                  case jrt_mem of None \<Rightarrow> Inr (1, d, m)
                  | Some a \<Rightarrow>
                      if \<not> le_map env then Inr (1, d, m)
                      else
                        (let pb = (case private_data d fd of None \<Rightarrow> 0 | Some c \<Rightarrow> phys_base c);
                             m = put_bytes pb (le_file env) m
                         in bindE (if le_argc env > 2 then sched_prog ctr fw fd a 0x10000 d
                                   else start_kernel_cmd ctr fw fd a 3 d)
                              (\<lambda>d. Inr (0, d, m))))))"

section \<open>Properties\<close>

lemma page_up_bounds: "0 < n \<Longrightarrow> n \<le> page_up ps n \<and> 0 < page_up ps n" "2 ^ ps dvd page_up ps n"
proof -
  let ?p = "2 ^ ps :: nat"
  show "2 ^ ps dvd page_up ps n" by (simp add: page_up_def)
  assume n: "0 < n"
  have "(n + ?p - 1) div ?p * ?p + (n + ?p - 1) mod ?p = n + ?p - 1" by (rule div_mult_mod_eq)
  moreover have "(n + ?p - 1) mod ?p < ?p" by (rule mod_less_divisor) simp
  ultimately have "n \<le> page_up ps n" unfolding page_up_def by linarith
  then show "n \<le> page_up ps n \<and> 0 < page_up ps n" using n by simp
qed

lemma put_bytes_at:
  assumes "unat p + length bs < 2 ^ 64" "i < length bs"
  shows "put_bytes p bs m (p + of_nat i) = bs ! i"
proof -
  have "unat (p + of_nat i) = unat p + i" using assms by (simp add: unat_word_ariths)
  then show ?thesis using assms(2) by (simp add: put_bytes_def)
qed

text \<open>
  C29: loading a program delivers the file. For a file that fits, twice rounded up to pages, into what is left of
  the code window, and when Linux grants every call, the loader returns 0; the bytes of the file are then in physical
  memory at the start of a fresh window, nothing else of memory has changed, and one more request is queued, which
  names that window and asks for 64 KiB of memory.
\<close>

theorem loader_delivers:
  assumes inv: "rt_inv ps d" and ps: "ps \<le> 28" "2 \<le> ps" and new: "private_data d fd = None"
    and q: "ring_rep (tojrt_ring d) q" "length q < 4096"
    and virt: "unat (jrt_mem_virt d) + unat JRT_CODE_SIZE + 2 ^ 18 \<le> 2 ^ 64"
    and env: "2 < le_argc env" "le_open env" "le_stat env" "le_dev env" "le_remap env" "le_map env" "le_file env \<noteq> []"
    and fits: "unat (G_MEM_OFF d) + page_up ps (2 * length (le_file env)) \<le> unat JRT_CODE_SIZE"
    and vma: "2 ^ ps dvd unat (le_vma env)" "unat (le_vma env) < 2 ^ 55"
  defines "pc \<equiv> JRT_CODE_PHYS + G_MEM_OFF d" and "n \<equiv> page_up ps (2 * length (le_file env))"
  shows "\<exists>d' m'. loader_main ps ctr fw env fd (d, m) = Inr (0, d', m') \<and>
    ring_rep (tojrt_ring d') (q @ [\<lparr>rq_pc = pc, rq_prog_size = of_nat n, rq_mem_req = 0x10000\<rparr>]) \<and>
    (\<forall>i < length (le_file env). m' (pc + of_nat i) = le_file env ! i) \<and>
    (\<forall>a. unat a \<notin> {unat pc..<unat pc + length (le_file env)} \<longrightarrow> m' a = m a)"
proof -
  let ?a = "le_vma env" and ?len = "length (le_file env)"
  have n: "2 * ?len \<le> n" "0 < n" "2 ^ ps dvd n"
    using page_up_bounds(1) [of "2 * ?len" ps] page_up_bounds(2) [of ps "2 * ?len"] env(7) by (auto simp: n_def)
  have nb: "n \<le> 0x1000000" "unat (G_MEM_OFF d) + n \<le> 0x1000000" using fits by (simp_all add: n_def JRT_CODE_SIZE_def)
  define d1 where "d1 = d\<lparr>private_data := (private_data d)(fd \<mapsto> \<lparr>user_base = 0, user_len = 0, phys_base = 0, first_off = 0, mapped = False\<rparr>)\<rparr>"
  have o: "rtcore_open True fd d = (0, d1)" by (simp add: rtcore_open_def d1_def)
  have inv1: "rt_inv ps d1" using rstep_keeps [OF rstep.opened [OF new o] inv] .
  have g1: "G_MEM_OFF d1 = G_MEM_OFF d" by (simp add: d1_def)
  let ?ve = "?a + of_nat n"
  have un: "unat (of_nat n :: u64) = n" using nb(1) by simp
  have ve: "unat ?ve = unat ?a + n" using vma(2) nb(1) un by (simp add: unat_word_ariths)
  have sz: "?ve - ?a = of_nat n" by simp
  define c where "c = \<lparr>user_base = ?a, user_len = of_nat n, phys_base = pc, first_off = 0, mapped = True\<rparr>"
  define d2 where "d2 = d1\<lparr>private_data := (private_data d1)(fd \<mapsto> c), G_MEM_OFF := G_MEM_OFF d + of_nat n\<rparr>"
  have "unat (G_MEM_OFF d + of_nat n) = unat (G_MEM_OFF d) + n" using nb(2) un by (simp add: unat_word_ariths)
  then have "\<not> G_MEM_OFF d + of_nat n > JRT_CODE_SIZE" using nb(2) by (simp add: word_less_nat_alt JRT_CODE_SIZE_def)
  then have mm: "rtcore_mmap ps True fd ?a ?ve d1 = Inr (0, d2)"
    unfolding mmap_eval [OF inv1 ps(1)] sz g1 by (simp add: d2_def c_def pc_def d1_def)
  have "vma_ok ps ?a ?ve"
    unfolding vma_ok_def word_le_nat_alt ve using vma n(3) nb(1) by (simp add: dvd_add)
  from mmap_inv [OF inv1 this ps(1) mm] have inv2: "rt_inv ps d2" .
  have f2: "private_data d2 fd = Some c" "tojrt_ring d2 = tojrt_ring d" "jrt_mem_virt d2 = jrt_mem_virt d"
    by (simp_all add: d2_def d1_def)
  have upc: "unat pc = 0x50000000 + unat (G_MEM_OFF d)" unfolding pc_def by (rule cursor_page(1) [OF inv ps(1)])
  have "(2 :: nat) ^ 2 dvd 2 ^ ps" using ps(2) by (rule le_imp_power_dvd)
  then have "2 ^ 2 dvd unat pc"
    using cursor_page(2) [OF inv ps(1)] unfolding pc_def by (rule dvd_trans)
  from page_split(1) [OF this] have al: "pc AND 3 = 0" by simp
  have "\<not> ?a \<ge> ?ve" "\<not> pc < JRT_CODE_PHYS" "\<not> pc \<ge> JRT_CODE_PHYS + JRT_CODE_SIZE"
    using ve n(2) upc nb(2) by (simp_all add: word_le_nat_alt word_less_nat_alt JRT_CODE_PHYS_def JRT_CODE_SIZE_def)
  then have e: "entry_of (Some c) ?a = Inr pc" using al by (simp add: entry_of_def c_def)
  have r: "rest_of (Some c) ?a = of_nat n" by (simp add: rest_of_def c_def)
  obtain d' where d': "rtcore_sched_prog ctr fd (Some \<lparr>pa_entry_user = ?a, pa_mem_req = 0x10000\<rparr>) d2 = Inr (0, d')"
    "ring_rep (tojrt_ring d') (q @ [\<lparr>rq_pc = pc, rq_prog_size = of_nat n, rq_mem_req = 0x10000\<rparr>])"
    using sched_prog_ok [OF inv2 f2(1) _ q(2) _ e, of ctr "0x10000"] q(1) virt unfolding f2 r by auto
  have "\<not> ?len > unat JRT_CODE_SIZE" using n(1) nb(1) by (simp add: JRT_CODE_SIZE_def)
  then have "loader_main ps ctr fw env fd (d, m) = Inr (0, d', put_bytes pc (le_file env) m)"
    using env o mm d'(1) f2(1) n_def
    by (simp add: loader_main_def dev_mmap_def sched_prog_def rtcore_ioctl_def Let_def c_def mult.commute)
  moreover have "unat pc + ?len < 2 ^ 64" using upc nb n(1) by simp
  then have "\<forall>i < ?len. put_bytes pc (le_file env) m (pc + of_nat i) = le_file env ! i"
    using put_bytes_at by blast
  moreover have "\<forall>a. unat a \<notin> {unat pc..<unat pc + ?len} \<longrightarrow> put_bytes pc (le_file env) m a = m a"
    by (simp add: put_bytes_def)
  ultimately show ?thesis using d'(2) by blast
qed

definition demo_lenv :: lenv where
  "demo_lenv = \<lparr>le_argc = 3, le_open = True, le_stat = True, le_file = [0xE0, 0x03, 0x1F, 0xAA], le_dev = True,
     le_vma = 0x7F0000000000, le_remap = True, le_map = True\<rparr>"

theorem loader_delivers_witness:
  "\<exists>d' m'. loader_main 12 0x84448004 (\<lambda>_ _ _. 0) demo_lenv 5 (demo_mapped, \<lambda>_. 0) = Inr (0, d', m') \<and>
     ring_rep (tojrt_ring d') [\<lparr>rq_pc = 0x50005000, rq_prog_size = 0x1000, rq_mem_req = 0x10000\<rparr>] \<and>
     m' 0x50005000 = 0xE0"
proof -
  have g: "G_MEM_OFF demo_mapped = 0x5000" "private_data demo_mapped 5 = None"
    "unat (jrt_mem_virt demo_mapped) + unat JRT_CODE_SIZE + 2 ^ 18 \<le> 2 ^ 64"
    by (simp_all add: demo_mapped_def demo_driver_def JRT_CODE_SIZE_def)
  have pu: "page_up 12 (2 * length (le_file demo_lenv)) = 0x1000" by (simp add: demo_lenv_def page_up_def)
  have x: "\<exists>d' m'. loader_main 12 0x84448004 (\<lambda>_ _ _. 0) demo_lenv 5 (demo_mapped, \<lambda>_. 0) = Inr (0, d', m') \<and>
      ring_rep (tojrt_ring d') ([] @ [\<lparr>rq_pc = JRT_CODE_PHYS + G_MEM_OFF demo_mapped,
        rq_prog_size = of_nat (page_up 12 (2 * length (le_file demo_lenv))), rq_mem_req = 0x10000\<rparr>]) \<and>
      (\<forall>i < length (le_file demo_lenv). m' (JRT_CODE_PHYS + G_MEM_OFF demo_mapped + of_nat i) = le_file demo_lenv ! i) \<and>
      (\<forall>a. unat a \<notin> {unat (JRT_CODE_PHYS + G_MEM_OFF demo_mapped)..<
          unat (JRT_CODE_PHYS + G_MEM_OFF demo_mapped) + length (le_file demo_lenv)} \<longrightarrow> m' a = 0)"
    using g by (intro loader_delivers [OF demo_mapped_inv]) (simp_all add: demo_ring_empty demo_lenv_def page_up_def JRT_CODE_SIZE_def)
  then show ?thesis
    unfolding pu g by (fastforce simp: JRT_CODE_PHYS_def demo_lenv_def)
qed

end
