(* ===== verification/User.thy ===== *)
theory User
  imports Sync
begin

text \<open>
  The user side: \<open>invoke_syscall\<close> and \<open>syscall\<close> of \<^verbatim>\<open>rtprog/syscall.c\<close>, \<open>jrt_exit\<close> of \<^verbatim>\<open>rtprog/rtprog.c\<close> and the
  sample program \<^verbatim>\<open>rtprog/app/main.c\<close>, which is linked against the kernel's functions and shares its clock and
  console.
\<close>

section \<open>Making a system call\<close>

text \<open>The registers at the \<open>svc\<close>.\<close>

definition invoke_syscall :: "u64 \<Rightarrow> u64 \<Rightarrow> u64 \<Rightarrow> u64 \<Rightarrow> u64 \<Rightarrow> u64 \<Rightarrow> u64 \<Rightarrow> ctx_t \<Rightarrow> ctx_t" where
  "invoke_syscall nr a0 a1 a2 a3 a4 a5 c =
     c\<lparr>cx_x := (cx_x c)(8 := nr, 0 := a0, 1 := a1, 2 := a2, 3 := a3, 4 := a4, 5 := a5)\<rparr>"

text \<open>
  \<open>syscall\<close> with its variable arguments. For \<open>SYSCALL_SPAWN\<close> the four \<open>va_arg\<close> are arguments of one call,
  and C does not order their evaluation: \<open>ord i\<close> is the position at which the compiler evaluates the \<open>i\<close>-th.
\<close>

definition va_u64 :: "u64 list \<Rightarrow> nat \<Rightarrow> u64 res" where
  "va_u64 va i = (if i < length va then Inr (va ! i) else Inl Undefined)"

definition syscall :: "(nat \<Rightarrow> nat) \<Rightarrow> syscall_t \<Rightarrow> u64 list \<Rightarrow> ctx_t \<times> uart \<Rightarrow> (ctx_t \<times> uart) res" where
  "syscall ord call va cu =
     (case cu of (c, u) \<Rightarrow>
      (case call of
         SYSCALL_WAIT_UNTIL \<Rightarrow>
           bindE (va_u64 va 0) (\<lambda>until.
           bindE (seqE [uart_puts ''invoke syscall WAIT_UNTIL('', uart_putu64 until, uart_puts '')\<newline>''] u) (\<lambda>u.
             Inr (invoke_syscall (syscall_nr SYSCALL_WAIT_UNTIL) until 0 0 0 0 0 c, u)))
       | SYSCALL_EXIT \<Rightarrow> Inr (invoke_syscall (syscall_nr SYSCALL_EXIT) 0 0 0 0 0 0 c, u)
       | SYSCALL_SPAWN \<Rightarrow>
           bindE (va_u64 va (ord 0)) (\<lambda>a0. bindE (va_u64 va (ord 1)) (\<lambda>a1.
           bindE (va_u64 va (ord 2)) (\<lambda>a2. bindE (va_u64 va (ord 3)) (\<lambda>a3.
             Inr (invoke_syscall (syscall_nr SYSCALL_SPAWN) a0 a1 a2 a3 0 0 c, u)))))))"

definition jrt_exit :: "(nat \<Rightarrow> nat) \<Rightarrow> ctx_t \<times> uart \<Rightarrow> (ctx_t \<times> uart) res" where
  "jrt_exit ord = syscall ord SYSCALL_EXIT []"

section \<open>The sample program\<close>

text \<open>
  The program's view: the clock it reads, the console, and the system calls it has made. A call returns
  when the kernel resumes the program.
\<close>

record app =
  ap_timer :: timer
  ap_uart :: uart
  ap_calls :: "(syscall_t \<times> u64 list) list"

definition ap_say :: "(uart \<Rightarrow> uart res) list \<Rightarrow> app \<Rightarrow> app res" where
  "ap_say fs a = bindE (seqE fs (ap_uart a)) (\<lambda>u. Inr (a\<lparr>ap_uart := u\<rparr>))"

definition ap_syscall :: "syscall_t \<Rightarrow> u64 list \<Rightarrow> app \<Rightarrow> app" where
  "ap_syscall call va a = a\<lparr>ap_calls := ap_calls a @ [(call, va)]\<rparr>"

definition wait :: "u32 \<Rightarrow> u64 \<Rightarrow> u64 \<Rightarrow> u32 \<Rightarrow> app \<Rightarrow> app res" where
  "wait sec mem mem_size p a =
     bindE (ap_say [uart_puts ''proc: '', uart_putu32 p, uart_puts ''\<newline>'', uart_puts ''started with '',
                    uart_putu64 mem_size, uart_puts '' bytes att address: '', uart_puthex mem] a) (\<lambda>a.
       (let (now_us, t) = time_now_us (ap_timer a);
            a = a\<lparr>ap_timer := t\<rparr>;
            dl_us = now_us + ucast sec * 1000000;
            dl_ticks = ticks_from_us (ap_timer a) dl_us
        in bindE (ap_say [uart_puts ''now: '', uart_putu64 now_us, uart_puts '' us\<newline>'', uart_puts ''deadline: '',
                          uart_putu64 dl_us, uart_puts '' us\<newline>'', uart_puts ''deadline: '', uart_putu64 dl_ticks,
                          uart_puts '' ticks\<newline>'', uart_puts ''\<newline> waiting '', uart_putu32 sec, uart_puts '' sec\<newline>''] a) (\<lambda>a.
             ap_say [uart_puts ''\<newline>terminating\<newline>''] (ap_syscall SYSCALL_WAIT_UNTIL [dl_ticks] a))))"

definition func :: "u64 \<Rightarrow> u64 \<Rightarrow> u64 \<Rightarrow> app \<Rightarrow> app res" where
  "func mem mem_size arg a =
     bindE (seqE (replicate 10 (wait 1 mem mem_size 2)) a) (ap_say [uart_puts ''func exit\<newline>''])"

definition app_main :: "u64 \<Rightarrow> u64 \<Rightarrow> u64 \<Rightarrow> app \<Rightarrow> app res" where
  "app_main func_adr mem mem_size a =
     (let (now_us, t) = time_now_us (ap_timer a);
          a = a\<lparr>ap_timer := t\<rparr>;
          dl_us = now_us + 5000000;
          dl_ticks = ticks_from_us (ap_timer a) dl_us;
          a = ap_syscall SYSCALL_SPAWN [dl_ticks, func_adr, 0, 0xFF] a
      in bindE (seqE (replicate 10 (wait 2 mem mem_size 1)) a) (ap_say [uart_puts ''main exit\<newline>'']))"

section \<open>Properties\<close>

lemma prints_putu64 [intro]: "\<exists>t. prints (uart_putu64 v) t"
  using prints_puts_ex [of "fill_digits (\<lambda>d. digit_char (unat d)) 10 20 v []"] prints_putc [of "CHR ''0''"]
  by (cases "v = 0") (auto simp: uart_putu64_def prints_def)

lemma take_syscall_in:
  assumes "s_curr (k_sched k) = Some p" "c = p_ctx (deref (k_sched k) p)"
  shows "take_syscall dl0 k =
    (if cx_x c 8 = 0 then wait_until dl0 (cx_x c 0) k
     else if cx_x c 8 = 1 then exit k
     else if cx_x c 8 = 2 then spawn dl0 (cx_x c 0) (cx_x c 1) (cx_x c 2) (cx_x c 3) k
     else Inr k)"
  using assms by (simp add: take_syscall_def syscall_nr_def Let_def)

definition enough :: "(nat \<Rightarrow> nat) \<Rightarrow> syscall_t \<Rightarrow> u64 list \<Rightarrow> bool" where
  "enough ord call va =
     (case call of SYSCALL_WAIT_UNTIL \<Rightarrow> 0 < length va | SYSCALL_EXIT \<Rightarrow> True
      | SYSCALL_SPAWN \<Rightarrow> ord 0 < length va \<and> ord 1 < length va \<and> ord 2 < length va \<and> ord 3 < length va)"

text \<open>
  C30: a system call arrives as it was made. On a console that drains the wrapper reaches the
  \<open>svc\<close>, and with the registers it leaves there the handler runs \<open>wait_until\<close> with the given time, \<open>exit\<close>, or
  \<open>spawn\<close>. Only \<open>spawn\<close> depends on the compiler: its four arguments arrive in the order in which the \<open>va_arg\<close> expressions
  were evaluated, so deadline, entry point, argument and memory size are the caller's exactly when that
  order is left to right.
\<close>

theorem syscall_arrives:
  assumes "drains u" "enough ord call va"
  shows "\<exists>c' u'. syscall ord call va (c, u) = Inr (c', u') \<and>
    (\<forall>k p. s_curr (k_sched k) = Some p \<and> p_ctx (deref (k_sched k) p) = c' \<longrightarrow>
       take_syscall dl0 k =
         (case call of
            SYSCALL_WAIT_UNTIL \<Rightarrow> wait_until dl0 (va ! 0) k
          | SYSCALL_EXIT \<Rightarrow> exit k
          | SYSCALL_SPAWN \<Rightarrow> spawn dl0 (va ! ord 0) (va ! ord 1) (va ! ord 2) (va ! ord 3) k))"
proof -
  let ?say = "seqE [uart_puts ''invoke syscall WAIT_UNTIL('', uart_putu64 (va ! 0), uart_puts '')\<newline>'']"
  have "\<exists>t. prints ?say t" by (intro prints_seqE_ex) auto
  then obtain u1 where "?say u = Inr u1" using assms(1) unfolding prints_def by blast
  then obtain c' u' where c': "syscall ord call va (c, u) = Inr (c', u')"
    using assms(2) by (cases call) (auto simp: syscall_def va_u64_def enough_def)
  have "take_syscall dl0 k =
         (case call of
            SYSCALL_WAIT_UNTIL \<Rightarrow> wait_until dl0 (va ! 0) k
          | SYSCALL_EXIT \<Rightarrow> exit k
          | SYSCALL_SPAWN \<Rightarrow> spawn dl0 (va ! ord 0) (va ! ord 1) (va ! ord 2) (va ! ord 3) k)"
    if "s_curr (k_sched k) = Some p" "p_ctx (deref (k_sched k) p) = c'" for k p
    using c' unfolding take_syscall_in [OF that(1) that(2) [symmetric]]
    by (auto simp: syscall_def invoke_syscall_def syscall_nr_def va_u64_def split: syscall_t.splits if_splits)
  then show ?thesis using c' by blast
qed

text \<open>With the argument evaluated last to first, a call \<open>spawn(deadline, entry, arg, size)\<close> runs \<open>spawn(size, arg, entry, deadline)\<close>.\<close>

theorem syscall_arrives_witness:
  "\<exists>c' u'. syscall (\<lambda>i. 3 - i) SYSCALL_SPAWN [900, 0x100, 0, 0xFF] (demo_ctx, demo_uart) = Inr (c', u') \<and>
     (\<forall>k p. s_curr (k_sched k) = Some p \<and> p_ctx (deref (k_sched k) p) = c' \<longrightarrow>
        take_syscall 7 k = spawn 7 0xFF 0 0x100 900 k)"
  using syscall_arrives [OF demo_uart_drains, of "\<lambda>i. 3 - i" SYSCALL_SPAWN "[900, 0x100, 0, 0xFF]" demo_ctx 7]
  by (simp add: enough_def numeral_eq_Suc)

end
