(* ===== verification/Dump.thy ===== *)
theory Dump
  imports Sync
begin

text \<open>
  The functions that print the state of the system: \<open>pr_map\<close>, \<open>dump_map\<close> and \<open>dump_mem\<close> of \<^verbatim>\<open>rtprog/mmu.c\<close>,
  \<open>uart_dump_ctx\<close>, \<open>dump_proc\<close> and \<open>dump_sched\<close> of \<^verbatim>\<open>rtprog/sched.c\<close>, and \<open>dump_alloc\<close> of \<^verbatim>\<open>rtprog/alloc.c\<close>. They read the
  memory or the scheduler's state, which is an argument, and write to the console only.
\<close>

section \<open>Page tables\<close>

definition pr_map :: "u64 \<Rightarrow> u64 \<Rightarrow> u64 \<Rightarrow> uart \<Rightarrow> uart res" where
  "pr_map va pa len =
     seqE [uart_puts ''[MMU]: map PA ['', uart_puthex pa, uart_puts '', '', uart_puthex (pa + len),
           uart_puts '') -> ['', uart_puthex va, uart_puts '', '', uart_puthex (va + len), uart_puts '')\<newline>'']"

definition root_table_va :: "mmu_map_t \<Rightarrow> u64" where
  "root_table_va mp = (if l0 (root mp) \<noteq> 0 then l0 (root mp) else l0_pa (root mp))"

definition desc_kind :: "u64 \<Rightarrow> nat \<Rightarrow> nat" where
  "desc_kind d level =
     (if d AND PTE_VALID = 0 then 0
      else
        (let low2 = d AND 3 in
         if level < 3 then
           (if low2 = DESC_TABLE then 1
            else if low2 = DESC_BLOCK \<and> (level = 1 \<or> level = 2) then 2
            else 0)
         else (if low2 = DESC_PAGE then 2 else 0)))"

definition outaddr_mask :: u64 where
  "outaddr_mask =
     (let pa_field_mask = (if PA_BITS \<ge> 64 then NOT 0 else push_bit (unat PA_BITS) 1 - 1)
      in pa_field_mask AND PAGE_MASK)"

definition desc_outaddr :: "u64 \<Rightarrow> u64" where
  "desc_outaddr d = d AND outaddr_mask"

definition level_span_bytes :: "nat \<Rightarrow> u64" where
  "level_span_bytes level =
     (if level = 0 then push_bit 39 1 else if level = 1 then push_bit 30 1
      else if level = 2 then push_bit 21 1 else if level = 3 then push_bit 12 1 else 0)"

text \<open>The static \<open>run_\<close>: the run of mappings seen last, not printed yet.\<close>

record run_t =
  rn_active :: bool
  rn_va :: u64
  rn_pa :: u64
  rn_len :: u64

type_synonym dst = "run_t \<times> uart"

definition run_flush :: "dst \<Rightarrow> dst res" where
  "run_flush s =
     (case s of (r, u) \<Rightarrow>
        if \<not> rn_active r then Inr (r, u)
        else bindE (pr_map (rn_va r) (rn_pa r) (rn_len r) u) (\<lambda>u. Inr (r\<lparr>rn_active := False\<rparr>, u)))"

definition run_visit :: "u64 \<Rightarrow> u64 \<Rightarrow> u64 \<Rightarrow> dst \<Rightarrow> dst res" where
  "run_visit va pa sz s =
     (case s of (r, u) \<Rightarrow>
        if rn_active r \<and> rn_va r + rn_len r = va \<and> rn_pa r + rn_len r = pa
        then Inr (r\<lparr>rn_len := rn_len r + sz\<rparr>, u)
        else bindE (run_flush s) (\<lambda>(r, u). Inr (r\<lparr>rn_active := True, rn_va := va, rn_pa := pa, rn_len := sz\<rparr>, u)))"

text \<open>
  The recursion of \<open>walk_level\<close> is over the number of levels below the current one, which is
  level \<open>3 - below\<close>.
\<close>

primrec walk_level :: "nat \<Rightarrow> u64 \<Rightarrow> u64 \<Rightarrow> memory \<Rightarrow> dst \<Rightarrow> dst res" where
  "walk_level 0 table va_base m =
     seqE (map (\<lambda>i s.
       (let d = pte m table (of_nat i);
            k = desc_kind d 3
        in if k = 0 then Inr s
           else run_visit (va_base + of_nat i * level_span_bytes 3) (desc_outaddr d) (level_span_bytes 3) s)) [0..<512])"
| "walk_level (Suc below) table va_base m =
     seqE (map (\<lambda>i s.
       (let level = 3 - Suc below;
            d = pte m table (of_nat i);
            k = desc_kind d level;
            va_slot = va_base + of_nat i * level_span_bytes level
        in if k = 0 then Inr s
           else if k = 1 then walk_level below (desc_outaddr d) va_slot m s
           else run_visit va_slot (desc_outaddr d) (level_span_bytes level) s)) [0..<512])"

definition dump_map :: "mmu_map_t \<Rightarrow> memory \<Rightarrow> dst \<Rightarrow> dst res" where
  "dump_map mp m s =
     (let l0 = root_table_va mp in
      case s of (r, u) \<Rightarrow>
        if l0 = 0 then bindE (uart_puts ''[MMU]: <no L0>\<newline>'' u) (\<lambda>u. Inr (r, u))
        else bindE (walk_level 3 l0 0 m (r\<lparr>rn_active := False\<rparr>, u)) run_flush)"

section \<open>Memory\<close>

text \<open>A character array is a function from indices; what the code never writes is what it held before.\<close>

type_synonym cbuf = "nat \<Rightarrow> char"

definition puts_buf :: "cbuf \<Rightarrow> nat \<Rightarrow> uart \<Rightarrow> uart res" where
  "puts_buf b n = uart_puts (map b [0..<n])"

definition fill_buf :: "nat \<Rightarrow> cbuf \<Rightarrow> cbuf" where
  "fill_buf n b = (\<lambda>i. if i < n then CHR '' '' else b i)"

definition putrow :: "cbuf \<Rightarrow> cbuf \<Rightarrow> cbuf \<Rightarrow> cbuf \<Rightarrow> uart \<Rightarrow> uart res" where
  "putrow b1 b2 b1c b2c =
     seqE [uart_puts ''|'', puts_buf b1 26, uart_puts ''|'', puts_buf b2 26, uart_puts ''|'',
           puts_buf b1c 26, uart_puts ''|'', puts_buf b2c 26, uart_puts ''|\<newline>'']"

text \<open>\<open>i\<close> counts the places left, one more than the source's index.\<close>

fun str_digits :: "(u64 \<Rightarrow> char) \<Rightarrow> u64 \<Rightarrow> nat \<Rightarrow> nat \<Rightarrow> u64 \<Rightarrow> cbuf \<Rightarrow> cbuf" where
  "str_digits dig base off 0 v b = b"
| "str_digits dig base off (Suc i) v b =
     (if v \<noteq> 0 then str_digits dig base off i (v div base) (b(off + i := dig (v mod base))) else b)"

definition str_putu64 :: "cbuf \<Rightarrow> nat \<Rightarrow> u64 \<Rightarrow> nat \<Rightarrow> cbuf" where
  "str_putu64 b off v n =
     (if v = 0 then b(off := CHR ''0'')
      else str_digits (\<lambda>d. digit_char (unat d)) 10 off (n + 1) v b)"

definition str_putaddr :: "cbuf \<Rightarrow> nat \<Rightarrow> u64 \<Rightarrow> nat \<Rightarrow> cbuf" where
  "str_putaddr b off v n = str_digits (\<lambda>d. tohex (unat d)) 16 off (n + 1) v b"

definition str_butb :: "cbuf \<Rightarrow> nat \<Rightarrow> u32 \<Rightarrow> cbuf" where
  "str_butb b off v =
     (let b = b(off := nib_char (drop_bit 4 v AND 0xF))
      in b(off + 1 := nib_char (v AND 0xF)))"

record mbufs =
  mb_a :: cbuf
  mb_b1 :: cbuf
  mb_b2 :: cbuf
  mb_b1c :: cbuf
  mb_b2c :: cbuf

definition mem_row :: "memory \<Rightarrow> u64 \<Rightarrow> mbufs \<Rightarrow> mbufs" where
  "mem_row m p b =
     (let b = b\<lparr>mb_a := str_putaddr (mb_a b) 1 p 7\<rparr>;
          b = fold (\<lambda>j b.
                if j < 8 then b\<lparr>mb_b1 := str_butb (mb_b1 b) (1 + j * 3) (ucast (m (p + of_nat j)))\<rparr>
                else b\<lparr>mb_b2 := str_butb (mb_b2 b) (1 + (j - 8) * 3) (ucast (m (p + of_nat j)))\<rparr>) [0..<16] b
      in fold (\<lambda>j b.
           (let x = unat (m (p + of_nat j));
                c = (if 31 < x \<and> 127 > x then char_of x else CHR ''*'')
            in if j < 8 then b\<lparr>mb_b1c := (mb_b1c b)(1 + j := c)\<rparr>
               else b\<lparr>mb_b2c := (mb_b2c b)(1 + j - 8 := c)\<rparr>)) [0..<16] b)"

partial_function (option) dump_mem_loop ::
  "memory \<Rightarrow> u64 \<Rightarrow> u64 \<Rightarrow> u64 \<Rightarrow> bool \<Rightarrow> u64 \<Rightarrow> mbufs \<Rightarrow> uart \<Rightarrow> uart res option" where
  "dump_mem_loop m d n i r cnt b u =
     (if i < n then
        (let b = b\<lparr>mb_a := fill_buf 10 (mb_a b), mb_b1 := fill_buf 25 (mb_b1 b), mb_b2 := fill_buf 25 (mb_b2 b),
                   mb_b1c := fill_buf 10 (mb_b1c b), mb_b2c := fill_buf 10 (mb_b2c b)\<rparr>
         in if i \<noteq> 0 \<and> memcmp m (d + i) (d + (i - 0x10)) 0x10 = 0
            then dump_mem_loop m d n (i + 0x10) True (cnt + 1) b u
            else
              (case (if r then
                       (let b = b\<lparr>mb_a := str_putu64 ((mb_a b)(1 := CHR ''*'')) 2 cnt 6\<rparr>
                        in bindE (seqE [uart_puts ''|'', puts_buf (mb_a b) 26,
                                        putrow (mb_b1 b) (mb_b2 b) (mb_b1c b) (mb_b2c b)] u) (\<lambda>u. Inr (b, u)))
                     else Inr (b, u)) of
                 Inl e \<Rightarrow> Some (Inl e)
               | Inr bu \<Rightarrow>
                   (let b = mem_row m (d + i) (fst bu) in
                    case seqE [uart_puts ''|'', puts_buf (mb_a b) 26,
                               putrow (mb_b1 b) (mb_b2 b) (mb_b1c b) (mb_b2c b)] (snd bu) of
                      Inl e \<Rightarrow> Some (Inl e)
                    | Inr u \<Rightarrow> dump_mem_loop m d n (i + 0x10) False (if r then 0 else cnt) b u)))
      else Some (Inr u))"

declare dump_mem_loop.simps [code]

definition dump_mem :: "memory \<Rightarrow> mbufs \<Rightarrow> u64 \<Rightarrow> u64 \<Rightarrow> uart \<Rightarrow> uart res" where
  "dump_mem m junk start_addr n u =
     (let b = junk\<lparr>mb_a := (mb_a junk)(11 := NUL), mb_b1 := (mb_b1 junk)(25 := NUL), mb_b2 := (mb_b2 junk)(25 := NUL),
                   mb_b1c := (mb_b1c junk)(11 := NUL), mb_b2c := (mb_b2c junk)(11 := NUL)\<rparr>
      in case dump_mem_loop m start_addr n 0 False 0 b u of None \<Rightarrow> Inl No_return | Some r \<Rightarrow> r)"

section \<open>Processes\<close>

definition uart_dump_ctx :: "ctx_t \<Rightarrow> uart \<Rightarrow> uart res" where
  "uart_dump_ctx c =
     seqE ([uart_puts ''pc: 0x'', uart_puthex (cx_pc c), uart_puts ''\<newline>'',
            uart_puts ''sp: 0x'', uart_puthex (cx_sp c), uart_puts ''\<newline>'',
            uart_puts ''pstate: 0x'', uart_puthex (cx_pstate c), uart_puts ''\<newline>''] @
           map (\<lambda>i. seqE [uart_puts ''x'', uart_putu32 (of_nat i), uart_puts '': '', uart_putu64 (cx_x c i), uart_puts '', ''])
             [0..<31] @
           [uart_puts ''\<newline>''])"

section \<open>The synchronous switch\<close>

text \<open>
  \<open>sched_switch_sync\<close>, which prints both contexts and which nothing in the repository calls. The core is
  given by its registers as a context. \<open>store_pstate\<close> of \<^verbatim>\<open>ctx_switch.S\<close> saves them with the return
  address as program counter, and runs on into \<open>load_pstate\<close>, which comes back to that address with
  \<open>x16\<close> and \<open>x17\<close> used up; \<open>load_pstate\<close> of the new context leaves the function for good.
\<close>

definition load_pstate :: "ctx_t \<Rightarrow> ctx_t \<Rightarrow> ctx_t" where
  "load_pstate c core =
     core\<lparr>cx_x := (cx_x c)(16 := cx_pc c, 17 := cx_x c 1), cx_sp := cx_sp c, cx_pc := cx_pc c,
       cx_pstate := cx_pstate c, cx_vregs := cx_vregs c, cx_fpsr := cx_fpsr c, cx_fpcr := cx_fpcr c\<rparr>"

definition store_pstate :: "ctx_t \<Rightarrow> ctx_t \<Rightarrow> ctx_t \<times> ctx_t" where
  "store_pstate core c =
     (let c = c\<lparr>cx_x := cx_x core, cx_sp := cx_sp core, cx_pc := cx_x core 30, cx_pstate := cx_pstate core,
                cx_vregs := cx_vregs core, cx_fpsr := cx_fpsr core, cx_fpcr := cx_fpcr core\<rparr>
      in (c, load_pstate c core))"

text \<open>The result: the translation base register, the core, the scheduler and the console.\<close>

definition sched_switch_sync ::
  "ctx_t \<Rightarrow> proc_ptr \<Rightarrow> proc_ptr \<Rightarrow> sched_t \<Rightarrow> uart \<Rightarrow> (u64 \<times> ctx_t \<times> sched_t \<times> uart) res" where
  "sched_switch_sync core c n sc u =
     (let sc = sc\<lparr>s_pid := p_pid (deref sc n)\<rparr>;
          (saved, core) = store_pstate core (p_ctx (deref sc c));
          sc = upd c (\<lambda>p. p\<lparr>p_ctx := saved\<rparr>) sc;
          sc = sc\<lparr>s_curr := Some n\<rparr>
      in bindE (seqE [uart_puts ''sync switch FROM:\<newline>'', uart_dump_ctx (p_ctx (deref sc c)), uart_puts ''TO:\<newline>'',
                      uart_dump_ctx (p_ctx (deref sc n))] u) (\<lambda>u.
           Inr (mmu_map_switch (cx_mmap (p_ctx (deref sc n))), load_pstate (p_ctx (deref sc n)) core, sc, u)))"

definition dump_proc :: "memory \<Rightarrow> proc_t \<Rightarrow> int \<Rightarrow> dst \<Rightarrow> dst res" where
  "dump_proc m p v s =
     (case s of (r, u) \<Rightarrow>
      if v < 1 then Inr (r, u)
      else
        bindE (seqE [uart_puts ''pid: '', uart_putu32 (p_pid p), uart_puts '', pc: '', uart_puthex (p_pa_pc p)] u) (\<lambda>u.
        if v < 2 then Inr (r, u)
        else
          bindE (seqE [uart_puts '', dl: '', uart_putu64 (p_abs_deadline p), uart_puts '', wait_until: '',
                       uart_putu64 (p_wait_until p)] u) (\<lambda>u.
          if v < 3 then Inr (r, u)
          else
            bindE (seqE [uart_puts '', CTX: \<newline>'', uart_dump_ctx (p_ctx p)] u) (\<lambda>u.
            if v < 4 then Inr (r, u)
            else
              bindE (seqE [uart_puts ''asid: '', uart_putu32 (ucast (asid (cx_mmap (p_ctx p)))), uart_puts ''\<newline>''] u) (\<lambda>u.
                dump_map (cx_mmap (p_ctx p)) m (r, u))))))"

definition prf_cb :: "memory \<Rightarrow> sched_t \<Rightarrow> int \<Rightarrow> bool \<Rightarrow> u64 \<Rightarrow> proc_ptr option \<Rightarrow> dst res \<Rightarrow> dst res" where
  "prf_cb m sc verb lst k v st =
     bindE st (\<lambda>s.
     bindE (case v of Some p \<Rightarrow> dump_proc m (deref sc p) verb s
            | None \<Rightarrow> (if verb < 1 then Inr s else Inl Null_deref)) (\<lambda>(r, u).
       if lst then Inr (r, u) else bindE (uart_puts ''}, {'' u) (\<lambda>u. Inr (r, u))))"

definition dump_sched :: "memory \<Rightarrow> sched_t \<Rightarrow> int \<Rightarrow> dst \<Rightarrow> dst res" where
  "dump_sched m sc v s =
     (case s of (r, u) \<Rightarrow>
      bindE (uart_puts ''waiting:\<newline> {'' u) (\<lambda>u.
      bindE (heap_iter (s_waiting sc) (Inr (r, u)) (prf_cb m sc v)) (\<lambda>(r, u).
      bindE (uart_puts ''}\<newline>ready:\<newline> {'' u) (\<lambda>u.
      bindE (heap_iter (s_ready sc) (Inr (r, u)) (prf_cb m sc v)) (\<lambda>(r, u).
      bindE (uart_puts ''}\<newline>'' u) (\<lambda>u. Inr (r, u)))))))"

section \<open>The allocator\<close>

partial_function (option) dump_alloc_loop :: "memory \<Rightarrow> u64 \<Rightarrow> u64 \<Rightarrow> uart \<Rightarrow> uart res option" where
  "dump_alloc_loop m fin b u =
     (if b < fin then
        (case seqE [uart_puts (if b_used m b \<noteq> 0 then ''USED: '' else ''FREE: ''), uart_puthex b, uart_puts '' ('',
                    uart_puthex (BLOCK_PTR b), uart_puts '' ) -> '', uart_puthex (next_blk m b), uart_puts ''\<newline>''] u of
           Inl e \<Rightarrow> Some (Inl e)
         | Inr u \<Rightarrow> dump_alloc_loop m fin (next_blk m b) u)
      else Some (Inr u))"

declare dump_alloc_loop.simps [code]

definition dump_alloc :: "alloc_t \<Rightarrow> memory \<Rightarrow> uart \<Rightarrow> uart res" where
  "dump_alloc a m u = (case dump_alloc_loop m (a_end a) (a_free a) u of None \<Rightarrow> Inl No_return | Some r \<Rightarrow> r)"

section \<open>What \<open>dump_map\<close> prints\<close>

type_synonym mapping3 = "u64 \<times> u64 \<times> u64"

text \<open>The block and page entries below a table, with the virtual address and the size of each.\<close>

primrec entries :: "nat \<Rightarrow> u64 \<Rightarrow> u64 \<Rightarrow> memory \<Rightarrow> mapping3 list" where
  "entries 0 table va_base m = concat (map (\<lambda>i.
     let d = pte m table (of_nat i) in
     if desc_kind d 3 = 0 then []
     else [(va_base + of_nat i * level_span_bytes 3, desc_outaddr d, level_span_bytes 3)]) [0..<512])"
| "entries (Suc below) table va_base m = concat (map (\<lambda>i.
     let level = 3 - Suc below; d = pte m table (of_nat i); va = va_base + of_nat i * level_span_bytes level in
     if desc_kind d level = 0 then []
     else if desc_kind d level = 1 then entries below (desc_outaddr d) va m
     else [(va, desc_outaddr d, level_span_bytes level)]) [0..<512])"

definition visit :: "mapping3 \<Rightarrow> dst \<Rightarrow> dst res" where
  "visit x = (case x of (va, pa, sz) \<Rightarrow> run_visit va pa sz)"

lemma visit_eq [simp]: "visit (va, pa, sz) = run_visit va pa sz"
  by (simp add: visit_def)

lemma seqE_concat:
  assumes "\<And>x s. x \<in> set xs \<Longrightarrow> f x s = seqE (F x) s"
  shows "seqE (map f xs) s = seqE (concat (map F xs)) s"
  using assms
proof (induction xs arbitrary: s)
  case (Cons x xs)
  then show ?case by (cases "seqE (F x) s") (simp_all add: seqE_append)
qed simp

lemma walk_level_entries: "walk_level b table va m s = seqE (map visit (entries b table va m)) s"
proof (induction b arbitrary: table va s)
  case 0
  show ?case
    unfolding walk_level.simps entries.simps map_concat map_map comp_def
    by (rule seqE_concat) (simp add: Let_def bindE_def split: sum.splits)
next
  case (Suc b)
  show ?case
    unfolding walk_level.simps entries.simps map_concat map_map comp_def
    by (rule seqE_concat) (simp add: Let_def Suc.IH bindE_def split: sum.splits)
qed

text \<open>The coalescing as a function on lists, with the run that is still open.\<close>

fun coal :: "mapping3 option \<Rightarrow> mapping3 list \<Rightarrow> mapping3 list" where
  "coal None [] = []"
| "coal (Some r) [] = [r]"
| "coal None (x # xs) = coal (Some x) xs"
| "coal (Some (va, pa, len)) ((v, p, sz) # xs) =
     (if va + len = v \<and> pa + len = p then coal (Some (va, pa, len + sz)) xs
      else (va, pa, len) # coal (Some (v, p, sz)) xs)"

definition open_run :: "run_t \<Rightarrow> mapping3 option" where
  "open_run r = (if rn_active r then Some (rn_va r, rn_pa r, rn_len r) else None)"

definition hex_text :: "u64 \<Rightarrow> string" where
  "hex_text v = (if v = 0 then ''0'' else fill_digits (\<lambda>d. tohex (unat d)) 16 16 v [])"

definition run_text :: "mapping3 \<Rightarrow> string" where
  "run_text x = (case x of (va, pa, len) \<Rightarrow>
     ''[MMU]: map PA ['' @ hex_text pa @ '', '' @ hex_text (pa + len) @ '') -> ['' @
     hex_text va @ '', '' @ hex_text (va + len) @ '')\<newline>'')"

lemma prints_hex: "prints (uart_puthex v) (hex_text v)"
proof (cases "v = 0")
  case True
  then show ?thesis using prints_putc by (simp add: hex_text_def uart_puthex_def prints_def)
next
  case False
  have "unat v < unat (16 :: u64) ^ 16" using unsigned_less [of v, where 'a = nat] by simp
  then have "NUL \<notin> set (fill_digits (\<lambda>d. tohex (unat d)) 16 16 v [])"
    using fill_digits_value [of 16 hex_val "\<lambda>d. tohex (unat d)" v 16 "[]"] tohex_val by simp
  then show ?thesis using False prints_puts by (simp add: hex_text_def uart_puthex_def prints_def)
qed

lemma prints_pr_map: "prints (pr_map va pa len) (run_text (va, pa, len))"
proof -
  have "prints (pr_map va pa len) (concat [''[MMU]: map PA ['', hex_text pa, '', '', hex_text (pa + len), '') -> ['',
      hex_text va, '', '', hex_text (va + len), '')\<newline>''])"
    unfolding pr_map_def by (rule prints_seqE) (auto intro: prints_hex)
  then show ?thesis by (simp add: run_text_def)
qed

lemma visits_print:
  assumes "drains u"
  shows "\<exists>r' u'. bindE (seqE (map visit xs) (r, u)) run_flush = Inr (r', u') \<and>
    sent u (concat (map run_text (coal (open_run r) xs))) u'"
  using assms
proof (induction xs arbitrary: r u)
  case Nil
  then show ?case
    using prints_pr_map [of "rn_va r" "rn_pa r" "rn_len r"]
    by (cases "rn_active r") (auto simp: run_flush_def open_run_def sent_refl elim!: printsE)
next
  case (Cons x xs)
  obtain va pa sz where x: "x = (va, pa, sz)" by (cases x)
  show ?case
  proof (cases "rn_active r \<and> \<not> (rn_va r + rn_len r = va \<and> rn_pa r + rn_len r = pa)")
    case True
    obtain u1 where u1: "pr_map (rn_va r) (rn_pa r) (rn_len r) u = Inr u1" "sent u (run_text (rn_va r, rn_pa r, rn_len r)) u1" "drains u1"
      using prints_pr_map Cons.prems by (rule printsE)
    let ?r = "\<lparr>rn_active = True, rn_va = va, rn_pa = pa, rn_len = sz\<rparr>"
    have v: "visit x (r, u) = Inr (r\<lparr>rn_va := va, rn_pa := pa, rn_len := sz\<rparr>, u1)" 
      using True u1(1) by (auto simp: x visit_def run_visit_def run_flush_def)
    show ?thesis
      using Cons.IH [OF u1(3), of "r\<lparr>rn_va := va, rn_pa := pa, rn_len := sz\<rparr>"] v True sent_trans [OF u1(2)]
      by (auto simp: x open_run_def)
  next
    case False
    then obtain r1 where v: "visit x (r, u) = Inr (r1, u)" "coal (open_run r) (x # xs) = coal (open_run r1) xs"
      by (cases "rn_active r") (auto simp: x visit_def run_visit_def run_flush_def open_run_def)
    show ?thesis using Cons.IH [OF Cons.prems, of r1] v by auto
  qed
qed

text \<open>The pairs of addresses a run stands for, and the bytes of a list of runs.\<close>

definition cover :: "mapping3 \<Rightarrow> (u64 \<times> u64) set" where
  "cover x = (case x of (va, pa, len) \<Rightarrow> (\<lambda>i. (va + of_nat i, pa + of_nat i)) ` {..<unat len})"

definition bytes :: "mapping3 list \<Rightarrow> nat" where
  "bytes xs = sum_list (map (\<lambda>(va, pa, sz). unat sz) xs)"

lemma bytes_simps [simp]:
  "bytes [] = 0" "bytes ((va, pa, sz) # xs) = unat sz + bytes xs" "bytes (xs @ ys) = bytes xs + bytes ys"
  by (simp_all add: bytes_def)

lemma cover_merge:
  assumes "unat len + unat sz < 2 ^ 64"
  shows "cover (va, pa, len + sz) = cover (va, pa, len) \<union> cover (va + len, pa + len, sz)"
proof -
  have u: "unat (len + sz) = unat len + unat sz" using assms by (simp add: unat_word_ariths)
  have "{..<unat len + unat sz} = {..<unat len} \<union> (\<lambda>i. unat len + i) ` {..<unat sz}"
    unfolding lessThan_atLeast0 image_add_atLeastLessThan by auto
  then show ?thesis unfolding cover_def u prod.case by (simp add: image_Un image_image add.assoc)
qed

lemma coal_cover:
  "bytes xs + (case w of None \<Rightarrow> 0 | Some (va, pa, len) \<Rightarrow> unat len) < 2 ^ 64 \<Longrightarrow>
   \<Union> (cover ` set (coal w xs)) = (case w of None \<Rightarrow> {} | Some x \<Rightarrow> cover x) \<union> \<Union> (cover ` set xs)"
proof (induction w xs rule: coal.induct)
  case (4 va pa len v p sz xs)
  show ?case
  proof (cases "va + len = v \<and> pa + len = p")
    case True
    have b: "unat len + unat sz < 2 ^ 64" using 4(3) by simp
    have "unat (len + sz) = unat len + unat sz" using b by (simp add: unat_word_ariths)
    then show ?thesis using 4(1) [OF True] 4(3) True cover_merge [OF b, of va pa] by auto
  next
    case False
    then show ?thesis using 4(2) [OF False] 4(3) by auto
  qed
next
  case (3 x xs)
  then show ?case by (cases x) simp
qed auto

lemma span_values:
  "unat (level_span_bytes 0) = 2 ^ 39" "unat (level_span_bytes 1) = 2 ^ 30"
  "unat (level_span_bytes 2) = 2 ^ 21" "unat (level_span_bytes 3) = 2 ^ 12"
  by (simp_all add: level_span_bytes_def)

lemma bytes_concat: "(\<And>i. i \<in> set is \<Longrightarrow> bytes (F i) \<le> k) \<Longrightarrow> bytes (concat (map F is)) \<le> length is * k"
  by (induction "is") (auto intro!: add_mono)

lemma entries_bytes: "b \<le> 3 \<Longrightarrow> bytes (entries b table va m) \<le> 2 ^ (21 + 9 * b)"
proof (induction b arbitrary: table va)
  case 0
  have "bytes (entries 0 table va m) \<le> length [0..<512] * 2 ^ 12"
    unfolding entries.simps by (rule bytes_concat) (simp add: Let_def span_values)
  then show ?case by simp
next
  case (Suc b)
  have s: "unat (level_span_bytes (3 - Suc b)) = 2 ^ (21 + 9 * b)"
  proof -
    consider "b = 0" | "b = 1" | "b = 2" using Suc.prems by linarith
    then show ?thesis by cases (simp_all add: level_span_bytes_def)
  qed
  have "bytes (entries (Suc b) table va m) \<le> length [0..<512] * 2 ^ (21 + 9 * b)"
    unfolding entries.simps by (rule bytes_concat) (use Suc.IH Suc.prems s in \<open>simp add: Let_def\<close>)
  then show ?case by (simp add: power_add)
qed

lemma coal_no_merge:
  "successively (\<lambda>(va, pa, len) (v, p, sz). \<not> (va + len = v \<and> pa + len = p)) (coal w xs) \<and>
   (\<forall>va pa len. w = Some (va, pa, len) \<longrightarrow> (\<exists>len' rest. coal w xs = (va, pa, len') # rest))"
proof (induction w xs rule: coal.induct)
  case (4 va pa len v p sz xs)
  show ?case
  proof (cases "va + len = v \<and> pa + len = p")
    case True
    then show ?thesis using 4(1) by simp
  next
    case False
    then obtain len' rest where "coal (Some (v, p, sz)) xs = (v, p, len') # rest" using 4(2) by blast
    then show ?thesis using 4(2) False by auto
  qed
qed auto

text \<open>
  C38: \<open>dump_map\<close> prints the map as it is. On a console that drains it returns and prints one line per
  run; the runs together map exactly the address pairs of the block and page entries the tables hold, and
  no run continues the one before it.
\<close>

theorem dump_map_exact:
  assumes "drains u" "root_table_va mp \<noteq> 0"
  shows "\<exists>rs r' u'. dump_map mp m (r, u) = Inr (r', u') \<and> sent u (concat (map run_text rs)) u' \<and>
    \<Union> (cover ` set rs) = \<Union> (cover ` set (entries 3 (root_table_va mp) 0 m)) \<and>
    successively (\<lambda>(va, pa, len) (v, p, sz). \<not> (va + len = v \<and> pa + len = p)) rs"
proof -
  let ?xs = "entries 3 (root_table_va mp) 0 m" and ?r = "r\<lparr>rn_active := False\<rparr>"
  have b: "bytes ?xs + (case None of None \<Rightarrow> 0 | Some (va, pa, len) \<Rightarrow> unat len) < 2 ^ 64"
    using entries_bytes [of 3 "root_table_va mp" 0 m] by simp
  obtain r' u' where "bindE (seqE (map visit ?xs) (?r, u)) run_flush = Inr (r', u')"
    "sent u (concat (map run_text (coal (open_run ?r) ?xs))) u'"
    using visits_print [OF assms(1), of ?xs ?r] by (elim exE conjE) (rule that)
  moreover have "open_run ?r = None" by (simp add: open_run_def)
  ultimately show ?thesis
    using coal_cover [OF b] coal_no_merge [of None ?xs] assms(2)
    by (intro exI [of _ "coal None ?xs"]) (simp add: dump_map_def walk_level_entries)
qed

theorem dump_map_exact_witness:
  "\<exists>rs r' u'. dump_map \<lparr>root = \<lparr>l0 = 0x1000, l0_pa = 0x1000\<rparr>, asid = 0\<rparr> (\<lambda>_. 0)
      (\<lparr>rn_active = True, rn_va = 0, rn_pa = 0, rn_len = 0\<rparr>, demo_uart) = Inr (r', u') \<and>
    sent demo_uart (concat (map run_text rs)) u' \<and>
    \<Union> (cover ` set rs) = \<Union> (cover ` set (entries 3 0x1000 0 (\<lambda>_. 0)))"
proof -
  have "root_table_va \<lparr>root = \<lparr>l0 = 0x1000, l0_pa = 0x1000\<rparr>, asid = 0\<rparr> = 0x1000" by (simp add: root_table_va_def)
  then show ?thesis
    using dump_map_exact [OF demo_uart_drains, of "\<lparr>root = \<lparr>l0 = 0x1000, l0_pa = 0x1000\<rparr>, asid = 0\<rparr>" "\<lambda>_. 0"
        "\<lparr>rn_active = True, rn_va = 0, rn_pa = 0, rn_len = 0\<rparr>"]
    by fastforce
qed

end
