(* ===== verification/Autogen.thy ===== *)
theory Autogen
  imports Layout Mmu Mailbox
begin

text \<open>
  The two generators that hand the constants of the C headers to the assembly: \<open>main\<close> of \<^verbatim>\<open>shared/memory_layout.h\<close> and
  \<open>main\<close> of \<^verbatim>\<open>rtprog/structs.h\<close>, as the text they print. The name of the file is an argument. What the assembler
  reads in the printed numbers are the numbers.
\<close>

section \<open>Numbers as the C library prints them\<close>

definition digit_of :: "nat \<Rightarrow> char" where
  "digit_of d = (if d < 10 then char_of (48 + d) else char_of (87 + d))"

fun base_text :: "nat \<Rightarrow> nat \<Rightarrow> string" where
  "base_text b n = (if n < b \<or> b < 2 then [digit_of n] else base_text b (n div b) @ [digit_of (n mod b)])"

declare base_text.simps [simp del]

definition digit_read :: "char \<Rightarrow> nat" where
  "digit_read c = (let k = of_char c in if k < 58 then k - 48 else k - 87)"

definition read_num :: "nat \<Rightarrow> string \<Rightarrow> nat" where
  "read_num b s = foldl (\<lambda>v c. v * b + digit_read c) 0 s"

lemma digit_read_of: "d < 16 \<Longrightarrow> digit_read (digit_of d) = d"
  by (auto simp: digit_read_def digit_of_def Let_def)

lemma read_base_text:
  assumes "2 \<le> b" "b \<le> 16"
  shows "read_num b (base_text b n) = n"
proof (induction n rule: less_induct)
  case (less n)
  show ?case
  proof (cases "n < b")
    case True
    then show ?thesis using assms by (subst base_text.simps) (simp add: read_num_def digit_read_of)
  next
    case False
    have "n div b < n" using False assms by (intro div_less_dividend) simp_all
    then have "read_num b (base_text b (n div b)) = n div b" by (rule less.IH)
    moreover have "n mod b < b" using assms by simp
    then have "digit_read (digit_of (n mod b)) = n mod b" using assms(2) by (intro digit_read_of) linarith
    ultimately show ?thesis using False assms
      by (subst base_text.simps) (simp add: read_num_def div_mult_mod_eq)
  qed
qed

section \<open>The file name\<close>

text \<open>\<open>strchr(fn, '.')\<close> with the character replaced, and the guard cut at the size of its buffer.\<close>

fun dot_to_underscore :: "string \<Rightarrow> string" where
  "dot_to_underscore [] = []"
| "dot_to_underscore (c # cs) = (if c = CHR ''.'' then CHR ''_'' # cs else c # dot_to_underscore cs)"

definition autogen_guard :: "string \<Rightarrow> string" where
  "autogen_guard file = take 4095 (''_AUTOGEN_'' @ dot_to_underscore file @ ''_'')"

definition newline :: string where
  "newline = [CHR 0x0A]"

section \<open>The generators\<close>

text \<open>The values of \<^verbatim>\<open>memory_layout.h\<close> in the order of the lines.\<close>

definition layout_values :: "(string \<times> u64) list" where
  "layout_values =
     [(''TOJRT_RING_ADDR'', TOJRT_RING_ADDR), (''JRT_STACK_START'', JRT_STACK_START), (''TOJRT_RING_SIZE'', TOJRT_RING_SIZE),
      (''JRT_HEAP_START'', JRT_HEAP_START), (''JRT_HEAP_SIZE'', JRT_HEAP_SIZE)]"

definition memory_layout_main :: "string \<Rightarrow> string" where
  "memory_layout_main file =
     ''// autogenerated header from file '' @ file @ newline @
     ''#ifndef '' @ autogen_guard file @ newline @
     ''#define '' @ autogen_guard file @ newline @ newline @
     concat (map (\<lambda>(s, v). ''#define '' @ s @ '' (0x'' @ base_text 16 (unat v) @ '')'' @ newline) layout_values) @
     newline @ ''#endif /* '' @ autogen_guard file @ '' */'' @ newline"

text \<open>
  The lines of \<^verbatim>\<open>structs.h\<close>: a tab in front, one tab before the number for the first three names and two for the
  others.
\<close>

definition tab :: string where
  "tab = [CHR 0x09]"

definition structs_main :: "string \<Rightarrow> string" where
  "structs_main file =
     ''// autogenerated header from file '' @ file @ newline @
     concat (map (\<lambda>(s, v). tab @ ''.equ '' @ s @ '','' @ tab @ ''('' @ base_text 10 v @ '')'' @ newline) (take 3 autogen_lines)) @
     concat (map (\<lambda>(s, v). tab @ ''.equ '' @ s @ '','' @ tab @ tab @ ''('' @ base_text 10 v @ '')'' @ newline) (drop 3 autogen_lines)) @
     tab @ ''.extern G_SCHED'' @ newline @ tab @ ''.extern G_KERNEL_CTX'' @ newline"

lemma printed_value: "read_num 16 (base_text 16 (unat (v :: u64))) = unat v" "read_num 10 (base_text 10 n) = n"
  by (simp_all add: read_base_text)

text \<open>The header that \<^verbatim>\<open>boot.S\<close> includes, in full.\<close>

theorem memory_layout_text:
  "memory_layout_main ''memory_layout.h'' =
     ''// autogenerated header from file memory_layout.h'' @ newline @
     ''#ifndef _AUTOGEN_memory_layout_h_'' @ newline @
     ''#define _AUTOGEN_memory_layout_h_'' @ newline @ newline @
     ''#define TOJRT_RING_ADDR (0x51000000)'' @ newline @
     ''#define JRT_STACK_START (0x52000000)'' @ newline @
     ''#define TOJRT_RING_SIZE (0x2103f)'' @ newline @
     ''#define JRT_HEAP_START (0x51021040)'' @ newline @
     ''#define JRT_HEAP_SIZE (0xfdefbf)'' @ newline @ newline @
     ''#endif /* _AUTOGEN_memory_layout_h_ */'' @ newline"
  by (simp add: memory_layout_main_def layout_values_def autogen_guard_def newline_def base_text.simps digit_of_def char_of_def bit_0
      TOJRT_RING_ADDR_def JRT_STACK_START_def TOJRT_RING_SIZE_def JRT_HEAP_START_def JRT_HEAP_SIZE_def
      JRT_MEM_PHYS_def JRT_MEM_SIZE_def MPSC_RING_SIZE_def)

section \<open>The data window\<close>

text \<open>
  The record of a request is a packed union of 24 bytes with an alignment of its own, the ring a structure aligned to a cache line, with its
  members in this order. The three assertions of \<^verbatim>\<open>shared/mailbox.h\<close> hold, the size the memory layout is computed from is the size of
  the ring, and the heap begins where the ring ends.
\<close>

definition TOJRT_REC_SIZE :: nat where "TOJRT_REC_SIZE = 32"
definition TOJRT_REC_ALIGN :: nat where "TOJRT_REC_ALIGN = 16"
definition JRT_CACHELINE :: nat where "JRT_CACHELINE = 64"

definition sizeof_sched_req :: nat where
  "sizeof_sched_req = align_to (max (24 * csize (Prim 1)) (3 * csize c_u64)) TOJRT_REC_ALIGN"

definition ring_fields :: fields where
  "ring_fields = [(''head'', c_u32), (''tail'', c_u32), (''_pad0'', Arr (JRT_CACHELINE - 8) (Prim 1)),
     (''flags'', Arr (unat TOJRT_SIZE) (Prim 1))]"

definition sizeof_mpsc_ring :: nat where
  "sizeof_mpsc_ring =
     align_to (align_to (fend 0 ring_fields) TOJRT_REC_ALIGN + unat TOJRT_SIZE * sizeof_sched_req) JRT_CACHELINE"

definition mailbox_asserts :: bool where
  "mailbox_asserts \<longleftrightarrow> (TOJRT_SIZE \<noteq> 0 \<and> TOJRT_SIZE AND TOJRT_MASK = 0) \<and> sizeof_sched_req = TOJRT_REC_SIZE \<and>
     (of_nat TOJRT_REC_ALIGN :: u32) AND (of_nat TOJRT_REC_ALIGN - 1) = 0"

theorem data_window:
  "mailbox_asserts \<and> foffset 0 ring_fields ''flags'' = Some 64 \<and> of_nat sizeof_mpsc_ring = MPSC_RING_SIZE \<and>
   unat TOJRT_RING_ADDR + sizeof_mpsc_ring = unat JRT_HEAP_START \<and>
   unat JRT_HEAP_START + unat JRT_HEAP_SIZE + 1 = unat JRT_MEM_PHYS + unat JRT_MEM_SIZE"
proof -
  have "unat TOJRT_SIZE = 4096" by (simp add: TOJRT_SIZE_def TOJRT_ORDER_def)
  then have r: "sizeof_sched_req = 32" "fend 0 ring_fields = 4160" "foffset 0 ring_fields ''flags'' = Some 64"
    by (simp_all add: sizeof_sched_req_def ring_fields_def align_to_def TOJRT_REC_ALIGN_def JRT_CACHELINE_def c_u64_def c_u32_def)
  then have z: "sizeof_mpsc_ring = 135232"
    using \<open>unat TOJRT_SIZE = 4096\<close> by (simp add: sizeof_mpsc_ring_def align_to_def TOJRT_REC_ALIGN_def JRT_CACHELINE_def)
  show ?thesis
    unfolding z r mailbox_asserts_def
    by (simp add: TOJRT_SIZE_def TOJRT_ORDER_def TOJRT_MASK_def TOJRT_REC_SIZE_def TOJRT_REC_ALIGN_def MPSC_RING_SIZE_def
        JRT_HEAP_START_def JRT_HEAP_SIZE_def JRT_STACK_START_def TOJRT_RING_ADDR_def JRT_MEM_PHYS_def JRT_MEM_SIZE_def)
qed

text \<open>
  The stack the boot code gives the kernel starts at the end of the window and grows down: its first 16 bytes, and all that
  follow, are bytes of the heap.
\<close>

theorem kernel_stack_in_heap:
  assumes "16 \<le> d" "d \<le> unat JRT_HEAP_SIZE"
  shows "unat JRT_HEAP_START < unat (JRT_STACK_START - of_nat d)"
    "unat (JRT_STACK_START - of_nat d) < unat (JRT_HEAP_START + JRT_HEAP_SIZE)"
proof -
  have c: "unat JRT_HEAP_START = 0x51021040" "unat JRT_HEAP_SIZE = 0xFDEFBF" "unat JRT_STACK_START = 0x52000000"
    "unat (JRT_HEAP_START + JRT_HEAP_SIZE) = 0x51FFFFFF"
    by (simp_all add: JRT_HEAP_START_def JRT_HEAP_SIZE_def JRT_STACK_START_def JRT_MEM_PHYS_def JRT_MEM_SIZE_def MPSC_RING_SIZE_def)
  have "unat (of_nat d :: u64) = d" using assms(2) c(2) by simp
  then have "unat (JRT_STACK_START - of_nat d) = 0x52000000 - d"
    using assms(2) c(2,3) by (subst unat_sub) (simp_all add: word_le_nat_alt)
  then show "unat JRT_HEAP_START < unat (JRT_STACK_START - of_nat d)"
    "unat (JRT_STACK_START - of_nat d) < unat (JRT_HEAP_START + JRT_HEAP_SIZE)"
    using assms c by simp_all
qed

end
