(* ===== verification/Boot.thy ===== *)
theory Boot
  imports Autogen Memory
begin

text \<open>
  The boot code \<^verbatim>\<open>rtprog/boot.S\<close>: from the reset of the core to the call of \<open>jrt_main\<close>, with the vector table and
  \<open>psci_cpu_off\<close> of \<^verbatim>\<open>rtprog/psci.S\<close>. The state is the registers the code writes, and the memory; the addresses of the linker
  script (\<open>el1_entry\<close>, \<open>vector_table\<close>, \<open>__bss_start\<close>, \<open>__bss_end\<close>) are arguments. An instruction
  that the current exception level may not execute is an undefined one.
\<close>

section \<open>State\<close>

record boot =
  CurrentEL :: nat
  CNTHCTL_EL2 :: u64
  CNTVOFF_EL2 :: u64
  ICC_SRE_EL2 :: u64
  SPSR_EL2 :: u64
  ELR_EL2 :: u64
  HCR_EL2 :: u64
  SPSel :: u64
  SP_EL1 :: u64
  VBAR_EL1 :: u64
  CPACR_EL1 :: u64
  ICC_IGRPEN0_EL1 :: u64
  DAIF :: u64
  bmem :: memory

record link =
  el1_entry_addr :: u64
  vector_table_addr :: u64
  bss_start :: u64
  bss_end :: u64

section \<open>The code\<close>

text \<open>The part for exception level 2, up to the \<open>eret\<close>.\<close>

definition el2_setup :: "link \<Rightarrow> boot \<Rightarrow> boot" where
  "el2_setup l b =
     (let b = b\<lparr>CNTHCTL_EL2 := CNTHCTL_EL2 b OR push_bit 0 1 OR push_bit 1 1\<rparr>;
          b = b\<lparr>CNTVOFF_EL2 := 0\<rparr>;
          b = b\<lparr>ICC_SRE_EL2 := ICC_SRE_EL2 b OR 1\<rparr>;
          b = b\<lparr>SPSR_EL2 := push_bit 6 5 OR push_bit 7 1 OR push_bit 6 1 OR push_bit 9 1\<rparr>;
          b = b\<lparr>ELR_EL2 := el1_entry_addr l\<rparr>
      in b\<lparr>HCR_EL2 := HCR_EL2 b OR push_bit 31 1\<rparr>)"

text \<open>
  \<open>eret\<close> at level 2: the level, the choice of stack pointer and the masks come from the saved state, execution goes on at
  \<open>ELR_EL2\<close>. A saved state that names a level above 2 is illegal.
\<close>

definition eret_el2 :: "boot \<Rightarrow> (u64 \<times> boot) res" where
  "eret_el2 b =
     (let m = unat (take_bit 4 (SPSR_EL2 b)) in
      if 2 < m div 4 then Inl Undefined
      else Inr (ELR_EL2 b, b\<lparr>CurrentEL := m div 4, SPSel := of_nat (m mod 2), DAIF := SPSR_EL2 b AND push_bit 6 15\<rparr>))"

text \<open>The loop that clears the bss segment.\<close>

partial_function (option) bss_loop :: "u64 \<Rightarrow> u64 \<Rightarrow> memory \<Rightarrow> memory option" where
  "bss_loop x0 x1 m = (if x1 \<le> x0 then Some m else bss_loop (x0 + 8) x1 (store64 m x0 0))"

declare bss_loop.simps [code]

definition JRT_STACK_START_CONST :: u64 where
  "JRT_STACK_START_CONST = the (map_of layout_values ''JRT_STACK_START'')"

definition el1_entry :: "link \<Rightarrow> boot \<Rightarrow> boot res" where
  "el1_entry l b =
     (if CurrentEL b = 0 then Inl Undefined
      else
        (let b = b\<lparr>SPSel := 1\<rparr>;
             b = b\<lparr>SP_EL1 := JRT_STACK_START_CONST\<rparr>;
             b = b\<lparr>VBAR_EL1 := vector_table_addr l\<rparr>
         in case bss_loop (bss_start l) (bss_end l) (bmem b) of
              None \<Rightarrow> Inl No_return
            | Some m \<Rightarrow>
                (let b = b\<lparr>bmem := m\<rparr>;
                     b = b\<lparr>CPACR_EL1 := CPACR_EL1 b OR push_bit 20 3\<rparr>
                 in Inr (b\<lparr>ICC_IGRPEN0_EL1 := 0\<rparr>))))"

text \<open>\<open>_start\<close> up to the call of \<open>jrt_main\<close>.\<close>

definition boot_start :: "link \<Rightarrow> boot \<Rightarrow> boot res" where
  "boot_start l b =
     (if CurrentEL b = 2 then bindE (eret_el2 (el2_setup l b)) (\<lambda>(pc, b). el1_entry l b)
      else el1_entry l b)"

section \<open>Vector table and power off\<close>

datatype vector = Sync_el1 | Irq_el1 | Fiq_spin | Serr_spin

definition vector_table :: "vector list" where
  "vector_table =
     [Sync_el1, Irq_el1, Fiq_spin, Serr_spin, Sync_el1, Irq_el1, Fiq_spin, Serr_spin,
      Sync_el1, Irq_el1, Fiq_spin, Serr_spin, Sync_el1, Irq_el1, Fiq_spin, Serr_spin]"

text \<open>Entries are 128 bytes apart.\<close>

definition vector_at :: "nat \<Rightarrow> vector" where
  "vector_at off = vector_table ! (off div 128)"

text \<open>The four registers of the hypervisor call.\<close>

definition psci_cpu_off :: "u64 \<Rightarrow> u64 \<Rightarrow> u64 \<Rightarrow> u64 \<times> u64 \<times> u64 \<times> u64" where
  "psci_cpu_off x0 x1 x2 =
     (let x3 = x2; x2 = x1; x1 = x0; x0 = 0x0003;
          x0 = (x0 AND NOT (push_bit 16 0xFFFF)) OR push_bit 16 0x8400
      in (x0, x1, x2, x3))"

section \<open>Clearing the bss segment\<close>

lemma store64_zero:
  assumes "unat x + 8 < 2 ^ 64"
  shows "store64 m x 0 a = (if unat x \<le> unat a \<and> unat a < unat x + 8 then 0 else m a)"
proof -
  have "unat (a - x) < 8 \<longleftrightarrow> unat x \<le> unat a \<and> unat a < unat x + 8"
  proof (cases "x \<le> a")
    case True
    then show ?thesis using unat_sub [OF True] by (auto simp: word_le_nat_alt)
  next
    case False
    then have "unat (a - x) = 2 ^ 64 + unat a - unat x" by (simp add: unat_sub_if' word_le_nat_alt)
    then show ?thesis using False assms by (simp add: word_le_nat_alt)
  qed
  then show ?thesis by (auto simp: store64_def store_le_def)
qed

lemma words_up: "0 < d \<Longrightarrow> 8 * ((d + 7) div 8) = 8 + 8 * ((d - 8 + 7) div 8)" for d :: nat
proof (cases "d \<le> 8")
  case True
  assume "0 < d"
  then have "(d + 7) div 8 = 1" using True by (intro div_nat_eqI) simp_all
  then show ?thesis using True by simp
next
  case False
  then obtain e where "d = e + 8" using le_Suc_ex [of 8 d] by (auto simp: add.commute)
  moreover have "(e + 7 + 8) div 8 = Suc ((e + 7) div 8)" by (simp only: div_add_self2 Suc_eq_plus1)
  ultimately show ?thesis by (simp add: add.commute)
qed

lemma bss_loop_ok:
  assumes "unat x1 + 8 < 2 ^ 64"
  shows "\<exists>m'. bss_loop x0 x1 m = Some m' \<and>
    (\<forall>a. m' a = (if unat x0 \<le> unat a \<and> unat a < unat x0 + 8 * ((unat x1 - unat x0 + 7) div 8) then 0 else m a))"
proof (induction "unat x1 - unat x0" arbitrary: x0 m rule: less_induct)
  case less
  show ?case
  proof (cases "x1 \<le> x0")
    case True
    then show ?thesis by (subst bss_loop.simps) (auto simp: word_le_nat_alt)
  next
    case False
    then have lt: "unat x0 < unat x1" by (simp add: word_le_nat_alt)
    then have u: "unat (x0 + 8) = unat x0 + 8" using assms by (simp add: unat_word_ariths)
    have "unat x1 - unat (x0 + 8) < unat x1 - unat x0" using lt u by simp
    from less.hyps [OF this, of "store64 m x0 0"] obtain m' where m': "bss_loop (x0 + 8) x1 (store64 m x0 0) = Some m'"
      "\<And>a. m' a = (if unat x0 + 8 \<le> unat a \<and> unat a < unat x0 + 8 + 8 * ((unat x1 - (unat x0 + 8) + 7) div 8) then 0
        else store64 m x0 0 a)" unfolding u by blast
    from words_up [of "unat x1 - unat x0"] have k: "8 * ((unat x1 - unat x0 + 7) div 8) = 8 + 8 * ((unat x1 - (unat x0 + 8) + 7) div 8)"
      using lt by (simp only: diff_diff_left zero_less_diff)
    have "m' a = (if unat x0 \<le> unat a \<and> unat a < unat x0 + 8 * ((unat x1 - unat x0 + 7) div 8) then 0 else m a)" for a
      unfolding m'(2) k using store64_zero [of x0 m a] lt assms by auto
    then show ?thesis using m'(1) False by (subst bss_loop.simps) simp
  qed
qed

section \<open>Reaching the kernel\<close>

lemma stack_const: "JRT_STACK_START_CONST = 0x52000000"
  by (simp add: JRT_STACK_START_CONST_def layout_values_def JRT_STACK_START_def JRT_MEM_PHYS_def JRT_MEM_SIZE_def)

text \<open>
  A core that starts at exception level 1 reaches \<open>jrt_main\<close> with its own stack pointer at the top of the memory window, the
  vector table installed, the bss segment zero (rounded up to a multiple of eight bytes) and the
  rest of the memory as it was, with floating point allowed and fast interrupts off.
\<close>

theorem boot_reaches_jrt_main:
  assumes "CurrentEL b = 1" "bss_start l \<le> bss_end l" "unat (bss_end l) + 8 < 2 ^ 64"
  shows "\<exists>b'. boot_start l b = Inr b' \<and> CurrentEL b' = 1 \<and> SPSel b' = 1 \<and> SP_EL1 b' = 0x52000000 \<and>
    VBAR_EL1 b' = vector_table_addr l \<and> ICC_IGRPEN0_EL1 b' = 0 \<and> CPACR_EL1 b' = CPACR_EL1 b OR 0x300000 \<and>
    (\<forall>a. bss_start l \<le> a \<longrightarrow> a < bss_end l \<longrightarrow> bmem b' a = 0) \<and>
    (\<forall>a. a < bss_start l \<or> bss_end l + 7 \<le> a \<longrightarrow> bmem b' a = bmem b a)"
proof -
  let ?s = "unat (bss_start l)" and ?e = "unat (bss_end l)"
  obtain m' where m: "bss_loop (bss_start l) (bss_end l) (bmem b) = Some m'"
    "\<And>a. m' a = (if ?s \<le> unat a \<and> unat a < ?s + 8 * ((?e - ?s + 7) div 8) then 0 else bmem b a)"
    using bss_loop_ok [OF assms(3)] by blast
  define b' where "b' = b\<lparr>SPSel := 1, SP_EL1 := JRT_STACK_START_CONST, VBAR_EL1 := vector_table_addr l, bmem := m',
    CPACR_EL1 := CPACR_EL1 b OR push_bit 20 3, ICC_IGRPEN0_EL1 := 0\<rparr>"
  have run: "boot_start l b = Inr b'" using assms(1) m(1) by (simp add: boot_start_def el1_entry_def Let_def b'_def)
  have le: "?s \<le> ?e" using assms(2) by (simp add: word_le_nat_alt)
  have "?e - ?s \<le> 8 * ((?e - ?s + 7) div 8)" "8 * ((?e - ?s + 7) div 8) \<le> ?e - ?s + 7" by linarith+
  then have cover: "?e \<le> ?s + 8 * ((?e - ?s + 7) div 8)" "?s + 8 * ((?e - ?s + 7) div 8) \<le> ?e + 7" using le by linarith+
  have "unat (bss_end l + 7) = ?e + 7" using assms(3) by (simp add: unat_word_ariths)
  then have outside: "unat a < ?s \<or> ?e + 7 \<le> unat a" if "a < bss_start l \<or> bss_end l + 7 \<le> a" for a
    using that by (simp add: word_less_nat_alt word_le_nat_alt)
  have "m' a = bmem b a" if "a < bss_start l \<or> bss_end l + 7 \<le> a" for a
  proof -
    have "\<not> (?s \<le> unat a \<and> unat a < ?s + 8 * ((?e - ?s + 7) div 8))" using outside [OF that] cover(2) by linarith
    then show ?thesis unfolding m(2) by (rule if_not_P)
  qed
  moreover have "m' a = 0" if "bss_start l \<le> a" "a < bss_end l" for a
    using that cover(1) unfolding m(2) by (auto simp: word_less_nat_alt word_le_nat_alt)
  ultimately show ?thesis using run assms(1) by (auto simp: b'_def stack_const)
qed

text \<open>
  A core that starts at exception level 2 does not: the mode bits of the saved state are 0, so \<open>eret\<close> goes to level 0,
  where the first instruction of \<open>el1_entry\<close> is undefined.
\<close>

theorem boot_from_el2_faults:
  assumes "CurrentEL b = 2"
  shows "boot_start l b = Inl Undefined"
proof -
  have "take_bit 4 (push_bit 6 5 OR push_bit 7 1 OR push_bit 6 1 OR push_bit 9 1 :: u64) = 0" by simp
  then show ?thesis using assms by (simp add: boot_start_def el2_setup_def eret_el2_def el1_entry_def Let_def)
qed

text \<open>
  The architecture takes an exception to the offset \<open>0x200\<close> times its origin (this level with either stack pointer,
  a lower level of either width) plus \<open>0x80\<close> times its kind: synchronous exceptions and interrupts reach their entries from everywhere.
\<close>

theorem vectors_reach_entries:
  assumes "origin < 4"
  shows "vector_at (0x200 * origin) = Sync_el1 \<and> vector_at (0x200 * origin + 0x80) = Irq_el1 \<and>
    vector_at (0x200 * origin + 0x100) = Fiq_spin \<and> vector_at (0x200 * origin + 0x180) = Serr_spin"
proof -
  have "origin \<in> {0, 1, 2, 3}" using assms by auto
  then show ?thesis by (auto simp: vector_at_def vector_table_def)
qed

lemma psci_cpu_off_call: "psci_cpu_off x0 x1 x2 = (0x84000003, x0, x1, x2)"
  by (simp add: psci_cpu_off_def Let_def)

end
