(* ===== verification/Spec2Isabelle.thy ===== *)
theory Spec2Isabelle
  imports Minheap Memory Alloc Alloc_Inv Alloc_Props Alloc_Aligned Mmu Mmu_Tables Mmu_Maps Mmu_Free Mmu_Room Mmu_Props Timer Mailbox
    Sched Kernel Kernel_Run Kernel_Heap Kernel_Admit Double Snprintf Snprintf_Text Snprintf_Props Snprintf_Spec Snprintf_Term Uart Sync Gic Irq Trap Rtcore
    Loader User Dump Layout Autogen Boot
begin

text \<open>
  JanusRT runs a small real-time kernel on one core of an AArch64 machine while Linux keeps the others.
  This library models its C code and its exception entries and proves what makes them correct.

  \<^bold>\<open>The program.\<close> The Linux module \<^verbatim>\<open>kernelmod/rtmain.c\<close> owns two windows of physical memory (code and data),
  starts the core through PSCI and posts requests into a ring in the data window (\<^verbatim>\<open>shared/mailbox.h\<close>);
  \<^verbatim>\<open>userspace/loader.c\<close> is the program that drives it. On the core, \<^verbatim>\<open>rtprog/rtprog.c\<close> sets the kernel up: the
  console (\<^verbatim>\<open>uart.c\<close>), handlers (\<^verbatim>\<open>sync.c\<close>, \<^verbatim>\<open>irq.c\<close>), the allocator (\<^verbatim>\<open>alloc.c\<close>), the scheduler (\<^verbatim>\<open>sched.c\<close>, which
  makes the kernel's page tables with \<^verbatim>\<open>mmu.c\<close>), the interrupt controller (\<^verbatim>\<open>gic.c\<close>) and the timer (\<^verbatim>\<open>timer.c\<close>). From
  then on it only reacts: the mailbox interrupt takes requests and makes processes, the timer interrupt wakes
  those whose time has come, and a system call (\<^verbatim>\<open>syscall.c\<close>) waits, spawns, yields or exits. Each of them ends by
  choosing the ready process with the earliest deadline from a heap (\<^verbatim>\<open>heap.c\<close>); the entries \<^verbatim>\<open>irq_el1.S\<close> and
  \<^verbatim>\<open>sync_el1.S\<close> save the interrupted context and return into the chosen one.

  \<^bold>\<open>Conventions.\<close> Theory \<open>Janus_Prelude\<close>: the integer types of \<^verbatim>\<open>shared/types.h\<close> are words of their width and wrap;
  an operation that can panic, fail an assertion or fault returns \<open>fault + 'a\<close>; a loop whose end is not
  evident is a \<open>partial_function (option)\<close> with \<open>None\<close> for not returning, and the theorems state that it returns.
  No definition uses fuel. Definitions keep the names of the C functions. What lies outside the sources (Linux, firmware,
  devices, the compiler's choices) is an argument.

  \<^bold>\<open>The kernel's components.\<close>
  \<^item> \<open>Minheap\<close> (\<^verbatim>\<open>heap.c\<close>): \<open>sift_up\<close>, \<open>sift_down\<close> and the operations on a fixed node array; they keep the heap order and the
    index fields and act on the multiset of pairs as a priority queue does. Locale \<open>prio_queue\<close>, interpreted as
    \<open>minheap\<close>, gives sortedness of repeated removal.
  \<^item> \<open>Memory\<close> (\<^verbatim>\<open>libc/memcpy.c\<close>, \<^verbatim>\<open>memset.c\<close>, \<^verbatim>\<open>memcmp.c\<close>): byte-addressed memory, loads and stores, and the three functions with
    head, word and tail loops, equal to their byte-wise reference.
  \<^item> \<open>Alloc\<close>, \<open>Alloc_Inv\<close>, \<open>Alloc_Props\<close>, \<open>Alloc_Aligned\<close> (\<^verbatim>\<open>alloc.c\<close>): the block list in memory with its 32-bit links; \<open>chain\<close>
    and the free list as an invariant which \<open>alloc\<close>, \<open>free\<close> and \<open>aligned_alloc\<close> keep; live blocks are disjoint and
    keep their contents. Locale \<open>allocator\<close>, interpreted as \<open>kalloc\<close>. The searches return because the list has finitely many blocks.
  \<^item> \<open>Mmu\<close> (\<^verbatim>\<open>mmu.c\<close>, \<^verbatim>\<open>mmu.h\<close>, \<^verbatim>\<open>mmu_el1.S\<close>), \<open>Mmu_Tables\<close>, \<open>Mmu_Maps\<close>, \<open>Mmu_Free\<close>, \<open>Mmu_Room\<close>, \<open>Mmu_Props\<close>: descriptors and tables in memory and the operations that build,
    switch and free them. \<open>Mmu_Tables\<close> reads the tables as a tree and proves over any source of fresh pages
    (locale \<open>page_source\<close>) that \<open>map_range_pages\<close> returns and changes exactly the addresses of its range;
    \<open>Mmu_Maps\<close> interprets the locale on the kernel's allocator (\<open>kpages\<close>) and works out what the maps of the kernel and of
    a process translate; \<open>Mmu_Free\<close> (locale \<open>page_pool\<close>, interpreted as \<open>kpool\<close>) shows that destroying a map gives back exactly its
    tables, \<open>Mmu_Room\<close> (locale \<open>page_bank\<close>, interpreted as \<open>kbank\<close>) how many pages are enough to build one.
  \<^item> \<open>Timer\<close> (\<^verbatim>\<open>timer.c\<close>): conversions between time and ticks, one-shot and periodic arming.
  \<^item> \<open>Mailbox\<close> (\<^verbatim>\<open>mailbox.h\<close>, \<open>mpsc_push\<close> of \<^verbatim>\<open>rtmain.c\<close>, \<open>mpsc_pop\<close> of \<^verbatim>\<open>rtprog.c\<close>): the ring run alone and with producer and consumer
    interleaved access by access; requests arrive once, in order and whole. Locale \<open>bounded_queue\<close>, interpreted as
    \<open>mailbox\<close>.
  \<^item> \<open>Sched\<close> (\<^verbatim>\<open>sched.c\<close>), \<open>Kernel\<close> (\<^verbatim>\<open>syscall.c\<close>, the handlers of \<^verbatim>\<open>rtprog.c\<close>) and \<open>Kernel_Run\<close>: the process table, its two
    queues and the free stack; every system call and handler on all branches; a transition system \<open>kstep\<close> whose
    reachable states run the earliest deadline, account for every slot and have the timer armed for the next wake-up.
  \<^item> \<open>Kernel_Heap\<close> and \<open>Kernel_Admit\<close> put scheduler, system calls, allocator and page tables together: the blocks of the heap in use are
    exactly the memory and the tables of the live processes and the kernel's tables (\<open>accounted\<close>), and each map translates the
    address space it was made for. Every handler keeps this (\<open>hstep\<close>, the steps of \<open>kstep\<close> in which requests fit and processes write
    only to their own memory), \<open>exit\<close> gives back all a process holds, start-up returns with it established, and a
    request is admitted while the block at the top of the heap has the room (\<open>topped\<close>; \<open>page_bank\<close> again, interpreted as \<open>ktop\<close>).
  \<^item> \<open>Sync\<close> (\<^verbatim>\<open>sync.c\<close>, \<^verbatim>\<open>kerror.c\<close>), \<open>Gic\<close> (\<^verbatim>\<open>gic.c\<close>), \<open>Irq\<close> (\<^verbatim>\<open>irq.c\<close>, \<^verbatim>\<open>cpu.h\<close>, \<open>jrt_main\<close>): exceptions, interrupt controller,
    dispatch and start-up. \<open>Gic\<close> states what an interrupt in service means by the architecture's registers (\<open>in_service\<close> over \<open>cfg_of\<close>,
    with the affinities of \<open>core_aff\<close>) and shows that the code reaches it, the routing only on a core whose affinity levels 1 to 3 are 0.
    \<open>Irq\<close> composes all components into one machine: start-up returns with the handlers installed and both interrupts in service, and
    from then on every sequence of inputs has the effect of the handlers that the interrupt numbers and the exception class call for.
  \<^item> \<open>Trap\<close> (\<^verbatim>\<open>irq_el1.S\<close>, \<^verbatim>\<open>sync_el1.S\<close>, \<^verbatim>\<open>ctx_switch.S\<close>): the entries as lists of instructions with an interpreter;
    an interrupt saves the whole context and resumes the one the scheduler chose. \<open>Layout\<close> (\<^verbatim>\<open>structs.h\<close> and
    \<^verbatim>\<open>memory_layout.h\<close>): the offsets and addresses the entries use are those of the C structures. \<open>Autogen\<close> is the
    text the two generators print and the layout of the data window, \<open>Boot\<close> (\<^verbatim>\<open>boot.S\<close>, \<^verbatim>\<open>psci.S\<close>) the way from reset to \<open>jrt_main\<close>.
  \<^item> \<open>Double\<close>, \<open>Snprintf\<close>, \<open>Snprintf_Text\<close>, \<open>Snprintf_Props\<close>, \<open>Snprintf_Spec\<close>, \<open>Snprintf_Term\<close> (\<^verbatim>\<open>libc/snprintf.c\<close>): the formatter. \<open>Snprintf_Text\<close>
    separates the text from the buffer; \<open>Snprintf_Spec\<close> says what text the C standard gives to a format, independently of the code, and shows that the
    code prints it, except for floating-point conversions (whose arithmetic is modelled and shown to end, not to round as C asks) and for the cases in
    \<open>covered\<close>; numbers read back; every call returns. \<open>Uart\<close> (\<^verbatim>\<open>uart.c\<close>): what \<open>printf\<close> sends. \<open>Dump\<close>: the functions
    that print maps, memory, allocator and scheduler.

  \<^bold>\<open>The Linux side and the applications.\<close> \<open>Rtcore\<close> (\<^verbatim>\<open>rtmain.c\<close>, \<^verbatim>\<open>psci.c\<close>): the driver's calls; windows given to processes
  are disjoint as long as no two calls of \<open>rtcore_mmap\<close>, which takes no lock, overlap in time (\<open>rtcore_mmap_race\<close> shows what happens then), a scheduled program arrives in the ring. \<open>Loader\<close> (\<^verbatim>\<open>loader.c\<close>): what it loads is what the kernel is asked to
  run. \<open>User\<close> (\<open>syscall\<close>, \<^verbatim>\<open>app/main.c\<close>): the arguments of a system call arrive in the kernel.

  \<^bold>\<open>Bounds.\<close> Process table 4096 entries, heap degree 4, ring 4096 slots, 48-bit virtual addresses,
  blocks below 4 GiB: all from the sources. Hypotheses restrict inputs only where the code needs it, and
  name it: alloc lengths of at least 8 and below 4 GiB, positive timer periods, block lists without slivers for aligned
  allocation, process memory above the lowest free block (\<open>free\<close> goes wrong below it), counter values away from the wrap where the code compares without it.

  \<^bold>\<open>Not modelled.\<close> The link map, whose addresses are arguments; build files, device tree and
  scripts; TLB and cache contents (the invalidations have no counterpart in the state); barriers,
  which order accesses that the interleaving model already executes in order; the kernel's stack as memory of the handlers
  written in C (it begins at the end of the heap's region and grows into it, \<open>Autogen\<close>); saving of floating-point registers
  (\<open>SAVE_FP\<close> is 0); commented-out code (the first \<open>main\<close>
  of \<^verbatim>\<open>app/main.c\<close>, the old \<open>sched\<close> of \<^verbatim>\<open>sched.c\<close>); log messages of the Linux side.
\<close>

end
